(* ===== verification/Prelude.thy ===== *)
theory Prelude
  imports Main "HOL-Library.Word" "HOL-Library.Signed_Division" "HOL-Library.Monad_Syntax"
begin

unbundle bit_operations_syntax

section \<open>Prelude: panics, checked integers, loops, arrays\<close>

text \<open>
  Shared vocabulary of the development.

  The kernel is built by \<open>build.sh\<close> with \<open>cargo build\<close>, the dev profile: integer overflow,
  out-of-range indexing, \<open>assert!\<close>, \<open>debug_assert!\<close>, \<open>expect\<close> and \<open>unwrap\<close> all panic, and
  \<open>panic = "abort"\<close> (Cargo.toml) stops the machine. A computation that may panic therefore has
  an \<open>option\<close> type, with \<open>None\<close> the panic; Rust's own \<open>Option\<close> results are a second \<open>option\<close>
  inside. State is passed explicitly, and the \<open>do\<close> notation of the option monad sequences it.

  \<open>usize\<close> and \<open>u32\<close> (32 bits on this target) are \<open>nat\<close> with checked operations, \<open>i32\<close> is \<open>int\<close>
  with checked operations, a byte is an \<open>8 word\<close>. A counted loop \<open>for i in a..b\<close> is
  \<open>for_range\<close>.
\<close>

subsection \<open>Collections of facts\<close>

named_theorems arith_defs \<open>definitions of the checked integer operations\<close>
named_theorems array_defs \<open>definitions of the checked array operations\<close>

subsection \<open>Panics\<close>

definition assert :: "bool \<Rightarrow> unit option" where
  "assert b = (if b then Some () else None)"

lemma assert_simps [simp]:
  "assert True = Some ()"
  "assert False = None"
  by (simp_all add: assert_def)

lemma assert_bind [simp]: "(do { assert b; f }) = (if b then f else None)"
  by (simp add: assert_def)

declare Option.bind_cong [fundef_cong]

subsection \<open>Integers of the target\<close>

type_synonym byte = "8 word"

definition add_usize :: "nat \<Rightarrow> nat \<Rightarrow> nat option" where
  [arith_defs]: "add_usize a b = (if a + b < 2 ^ 32 then Some (a + b) else None)"

definition sub_usize :: "nat \<Rightarrow> nat \<Rightarrow> nat option" where
  [arith_defs]: "sub_usize a b = (if b \<le> a then Some (a - b) else None)"

definition mul_usize :: "nat \<Rightarrow> nat \<Rightarrow> nat option" where
  [arith_defs]: "mul_usize a b = (if a * b < 2 ^ 32 then Some (a * b) else None)"

definition div_ceil :: "nat \<Rightarrow> nat \<Rightarrow> nat" where
  "div_ceil a b = (a + b - 1) div b"

definition in_i32 :: "int \<Rightarrow> bool" where
  [arith_defs]: "in_i32 x \<longleftrightarrow> - (2 ^ 31) \<le> x \<and> x < 2 ^ 31"

definition chk_i32 :: "int \<Rightarrow> int option" where
  [arith_defs]: "chk_i32 x = (if in_i32 x then Some x else None)"

definition add_i32 :: "int \<Rightarrow> int \<Rightarrow> int option" where
  [arith_defs]: "add_i32 a b = chk_i32 (a + b)"

definition sub_i32 :: "int \<Rightarrow> int \<Rightarrow> int option" where
  [arith_defs]: "sub_i32 a b = chk_i32 (a - b)"

definition mul_i32 :: "int \<Rightarrow> int \<Rightarrow> int option" where
  [arith_defs]: "mul_i32 a b = chk_i32 (a * b)"

text \<open>The casts \<open>as u32\<close>, \<open>as usize\<close> and \<open>as i32\<close> wrap and never panic.\<close>

definition as_u32 :: "int \<Rightarrow> nat" where
  "as_u32 x = nat (x mod 2 ^ 32)"

definition as_i32 :: "int \<Rightarrow> int" where
  "as_i32 x = (x + 2 ^ 31) mod 2 ^ 32 - 2 ^ 31"

lemma as_u32_id [simp]: "0 \<le> x \<Longrightarrow> x < 2 ^ 32 \<Longrightarrow> as_u32 x = nat x"
  by (simp add: as_u32_def)

lemma as_u32_neg: "- (2 ^ 32) \<le> x \<Longrightarrow> x < 0 \<Longrightarrow> as_u32 x = nat (x + 2 ^ 32)"
proof -
  assume x: "- (2 ^ 32) \<le> x" "x < 0"
  have "x mod 2 ^ 32 = (x + 2 ^ 32) mod 2 ^ 32" by simp
  also have "\<dots> = x + 2 ^ 32" using x by (intro mod_pos_pos_trivial) auto
  finally show ?thesis by (simp add: as_u32_def)
qed

lemma as_u32_of_nat [simp]: "n < 2 ^ 32 \<Longrightarrow> as_u32 (int n) = n"
  by (simp add: as_u32_def)

lemma as_u32_bound: "as_u32 x < 2 ^ 32"
  by (simp add: as_u32_def nat_less_iff)

lemma as_i32_id [simp]: "in_i32 x \<Longrightarrow> as_i32 x = x"
  by (simp add: as_i32_def in_i32_def)

lemma as_i32_range: "in_i32 (as_i32 x)"
  by (simp add: as_i32_def in_i32_def)

lemma as_u32_as_i32 [simp]: "as_u32 (as_i32 x) = as_u32 x"
  by (simp add: as_u32_def as_i32_def mod_simps)

subsection \<open>The counted loop\<close>

primrec for_range :: "nat \<Rightarrow> nat \<Rightarrow> (nat \<Rightarrow> 's \<Rightarrow> 's option) \<Rightarrow> 's \<Rightarrow> 's option" where
  "for_range a 0 f s = Some s"
| "for_range a (Suc n) f s = do { s' \<leftarrow> f a s; for_range (Suc a) n f s' }"

text \<open>Total correctness of the loop: the invariant at the start, kept by every iteration, holds
  at the end, and no iteration panics.\<close>

lemma for_range_rule:
  assumes "P a s"
    and "\<And>i s. a \<le> i \<Longrightarrow> i < a + n \<Longrightarrow> P i s \<Longrightarrow> \<exists>s'. f i s = Some s' \<and> P (Suc i) s'"
  shows "\<exists>s'. for_range a n f s = Some s' \<and> P (a + n) s'"
  using assms
proof (induction n arbitrary: a s)
  case 0
  then show ?case by simp
next
  case (Suc n)
  from Suc.prems(2) [of a s] Suc.prems(1) obtain s1
    where s1: "f a s = Some s1" "P (Suc a) s1" by auto
  from Suc.IH [OF s1(2)] Suc.prems(2) obtain s2
    where "for_range (Suc a) n f s1 = Some s2" "P (Suc a + n) s2" by force
  with s1 show ?case by auto
qed

lemma for_range_add:
  "for_range a (m + n) f s = do { s' \<leftarrow> for_range a m f s; for_range (a + m) n f s' }"
  by (induction m arbitrary: a s) (auto split: Option.bind_splits)

subsection \<open>Arrays\<close>

text \<open>Indexing and slicing panic out of range.\<close>

definition idx :: "'a list \<Rightarrow> nat \<Rightarrow> 'a option" where
  [array_defs]: "idx xs i = (if i < length xs then Some (xs ! i) else None)"

definition upd :: "'a list \<Rightarrow> nat \<Rightarrow> 'a \<Rightarrow> 'a list option" where
  [array_defs]: "upd xs i v = (if i < length xs then Some (xs[i := v]) else None)"

text \<open>\<open>slice xs a n\<close> is \<open>xs[a..a + n]\<close>; \<open>splice xs a ys\<close> is
  \<open>xs[a..a + ys.len()].copy_from_slice(ys)\<close>.\<close>

definition slice :: "'a list \<Rightarrow> nat \<Rightarrow> nat \<Rightarrow> 'a list option" where
  [array_defs]: "slice xs a n = (if a + n \<le> length xs then Some (take n (drop a xs)) else None)"

definition splice :: "'a list \<Rightarrow> nat \<Rightarrow> 'a list \<Rightarrow> 'a list option" where
  [array_defs]: "splice xs a ys =
     (if a + length ys \<le> length xs
      then Some (take a xs @ ys @ drop (a + length ys) xs) else None)"

lemma length_splice: "splice xs a ys = Some zs \<Longrightarrow> length zs = length xs"
  by (auto simp: splice_def split: if_splits)

lemma nth_splice:
  assumes "splice xs a ys = Some zs" and "i < length xs"
  shows "zs ! i = (if a \<le> i \<and> i < a + length ys then ys ! (i - a) else xs ! i)"
proof -
  from assms(1) have zs: "zs = take a xs @ ys @ drop (a + length ys) xs"
    and le: "a + length ys \<le> length xs" by (auto simp: splice_def split: if_splits)
  consider "i < a" | "a \<le> i" "i < a + length ys" | "a + length ys \<le> i" by linarith
  then show ?thesis by cases (use le assms(2) in \<open>auto simp: zs nth_append min_def\<close>)
qed

subsection \<open>UTF-8\<close>

text \<open>The test of \<open>core::str::from_utf8\<close>: well-formed sequences only, no surrogates, no overlong
  forms, nothing above U+10FFFF.\<close>

definition cont_byte :: "byte \<Rightarrow> bool" where
  "cont_byte b \<longleftrightarrow> 0x80 \<le> b \<and> b \<le> 0xBF"

function valid_utf8 :: "byte list \<Rightarrow> bool" where
  "valid_utf8 [] = True"
| "valid_utf8 (b # bs) =
     (if b < 0x80 then valid_utf8 bs
      else if 0xC2 \<le> b \<and> b \<le> 0xDF
      then bs \<noteq> [] \<and> cont_byte (bs ! 0) \<and> valid_utf8 (drop 1 bs)
      else if 0xE0 \<le> b \<and> b \<le> 0xEF
      then 2 \<le> length bs \<and> cont_byte (bs ! 0) \<and> cont_byte (bs ! 1)
        \<and> (b = 0xE0 \<longrightarrow> 0xA0 \<le> bs ! 0) \<and> (b = 0xED \<longrightarrow> bs ! 0 \<le> 0x9F) \<and> valid_utf8 (drop 2 bs)
      else if 0xF0 \<le> b \<and> b \<le> 0xF4
      then 3 \<le> length bs \<and> cont_byte (bs ! 0) \<and> cont_byte (bs ! 1) \<and> cont_byte (bs ! 2)
        \<and> (b = 0xF0 \<longrightarrow> 0x90 \<le> bs ! 0) \<and> (b = 0xF4 \<longrightarrow> bs ! 0 \<le> 0x8F) \<and> valid_utf8 (drop 3 bs)
      else False)"
  by pat_completeness auto
termination by (relation "measure length") auto

lemma valid_utf8_ascii: "\<forall>b \<in> set bs. b < 0x80 \<Longrightarrow> valid_utf8 bs"
  by (induction bs) auto

subsection \<open>Selecting the first element of greatest key\<close>

text \<open>
  The loop \<open>for (i, t) in xs.enumerate() { if key(t) > best { best = key(t); best_idx = i } }\<close>
  of the scheduler, of \<open>Semaphore::up\<close> and of \<open>Condvar::signal\<close>, with \<open>best_idx\<close> initially 0
  and \<open>best\<close> initially \<open>i32::MIN\<close>.
\<close>

fun best_loop :: "('a \<Rightarrow> int) \<Rightarrow> nat \<Rightarrow> 'a list \<Rightarrow> int \<Rightarrow> nat \<Rightarrow> nat" where
  "best_loop key i [] best_pri best_idx = best_idx"
| "best_loop key i (x # xs) best_pri best_idx =
     (if key x > best_pri then best_loop key (Suc i) xs (key x) i
      else best_loop key (Suc i) xs best_pri best_idx)"

definition best_index :: "('a \<Rightarrow> int) \<Rightarrow> 'a list \<Rightarrow> nat" where
  "best_index key xs = best_loop key 0 xs (- (2 ^ 31)) 0"

text \<open>\<open>VecDeque::remove\<close> and \<open>Vec::remove\<close>: the list without position \<open>i\<close>.\<close>

definition remove_at :: "nat \<Rightarrow> 'a list \<Rightarrow> 'a list" where
  "remove_at i xs = take i xs @ drop (Suc i) xs"

lemma best_loop_spec:
  assumes "b < i" "best_pri = key (ys ! b)" "i = length ys"
    and "\<forall>j < i. key (ys ! j) \<le> key (ys ! b)" "\<forall>j < b. key (ys ! j) < key (ys ! b)"
  shows "best_loop key i xs best_pri b < length (ys @ xs)
    \<and> (\<forall>j < length (ys @ xs). key ((ys @ xs) ! j) \<le> key ((ys @ xs) ! best_loop key i xs best_pri b))
    \<and> (\<forall>j < best_loop key i xs best_pri b.
          key ((ys @ xs) ! j) < key ((ys @ xs) ! best_loop key i xs best_pri b))"
  using assms
proof (induction xs arbitrary: ys i best_pri b)
  case Nil
  then show ?case by simp
next
  case (Cons x xs)
  show ?case
  proof (cases "key x > best_pri")
    case True
    have all: "\<forall>j < length ys. key (ys ! j) < key x"
      using True Cons.prems by (meson le_less_trans)
    have "best_loop key (Suc i) xs (key x) i < length ((ys @ [x]) @ xs)
      \<and> (\<forall>j < length ((ys @ [x]) @ xs). key (((ys @ [x]) @ xs) ! j)
            \<le> key (((ys @ [x]) @ xs) ! best_loop key (Suc i) xs (key x) i))
      \<and> (\<forall>j < best_loop key (Suc i) xs (key x) i.
            key (((ys @ [x]) @ xs) ! j) < key (((ys @ [x]) @ xs) ! best_loop key (Suc i) xs (key x) i))"
      by (rule Cons.IH) (use all Cons.prems in \<open>auto simp: nth_append less_Suc_eq intro: less_imp_le\<close>)
    with True show ?thesis by simp
  next
    case False
    have "best_loop key (Suc i) xs best_pri b < length ((ys @ [x]) @ xs)
      \<and> (\<forall>j < length ((ys @ [x]) @ xs). key (((ys @ [x]) @ xs) ! j)
            \<le> key (((ys @ [x]) @ xs) ! best_loop key (Suc i) xs best_pri b))
      \<and> (\<forall>j < best_loop key (Suc i) xs best_pri b.
            key (((ys @ [x]) @ xs) ! j) < key (((ys @ [x]) @ xs) ! best_loop key (Suc i) xs best_pri b))"
      by (rule Cons.IH) (use False Cons.prems in \<open>auto simp: nth_append less_Suc_eq\<close>)
    with False show ?thesis by simp
  qed
qed

text \<open>With keys above \<open>i32::MIN\<close> the loop selects the first element of greatest key.\<close>

lemma best_index_spec:
  assumes "xs \<noteq> []" and "\<forall>x \<in> set xs. - (2 ^ 31) < key x"
  shows "best_index key xs < length xs"
    and "\<forall>j < length xs. key (xs ! j) \<le> key (xs ! best_index key xs)"
    and "\<forall>j < best_index key xs. key (xs ! j) < key (xs ! best_index key xs)"
proof -
  obtain x ys where xs: "xs = x # ys" using assms(1) by (cases xs) auto
  have eq: "best_index key (x # ys) = best_loop key 1 ys (key x) 0"
    using assms(2) by (simp add: best_index_def xs)
  have "best_loop key 1 ys (key x) 0 < length ([x] @ ys)
    \<and> (\<forall>j < length ([x] @ ys). key (([x] @ ys) ! j) \<le> key (([x] @ ys) ! best_loop key 1 ys (key x) 0))
    \<and> (\<forall>j < best_loop key 1 ys (key x) 0. key (([x] @ ys) ! j) < key (([x] @ ys) ! best_loop key 1 ys (key x) 0))"
    by (rule best_loop_spec) auto
  then show "best_index key xs < length xs"
    and "\<forall>j < length xs. key (xs ! j) \<le> key (xs ! best_index key xs)"
    and "\<forall>j < best_index key xs. key (xs ! j) < key (xs ! best_index key xs)"
    unfolding xs eq by simp_all
qed

lemma best_loop_bound: "best_loop key i xs p b < i + length xs \<or> best_loop key i xs p b = b"
  by (induction key i xs p b rule: best_loop.induct) auto

lemma best_index_bound: "xs \<noteq> [] \<Longrightarrow> best_index key xs < length xs"
  using best_loop_bound [of key 0 xs "- (2 ^ 31)" 0] by (auto simp: best_index_def)

lemma length_remove_at [simp]: "i < length xs \<Longrightarrow> length (remove_at i xs) = length xs - 1"
  by (simp add: remove_at_def)

lemma set_remove_at_subset: "set (remove_at i xs) \<subseteq> set xs"
  by (auto simp: remove_at_def dest: in_set_takeD in_set_dropD)

lemma remove_at_split: "i < length xs \<Longrightarrow> xs = take i xs @ xs ! i # drop (Suc i) xs"
  by (rule id_take_nth_drop)

lemma set_remove_at:
  assumes "i < length xs" and "distinct xs"
  shows "set (remove_at i xs) = set xs - {xs ! i}"
proof -
  let ?a = "take i xs" and ?x = "xs ! i" and ?b = "drop (Suc i) xs"
  have xs: "xs = ?a @ ?x # ?b" using assms(1) by (rule remove_at_split)
  have "distinct (?a @ ?x # ?b)" using assms(2) xs by (rule subst [rotated])
  then have "?x \<notin> set (?a @ ?b)" by auto
  moreover have "set xs = set (?a @ ?x # ?b)" using xs by (rule arg_cong)
  ultimately show ?thesis by (auto simp: remove_at_def)
qed

lemma distinct_remove_at [simp]: "distinct xs \<Longrightarrow> distinct (remove_at i xs)"
  by (simp add: remove_at_def set_take_disj_set_drop_if_distinct)

end
