(* ===== verification/Bitmap.thy ===== *)
theory Bitmap
  imports Prelude
begin

unbundle bit_operations_syntax

section \<open>Bitmaps: the interface and mem/bitmap.rs\<close>

text \<open>
  The kernel has three bitmaps: the page allocator's \<open>Bitmap\<close> (mem/bitmap.rs), the sector free
  map (filesys/free_map.rs) and the swap-slot map (vm/swap.rs). The locale \<open>bit_store\<close> states
  what their clients rely on, and proves once what a loop over a range of bits does. This theory
  holds the locale, the model of mem/bitmap.rs and the correctness of its first-fit search.
\<close>

subsection \<open>The interface\<close>

locale bit_store =
  fixes tst :: "'s \<Rightarrow> nat \<Rightarrow> bool option"
    and put :: "'s \<Rightarrow> nat \<Rightarrow> bool \<Rightarrow> 's option"
    and view :: "'s \<Rightarrow> nat \<Rightarrow> bool"
    and cap :: "'s \<Rightarrow> nat"
    and wf :: "'s \<Rightarrow> bool"
  assumes tst_view: "wf s \<Longrightarrow> i < cap s \<Longrightarrow> tst s i = Some (view s i)"
    and put_view: "wf s \<Longrightarrow> i < cap s \<Longrightarrow>
      \<exists>s'. put s i v = Some s' \<and> wf s' \<and> cap s' = cap s \<and> view s' = (view s)(i := v)"
begin

lemma put_range:
  assumes "wf s" and "a + n \<le> cap s"
  shows "\<exists>s'. for_range a n (\<lambda>i b. put b i v) s = Some s' \<and> wf s' \<and> cap s' = cap s
           \<and> view s' = (\<lambda>j. if a \<le> j \<and> j < a + n then v else view s j)"
proof -
  let ?P = "\<lambda>i s'. wf s' \<and> cap s' = cap s \<and> view s' = (\<lambda>j. if a \<le> j \<and> j < i then v else view s j)"
  have "\<exists>s'. for_range a n (\<lambda>i b. put b i v) s = Some s' \<and> ?P (a + n) s'"
  proof (rule for_range_rule [where P = ?P])
    show "?P a s" using assms(1) by auto
    fix i s1 assume i: "a \<le> i" "i < a + n" and P: "?P i s1"
    with assms(2) obtain s2 where "put s1 i v = Some s2" "wf s2" "cap s2 = cap s1"
      "view s2 = (view s1)(i := v)" using put_view [of s1 i v] by force
    with i P show "\<exists>s'. put s1 i v = Some s' \<and> ?P (Suc i) s'" by (auto simp: fun_eq_iff)
  qed
  then show ?thesis by blast
qed

text \<open>Setting a range and setting it back to what it was uniformly before restores the view.\<close>

lemma put_range_inverse:
  assumes "wf s" and "a + n \<le> cap s" and "\<forall>j. a \<le> j \<and> j < a + n \<longrightarrow> view s j = v"
    and "for_range a n (\<lambda>i b. put b i w) s = Some s1"
  shows "\<exists>s2. for_range a n (\<lambda>i b. put b i v) s1 = Some s2 \<and> view s2 = view s"
proof -
  from put_range [OF assms(1,2), of w] assms(4)
  have s1: "wf s1" "cap s1 = cap s" "view s1 = (\<lambda>j. if a \<le> j \<and> j < a + n then w else view s j)"
    by auto
  from put_range [OF s1(1), of a n v] s1(2) assms(2) obtain s2
    where s2: "for_range a n (\<lambda>i b. put b i v) s1 = Some s2"
      "view s2 = (\<lambda>j. if a \<le> j \<and> j < a + n then v else view s1 j)" by auto
  have "view s2 = view s" unfolding s2(2) s1(3) using assms(3) by (auto simp: fun_eq_iff)
  with s2(1) show ?thesis by blast
qed

end

subsection \<open>Runs of equal bits\<close>

definition run_at :: "(nat \<Rightarrow> bool) \<Rightarrow> bool \<Rightarrow> nat \<Rightarrow> nat \<Rightarrow> bool" where
  "run_at f v i cnt \<longleftrightarrow> (\<forall>j. i \<le> j \<and> j < i + cnt \<longrightarrow> f j = v)"

lemma run_at_0 [simp]: "run_at f v i 0"
  by (auto simp: run_at_def)

lemma run_at_Suc: "run_at f v i (Suc n) \<longleftrightarrow> f i = v \<and> run_at f v (Suc i) n"
proof -
  have eq: "i \<le> j \<and> j < i + Suc n \<longleftrightarrow> j = i \<or> Suc i \<le> j \<and> j < Suc i + n" for j by auto
  show ?thesis unfolding run_at_def eq by auto
qed

lemma run_at_broken: "f k \<noteq> v \<Longrightarrow> j \<le> k \<Longrightarrow> k < j + cnt \<Longrightarrow> \<not> run_at f v j cnt"
  by (auto simp: run_at_def)

text \<open>What a first-fit search from \<open>start\<close> in \<open>n\<close> bits must answer.\<close>

definition first_fit ::
    "(nat \<Rightarrow> bool) \<Rightarrow> nat \<Rightarrow> bool \<Rightarrow> nat \<Rightarrow> nat \<Rightarrow> nat option \<Rightarrow> bool" where
  "first_fit f n v cnt start r \<longleftrightarrow>
     (case r of
        Some i \<Rightarrow> start \<le> i \<and> i + cnt \<le> n \<and> run_at f v i cnt
                  \<and> (\<forall>j. start \<le> j \<and> j < i \<longrightarrow> \<not> run_at f v j cnt)
      | None \<Rightarrow> \<forall>j. start \<le> j \<and> j + cnt \<le> n \<longrightarrow> \<not> run_at f v j cnt)"

text \<open>Skipping positions that start no run keeps the answer.\<close>

lemma first_fit_skip:
  assumes "first_fit f n v cnt k r" and "i \<le> k"
    and "\<And>j. i \<le> j \<Longrightarrow> j < k \<Longrightarrow> \<not> run_at f v j cnt"
  shows "first_fit f n v cnt i r"
  using assms by (auto simp: first_fit_def not_less split: option.splits)
    (meson not_less order_trans)+

lemma first_fit_here: "i + cnt \<le> n \<Longrightarrow> run_at f v i cnt \<Longrightarrow> first_fit f n v cnt i (Some i)"
  by (auto simp: first_fit_def)

lemma first_fit_none: "n < i + cnt \<Longrightarrow> first_fit f n v cnt i None"
  by (auto simp: first_fit_def)

lemma first_fit_noneD:
  "first_fit f n v cnt start None \<Longrightarrow> start \<le> j \<Longrightarrow> j + cnt \<le> n \<Longrightarrow> \<not> run_at f v j cnt"
  by (simp add: first_fit_def)

subsection \<open>A bit of a byte array\<close>

text \<open>Bit \<open>i\<close> of the array is bit \<open>i % 8\<close> of byte \<open>i / 8\<close>, least significant first.\<close>

definition array_bit :: "byte list \<Rightarrow> nat \<Rightarrow> bool" where
  "array_bit bs i \<longleftrightarrow> i div 8 < length bs \<and> bit (bs ! (i div 8)) (i mod 8)"

definition array_set :: "byte list \<Rightarrow> nat \<Rightarrow> bool \<Rightarrow> byte list" where
  "array_set bs i v =
     (let byte = bs ! (i div 8); mask = push_bit (i mod 8) 1
      in bs[i div 8 := (if v then byte OR mask else byte AND NOT mask)])"

lemma length_array_set [simp]: "length (array_set bs i v) = length bs"
  by (simp add: array_set_def Let_def)

lemma bit_mask_byte: "k < 8 \<Longrightarrow> bit (2 ^ k :: byte) n \<longleftrightarrow> n = k"
  by (auto simp: bit_simps)

lemma div_mod_8_eq: "(i :: nat) div 8 = j div 8 \<Longrightarrow> i mod 8 = j mod 8 \<longleftrightarrow> i = j"
  by (metis div_mult_mod_eq)

lemma array_bit_set:
  assumes "i div 8 < length bs"
  shows "array_bit (array_set bs i v) = (array_bit bs)(i := v)"
proof
  fix j
    have m: "bit (2 ^ (i mod 8) :: byte) n \<longleftrightarrow> n = i mod 8" for n by (rule bit_mask_byte) simp
  show "array_bit (array_set bs i v) j = ((array_bit bs)(i := v)) j"
  proof (cases "j div 8 = i div 8")
    case True
    then have "j mod 8 = i mod 8 \<longleftrightarrow> j = i" by (rule div_mod_8_eq)
    moreover have "j mod 8 < LENGTH(8)" by simp
    ultimately show ?thesis using True assms
      by (cases v) (auto simp: array_bit_def array_set_def Let_def m bit_or_iff bit_and_iff bit_not_iff)
  next
    case False
    then show ?thesis by (auto simp: array_bit_def array_set_def Let_def)
  qed
qed

lemma array_bit_zero: "bs ! (i div 8) = 0 \<Longrightarrow> \<not> array_bit bs i"
  by (simp add: array_bit_def)

text \<open>The test of the source shifts the byte and masks it.\<close>

lemma shift_mask_bit: "(drop_bit n w AND 1 \<noteq> (0 :: byte)) \<longleftrightarrow> bit w n"
  by (metis and_one_eq bit_iff_odd_drop_bit mod2_eq_if one_neq_zero)

subsection \<open>The bitmap of mem/bitmap.rs\<close>

text \<open>\<open>bits\<close> is the memory the pointer of the struct leads to.\<close>

record bitmap =
  bits :: "byte list"
  bit_cnt :: nat

definition byte_cnt :: "nat \<Rightarrow> nat" where
  "byte_cnt n = div_ceil n 8"

definition create_in_buf :: "nat \<Rightarrow> byte list \<Rightarrow> bitmap option" where
  "create_in_buf n buf = do {
     let needed = byte_cnt n;
     assert (length buf \<ge> needed);
     Some \<lparr> bits = replicate needed 0 @ drop needed buf, bit_cnt = n \<rparr>
   }"

definition bitmap_set :: "bitmap \<Rightarrow> nat \<Rightarrow> bool \<Rightarrow> bitmap option" where
  "bitmap_set b i value = do {
     assert (i < bit_cnt b);
     byte \<leftarrow> idx (bits b) (i div 8);
     let mask = push_bit (i mod 8) 1;
     if value
     then Some (b \<lparr> bits := (bits b)[i div 8 := byte OR mask] \<rparr>)
     else Some (b \<lparr> bits := (bits b)[i div 8 := byte AND NOT mask] \<rparr>)
   }"

definition bitmap_test :: "bitmap \<Rightarrow> nat \<Rightarrow> bool option" where
  "bitmap_test b i = do {
     assert (i < bit_cnt b);
     byte \<leftarrow> idx (bits b) (i div 8);
     Some (drop_bit (i mod 8) byte AND 1 \<noteq> 0)
   }"

definition set_multiple :: "bitmap \<Rightarrow> nat \<Rightarrow> nat \<Rightarrow> bool \<Rightarrow> bitmap option" where
  "set_multiple b start cnt value = do {
     _ \<leftarrow> add_usize start cnt;
     for_range start cnt (\<lambda>i b. bitmap_set b i value) b
   }"

primrec all_loop :: "bitmap \<Rightarrow> bool \<Rightarrow> nat \<Rightarrow> nat \<Rightarrow> bool option" where
  "all_loop b value i 0 = Some True"
| "all_loop b value i (Suc n) = do {
     t \<leftarrow> bitmap_test b i;
     if t \<noteq> value then Some False else all_loop b value (Suc i) n
   }"

definition bitmap_all :: "bitmap \<Rightarrow> nat \<Rightarrow> nat \<Rightarrow> bool \<Rightarrow> bool option" where
  "bitmap_all b start cnt value = do {
     _ \<leftarrow> add_usize start cnt;
     all_loop b value start cnt
   }"

text \<open>The inner \<open>while run < cnt && self.test(i + run) == value\<close>.\<close>

function scan_run :: "bitmap \<Rightarrow> bool \<Rightarrow> nat \<Rightarrow> nat \<Rightarrow> nat \<Rightarrow> nat option" where
  "scan_run b value i cnt run =
     (if run < cnt
      then do {
        t \<leftarrow> bitmap_test b (i + run);
        if t = value then scan_run b value i cnt (run + 1) else Some run
      }
      else Some run)"
  by pat_completeness auto
termination by (relation "measure (\<lambda>(b, value, i, cnt, run). cnt - run)") auto

function scan_loop :: "bitmap \<Rightarrow> bool \<Rightarrow> nat \<Rightarrow> nat \<Rightarrow> (nat option \<times> bitmap) option" where
  "scan_loop b value cnt i = do {
     stop \<leftarrow> add_usize i cnt;
     if stop \<le> bit_cnt b
     then do {
       t \<leftarrow> bitmap_test b i;
       if t \<noteq> value then scan_loop b value cnt (i + 1)
       else do {
         run \<leftarrow> scan_run b value i cnt 1;
         if run \<ge> cnt
         then do { b' \<leftarrow> set_multiple b i cnt (\<not> value); Some (Some i, b') }
         else scan_loop b value cnt (i + (run + 1))
       }
     }
     else Some (None, b)
   }"
  by pat_completeness auto
termination
  by (relation "measure (\<lambda>(b, value, cnt, i). Suc (bit_cnt b) - i)")
    (auto simp: add_usize_def split: if_splits)

definition scan_and_flip :: "bitmap \<Rightarrow> nat \<Rightarrow> nat \<Rightarrow> bool \<Rightarrow> (nat option \<times> bitmap) option" where
  "scan_and_flip b start cnt value =
     (if cnt = 0 then Some (Some start, b)
      else do {
        stop \<leftarrow> add_usize start cnt;
        if stop > bit_cnt b then Some (None, b) else scan_loop b value cnt start
      })"

declare scan_run.simps [simp del] scan_loop.simps [simp del]

subsection \<open>The bitmap provides the interface\<close>

definition bitmap_ok :: "bitmap \<Rightarrow> bool" where
  "bitmap_ok b \<longleftrightarrow> byte_cnt (bit_cnt b) \<le> length (bits b)"

abbreviation bitmap_view :: "bitmap \<Rightarrow> nat \<Rightarrow> bool" where
  "bitmap_view b \<equiv> array_bit (bits b)"

lemma byte_cnt_covers: "i < n \<Longrightarrow> i div 8 < byte_cnt n"
  by (simp add: byte_cnt_def div_ceil_def)

lemma bitmap_ok_index: "bitmap_ok b \<Longrightarrow> i < bit_cnt b \<Longrightarrow> i div 8 < length (bits b)"
  using byte_cnt_covers by (fastforce simp: bitmap_ok_def)

lemma bitmap_test_view:
  "bitmap_ok b \<Longrightarrow> i < bit_cnt b \<Longrightarrow> bitmap_test b i = Some (bitmap_view b i)"
  using bitmap_ok_index [of b i]
  by (simp add: bitmap_test_def idx_def shift_mask_bit array_bit_def del: assert_simps)

lemma bitmap_set_eq:
  "bitmap_ok b \<Longrightarrow> i < bit_cnt b
     \<Longrightarrow> bitmap_set b i v = Some (b \<lparr> bits := array_set (bits b) i v \<rparr>)"
  using bitmap_ok_index [of b i] by (simp add: bitmap_set_def idx_def array_set_def Let_def)

interpretation bm: bit_store bitmap_test bitmap_set bitmap_view bit_cnt bitmap_ok
proof
  fix s :: bitmap and i v assume *: "bitmap_ok s" "i < bit_cnt s"
  show "bitmap_test s i = Some (bitmap_view s i)" using * by (rule bitmap_test_view)
  show "\<exists>s'. bitmap_set s i v = Some s' \<and> bitmap_ok s' \<and> bit_cnt s' = bit_cnt s
      \<and> bitmap_view s' = (bitmap_view s)(i := v)"
    using * bitmap_ok_index [OF *]
    by (simp add: bitmap_set_eq array_bit_set) (simp add: bitmap_ok_def)
qed

subsection \<open>Correctness of the search\<close>

lemma all_loop_eq:
  assumes "bitmap_ok b" and "i + n \<le> bit_cnt b"
  shows "all_loop b v i n = Some (run_at (bitmap_view b) v i n)"
  using assms(2)
proof (induction n arbitrary: i)
  case (Suc n)
  with assms(1) show ?case by (simp add: bm.tst_view run_at_Suc)
qed simp

lemma scan_run_spec:
  assumes "bitmap_ok b" and "i + cnt \<le> bit_cnt b" and "run \<le> cnt"
    and "run_at (bitmap_view b) v i run"
  shows "\<exists>r. scan_run b v i cnt run = Some r \<and> run \<le> r \<and> r \<le> cnt
           \<and> run_at (bitmap_view b) v i r \<and> (r < cnt \<longrightarrow> bitmap_view b (i + r) \<noteq> v)"
  using assms
proof (induction b v i cnt run rule: scan_run.induct)
  case (1 b v i cnt run)
  show ?case
  proof (cases "run < cnt \<and> bitmap_view b (i + run) = v")
    case True
    have t: "bitmap_test b (i + run) = Some v" using True 1 by (simp add: bm.tst_view)
    moreover have "run_at (bitmap_view b) v i (run + 1)"
      using True 1(5) by (auto simp: run_at_def less_Suc_eq)
    ultimately obtain r where "scan_run b v i cnt (run + 1) = Some r" "run + 1 \<le> r" "r \<le> cnt"
      "run_at (bitmap_view b) v i r" "r < cnt \<longrightarrow> bitmap_view b (i + r) \<noteq> v"
      using 1(1) [OF _ t] True 1(2-4) by auto
    with t True show ?thesis by (simp add: scan_run.simps [of b v i cnt run])
  next
    case False
    then have "scan_run b v i cnt run = Some run"
      using 1 by (subst scan_run.simps) (auto simp: bm.tst_view)
    with False 1 show ?thesis by auto
  qed
qed

lemma set_multiple_view:
  assumes "bitmap_ok b" and "a + n \<le> bit_cnt b" and "bit_cnt b < 2 ^ 32"
  shows "\<exists>b'. set_multiple b a n v = Some b' \<and> bitmap_ok b' \<and> bit_cnt b' = bit_cnt b
    \<and> bitmap_view b' = (\<lambda>j. if a \<le> j \<and> j < a + n then v else bitmap_view b j)"
  using bm.put_range [OF assms(1,2), of v] assms(2,3) by (simp add: set_multiple_def add_usize_def)

text \<open>What the search leaves in the bitmap.\<close>

definition flipped :: "bitmap \<Rightarrow> nat \<Rightarrow> bool \<Rightarrow> nat option \<Rightarrow> bitmap \<Rightarrow> bool" where
  "flipped b cnt v r b' \<longleftrightarrow> (case r of
       None \<Rightarrow> b' = b
     | Some i \<Rightarrow> bitmap_ok b' \<and> bit_cnt b' = bit_cnt b \<and>
         bitmap_view b' = (\<lambda>j. if i \<le> j \<and> j < i + cnt then \<not> v else bitmap_view b j))"

lemma scan_loop_spec:
  assumes "bitmap_ok b" and "bit_cnt b + cnt < 2 ^ 32" and "0 < cnt" and "i \<le> bit_cnt b"
  shows "\<exists>r b'. scan_loop b v cnt i = Some (r, b')
           \<and> first_fit (bitmap_view b) (bit_cnt b) v cnt i r \<and> flipped b cnt v r b'"
  using assms
proof (induction b v cnt i rule: scan_loop.induct)
  case (1 b v cnt i)
  let ?f = "bitmap_view b"
  note unfold = scan_loop.simps [of b v cnt i]
  have e: "add_usize i cnt = Some (i + cnt)" using 1 by (simp add: add_usize_def)
  show ?case
  proof (cases "i + cnt \<le> bit_cnt b")
    case False
    then show ?thesis using 1 e by (simp add: unfold first_fit_none flipped_def)
  next
    case le: True
    have t: "bitmap_test b i = Some (?f i)" using 1 le by (simp add: bm.tst_view)
    show ?thesis
    proof (cases "?f i = v")
      case False
      with 1(1) [OF e le t] 1(3-6) le obtain r b' where
        IH: "scan_loop b v cnt (i + 1) = Some (r, b')"
          "first_fit ?f (bit_cnt b) v cnt (i + 1) r" "flipped b cnt v r b'" by fastforce
      have "first_fit ?f (bit_cnt b) v cnt i r"
        by (rule first_fit_skip [OF IH(2)])
          (simp, rule run_at_broken [where k = i], use False 1(5) in auto)
      with IH False show ?thesis by (simp add: unfold e le t)
    next
      case eq: True
      have "run_at ?f v i 1" using eq by (auto simp: run_at_def less_Suc_eq)
      then obtain run where run: "scan_run b v i cnt 1 = Some run" "1 \<le> run" "run \<le> cnt"
        "run_at ?f v i run" "run < cnt \<longrightarrow> ?f (i + run) \<noteq> v"
        using scan_run_spec [OF 1(3) le, of 1 v] 1(5) by auto
      show ?thesis
      proof (cases "cnt \<le> run")
        case True
        with run have "run = cnt" by simp
        with set_multiple_view [OF 1(3) le, of "\<not> v"] 1(4) run le eq show ?thesis
          by (auto simp: unfold e t first_fit_here flipped_def)
      next
        case False
        with 1(2) [OF e le t _ run(1)] eq 1(3-6) le run(3) obtain r b' where
          IH: "scan_loop b v cnt (i + (run + 1)) = Some (r, b')"
            "first_fit ?f (bit_cnt b) v cnt (i + (run + 1)) r" "flipped b cnt v r b'" by fastforce
        have "first_fit ?f (bit_cnt b) v cnt i r"
          by (rule first_fit_skip [OF IH(2)])
            (simp, rule run_at_broken [where k = "i + run"], use False run(5) in auto)
        with IH False eq run show ?thesis by (simp add: unfold e le t)
      qed
    qed
  qed
qed

lemma scan_and_flip_spec:
  assumes "bitmap_ok b" and "bit_cnt b + cnt < 2 ^ 32" and "start \<le> bit_cnt b"
  shows "\<exists>r b'. scan_and_flip b start cnt v = Some (r, b')
           \<and> first_fit (bitmap_view b) (bit_cnt b) v cnt start r \<and> flipped b cnt v r b'"
proof (cases "cnt = 0 \<or> bit_cnt b < start + cnt")
  case True
  with assms show ?thesis
    by (auto simp: scan_and_flip_def add_usize_def flipped_def first_fit_def run_at_def)
next
  case False
  with scan_loop_spec [OF assms(1,2) _ assms(3)] assms show ?thesis
    by (auto simp: scan_and_flip_def add_usize_def)
qed

subsection \<open>Properties\<close>

text \<open>\<open>scan_and_flip\<close> is first fit. It returns without panicking; it answers the least
  index at or after \<open>start\<close> that begins \<open>cnt\<close> consecutive bits equal to \<open>value\<close>, flips exactly
  those bits and keeps every other one; it answers nothing only if no such run exists, and then
  leaves the bitmap as it was.\<close>

theorem scan_and_flip_first_fit:
  assumes "bitmap_ok b" and "bit_cnt b + cnt < 2 ^ 32" and "start \<le> bit_cnt b"
  shows "\<exists>r b'. scan_and_flip b start cnt v = Some (r, b')
    \<and> first_fit (array_bit (bits b)) (bit_cnt b) v cnt start r
    \<and> (case r of
         None \<Rightarrow> b' = b
       | Some i \<Rightarrow> bitmap_ok b' \<and> bit_cnt b' = bit_cnt b \<and>
           (\<forall>j. array_bit (bits b') j =
              (if i \<le> j \<and> j < i + cnt then \<not> v else array_bit (bits b) j)))"
  using scan_and_flip_spec [OF assms, of v]
  by (fastforce simp: flipped_def split: option.splits)

definition sample_bitmap :: bitmap where
  "sample_bitmap = \<lparr> bits = [0x0B, 0x80], bit_cnt = 16 \<rparr>"

theorem scan_and_flip_first_fit_witness:
  "\<exists>r b'. scan_and_flip sample_bitmap 0 3 False = Some (r, b')
    \<and> first_fit (array_bit (bits sample_bitmap)) (bit_cnt sample_bitmap) False 3 0 r
    \<and> (case r of
         None \<Rightarrow> b' = sample_bitmap
       | Some i \<Rightarrow> bitmap_ok b' \<and> bit_cnt b' = bit_cnt sample_bitmap \<and>
           (\<forall>j. array_bit (bits b') j =
              (if i \<le> j \<and> j < i + 3 then \<not> False else array_bit (bits sample_bitmap) j)))"
  by (rule scan_and_flip_first_fit)
    (simp_all add: sample_bitmap_def bitmap_ok_def byte_cnt_def div_ceil_def)

end
