(* ===== verification/Vaddr.thy ===== *)
theory Vaddr
  imports Prelude
begin

unbundle bit_operations_syntax

section \<open>Addresses: mem/vaddr.rs\<close>

text \<open>
  The address arithmetic of mem/vaddr.rs and the power-of-two rounding of mem/malloc.rs. Addresses
  are \<open>usize\<close>, so \<open>nat\<close> below \<open>2 ^ 32\<close>. The lemmas turn the masks of the source into division.
\<close>

definition PGSIZE :: nat where
  "PGSIZE = 4096"

definition USER_STACK_MAX :: nat where
  "USER_STACK_MAX = 8 * 1024 * 1024"

definition PGMASK :: nat where
  "PGMASK = 0xFFF"

definition PHYS_BASE :: nat where
  "PHYS_BASE = 0xC0000000"

definition is_kernel_vaddr :: "nat \<Rightarrow> bool" where
  "is_kernel_vaddr addr \<longleftrightarrow> addr \<ge> PHYS_BASE"

definition ptov :: "nat \<Rightarrow> nat option" where
  "ptov paddr = do { assert (paddr < PHYS_BASE); add_usize paddr PHYS_BASE }"

definition vtop :: "nat \<Rightarrow> nat option" where
  "vtop vaddr = do { assert (is_kernel_vaddr vaddr); sub_usize vaddr PHYS_BASE }"

text \<open>The complement \<open>!x\<close> of a 32-bit word.\<close>

definition not_u32 :: "nat \<Rightarrow> nat" where
  "not_u32 x = 2 ^ 32 - 1 - x"

definition pg_round_up :: "nat \<Rightarrow> nat option" where
  "pg_round_up addr = do { a \<leftarrow> add_usize addr PGSIZE; Some ((a - 1) AND not_u32 PGMASK) }"

definition pg_round_down :: "nat \<Rightarrow> nat" where
  "pg_round_down addr = addr AND not_u32 PGMASK"

definition pg_ofs :: "nat \<Rightarrow> nat" where
  "pg_ofs addr = addr AND PGMASK"

text \<open>\<open>align_up\<close> of mem/malloc.rs: \<open>(val + align - 1) & !(align - 1)\<close>.\<close>

definition align_up :: "nat \<Rightarrow> nat \<Rightarrow> nat option" where
  "align_up val align = do {
     a \<leftarrow> add_usize val align;
     a' \<leftarrow> sub_usize a 1;
     m \<leftarrow> sub_usize align 1;
     Some (a' AND not_u32 m)
   }"

subsection \<open>Masks are division\<close>

lemma not_u32_mask: "k \<le> 32 \<Longrightarrow> not_u32 (2 ^ k - 1) = push_bit k (mask (32 - k))"
proof -
  assume "k \<le> 32"
  then have "(2 :: nat) ^ 32 = 2 ^ k * 2 ^ (32 - k)" by (simp flip: power_add)
  then show ?thesis
    by (simp add: not_u32_def push_bit_eq_mult mask_eq_exp_minus_1 diff_mult_distrib mult.commute [of "2 ^ (32 - k)"])
qed

lemma and_not_mask:
  assumes "x < 2 ^ 32" and "k \<le> 32"
  shows "x AND not_u32 (2 ^ k - 1) = x div 2 ^ k * 2 ^ k"
proof -
  have "x AND not_u32 (2 ^ k - 1) = push_bit k (drop_bit k x)"
    unfolding not_u32_mask [OF assms(2)]
  proof (rule bit_eqI)
    fix n
    have "bit x n \<Longrightarrow> n < 32"
      using assms(1) by (metis bit_take_bit_iff take_bit_nat_eq_self)
    then show "bit (x AND push_bit k (mask (32 - k))) n = bit (push_bit k (drop_bit k x)) n"
      using assms(2) by (auto simp: bit_simps)
  qed
  then show ?thesis by (simp add: push_bit_eq_mult drop_bit_eq_div)
qed

lemma pg_round_down_eq [simp]: "a < 2 ^ 32 \<Longrightarrow> pg_round_down a = a div 4096 * 4096"
  using and_not_mask [of a 12] by (simp add: pg_round_down_def PGMASK_def)

lemma pg_ofs_eq [simp]: "pg_ofs a = a mod 4096"
proof -
  have m: "PGMASK = mask 12" by (simp add: PGMASK_def mask_eq_exp_minus_1)
  show ?thesis unfolding pg_ofs_def m take_bit_eq_mask [symmetric] by (simp add: take_bit_eq_mod)
qed

lemma pg_round_up_eq:
  "a + 4096 < 2 ^ 32 \<Longrightarrow> pg_round_up a = Some ((a + 4095) div 4096 * 4096)"
  using and_not_mask [of "4095 + a" 12]
  by (simp add: pg_round_up_def add_usize_def PGSIZE_def PGMASK_def add.commute [of a])

lemma align_up_eq:
  assumes "a + 2 ^ k < 2 ^ 32" and "k \<le> 32"
  shows "align_up a (2 ^ k) = Some ((a + 2 ^ k - 1) div 2 ^ k * 2 ^ k)"
proof -
  have "Suc 0 \<le> a + 2 ^ k" by (rule trans_le_add2) simp
  with and_not_mask [of "a + 2 ^ k - 1" k] assms show ?thesis
    by (simp add: align_up_def add_usize_def sub_usize_def)
qed

text \<open>What rounding up to a multiple gives.\<close>

lemma round_up_bounds:
  fixes m :: nat assumes "0 < m"
  shows "a \<le> (a + m - 1) div m * m" and "(a + m - 1) div m * m < a + m"
    and "m dvd (a + m - 1) div m * m"
proof -
  have "(a + m - 1) div m * m + (a + m - 1) mod m = a + m - 1" by simp
  moreover have "(a + m - 1) mod m < m" using assms by simp
  ultimately show "a \<le> (a + m - 1) div m * m" "(a + m - 1) div m * m < a + m"
    using assms by linarith+
qed simp

lemma align_up_spec:
  assumes "a + 2 ^ k < 2 ^ 32" and "k \<le> 32"
  shows "\<exists>b. align_up a (2 ^ k) = Some b \<and> a \<le> b \<and> b < a + 2 ^ k \<and> 2 ^ k dvd b"
  using align_up_eq [OF assms] round_up_bounds [of "2 ^ k" a] by auto

text \<open>Kernel addresses and physical addresses correspond.\<close>

lemma vtop_ptov: "p < 0x40000000 \<Longrightarrow> ptov p = Some v \<Longrightarrow> vtop v = Some p"
  by (auto simp: ptov_def vtop_def arith_defs PHYS_BASE_def is_kernel_vaddr_def split: if_splits)

end
