(* ===== verification/Palloc.thy ===== *)
theory Palloc
  imports Bitmap Vaddr
begin

section \<open>The page allocator: mem/palloc.rs\<close>

text \<open>
  Two pools of pages, each a bitmap and a base address. \<open>init\<close> carves them out of the RAM behind
  the kernel image, \<open>get_multiple\<close> and \<open>free_multiple\<close> allocate and free runs of pages.
  A pointer is its address, 0 the null pointer; \<open>ram\<close> holds the bytes of the pages, so that
  zeroing is visible. The bitmaps' own bytes, which \<open>init_pool\<close> places in front of the pages,
  are the \<open>bits\<close> of the bitmaps. The invariant is \<open>palloc_ok\<close>.
\<close>

datatype palloc_flag = ASSERT | ZERO | USER

record pool =
  pool_bitmap :: bitmap
  base :: nat

record palloc =
  kernel_pool :: pool
  user_pool :: pool
  ram :: "nat \<Rightarrow> byte"

definition MAX_RAM_PAGES :: nat where
  "MAX_RAM_PAGES = 64 * 1024 * 1024 div PGSIZE"

text \<open>The link-time words \<open>init_ram_pages\<close> and \<open>multiboot_info_phys\<close> are arguments; \<open>rd\<close> reads
  a 32-bit word of the multiboot structure at a virtual address.\<close>

definition detect_ram_pages :: "nat \<Rightarrow> nat \<Rightarrow> (nat \<Rightarrow> nat) \<Rightarrow> nat option" where
  "detect_ram_pages init_ram_pages multiboot_info_phys rd =
     (if init_ram_pages \<noteq> 0 then Some (min init_ram_pages MAX_RAM_PAGES)
      else if multiboot_info_phys = 0 then Some MAX_RAM_PAGES
      else do {
        mb_virt \<leftarrow> add_usize multiboot_info_phys PHYS_BASE;
        pages \<leftarrow> (if rd mb_virt mod 2 \<noteq> 0
                  then do {
                    a \<leftarrow> add_usize mb_virt 8;
                    kb \<leftarrow> add_usize 1024 (rd a);
                    total_bytes \<leftarrow> mul_usize kb 1024;
                    Some (total_bytes div PGSIZE)
                  }
                  else Some MAX_RAM_PAGES);
        Some (min pages MAX_RAM_PAGES)
      })"

definition bm_pages :: "nat \<Rightarrow> nat" where
  "bm_pages page_cnt = div_ceil (byte_cnt page_cnt) PGSIZE"

definition init_pool :: "nat \<Rightarrow> nat \<Rightarrow> (nat \<Rightarrow> byte) \<Rightarrow> pool option" where
  "init_pool start page_cnt mem = do {
     sz \<leftarrow> mul_usize (bm_pages page_cnt) PGSIZE;
     bm \<leftarrow> create_in_buf page_cnt (map mem [start ..< start + sz]);
     b \<leftarrow> add_usize start sz;
     Some \<lparr> pool_bitmap = bm, base = b \<rparr>
   }"

text \<open>The pages of the user pool: half of the free ones, at most the limit if there is one.\<close>

definition user_share :: "nat \<Rightarrow> nat \<Rightarrow> nat" where
  "user_share free_pages user_page_limit =
     (let user_pages = free_pages div 2
      in if user_page_limit > 0 \<and> user_page_limit < user_pages then user_page_limit
         else user_pages)"

text \<open>\<open>end_addr\<close> is the address of the linker symbol \<open>_end\<close>.\<close>

definition init :: "nat \<Rightarrow> nat \<Rightarrow> nat \<Rightarrow> (nat \<Rightarrow> byte) \<Rightarrow> palloc option" where
  "init ram_pages end_addr user_page_limit mem = do {
     free_start \<leftarrow> pg_round_up end_addr;
     sz \<leftarrow> mul_usize ram_pages PGSIZE;
     ram_end \<leftarrow> ptov sz;
     avail \<leftarrow> sub_usize ram_end free_start;
     let free_pages = avail div PGSIZE;
     let user_pages = user_share free_pages user_page_limit;
     kernel_pages \<leftarrow> sub_usize free_pages user_pages;
     let kernel_start = free_start;
     kp \<leftarrow> init_pool kernel_start kernel_pages mem;
     bsz \<leftarrow> mul_usize (bm_pages kernel_pages) PGSIZE;
     ksz \<leftarrow> mul_usize kernel_pages PGSIZE;
     ofs \<leftarrow> add_usize bsz ksz;
     user_start \<leftarrow> add_usize kernel_start ofs;
     up \<leftarrow> init_pool user_start user_pages mem;
     Some \<lparr> kernel_pool = kp, user_pool = up, ram = mem \<rparr>
   }"

definition zero_range :: "nat \<Rightarrow> nat \<Rightarrow> (nat \<Rightarrow> byte) \<Rightarrow> nat \<Rightarrow> byte" where
  "zero_range a n m = (\<lambda>x. if a \<le> x \<and> x < a + n then 0 else m x)"

definition the_pool :: "bool \<Rightarrow> palloc \<Rightarrow> pool" where
  "the_pool user p = (if user then user_pool p else kernel_pool p)"

definition put_pool :: "bool \<Rightarrow> pool \<Rightarrow> palloc \<Rightarrow> palloc" where
  "put_pool user q p = (if user then p \<lparr> user_pool := q \<rparr> else p \<lparr> kernel_pool := q \<rparr>)"

definition get_multiple :: "palloc_flag set \<Rightarrow> nat \<Rightarrow> palloc \<Rightarrow> (nat \<times> palloc) option" where
  "get_multiple flags page_cnt p =
     (if page_cnt = 0 then Some (0, p)
      else do {
        let user = (USER \<in> flags);
        let pool = the_pool user p;
        (page_idx, bm) \<leftarrow> scan_and_flip (pool_bitmap pool) 0 page_cnt False;
        let p' = put_pool user (pool \<lparr> pool_bitmap := bm \<rparr>) p;
        case page_idx of
          Some i \<Rightarrow> do {
            ofs \<leftarrow> mul_usize i PGSIZE;
            pages \<leftarrow> add_usize (base pool) ofs;
            if ZERO \<in> flags
            then do {
              n \<leftarrow> mul_usize page_cnt PGSIZE;
              Some (pages, p' \<lparr> ram := zero_range pages n (ram p') \<rparr>)
            }
            else Some (pages, p')
          }
        | None \<Rightarrow> if ASSERT \<in> flags then None else Some (0, p')
      })"

definition get_page :: "palloc_flag set \<Rightarrow> palloc \<Rightarrow> (nat \<times> palloc) option" where
  "get_page flags p = get_multiple flags 1 p"

definition free_multiple :: "nat \<Rightarrow> nat \<Rightarrow> palloc \<Rightarrow> palloc option" where
  "free_multiple pages page_cnt p =
     (if pages = 0 \<or> page_cnt = 0 then Some p
      else do {
        let kp = kernel_pool p;
        user \<leftarrow> (if pages \<ge> base kp
                 then do {
                   n \<leftarrow> mul_usize (bit_cnt (pool_bitmap kp)) PGSIZE;
                   stop \<leftarrow> add_usize (base kp) n;
                   Some (\<not> pages < stop)
                 }
                 else Some True);
        let pool = the_pool user p;
        ofs \<leftarrow> sub_usize pages (base pool);
        let page_idx = ofs div PGSIZE;
        bm \<leftarrow> set_multiple (pool_bitmap pool) page_idx page_cnt False;
        Some (put_pool user (pool \<lparr> pool_bitmap := bm \<rparr>) p)
      })"

definition free_page :: "nat \<Rightarrow> palloc \<Rightarrow> palloc option" where
  "free_page page p = free_multiple page 1 p"

subsection \<open>The invariant\<close>

definition pool_end :: "pool \<Rightarrow> nat" where
  "pool_end q = base q + bit_cnt (pool_bitmap q) * PGSIZE"

definition pool_ok :: "pool \<Rightarrow> bool" where
  "pool_ok q \<longleftrightarrow> bitmap_ok (pool_bitmap q) \<and> 0 < base q \<and> PGSIZE dvd base q \<and> pool_end q < 2 ^ 32"

definition palloc_ok :: "palloc \<Rightarrow> bool" where
  "palloc_ok p \<longleftrightarrow> pool_ok (kernel_pool p) \<and> pool_ok (user_pool p)
     \<and> pool_end (kernel_pool p) \<le> base (user_pool p)"

text \<open>Page \<open>i\<close> of a pool is in use.\<close>

definition used :: "palloc \<Rightarrow> bool \<Rightarrow> nat \<Rightarrow> bool" where
  "used p user = bitmap_view (pool_bitmap (the_pool user p))"

definition npages :: "palloc \<Rightarrow> bool \<Rightarrow> nat" where
  "npages p user = bit_cnt (pool_bitmap (the_pool user p))"

lemma the_pool_put [simp]:
  "the_pool u (put_pool v q p) = (if u = v then q else the_pool u p)"
  "ram (put_pool v q p) = ram p"
  "the_pool u (p \<lparr> ram := m \<rparr>) = the_pool u p"
  by (auto simp: the_pool_def put_pool_def)

lemma palloc_ok_pool: "palloc_ok p \<Longrightarrow> pool_ok (the_pool u p)"
  by (simp add: palloc_ok_def the_pool_def)

lemma palloc_ok_ram [simp]: "palloc_ok (p \<lparr> ram := m \<rparr>) = palloc_ok p"
  by (simp add: palloc_ok_def)

lemma pool_ok_cnt: "pool_ok q \<Longrightarrow> bit_cnt (pool_bitmap q) < 2 ^ 20"
  by (simp add: pool_ok_def pool_end_def PGSIZE_def)

text \<open>A new bitmap of the same size keeps the invariant.\<close>

lemma palloc_ok_put_bitmap:
  "palloc_ok p \<Longrightarrow> bitmap_ok bm \<Longrightarrow> bit_cnt bm = bit_cnt (pool_bitmap (the_pool u p))
   \<Longrightarrow> palloc_ok (put_pool u (the_pool u p \<lparr> pool_bitmap := bm \<rparr>) p)"
  by (cases u) (auto simp: palloc_ok_def put_pool_def the_pool_def pool_ok_def pool_end_def)

subsection \<open>Allocation\<close>

text \<open>What a successful allocation of \<open>n\<close> pages at index \<open>i\<close> of pool \<open>u\<close> does.\<close>

definition allocated :: "palloc \<Rightarrow> bool \<Rightarrow> nat \<Rightarrow> nat \<Rightarrow> palloc \<Rightarrow> bool" where
  "allocated p u i n p' \<longleftrightarrow> palloc_ok p'
     \<and> used p' u = (\<lambda>j. i \<le> j \<and> j < i + n \<or> used p u j)
     \<and> npages p' u = npages p u \<and> base (the_pool u p') = base (the_pool u p)
     \<and> the_pool (\<not> u) p' = the_pool (\<not> u) p"

lemma get_multiple_spec:
  assumes ok: "palloc_ok p" and n: "0 < n" "n < 2 ^ 31"
    and u_def: "u = (USER \<in> flags)"
  shows "(\<exists>i p'. get_multiple flags n p = Some (base (the_pool u p) + i * PGSIZE, p')
             \<and> first_fit (used p u) (npages p u) False n 0 (Some i) \<and> allocated p u i n p'
             \<and> ram p' = (if ZERO \<in> flags
                 then zero_range (base (the_pool u p) + i * PGSIZE) (n * PGSIZE) (ram p) else ram p))
       \<or> first_fit (used p u) (npages p u) False n 0 None
          \<and> get_multiple flags n p = (if ASSERT \<in> flags then None else Some (0, p))"
proof -
  let ?q = "the_pool u p" and ?b = "pool_bitmap (the_pool u p)"
  have q: "pool_ok ?q" and b: "bitmap_ok ?b" "bit_cnt ?b < 2 ^ 20"
    using palloc_ok_pool [OF ok, of u] pool_ok_cnt by (auto simp: pool_ok_def)
  from scan_and_flip_spec [OF b(1), of n 0 False] b(2) n obtain r bm
    where r: "scan_and_flip ?b 0 n False = Some (r, bm)"
      "first_fit (used p u) (npages p u) False n 0 r" "flipped ?b n False r bm"
    by (auto simp: used_def npages_def)
  show ?thesis
  proof (cases r)
    case None
    then have "put_pool u (?q \<lparr> pool_bitmap := bm \<rparr>) p = p"
      using r(3) by (cases u) (auto simp: flipped_def put_pool_def the_pool_def)
    with None r n show ?thesis by (simp add: get_multiple_def u_def Let_def)
  next
    case (Some i)
    have bm: "bitmap_ok bm" "bit_cnt bm = bit_cnt ?b"
      "bitmap_view bm = (\<lambda>j. i \<le> j \<and> j < i + n \<or> bitmap_view ?b j)"
      using r(3) Some by (auto simp: flipped_def)
    have "i + n \<le> bit_cnt ?b" using r(2) Some by (simp add: first_fit_def npages_def)
    then have "(i + n) * PGSIZE \<le> bit_cnt ?b * PGSIZE" by (rule mult_le_mono1)
    then have fits: "base ?q + i * PGSIZE < 2 ^ 32" "i * PGSIZE < 2 ^ 32" "n * PGSIZE < 2 ^ 32"
      using q by (auto simp: pool_ok_def pool_end_def distrib_right)
    define p1 where "p1 = put_pool u (?q \<lparr> pool_bitmap := bm \<rparr>) p"
    have "allocated p u i n p1" "allocated p u i n (p1 \<lparr> ram := m \<rparr>)" for m
      using bm palloc_ok_put_bitmap [OF ok bm(1,2)]
      by (auto simp: allocated_def p1_def used_def npages_def)
    moreover have "get_multiple flags n p = Some (base ?q + i * PGSIZE,
        if ZERO \<in> flags then p1 \<lparr> ram := zero_range (base ?q + i * PGSIZE) (n * PGSIZE) (ram p) \<rparr> else p1)"
      using r(1) Some n(1) fits by (simp add: get_multiple_def u_def Let_def arith_defs p1_def)
    moreover have "ram p1 = ram p" by (simp add: p1_def)
    ultimately show ?thesis using r(2) Some by auto
  qed
qed

text \<open>A page of a pool is found in that pool when it is freed.\<close>

lemma free_multiple_eq:
  assumes ok: "palloc_ok p" and n: "0 < n" "i + n \<le> npages p u"
  shows "\<exists>bm. set_multiple (pool_bitmap (the_pool u p)) i n False = Some bm \<and>
    free_multiple (base (the_pool u p) + i * PGSIZE) n p
      = Some (put_pool u (the_pool u p \<lparr> pool_bitmap := bm \<rparr>) p)"
proof -
  let ?q = "the_pool u p" and ?k = "kernel_pool p" and ?a = "base (the_pool u p) + i * PGSIZE"
  have q: "pool_ok ?q" and k: "pool_ok ?k" using ok palloc_ok_pool by (auto simp: palloc_ok_def)
  from q n(2) pool_ok_cnt [OF q] obtain bm
    where bm: "set_multiple (pool_bitmap ?q) i n False = Some bm"
    using set_multiple_view [of "pool_bitmap ?q" i n False] by (auto simp: pool_ok_def npages_def)
  have "i * PGSIZE < bit_cnt (pool_bitmap ?q) * PGSIZE"
    using n by (simp add: npages_def PGSIZE_def)
  then have "?a < pool_end ?q" by (simp add: pool_end_def)
  then have side: "u \<Longrightarrow> \<not> ?a < pool_end ?k" "\<not> u \<Longrightarrow> base ?k \<le> ?a \<and> ?a < pool_end ?k"
    using ok by (auto simp: the_pool_def palloc_ok_def)
  have "?a \<noteq> 0" using q by (simp add: pool_ok_def)
  moreover have "pool_end ?k < 2 ^ 32" "bit_cnt (pool_bitmap ?k) * PGSIZE < 2 ^ 32"
    using k by (auto simp: pool_ok_def pool_end_def)
  moreover have "i * PGSIZE div PGSIZE = i" by (simp add: PGSIZE_def)
  ultimately have "free_multiple ?a n p = Some (put_pool u (?q \<lparr> pool_bitmap := bm \<rparr>) p)"
    using side bm n(1)
    by (cases u) (auto simp: free_multiple_def Let_def arith_defs pool_end_def)
  with bm show ?thesis by blast
qed

subsection \<open>Initialisation\<close>

lemma byte_cnt_bm_pages: "byte_cnt n \<le> bm_pages n * PGSIZE"
  using round_up_bounds(1) [of 4096 "byte_cnt n"] by (simp add: bm_pages_def div_ceil_def PGSIZE_def)

lemma bm_pages_small: "n \<le> MAX_RAM_PAGES \<Longrightarrow> bm_pages n \<le> 1"
  by (simp add: bm_pages_def div_ceil_def byte_cnt_def PGSIZE_def MAX_RAM_PAGES_def)

lemma bm_pages_pos: "0 < n \<Longrightarrow> 0 < bm_pages n"
  using byte_cnt_covers [of 0 n] byte_cnt_bm_pages [of n] by (cases "bm_pages n") auto

lemma create_in_buf_spec:
  assumes "byte_cnt n \<le> length buf"
  shows "\<exists>b. create_in_buf n buf = Some b \<and> bitmap_ok b \<and> bit_cnt b = n
           \<and> (\<forall>i < n. \<not> bitmap_view b i)"
proof -
  let ?b = "\<lparr> bits = replicate (byte_cnt n) 0 @ drop (byte_cnt n) buf, bit_cnt = n \<rparr>"
  have "\<not> bitmap_view ?b i" if "i < n" for i
    using byte_cnt_covers [OF that] by (simp add: array_bit_def nth_append)
  with assms show ?thesis by (simp add: create_in_buf_def Let_def bitmap_ok_def)
qed

lemma init_pool_spec:
  assumes "n \<le> MAX_RAM_PAGES" and "0 < start" and "PGSIZE dvd start"
    and "start + bm_pages n * PGSIZE + n * PGSIZE < 2 ^ 32"
  shows "\<exists>q. init_pool start n mem = Some q \<and> pool_ok q \<and> base q = start + bm_pages n * PGSIZE
           \<and> bit_cnt (pool_bitmap q) = n \<and> (\<forall>i < n. \<not> bitmap_view (pool_bitmap q) i)"
proof -
  have small: "bm_pages n * PGSIZE < 2 ^ 32" using assms(4) by simp
  from create_in_buf_spec [of n "map mem [start ..< start + bm_pages n * PGSIZE]"]
    byte_cnt_bm_pages [of n] obtain b
    where "create_in_buf n (map mem [start ..< start + bm_pages n * PGSIZE]) = Some b"
      "bitmap_ok b" "bit_cnt b = n" "\<forall>i < n. \<not> bitmap_view b i" by auto
  with assms small show ?thesis
    by (auto simp: init_pool_def arith_defs pool_ok_def pool_end_def)
qed

lemma init_pools:
  assumes fs: "PGSIZE dvd fs" "PHYS_BASE \<le> fs"
    and fits: "fs + (kp + up) * PGSIZE \<le> PHYS_BASE + MAX_RAM_PAGES * PGSIZE"
  shows "\<exists>qk qu. init_pool fs kp mem = Some qk \<and> pool_ok qk
      \<and> base qk = fs + bm_pages kp * PGSIZE \<and> bit_cnt (pool_bitmap qk) = kp
      \<and> (\<forall>i < kp. \<not> bitmap_view (pool_bitmap qk) i)
      \<and> init_pool (fs + (bm_pages kp * PGSIZE + kp * PGSIZE)) up mem = Some qu \<and> pool_ok qu
      \<and> base qu = pool_end qk + bm_pages up * PGSIZE \<and> bit_cnt (pool_bitmap qu) = up
      \<and> (\<forall>i < up. \<not> bitmap_view (pool_bitmap qu) i)"
    and "bm_pages kp * PGSIZE \<le> 4096" "kp * PGSIZE \<le> MAX_RAM_PAGES * PGSIZE" "kp \<le> MAX_RAM_PAGES"
proof -
  let ?us = "fs + (bm_pages kp * PGSIZE + kp * PGSIZE)"
  have sz: "kp * PGSIZE + up * PGSIZE + fs \<le> PHYS_BASE + MAX_RAM_PAGES * PGSIZE"
    using fits by (simp add: distrib_right)
  then have cnt: "kp \<le> MAX_RAM_PAGES" "up \<le> MAX_RAM_PAGES" using fs(2) by (auto simp: PGSIZE_def)
  have bm: "bm_pages kp * PGSIZE \<le> 4096" "bm_pages up * PGSIZE \<le> 4096"
    using bm_pages_small [OF cnt(1)] bm_pages_small [OF cnt(2)] by (auto simp: PGSIZE_def)
  have pos: "0 < fs" "0 < ?us" using fs(2) by (auto simp: PHYS_BASE_def)
  have top: "PHYS_BASE + MAX_RAM_PAGES * PGSIZE = 0xC4000000"
    by (simp add: PHYS_BASE_def MAX_RAM_PAGES_def PGSIZE_def)
  have "\<exists>q. init_pool fs kp mem = Some q \<and> pool_ok q \<and> base q = fs + bm_pages kp * PGSIZE
      \<and> bit_cnt (pool_bitmap q) = kp \<and> (\<forall>i < kp. \<not> bitmap_view (pool_bitmap q) i)"
    by (rule init_pool_spec [OF cnt(1) pos(1) fs(1)]) (use sz bm top in simp)
  moreover have "\<exists>q. init_pool ?us up mem = Some q \<and> pool_ok q \<and> base q = ?us + bm_pages up * PGSIZE
      \<and> bit_cnt (pool_bitmap q) = up \<and> (\<forall>i < up. \<not> bitmap_view (pool_bitmap q) i)"
    by (rule init_pool_spec [OF cnt(2) pos(2)]) (use fs(1) sz bm top in simp_all)
  ultimately show "\<exists>qk qu. init_pool fs kp mem = Some qk \<and> pool_ok qk
      \<and> base qk = fs + bm_pages kp * PGSIZE \<and> bit_cnt (pool_bitmap qk) = kp
      \<and> (\<forall>i < kp. \<not> bitmap_view (pool_bitmap qk) i)
      \<and> init_pool ?us up mem = Some qu \<and> pool_ok qu
      \<and> base qu = pool_end qk + bm_pages up * PGSIZE \<and> bit_cnt (pool_bitmap qu) = up
      \<and> (\<forall>i < up. \<not> bitmap_view (pool_bitmap qu) i)"
    by (fastforce simp: pool_end_def)
  show "bm_pages kp * PGSIZE \<le> 4096" "kp \<le> MAX_RAM_PAGES" by (fact bm(1), fact cnt(1))
  show "kp * PGSIZE \<le> MAX_RAM_PAGES * PGSIZE" using cnt(1) by (rule mult_le_mono1)
qed

text \<open>The kernel is linked at \<open>PHYS_BASE\<close> and its image ends below the end of RAM.\<close>

definition ram_end :: "nat \<Rightarrow> nat" where
  "ram_end ram_pages = PHYS_BASE + ram_pages * PGSIZE"

lemma init_spec:
  assumes e: "PHYS_BASE \<le> end_addr" "end_addr + PGSIZE \<le> ram_end ram_pages"
    and r: "ram_pages \<le> MAX_RAM_PAGES"
  shows "\<exists>p fs. init ram_pages end_addr limit mem = Some p \<and> palloc_ok p
    \<and> (\<forall>u. \<forall>i < npages p u. \<not> used p u i)
    \<and> pg_round_up end_addr = Some fs \<and> fs + (npages p False + npages p True) * PGSIZE = ram_end ram_pages
    \<and> base (kernel_pool p) = fs + bm_pages (npages p False) * PGSIZE
    \<and> base (user_pool p) = pool_end (kernel_pool p) + bm_pages (npages p True) * PGSIZE"
proof -
  define fs where "fs = (end_addr + 4095) div 4096 * 4096"
  define fp where "fp = (ram_end ram_pages - fs) div PGSIZE"
  define up where "up = user_share fp limit"
  define kp where "kp = fp - up"
  have ram: "ram_end ram_pages \<le> PHYS_BASE + MAX_RAM_PAGES * PGSIZE"
    using r by (simp add: ram_end_def PGSIZE_def)
  have top: "PHYS_BASE + MAX_RAM_PAGES * PGSIZE = 0xC4000000"
    by (simp add: PHYS_BASE_def MAX_RAM_PAGES_def PGSIZE_def)
  have fs: "pg_round_up end_addr = Some fs" "PGSIZE dvd fs" "end_addr \<le> fs" "fs \<le> ram_end ram_pages"
    using round_up_bounds [of 4096 end_addr] e(2) ram top pg_round_up_eq [of end_addr]
    by (auto simp: fs_def PGSIZE_def)
  have "PGSIZE dvd ram_end ram_pages" by (simp add: ram_end_def PHYS_BASE_def PGSIZE_def)
  then have "PGSIZE dvd ram_end ram_pages - fs" using fs(2) by simp
  moreover have sum: "kp + up = fp" and le: "up \<le> fp" by (auto simp: kp_def up_def user_share_def Let_def)
  ultimately have fill: "fs + (kp + up) * PGSIZE = ram_end ram_pages"
    using fs(4) by (simp add: fp_def dvd_div_mult_self)
  have base: "PHYS_BASE \<le> fs" using fs(3) e(1) by simp
  have fits: "fs + (kp + up) * PGSIZE \<le> PHYS_BASE + MAX_RAM_PAGES * PGSIZE" using fill ram by simp
  from init_pools(1) [OF fs(2) base fits, of mem] obtain qk qu
    where qk: "init_pool fs kp mem = Some qk" "pool_ok qk" "base qk = fs + bm_pages kp * PGSIZE"
      "bit_cnt (pool_bitmap qk) = kp" "\<forall>i < kp. \<not> bitmap_view (pool_bitmap qk) i"
      and qu: "init_pool (fs + (bm_pages kp * PGSIZE + kp * PGSIZE)) up mem = Some qu" "pool_ok qu"
      "base qu = pool_end qk + bm_pages up * PGSIZE" "bit_cnt (pool_bitmap qu) = up"
      "\<forall>i < up. \<not> bitmap_view (pool_bitmap qu) i" by blast
  note bounds = init_pools(2-4) [OF fs(2) base fits]
  have rp: "ram_pages * PGSIZE \<le> 64 * 1024 * 1024"
    using r by (simp add: MAX_RAM_PAGES_def PGSIZE_def)
  have ops: "mul_usize ram_pages PGSIZE = Some (ram_pages * PGSIZE)"
    "ptov (ram_pages * PGSIZE) = Some (ram_end ram_pages)"
    "sub_usize (ram_end ram_pages) fs = Some (ram_end ram_pages - fs)" "sub_usize fp up = Some kp"
    using rp fs(4) le unfolding ram_end_def kp_def
    by (simp_all add: arith_defs ptov_def PHYS_BASE_def)
  have ops2: "mul_usize (bm_pages kp) PGSIZE = Some (bm_pages kp * PGSIZE)"
    "mul_usize kp PGSIZE = Some (kp * PGSIZE)"
    "add_usize (bm_pages kp * PGSIZE) (kp * PGSIZE) = Some (bm_pages kp * PGSIZE + kp * PGSIZE)"
    "add_usize fs (bm_pages kp * PGSIZE + kp * PGSIZE) = Some (fs + (bm_pages kp * PGSIZE + kp * PGSIZE))"
    using bounds fits top by (simp_all add: arith_defs distrib_right)
  have "init ram_pages end_addr limit mem = Some \<lparr> kernel_pool = qk, user_pool = qu, ram = mem \<rparr>"
    using fs(1) qk(1) qu(1) by (simp add: init_def ops ops2 Let_def flip: fp_def up_def)
  with qk qu fs(1) fill show ?thesis
    by (simp add: palloc_ok_def npages_def used_def the_pool_def)
qed

subsection \<open>Properties\<close>

text \<open>C16: the page allocator serves a request from the pool the flags select, with the first run
  of free pages long enough; the pages returned were free, are in use afterwards, lie inside the
  pool and hold zeros if \<open>ZERO\<close> was asked for; no other page of either pool and no other byte of
  memory changes, and the invariant is kept. It fails only if no such run is free: then it panics
  under \<open>ASSERT\<close> and otherwise answers the null pointer and changes nothing.\<close>

theorem get_multiple_correct:
  assumes "palloc_ok p" and "0 < n" and "n < 2 ^ 31" and "u = (USER \<in> flags)"
  shows "(\<exists>i p'. get_multiple flags n p = Some (base (the_pool u p) + i * PGSIZE, p')
             \<and> i + n \<le> npages p u \<and> run_at (used p u) False i n
             \<and> (\<forall>j < i. \<not> run_at (used p u) False j n)
             \<and> palloc_ok p' \<and> used p' u = (\<lambda>j. i \<le> j \<and> j < i + n \<or> used p u j)
             \<and> the_pool (\<not> u) p' = the_pool (\<not> u) p
             \<and> ram p' = (if ZERO \<in> flags
                 then zero_range (base (the_pool u p) + i * PGSIZE) (n * PGSIZE) (ram p) else ram p))
       \<or> (\<forall>j. j + n \<le> npages p u \<longrightarrow> \<not> run_at (used p u) False j n)
          \<and> get_multiple flags n p = (if ASSERT \<in> flags then None else Some (0, p))"
  using get_multiple_spec [OF assms] by (auto simp: first_fit_def allocated_def)

definition sample_palloc :: palloc where
  "sample_palloc = \<lparr>
     kernel_pool = \<lparr> pool_bitmap = \<lparr> bits = [0x01], bit_cnt = 8 \<rparr>, base = 0xC0200000 \<rparr>,
     user_pool = \<lparr> pool_bitmap = \<lparr> bits = [0x05], bit_cnt = 8 \<rparr>, base = 0xC0300000 \<rparr>,
     ram = (\<lambda>_. 7) \<rparr>"

lemma sample_palloc_ok: "palloc_ok sample_palloc"
  by (simp add: sample_palloc_def palloc_ok_def pool_ok_def pool_end_def bitmap_ok_def byte_cnt_def
      div_ceil_def PGSIZE_def)

theorem get_multiple_correct_witness:
  "(\<exists>i p'. get_multiple {USER, ZERO} 2 sample_palloc
               = Some (base (the_pool True sample_palloc) + i * PGSIZE, p')
             \<and> i + 2 \<le> npages sample_palloc True \<and> run_at (used sample_palloc True) False i 2
             \<and> (\<forall>j < i. \<not> run_at (used sample_palloc True) False j 2)
             \<and> palloc_ok p' \<and> used p' True = (\<lambda>j. i \<le> j \<and> j < i + 2 \<or> used sample_palloc True j)
             \<and> the_pool (\<not> True) p' = the_pool (\<not> True) sample_palloc
             \<and> ram p' = (if ZERO \<in> {USER, ZERO}
                 then zero_range (base (the_pool True sample_palloc) + i * PGSIZE) (2 * PGSIZE)
                        (ram sample_palloc)
                 else ram sample_palloc))
       \<or> (\<forall>j. j + 2 \<le> npages sample_palloc True \<longrightarrow> \<not> run_at (used sample_palloc True) False j 2)
          \<and> get_multiple {USER, ZERO} 2 sample_palloc
              = (if ASSERT \<in> {USER, ZERO} then None else Some (0, sample_palloc))"
  by (rule get_multiple_correct [OF sample_palloc_ok]) simp_all

text \<open>freeing what was allocated gives it back: after a successful \<open>get_multiple\<close>, freeing
  the returned pages finds the pool they came from and leaves both pools' pages as they were
  before the allocation.\<close>

theorem get_free_roundtrip:
  assumes ok: "palloc_ok p" and n: "0 < n" "n < 2 ^ 31"
    and got: "get_multiple flags n p = Some (a, p1)" and a: "a \<noteq> 0"
  shows "\<exists>p2. free_multiple a n p1 = Some p2 \<and> palloc_ok p2
           \<and> (\<forall>v. used p2 v = used p v \<and> npages p2 v = npages p v
                \<and> base (the_pool v p2) = base (the_pool v p))"
proof -
  define u where "u = (USER \<in> flags)"
  from get_multiple_spec [OF ok n u_def] got a obtain i
    where i: "a = base (the_pool u p) + i * PGSIZE"
      "first_fit (used p u) (npages p u) False n 0 (Some i)" "allocated p u i n p1"
    by (auto split: if_splits)
  have p1: "palloc_ok p1" "i + n \<le> npages p1 u" "base (the_pool u p1) = base (the_pool u p)"
    "run_at (used p u) False i n" "used p1 u = (\<lambda>j. i \<le> j \<and> j < i + n \<or> used p u j)"
    "npages p1 u = npages p u" "the_pool (\<not> u) p1 = the_pool (\<not> u) p"
    using i(2,3) by (auto simp: allocated_def first_fit_def)
  let ?b = "pool_bitmap (the_pool u p1)"
  from free_multiple_eq [OF p1(1) n(1) p1(2)] i(1) p1(3) obtain bm
    where bm: "set_multiple ?b i n False = Some bm"
      "free_multiple a n p1 = Some (put_pool u (the_pool u p1 \<lparr> pool_bitmap := bm \<rparr>) p1)" by auto
  have ok1: "pool_ok (the_pool u p1)" using p1(1) by (rule palloc_ok_pool)
  have v: "bitmap_ok bm" "bit_cnt bm = bit_cnt ?b"
    "bitmap_view bm = (\<lambda>j. if i \<le> j \<and> j < i + n then False else bitmap_view ?b j)"
    using set_multiple_view [of ?b i n False] bm(1) p1(2) ok1 pool_ok_cnt [OF ok1]
    by (auto simp: pool_ok_def npages_def)
  have view: "bitmap_view bm j = used p u j" for j
    using fun_cong [OF v(3), of j] fun_cong [OF p1(5), of j] p1(4)
    by (auto simp: used_def run_at_def)
  define p2 where "p2 = put_pool u (the_pool u p1 \<lparr> pool_bitmap := bm \<rparr>) p1"
  have pools: "the_pool u p2 = the_pool u p1 \<lparr> pool_bitmap := bm \<rparr>"
    "the_pool (\<not> u) p2 = the_pool (\<not> u) p" using p1(7) by (simp_all add: p2_def)
  have "used p2 w = used p w \<and> npages p2 w = npages p w
      \<and> base (the_pool w p2) = base (the_pool w p)" for w
  proof (cases "w = u")
    case True
    with pools(1) view p1(3,6) v(2) show ?thesis by (simp add: used_def npages_def fun_eq_iff)
  next
    case False
    then have "w = (\<not> u)" by simp
    with pools(2) show ?thesis by (simp add: used_def npages_def)
  qed
  moreover have "palloc_ok p2" unfolding p2_def by (rule palloc_ok_put_bitmap [OF p1(1) v(1,2)])
  ultimately show ?thesis using bm(2) unfolding p2_def [symmetric] by blast
qed

theorem get_free_roundtrip_witness:
  "\<exists>a p1 p2. get_multiple {USER} 2 sample_palloc = Some (a, p1) \<and> free_multiple a 2 p1 = Some p2
     \<and> (\<forall>v. used p2 v = used sample_palloc v)"
proof -
  have "run_at (used sample_palloc True) False 3 2"
    unfolding numeral_2_eq_2
    by (simp add: run_at_Suc used_def the_pool_def sample_palloc_def array_bit_def)
  moreover have "3 + 2 \<le> npages sample_palloc True"
    by (simp add: npages_def the_pool_def sample_palloc_def)
  ultimately have "\<not> first_fit (used sample_palloc True) (npages sample_palloc True) False 2 0 None"
    using first_fit_noneD [OF _ le0] by blast
  with get_multiple_spec [OF sample_palloc_ok, of 2 True "{USER}"] obtain i p1
    where g: "get_multiple {USER} 2 sample_palloc
      = Some (base (the_pool True sample_palloc) + i * PGSIZE, p1)" by auto
  have "base (the_pool True sample_palloc) + i * PGSIZE \<noteq> 0"
    by (simp add: sample_palloc_def the_pool_def)
  from get_free_roundtrip [OF sample_palloc_ok _ _ g this] g show ?thesis by auto
qed

text \<open>C29: \<open>init\<close> succeeds on a kernel linked at \<open>PHYS_BASE\<close> whose image ends before the RAM, and
  establishes the invariant with every page free and the pools disjoint; but the pages that hold
  the two bitmaps are not subtracted from the pools, so the user pool ends that many pages, at
  least one, behind the end of the RAM.\<close>

theorem init_pools_overshoot:
  assumes "PHYS_BASE \<le> end_addr" and "end_addr + PGSIZE < ram_end ram_pages"
    and "ram_pages \<le> MAX_RAM_PAGES"
  shows "\<exists>p. init ram_pages end_addr limit mem = Some p \<and> palloc_ok p
    \<and> (\<forall>u i. i < npages p u \<longrightarrow> \<not> used p u i)
    \<and> pool_end (user_pool p)
        = ram_end ram_pages + (bm_pages (npages p False) + bm_pages (npages p True)) * PGSIZE
    \<and> ram_end ram_pages < pool_end (user_pool p)"
proof -
  from init_spec [OF assms(1) less_imp_le [OF assms(2)] assms(3), of limit mem] obtain p fs where
    p: "init ram_pages end_addr limit mem = Some p" "palloc_ok p"
      "\<forall>u. \<forall>i < npages p u. \<not> used p u i" "pg_round_up end_addr = Some fs"
      "fs + (npages p False + npages p True) * PGSIZE = ram_end ram_pages"
      "base (kernel_pool p) = fs + bm_pages (npages p False) * PGSIZE"
      "base (user_pool p) = pool_end (kernel_pool p) + bm_pages (npages p True) * PGSIZE" by blast
  have e: "pool_end (user_pool p)
      = ram_end ram_pages + (bm_pages (npages p False) + bm_pages (npages p True)) * PGSIZE"
    using p(5-7) by (simp add: pool_end_def npages_def the_pool_def algebra_simps)
  have "ram_end ram_pages \<le> 0xC4000000"
    using assms(3) by (simp add: ram_end_def PHYS_BASE_def MAX_RAM_PAGES_def PGSIZE_def)
  then have "fs < end_addr + PGSIZE"
    using p(4) assms(2) round_up_bounds(2) [of 4096 end_addr] pg_round_up_eq [of end_addr]
    by (simp add: PGSIZE_def)
  with assms(2) p(5) have "0 < npages p False + npages p True"
    by (cases "npages p False + npages p True") auto
  then have "0 < bm_pages (npages p False) + bm_pages (npages p True)"
    using bm_pages_pos [of "npages p False"] bm_pages_pos [of "npages p True"] by auto
  with p e show ?thesis by (auto simp: PGSIZE_def)
qed

theorem init_pools_overshoot_witness:
  "\<exists>p. init 16384 0xC0150123 0 (\<lambda>_. 0) = Some p \<and> palloc_ok p
    \<and> (\<forall>u i. i < npages p u \<longrightarrow> \<not> used p u i)
    \<and> pool_end (user_pool p)
        = ram_end 16384 + (bm_pages (npages p False) + bm_pages (npages p True)) * PGSIZE
    \<and> ram_end 16384 < pool_end (user_pool p)"
  by (rule init_pools_overshoot)
    (simp_all add: PHYS_BASE_def ram_end_def MAX_RAM_PAGES_def PGSIZE_def)

end
