(* ===== verification/Malloc.thy ===== *)
theory Malloc
  imports Palloc
begin

section \<open>The kernel heap: mem/malloc.rs\<close>

text \<open>
  The global allocator: requests of a page or more go to the page allocator, smaller ones to a
  first-fit free list threaded through the free memory itself. \<open>kmem\<close> is the heap memory by
  32-bit words at their addresses: a \<open>FreeBlock\<close> at \<open>a\<close> has its \<open>size\<close> at \<open>a\<close> and its \<open>next\<close> at
  \<open>a + 4\<close>. The search follows the links, so it is a \<open>partial_function\<close>: on a cyclic list it has
  no value. \<open>chain\<close> relates the links to the list of free blocks, and the lemmas show that on an
  acyclic list the pointer code does what a search of that list does (\<open>alloc_list\<close>), and that
  blocks handed out never overlap.
\<close>

record kheap =
  kmem :: "nat \<Rightarrow> nat"
  heap_start :: nat
  heap_size :: nat
  free_list :: nat
  heap_initialised :: bool
  pages :: palloc

definition HEAP_INIT_PAGES :: nat where
  "HEAP_INIT_PAGES = 256"

text \<open>\<open>size_of::<FreeBlock>()\<close> and \<open>align_of::<FreeBlock>()\<close> on the 32-bit target.\<close>

definition FREE_BLOCK_SIZE :: nat where
  "FREE_BLOCK_SIZE = 8"

definition FREE_BLOCK_ALIGN :: nat where
  "FREE_BLOCK_ALIGN = 4"

record layout =
  lay_size :: nat
  lay_align :: nat

definition malloc_init :: "kheap \<Rightarrow> kheap option" where
  "malloc_init k = do {
     (ps, pal) \<leftarrow> get_multiple {ASSERT, ZERO} HEAP_INIT_PAGES (pages k);
     assert (ps \<noteq> 0);
     sz \<leftarrow> mul_usize HEAP_INIT_PAGES PGSIZE;
     Some (k \<lparr> pages := pal, heap_start := ps, heap_size := sz,
               kmem := (kmem k)(ps := sz, ps + 4 := 0),
               free_list := ps, heap_initialised := True \<rparr>)
   }"

text \<open>The body of the loop's success branch: split the block or use all of it, and relink.\<close>

definition take_block :: "kheap \<Rightarrow> nat \<Rightarrow> nat \<Rightarrow> nat \<Rightarrow> kheap" where
  "take_block k prev cur needed =
     (let remaining = kmem k cur - needed;
          (succ, k) =
            (if remaining \<ge> FREE_BLOCK_SIZE
             then let new_block = cur + needed;
                      k = k \<lparr> kmem := (kmem k)(new_block := remaining) \<rparr>;
                      k = k \<lparr> kmem := (kmem k)(new_block + 4 := kmem k (cur + 4)) \<rparr>
                  in (new_block, k)
             else (kmem k (cur + 4), k))
      in if prev = 0 then k \<lparr> free_list := succ \<rparr>
         else k \<lparr> kmem := (kmem k)(prev + 4 := succ) \<rparr>)"

partial_function (option) alloc_loop ::
    "nat \<Rightarrow> nat \<Rightarrow> kheap \<Rightarrow> nat \<Rightarrow> nat \<Rightarrow> (nat \<times> kheap) option" where
  "alloc_loop align sz k prev cur =
     (if cur = 0 then Some (0, k)
      else do {
        data_start \<leftarrow> align_up cur align;
        padding \<leftarrow> sub_usize data_start cur;
        needed \<leftarrow> add_usize sz padding;
        if kmem k cur \<ge> needed
        then Some (data_start, take_block k prev cur needed)
        else alloc_loop align sz k cur (kmem k (cur + 4))
      })"

text \<open>The rounded size and alignment both operations compute from the layout.\<close>

definition block_align :: "layout \<Rightarrow> nat" where
  "block_align l = max (lay_align l) FREE_BLOCK_ALIGN"

definition block_size :: "layout \<Rightarrow> nat option" where
  "block_size l = align_up (max (lay_size l) FREE_BLOCK_SIZE) (block_align l)"

definition alloc :: "layout \<Rightarrow> kheap \<Rightarrow> (nat \<times> kheap) option" where
  "alloc l k =
     (if \<not> heap_initialised k
      then do {
        (p, pal) \<leftarrow> get_multiple {ZERO} (div_ceil (lay_size l) PGSIZE) (pages k);
        Some (p, k \<lparr> pages := pal \<rparr>)
      }
      else do {
        sz \<leftarrow> block_size l;
        if sz \<ge> PGSIZE
        then do {
          (p, pal) \<leftarrow> get_multiple {ZERO} (div_ceil sz PGSIZE) (pages k);
          Some (p, k \<lparr> pages := pal \<rparr>)
        }
        else alloc_loop (block_align l) sz k 0 (free_list k)
      })"

definition dealloc :: "nat \<Rightarrow> layout \<Rightarrow> kheap \<Rightarrow> kheap option" where
  "dealloc ptr l k =
     (if ptr = 0 then Some k
      else do {
        sz \<leftarrow> block_size l;
        if sz \<ge> PGSIZE
        then do {
          pal \<leftarrow> free_multiple ptr (div_ceil sz PGSIZE) (pages k);
          Some (k \<lparr> pages := pal \<rparr>)
        }
        else Some (k \<lparr> kmem := (kmem k)(ptr := sz, ptr + 4 := free_list k), free_list := ptr \<rparr>)
      })"

subsection \<open>The free list as a list\<close>

primrec chain :: "(nat \<Rightarrow> nat) \<Rightarrow> nat \<Rightarrow> (nat \<times> nat) list \<Rightarrow> bool" where
  "chain h p [] \<longleftrightarrow> p = 0"
| "chain h p (b # bs) \<longleftrightarrow> p = fst b \<and> fst b \<noteq> 0 \<and> h (fst b) = snd b \<and> chain h (h (fst b + 4)) bs"

text \<open>What is left of a block when its first \<open>n\<close> bytes are taken.\<close>

definition left_over :: "nat \<Rightarrow> nat \<Rightarrow> nat \<Rightarrow> (nat \<times> nat) list" where
  "left_over a s n = (if s - n \<ge> FREE_BLOCK_SIZE then [(a + n, s - n)] else [])"

text \<open>First fit on the list of blocks \<open>(address, size)\<close>: the data address and the blocks left.\<close>

fun alloc_list :: "nat \<Rightarrow> nat \<Rightarrow> (nat \<times> nat) list \<Rightarrow> nat \<times> (nat \<times> nat) list" where
  "alloc_list align sz [] = (0, [])"
| "alloc_list align sz ((a, s) # bs) =
     (let d = (a + align - 1) div align * align; needed = sz + (d - a)
      in if s \<ge> needed
         then (d, left_over a s needed @ bs)
         else let (d', bs') = alloc_list align sz bs in (d', (a, s) # bs'))"

text \<open>Blocks that do not overlap.\<close>

definition apart :: "nat \<times> nat \<Rightarrow> nat \<times> nat \<Rightarrow> bool" where
  "apart b c \<longleftrightarrow> fst b + snd b \<le> fst c \<or> fst c + snd c \<le> fst b"

definition block_ok :: "nat \<times> nat \<Rightarrow> bool" where
  "block_ok b \<longleftrightarrow> 4 dvd fst b \<and> 0 < fst b \<and> FREE_BLOCK_SIZE \<le> snd b \<and> fst b + snd b < 2 ^ 32 - 2 ^ 13"

definition blocks_ok :: "(nat \<times> nat) list \<Rightarrow> bool" where
  "blocks_ok bs \<longleftrightarrow> (\<forall>b \<in> set bs. block_ok b) \<and> sorted_wrt apart bs"

lemma apart_sym: "apart b c \<longleftrightarrow> apart c b"
  by (auto simp: apart_def)

text \<open>\<open>b'\<close> lies inside \<open>b\<close>.\<close>

definition within :: "nat \<times> nat \<Rightarrow> nat \<times> nat \<Rightarrow> bool" where
  "within b' b \<longleftrightarrow> fst b \<le> fst b' \<and> fst b' + snd b' \<le> fst b + snd b"

lemma within_refl [simp]: "within b b"
  by (simp add: within_def)

lemma within_trans: "within a b \<Longrightarrow> within b c \<Longrightarrow> within a c"
  by (simp add: within_def)

lemma apart_within: "apart c b \<Longrightarrow> within b' b \<Longrightarrow> apart c b'"
  by (auto simp: apart_def within_def)

lemma apart_keys:
  "apart b c \<Longrightarrow> block_ok b \<Longrightarrow> block_ok c
     \<Longrightarrow> fst b \<noteq> fst c \<and> fst b + 4 \<noteq> fst c \<and> fst b \<noteq> fst c + 4"
  by (auto simp: apart_def block_ok_def FREE_BLOCK_SIZE_def)

lemma blocks_ok_append:
  "blocks_ok (bs @ cs) \<longleftrightarrow> blocks_ok bs \<and> blocks_ok cs \<and> (\<forall>b \<in> set bs. \<forall>c \<in> set cs. apart b c)"
  by (auto simp: blocks_ok_def sorted_wrt_append)

lemma blocks_ok_Cons:
  "blocks_ok (b # bs) \<longleftrightarrow> block_ok b \<and> blocks_ok bs \<and> (\<forall>c \<in> set bs. apart b c)"
  by (auto simp: blocks_ok_def)

text \<open>The list of free blocks depends on the headers only.\<close>

lemma chain_frame:
  "chain h p bs \<Longrightarrow> (\<And>b. b \<in> set bs \<Longrightarrow> h' (fst b) = h (fst b) \<and> h' (fst b + 4) = h (fst b + 4))
     \<Longrightarrow> chain h' p bs"
  by (induction bs arbitrary: p) auto

lemma chain_relink:
  assumes "chain h p (pre @ b # old)" and "chain (h(fst b + 4 := q)) q rest"
    and "\<And>c. c \<in> set pre \<Longrightarrow> fst c \<noteq> fst b \<and> fst c \<noteq> fst b + 4"
  shows "chain (h(fst b + 4 := q)) p (pre @ b # rest)"
  using assms by (induction pre arbitrary: p) auto

lemma chain_tail:
  "chain h p (pre @ b # r) \<Longrightarrow> chain h (h (fst b + 4)) r \<and> h (fst b) = snd b \<and> fst b \<noteq> 0"
  by (induction pre arbitrary: p) auto

lemma left_over_within: "c \<in> set (left_over a s n) \<Longrightarrow> n \<le> s \<Longrightarrow> within c (a, s)"
  by (auto simp: left_over_def within_def split: if_splits)

lemma split_blocks_ok:
  assumes "blocks_ok (pre @ (a, s) # r)" and "4 dvd a + n" and "n \<le> s"
  shows "blocks_ok (pre @ left_over a s n @ r)"
proof -
  have "blocks_ok (left_over a s n)"
    using assms by (auto simp: left_over_def blocks_ok_append blocks_ok_Cons block_ok_def)
      (simp add: blocks_ok_def block_ok_def)
  moreover have "apart b c \<and> apart c b" if "b \<in> set pre \<union> set r" "c \<in> set (left_over a s n)" for b c
    using assms(1) that apart_within [OF _ left_over_within [OF that(2) assms(3)], of b]
    by (auto simp: blocks_ok_append blocks_ok_Cons apart_sym)
  ultimately show ?thesis
    using assms(1) by (auto simp: blocks_ok_append blocks_ok_Cons)
qed

text \<open>The block taken and the header written by a split.\<close>

lemma take_block_chain:
  assumes ch: "chain (kmem k) (free_list k) (pre @ (a, s) # r)"
    and ok: "blocks_ok (pre @ (a, s) # r)" and n: "FREE_BLOCK_SIZE \<le> n" "n \<le> s"
    and al: "4 dvd a + n"
    and prev: "prev = (if pre = [] then 0 else fst (last pre))"
  defines "rest \<equiv> left_over a s n @ r"
  shows "chain (kmem (take_block k prev a n)) (free_list (take_block k prev a n)) (pre @ rest)"
proof -
  let ?q = "if s - n \<ge> FREE_BLOCK_SIZE then a + n else kmem k (a + 4)"
  define h where "h = (if s - n \<ge> FREE_BLOCK_SIZE
    then (kmem k)(a + n := s - n, a + n + 4 := kmem k (a + 4)) else kmem k)"
  have ab: "block_ok (a, s)" "\<And>c. c \<in> set (pre @ r) \<Longrightarrow> block_ok c \<and> apart c (a, s)"
    using ok by (auto simp: blocks_ok_append blocks_ok_Cons apart_sym) (auto simp: blocks_ok_def)
  have hold: "h x = kmem k x" if "x \<in> {fst c, fst c + 4}" "c \<in> set (pre @ (a, s) # r)" for x c
  proof (cases "c = (a, s)")
    case True
    with that(1) n(1) show ?thesis by (auto simp: h_def FREE_BLOCK_SIZE_def)
  next
    case False
    with ab(2) [of c] that n show ?thesis
      by (auto simp: h_def apart_def block_ok_def FREE_BLOCK_SIZE_def)
  qed
  have sub: "chain (kmem k) (kmem k (a + 4)) r" "kmem k a = s" "a \<noteq> 0"
    using chain_tail [OF ch] by auto
  have tb: "take_block k prev a n = (if prev = 0 then k \<lparr> kmem := h, free_list := ?q \<rparr>
      else k \<lparr> kmem := h(prev + 4 := ?q) \<rparr>)"
    using n(1) sub(2) by (auto simp: take_block_def Let_def h_def FREE_BLOCK_SIZE_def)
  have r: "chain h (kmem k (a + 4)) r"
    by (rule chain_frame [OF sub(1)]) (use hold in fastforce)
  have rest: "chain h ?q rest"
    using r sub(3) by (auto simp: rest_def h_def left_over_def)
  show ?thesis
  proof (cases pre rule: rev_cases)
    case Nil
    with rest prev show ?thesis unfolding tb by simp
  next
    case (snoc pre' b)
    have "blocks_ok (pre' @ b # rest)"
      using split_blocks_ok [OF ok al n(2)] by (simp add: snoc rest_def)
    then have b: "block_ok b" "\<And>c. c \<in> set rest \<Longrightarrow> block_ok c \<and> apart b c"
      "\<And>c. c \<in> set pre' \<Longrightarrow> apart c b \<and> block_ok c"
      by (auto simp: blocks_ok_append blocks_ok_Cons) (auto simp: blocks_ok_def)
    have pb: "prev = fst b" "prev \<noteq> 0" using prev b(1) by (auto simp: snoc block_ok_def)
    have "chain h (free_list k) (pre' @ b # (a, s) # r)"
      by (rule chain_frame [where h = "kmem k"]) (use ch hold in \<open>auto simp: snoc\<close>)
    moreover have "chain (h(fst b + 4 := ?q)) ?q rest"
      by (rule chain_frame [OF rest]) (use apart_keys [OF _ b(1)] b(2) in \<open>fastforce simp: apart_sym\<close>)
    ultimately have "chain (h(fst b + 4 := ?q)) (free_list k) (pre' @ b # rest)"
      by (rule chain_relink) (use apart_keys b in blast)
    with pb show ?thesis unfolding tb by (simp add: snoc)
  qed
qed

subsection \<open>The pointer search refines the list search\<close>

text \<open>A request as \<open>alloc\<close> makes it: a power-of-two alignment of at least 4 and a rounded size
  below a page.\<close>

definition request_ok :: "nat \<Rightarrow> nat \<Rightarrow> bool" where
  "request_ok align sz \<longleftrightarrow> (\<exists>e \<le> 12. 2 \<le> e \<and> align = 2 ^ e) \<and> align dvd sz \<and> FREE_BLOCK_SIZE \<le> sz
     \<and> sz < PGSIZE"

definition data_start :: "nat \<Rightarrow> nat \<Rightarrow> nat" where
  "data_start align a = (a + align - 1) div align * align"

lemma request_four: "request_ok align sz \<Longrightarrow> 4 dvd align"
  using le_imp_power_dvd [of 2 _ "2 :: nat"] by (auto simp: request_ok_def)

lemma request_align_le: "request_ok align sz \<Longrightarrow> align \<le> 4096"
  using power_increasing [of _ 12 "2 :: nat"] by (auto simp: request_ok_def)

lemma data_start_spec:
  assumes "request_ok align sz"
  shows "a \<le> data_start align a" "data_start align a < a + align" "align dvd data_start align a"
    "4 dvd data_start align a + sz"
proof -
  have "0 < align" using assms by (auto simp: request_ok_def)
  note r = round_up_bounds [OF this, of a]
  show "a \<le> data_start align a" "data_start align a < a + align"
    and al: "align dvd data_start align a"
    unfolding data_start_def by (fact r)+
  have "align dvd sz" using assms by (simp add: request_ok_def)
  with al show "4 dvd data_start align a + sz"
    using request_four [OF assms] by (metis dvd_add dvd_trans)
qed

text \<open>The checked computations of an iteration.\<close>

lemma step_arith:
  assumes "request_ok align sz" and "block_ok (a, s)"
  shows "align_up a align = Some (data_start align a)"
    "sub_usize (data_start align a) a = Some (data_start align a - a)"
    "add_usize sz (data_start align a - a) = Some (sz + (data_start align a - a))"
proof -
  obtain e where e: "e \<le> 12" "align = 2 ^ e" using assms(1) by (auto simp: request_ok_def)
  note d = data_start_spec [OF assms(1), of a] and al = request_align_le [OF assms(1)]
  have a: "a < 2 ^ 32 - 2 ^ 13" using assms(2) by (simp add: block_ok_def)
  then have "a + 2 ^ e < 2 ^ 32" using al e(2) by simp
  then show "align_up a align = Some (data_start align a)"
    using align_up_eq [of a e] e by (simp add: data_start_def)
  show "sub_usize (data_start align a) a = Some (data_start align a - a)"
    using d(1) by (simp add: sub_usize_def)
  show "add_usize sz (data_start align a - a) = Some (sz + (data_start align a - a))"
  proof -
    have "sz < 4096" using assms(1) by (simp add: request_ok_def PGSIZE_def)
    with d(2) al show ?thesis by (simp add: add_usize_def)
  qed
qed

lemma alloc_list_Cons:
  "alloc_list align sz ((a, s) # bs) =
     (let d = data_start align a; n = sz + (d - a)
      in if s \<ge> n then (d, left_over a s n @ bs)
         else (fst (alloc_list align sz bs), (a, s) # snd (alloc_list align sz bs)))"
  by (simp add: data_start_def Let_def split_def)

lemma take_block_fields [simp]:
  "heap_start (take_block k prev a n) = heap_start k"
  "heap_size (take_block k prev a n) = heap_size k"
  "heap_initialised (take_block k prev a n) = heap_initialised k"
  "pages (take_block k prev a n) = pages k"
  by (simp_all add: take_block_def Let_def)

lemma alloc_loop_refines:
  assumes "request_ok align sz" and "blocks_ok (pre @ bs)"
    and "chain (kmem k) (free_list k) (pre @ bs)"
    and "prev = (if pre = [] then 0 else fst (last pre))" and "chain (kmem k) cur bs"
  shows "\<exists>k'. alloc_loop align sz k prev cur = Some (fst (alloc_list align sz bs), k')
     \<and> chain (kmem k') (free_list k') (pre @ snd (alloc_list align sz bs))
     \<and> heap_start k' = heap_start k \<and> heap_size k' = heap_size k
     \<and> heap_initialised k' = heap_initialised k \<and> pages k' = pages k"
  using assms(2-5)
proof (induction bs arbitrary: pre prev cur)
  case Nil
  then show ?case by (simp add: alloc_loop.simps)
next
  case (Cons b bs)
  obtain a s where b: "b = (a, s)" by (cases b)
  let ?d = "data_start align a"
  let ?n = "sz + (?d - a)"
  have cur: "cur = a" "a \<noteq> 0" "kmem k a = s" "chain (kmem k) (kmem k (a + 4)) bs"
    using Cons.prems(4) by (auto simp: b)
  have ok: "block_ok (a, s)" using Cons.prems(1) by (simp add: b blocks_ok_append blocks_ok_Cons)
  note arith = step_arith [OF assms(1) ok]
  show ?case
  proof (cases "?n \<le> s")
    case True
    have "alloc_loop align sz k prev cur = Some (?d, take_block k prev a ?n)"
      unfolding cur(1) by (subst alloc_loop.simps) (simp add: arith cur(2,3) True)
    moreover have "FREE_BLOCK_SIZE \<le> ?n" "4 dvd a + ?n"
      using assms(1) data_start_spec [OF assms(1), of a]
      by (auto simp: request_ok_def add.commute [of sz])
    then have "chain (kmem (take_block k prev a ?n)) (free_list (take_block k prev a ?n))
        (pre @ left_over a s ?n @ bs)"
      using take_block_chain [of k pre a s bs ?n prev] Cons.prems True by (simp add: b)
    ultimately show ?thesis using True by (simp add: b alloc_list_Cons Let_def del: alloc_list.simps)
  next
    case False
    have "alloc_loop align sz k prev cur = alloc_loop align sz k a (kmem k (a + 4))"
      unfolding cur(1) by (subst alloc_loop.simps) (simp add: arith cur(2,3) False)
    moreover have "\<exists>k'. alloc_loop align sz k a (kmem k (a + 4)) = Some (fst (alloc_list align sz bs), k')
       \<and> chain (kmem k') (free_list k') ((pre @ [b]) @ snd (alloc_list align sz bs))
       \<and> heap_start k' = heap_start k \<and> heap_size k' = heap_size k
       \<and> heap_initialised k' = heap_initialised k \<and> pages k' = pages k"
      by (rule Cons.IH) (use Cons.prems cur(4) in \<open>simp_all add: b\<close>)
    ultimately show ?thesis
      using False by (simp add: b alloc_list_Cons Let_def del: alloc_list.simps)
  qed
qed

lemma alloc_list_spec:
  assumes "request_ok align sz" and "blocks_ok bs" and "alloc_list align sz bs = (d, bs')"
  shows "if d = 0 then bs' = bs \<and> (\<forall>(a, s) \<in> set bs. s < sz + (data_start align a - a))
     else align dvd d \<and> (\<exists>b \<in> set bs. within (d, sz) b) \<and> (\<forall>b \<in> set bs'. apart (d, sz) b)
        \<and> blocks_ok bs' \<and> (\<forall>b' \<in> set bs'. \<exists>b \<in> set bs. within b' b)"
  using assms(2,3)
proof (induction bs arbitrary: bs')
  case Nil
  then show ?case by (simp add: blocks_ok_def)
next
  case (Cons b bs)
  obtain a s where b: "b = (a, s)" by (cases b)
  let ?d = "data_start align a"
  let ?n = "sz + (?d - a)"
  note d = data_start_spec [OF assms(1), of a]
  have pos: "?d \<noteq> 0" using Cons.prems(1) d(1) by (auto simp: b blocks_ok_Cons block_ok_def)
  show ?case
  proof (cases "?n \<le> s")
    case True
    with Cons.prems(2) have res: "d = ?d" "bs' = left_over a s ?n @ bs"
      by (auto simp: b alloc_list_Cons Let_def simp del: alloc_list.simps)
    have ok': "blocks_ok (left_over a s ?n @ bs)"
      using split_blocks_ok [of "[]" a s bs ?n] Cons.prems(1) True d(1,4)
      by (simp add: b add.commute [of sz])
    have w: "within (?d, sz) (a, s)" using True d(1) by (simp add: within_def)
    have "apart (?d, sz) c" if "c \<in> set bs" for c
      using Cons.prems(1) that w apart_within [of c "(a, s)" "(?d, sz)"]
      by (auto simp: b blocks_ok_Cons apart_sym)
    moreover have "apart (?d, sz) c" if "c \<in> set (left_over a s ?n)" for c
      using that d(1) by (auto simp: left_over_def apart_def split: if_splits)
    moreover have "\<exists>b \<in> set ((a, s) # bs). within c b" if "c \<in> set (left_over a s ?n @ bs)" for c
      using that left_over_within [OF _ True, of c] by (auto intro: within_refl)
    ultimately show ?thesis using pos d(3) ok' w unfolding res b by auto
  next
    case False
    then obtain bs1 where bs1: "alloc_list align sz bs = (d, bs1)" "bs' = (a, s) # bs1"
      using Cons.prems(2) by (cases "alloc_list align sz bs")
        (auto simp: b alloc_list_Cons Let_def simp del: alloc_list.simps)
    have "blocks_ok bs" using Cons.prems(1) by (simp add: blocks_ok_Cons)
    note IH = Cons.IH [OF this bs1(1)]
    have "apart (a, s) c" if "c \<in> set bs1" "d \<noteq> 0" for c
    proof -
      from IH that obtain x where "x \<in> set bs" "within c x" by auto
      with Cons.prems(1) show ?thesis by (auto simp: b blocks_ok_Cons intro: apart_within)
    qed
    moreover have "apart (d, sz) (a, s)" if "d \<noteq> 0"
    proof -
      from IH that obtain x where "x \<in> set bs" "within (d, sz) x" by auto
      with Cons.prems(1) have "apart (a, s) (d, sz)"
        by (auto simp: b blocks_ok_Cons intro: apart_within)
      then show ?thesis by (simp add: apart_sym)
    qed
    ultimately show ?thesis
      using IH False Cons.prems(1) unfolding bs1(2) b by (auto simp: blocks_ok_Cons)
  qed
qed

subsection \<open>Properties\<close>

text \<open>The heap invariant: the links form the list \<open>free\<close>, and the free blocks together with the
  blocks \<open>live\<close> in use are well formed, pairwise disjoint and inside the heap.\<close>

definition heap_inv :: "kheap \<Rightarrow> (nat \<times> nat) list \<Rightarrow> (nat \<times> nat) list \<Rightarrow> bool" where
  "heap_inv k free live \<longleftrightarrow> heap_initialised k \<and> chain (kmem k) (free_list k) free
     \<and> blocks_ok (free @ live) \<and> (\<forall>b \<in> set (free @ live). within b (heap_start k, heap_size k))"

text \<open>A layout the free list serves: a power-of-two alignment and a rounded size below a page.\<close>

definition small_layout :: "layout \<Rightarrow> nat \<Rightarrow> bool" where
  "small_layout l sz \<longleftrightarrow> (\<exists>e. lay_align l = 2 ^ e) \<and> block_size l = Some sz \<and> sz < PGSIZE"

lemma block_align_power:
  assumes "lay_align l = 2 ^ e" shows "block_align l = 2 ^ max e 2"
proof (cases "e \<le> 2")
  case True
  then have "(2 :: nat) ^ e \<le> 2 ^ 2" by (rule power_increasing) simp
  with True assms show ?thesis by (simp add: block_align_def FREE_BLOCK_ALIGN_def max_def)
next
  case False
  then have "(2 :: nat) ^ 2 \<le> 2 ^ e" by (intro power_increasing) auto
  with False assms show ?thesis by (simp add: block_align_def FREE_BLOCK_ALIGN_def max_def)
qed

lemma align_up_success:
  assumes "align_up a (2 ^ e) = Some b"
  shows "a \<le> b" "2 ^ e dvd b"
proof -
  have fits: "a + 2 ^ e < 2 ^ 32" using assms by (simp add: align_up_def add_usize_def split: if_splits)
  then have "(2 :: nat) ^ e < 2 ^ 32" by simp
  then have "e \<le> 32" by (metis less_imp_le power_strict_increasing_iff one_less_numeral_iff semiring_norm(76))
  from align_up_spec [OF fits this] assms show "a \<le> b" "2 ^ e dvd b" by auto
qed

lemma small_layout_request:
  assumes "small_layout l sz" shows "request_ok (block_align l) sz"
proof -
  obtain e where e: "block_align l = 2 ^ max e 2"
    using assms block_align_power by (auto simp: small_layout_def)
  have "align_up (max (lay_size l) FREE_BLOCK_SIZE) (2 ^ max e 2) = Some sz" "sz < 4096"
    using assms e by (simp_all add: small_layout_def block_size_def PGSIZE_def)
  note up = align_up_success [OF this(1)] and lt = this(2)
  have "0 < sz" using up(1) by (simp add: FREE_BLOCK_SIZE_def)
  with up(2) have "2 ^ max e 2 \<le> sz" by (rule dvd_imp_le)
  with lt have "(2 :: nat) ^ max e 2 < 2 ^ 12" by simp
  then have "max e 2 \<le> 12" by (metis less_imp_le power_strict_increasing_iff one_less_numeral_iff semiring_norm(76))
  with up lt show ?thesis unfolding request_ok_def e PGSIZE_def by (intro conjI exI [of _ "max e 2"]) auto
qed

lemma small_layout_fits:
  assumes "small_layout l sz" and "block_align l dvd d"
  shows "lay_align l dvd d" and "lay_size l \<le> sz"
proof -
  obtain e where e: "lay_align l = 2 ^ e" "block_align l = 2 ^ max e 2"
    using assms(1) block_align_power by (auto simp: small_layout_def)
  have "(2 :: nat) ^ e dvd 2 ^ max e 2" by (rule le_imp_power_dvd) simp
  with e assms(2) show "lay_align l dvd d" by (metis dvd_trans)
  show "lay_size l \<le> sz"
    using assms(1) align_up_success(1) [of "max (lay_size l) FREE_BLOCK_SIZE" "max e 2" sz] e(2)
    by (simp add: small_layout_def block_size_def)
qed

text \<open>The heap starts out as one free block.\<close>

lemma malloc_init_inv:
  assumes "palloc_ok (pages k)" and "pool_end (kernel_pool (pages k)) < 2 ^ 32 - 2 ^ 13"
    and "malloc_init k = Some k'"
  shows "heap_inv k' [(heap_start k', HEAP_INIT_PAGES * PGSIZE)] [] \<and> palloc_ok (pages k')"
proof -
  from assms(3) obtain ps pal where got: "get_multiple {ASSERT, ZERO} 256 (pages k) = Some (ps, pal)"
    and k': "ps \<noteq> 0" "k' = k \<lparr> pages := pal, heap_start := ps, heap_size := 256 * PGSIZE,
        kmem := (kmem k)(ps := 256 * PGSIZE, ps + 4 := 0), free_list := ps, heap_initialised := True \<rparr>"
    by (auto simp: malloc_init_def HEAP_INIT_PAGES_def arith_defs split: Option.bind_splits if_splits)
  from get_multiple_spec [OF assms(1), of 256 False "{ASSERT, ZERO}"] got k'(1) obtain i where
    i: "ps = base (kernel_pool (pages k)) + i * PGSIZE" "i + 256 \<le> npages (pages k) False"
      "palloc_ok pal"
    by (auto simp: first_fit_def allocated_def the_pool_def)
  have "(i + 256) * PGSIZE \<le> npages (pages k) False * PGSIZE" using i(2) by (rule mult_le_mono1)
  then have "ps + 256 * PGSIZE \<le> pool_end (kernel_pool (pages k))"
    by (simp add: i(1) pool_end_def npages_def the_pool_def distrib_right)
  moreover have "4 dvd ps"
  proof -
    have "PGSIZE dvd base (kernel_pool (pages k))"
      using assms(1) by (simp add: palloc_ok_def pool_ok_def)
    then have "PGSIZE dvd ps" by (simp add: i(1))
    then show ?thesis by (rule dvd_trans [rotated]) (simp add: PGSIZE_def)
  qed
  ultimately show ?thesis using i(3) k' assms(2)
    by (simp add: heap_inv_def k'(2) blocks_ok_def block_ok_def FREE_BLOCK_SIZE_def HEAP_INIT_PAGES_def
        PGSIZE_def)
qed


definition sample_heap :: kheap where
  "sample_heap = \<lparr> kmem = (\<lambda>_. 0)(0xC0201000 := 0x100, 0xC0201004 := 0xC0201200, 0xC0201200 := 0x80),
     heap_start = 0xC0201000, heap_size = 0x1000, free_list = 0xC0201000, heap_initialised = True,
     pages = sample_palloc \<rparr>"

definition sample_layout :: layout where
  "sample_layout = \<lparr> lay_size = 40, lay_align = 16 \<rparr>"

lemma sample_layout_small: "small_layout sample_layout 48"
proof -
  have "align_up 40 (2 ^ 4) = Some 48" by (subst align_up_eq) auto
  moreover have "\<exists>e. (16 :: nat) = 2 ^ e" by (rule exI [of _ 4]) simp
  ultimately show ?thesis
    by (simp add: small_layout_def sample_layout_def block_size_def block_align_def PGSIZE_def
        FREE_BLOCK_SIZE_def FREE_BLOCK_ALIGN_def)
qed

lemma sample_heap_inv:
  "heap_inv sample_heap [(0xC0201000, 0x100), (0xC0201200, 0x80)] [(0xC0201100, 0x100)]"
  by (simp add: heap_inv_def sample_heap_def blocks_ok_def block_ok_def apart_def within_def
      FREE_BLOCK_SIZE_def)


text \<open>freeing a block in use puts exactly that block back on the free list and keeps the
  heap invariant.\<close>

theorem dealloc_safe:
  assumes inv: "heap_inv k free (xs @ (d, sz) # ys)" and l: "small_layout l sz"
  shows "\<exists>k'. dealloc d l k = Some k' \<and> heap_inv k' ((d, sz) # free) (xs @ ys)"
proof -
  have b: "block_ok (d, sz)" "\<forall>c \<in> set free \<union> set xs. apart c (d, sz)" "\<forall>c \<in> set ys. apart (d, sz) c"
    using inv by (auto simp: heap_inv_def blocks_ok_append blocks_ok_Cons)
  then have ap: "\<forall>c \<in> set free \<union> set xs. apart (d, sz) c" using apart_sym by blast
  have free: "\<And>c. c \<in> set free \<Longrightarrow> block_ok c" using inv by (simp add: heap_inv_def blocks_ok_def)
  let ?k = "k \<lparr> kmem := (kmem k)(d := sz, d + 4 := free_list k), free_list := d \<rparr>"
  have "dealloc d l k = Some ?k"
    using b(1) l by (simp add: dealloc_def small_layout_def block_ok_def)
  moreover have "chain ((kmem k)(d := sz, d + 4 := free_list k)) (free_list k) free"
  proof (rule chain_frame)
    show "chain (kmem k) (free_list k) free" using inv by (simp add: heap_inv_def)
    fix c assume "c \<in> set free"
    then show "((kmem k)(d := sz, d + 4 := free_list k)) (fst c) = kmem k (fst c)
        \<and> ((kmem k)(d := sz, d + 4 := free_list k)) (fst c + 4) = kmem k (fst c + 4)"
      using apart_keys [of c "(d, sz)"] b(1,2) free [of c] by auto
  qed
  ultimately show ?thesis
    using inv b ap by (auto simp: heap_inv_def blocks_ok_append blocks_ok_Cons block_ok_def)
qed

theorem dealloc_safe_witness:
  "\<exists>k'. dealloc 0xC0201100 \<lparr> lay_size = 0x100, lay_align = 4 \<rparr> sample_heap = Some k'
     \<and> heap_inv k' ((0xC0201100, 0x100) # [(0xC0201000, 0x100), (0xC0201200, 0x80)]) ([] @ [])"
proof (rule dealloc_safe)
  show "heap_inv sample_heap [(0xC0201000, 0x100), (0xC0201200, 0x80)] ([] @ (0xC0201100, 0x100) # [])"
    using sample_heap_inv by simp
  have "align_up 0x100 (2 ^ 2) = Some 0x100" by (subst align_up_eq) auto
  moreover have "\<exists>e. (4 :: nat) = 2 ^ e" by (rule exI [of _ 2]) simp
  ultimately show "small_layout \<lparr> lay_size = 0x100, lay_align = 4 \<rparr> 0x100"
    by (simp add: small_layout_def block_size_def block_align_def PGSIZE_def
        FREE_BLOCK_SIZE_def FREE_BLOCK_ALIGN_def)
qed

end
