(* ===== verification/Block.thy ===== *)
theory Block
  imports Prelude
begin

section \<open>Block devices: devices/block.rs\<close>

text \<open>
  The registry of block devices and the bounds-checked sector access. A driver is what it provides
  to the registry, the trait \<open>BlockOps\<close>: a record of two functions over a driver state \<open>'m\<close>.
  \<open>ops_ok\<close> states what the users of a device rely on: a sector reads back as it was last written,
  writing one sector keeps the others, and sectors have 512 bytes. The interface \<open>sector_store\<close>
  packages reading and writing with that law for the layers above; the registered device provides
  it. The two access counters (\<open>u64\<close>) are unbounded here.
\<close>

definition BLOCK_SECTOR_SIZE :: nat where
  "BLOCK_SECTOR_SIZE = 512"

type_synonym sector = nat

type_synonym sector_data = "byte list"

definition sector_buf :: sector_data where
  "sector_buf = replicate BLOCK_SECTOR_SIZE 0"

datatype block_type = Kernel | FileSys | Scratch | Swap | Raw | Foreign

record 'm block_ops =
  op_read :: "'m \<Rightarrow> sector \<Rightarrow> sector_data"
  op_write :: "'m \<Rightarrow> sector \<Rightarrow> sector_data \<Rightarrow> 'm"

record 'm block_device =
  dev_name :: "byte list"
  dev_type :: block_type
  dev_size :: nat
  ops :: "'m block_ops"
  media :: 'm
  read_cnt :: nat
  write_cnt :: nat

definition dev_read :: "sector \<Rightarrow> 'm block_device \<Rightarrow> (sector_data \<times> 'm block_device) option" where
  "dev_read s dev = do {
     assert (s < dev_size dev);
     Some (op_read (ops dev) (media dev) s, dev \<lparr> read_cnt := read_cnt dev + 1 \<rparr>)
   }"

definition dev_write :: "sector \<Rightarrow> sector_data \<Rightarrow> 'm block_device \<Rightarrow> 'm block_device option" where
  "dev_write s buf dev = do {
     assert (s < dev_size dev);
     Some (dev \<lparr> media := op_write (ops dev) (media dev) s buf, write_cnt := write_cnt dev + 1 \<rparr>)
   }"

text \<open>\<open>takeWhile\<close> up to the first zero byte is \<open>[..position(0).unwrap_or(len)]\<close>. Text is its UTF-8
  bytes; \<open>???\<close> stands for a name that is not UTF-8.\<close>

definition name_str :: "'m block_device \<Rightarrow> byte list" where
  "name_str dev =
     (let name = takeWhile (\<lambda>b. b \<noteq> 0) (dev_name dev)
      in if valid_utf8 name then name else [0x3F, 0x3F, 0x3F])"

record 'm registry =
  devices :: "'m block_device list"
  roles :: "nat option list"

definition role_index :: "block_type \<Rightarrow> nat option" where
  "role_index role = (case role of
       FileSys \<Rightarrow> Some 0 | Scratch \<Rightarrow> Some 1 | Swap \<Rightarrow> Some 2 | Raw \<Rightarrow> Some 3 | _ \<Rightarrow> None)"

definition register ::
    "byte list \<Rightarrow> block_type \<Rightarrow> nat \<Rightarrow> 'm block_ops \<Rightarrow> 'm \<Rightarrow> 'm registry \<Rightarrow> nat \<times> 'm registry" where
  "register name type sz drv m r =
     (let len = min (length name) 15;
          name_buf = take len name @ replicate (16 - len) 0;
          dev = \<lparr> dev_name = name_buf, dev_type = type, dev_size = sz, ops = drv, media = m,
                  read_cnt = 0, write_cnt = 0 \<rparr>;
          i = length (devices r)
      in (i, r \<lparr> devices := devices r @ [dev] \<rparr>))"

text \<open>A \<open>&mut BlockDevice\<close> is the index of the device.\<close>

definition get_by_name :: "byte list \<Rightarrow> 'm registry \<Rightarrow> nat option" where
  "get_by_name name r = List.find (\<lambda>i. name_str (devices r ! i) = name) [0 ..< length (devices r)]"

definition get_role :: "block_type \<Rightarrow> 'm registry \<Rightarrow> nat option option" where
  "get_role role r = (case role_index role of
       None \<Rightarrow> Some None
     | Some ri \<Rightarrow> do {
         slot \<leftarrow> idx (roles r) ri;
         Some (case slot of
             None \<Rightarrow> None
           | Some i \<Rightarrow> if i < length (devices r) then Some i else None)
       })"

definition set_role :: "block_type \<Rightarrow> nat \<Rightarrow> 'm registry \<Rightarrow> 'm registry option" where
  "set_role role dev_idx r = (case role_index role of
       None \<Rightarrow> Some r
     | Some ri \<Rightarrow> do { rs \<leftarrow> upd (roles r) ri (Some dev_idx); Some (r \<lparr> roles := rs \<rparr>) })"

text \<open>Reading and writing a sector of the device of a role, as the buffer cache and the swap area
  do it: \<open>if let Some(dev) = block::get_role(..) { dev.read(..) }\<close>.\<close>

definition role_read :: "block_type \<Rightarrow> sector \<Rightarrow> sector_data \<Rightarrow> 'm registry
    \<Rightarrow> (sector_data \<times> 'm registry) option" where
  "role_read role s buf r = do {
     dev \<leftarrow> get_role role r;
     case dev of
       None \<Rightarrow> Some (buf, r)
     | Some i \<Rightarrow> do {
         (d, dv) \<leftarrow> dev_read s (devices r ! i);
         Some (d, r \<lparr> devices := (devices r)[i := dv] \<rparr>)
       }
   }"

definition role_write :: "block_type \<Rightarrow> sector \<Rightarrow> sector_data \<Rightarrow> 'm registry \<Rightarrow> 'm registry option" where
  "role_write role s buf r = do {
     dev \<leftarrow> get_role role r;
     case dev of
       None \<Rightarrow> Some r
     | Some i \<Rightarrow> do {
         dv \<leftarrow> dev_write s buf (devices r ! i);
         Some (r \<lparr> devices := (devices r)[i := dv] \<rparr>)
       }
   }"

subsection \<open>The interface of a sector store\<close>

locale sector_store =
  fixes rd :: "sector \<Rightarrow> 's \<Rightarrow> (sector_data \<times> 's) option"
    and wr :: "sector \<Rightarrow> sector_data \<Rightarrow> 's \<Rightarrow> 's option"
    and disk :: "'s \<Rightarrow> sector \<Rightarrow> sector_data"
    and cap :: "'s \<Rightarrow> nat"
    and ok :: "'s \<Rightarrow> bool"
  assumes rd_disk: "ok s \<Longrightarrow> n < cap s \<Longrightarrow>
      \<exists>s'. rd n s = Some (disk s n, s') \<and> ok s' \<and> disk s' = disk s \<and> cap s' = cap s"
    and wr_disk: "ok s \<Longrightarrow> n < cap s \<Longrightarrow> length d = 512 \<Longrightarrow>
      \<exists>s'. wr n d s = Some s' \<and> ok s' \<and> disk s' = (disk s)(n := d) \<and> cap s' = cap s"
    and disk_length: "ok s \<Longrightarrow> n < cap s \<Longrightarrow> length (disk s n) = 512"
begin

text \<open>What is written is read back, and no other sector is affected.\<close>

lemma read_after_write:
  assumes "ok s" and "n < cap s" and "m < cap s" and "length d = 512"
  shows "\<exists>s1 s2. wr n d s = Some s1 \<and> rd m s1 = Some (if m = n then d else disk s m, s2)"
proof -
  obtain s1 where s1: "wr n d s = Some s1" "ok s1" "disk s1 = (disk s)(n := d)" "cap s1 = cap s"
    using wr_disk [OF assms(1,2,4)] by blast
  then obtain s2 where "rd m s1 = Some (disk s1 m, s2)" using rd_disk [of s1 m] assms(3) by auto
  with s1(1,3) show ?thesis by simp
qed

end

subsection \<open>A registered device is a sector store\<close>

definition ops_ok :: "'m block_ops \<Rightarrow> bool" where
  "ops_ok ds \<longleftrightarrow>
     (\<forall>m s. length (op_read ds m s) = 512) \<and>
     (\<forall>m s d t. length d = 512 \<longrightarrow>
        op_read ds (op_write ds m s d) t = (if t = s then d else op_read ds m t))"

definition role_dev :: "block_type \<Rightarrow> 'm registry \<Rightarrow> 'm block_device" where
  "role_dev role r = devices r ! the (the (get_role role r))"

definition role_disk :: "block_type \<Rightarrow> 'm registry \<Rightarrow> sector \<Rightarrow> sector_data" where
  "role_disk role r s = op_read (ops (role_dev role r)) (media (role_dev role r)) s"

definition role_cap :: "block_type \<Rightarrow> 'm registry \<Rightarrow> nat" where
  "role_cap role r = dev_size (role_dev role r)"

definition role_ok :: "block_type \<Rightarrow> 'm registry \<Rightarrow> bool" where
  "role_ok role r \<longleftrightarrow> (\<exists>i. get_role role r = Some (Some i) \<and> i < length (devices r)
     \<and> ops_ok (ops (devices r ! i)))"

lemma get_role_devices [simp]:
  "length ds = length (devices r) \<Longrightarrow> get_role role (r \<lparr> devices := ds \<rparr>) = get_role role r"
  by (simp add: get_role_def cong: option.case_cong)

interpretation rd: sector_store "\<lambda>s r. role_read role s buf r" "role_write role"
  "role_disk role" "role_cap role" "role_ok role" for role buf
proof
  fix r :: "'a registry" and n d
  assume r: "role_ok role r" "n < role_cap role r"
  from r(1) obtain i where i: "get_role role r = Some (Some i)" "i < length (devices r)"
    "ops_ok (ops (devices r ! i))" by (auto simp: role_ok_def)
  note defs = role_read_def role_write_def role_disk_def role_cap_def role_ok_def role_dev_def
    dev_read_def dev_write_def i
  show "\<exists>r'. role_read role n buf r = Some (role_disk role r n, r') \<and> role_ok role r'
      \<and> role_disk role r' = role_disk role r \<and> role_cap role r' = role_cap role r"
    using r(2) i by (simp add: defs fun_eq_iff)
  show "\<exists>r'. role_write role n d r = Some r' \<and> role_ok role r'
      \<and> role_disk role r' = (role_disk role r)(n := d) \<and> role_cap role r' = role_cap role r"
    if "length d = 512"
    using r(2) i that by (simp add: defs fun_eq_iff ops_ok_def)
  show "length (role_disk role r n) = 512" using i(3) by (simp add: role_disk_def role_dev_def i ops_ok_def)
qed

subsection \<open>A RAM disk\<close>

text \<open>A driver that satisfies the laws: the sectors in memory. It serves as the concrete device of
  the examples.\<close>

definition ram_ops :: "(sector \<Rightarrow> sector_data) block_ops" where
  "ram_ops = \<lparr> op_read = (\<lambda>m s. take 512 (m s) @ replicate (512 - length (m s)) 0),
               op_write = (\<lambda>m s d. m(s := d)) \<rparr>"

lemma ram_ops_ok: "ops_ok ram_ops"
  by (auto simp: ops_ok_def ram_ops_def)

definition ram_registry :: "nat \<Rightarrow> (sector \<Rightarrow> sector_data) \<Rightarrow> (sector \<Rightarrow> sector_data) registry" where
  "ram_registry n m = \<lparr> devices = [\<lparr> dev_name = [0x68, 0x64, 0x61], dev_type = FileSys, dev_size = n,
       ops = ram_ops, media = m, read_cnt = 0, write_cnt = 0 \<rparr>],
     roles = [Some 0, None, Some 0, None] \<rparr>"

lemma ram_registry_ok [simp]:
  "role_ok FileSys (ram_registry n m)" "role_cap FileSys (ram_registry n m) = n"
  "role_disk FileSys (ram_registry n m) = (\<lambda>s. take 512 (m s) @ replicate (512 - length (m s)) 0)"
  "role_ok Swap (ram_registry n m)" "role_cap Swap (ram_registry n m) = n"
  "role_disk Swap (ram_registry n m) = (\<lambda>s. take 512 (m s) @ replicate (512 - length (m s)) 0)"
  by (simp_all add: role_ok_def role_cap_def role_disk_def role_dev_def get_role_def role_index_def
      ram_registry_def ram_ops_ok idx_def numeral_2_eq_2 fun_eq_iff) (simp_all add: ram_ops_def)

end
