(* ===== verification/Bio.thy ===== *)
theory Bio
  imports Block
begin

unbundle bit_operations_syntax

section \<open>The buffer cache: filesys/bio.rs\<close>

text \<open>
  A pool of \<open>NBUF\<close> buffers in front of the file-system device. A \<open>&mut Buf\<close> is the index of the
  buffer. The cache lock is its held flag: the file-system operations are modelled one after the
  other, so an \<open>acquire\<close> of a held lock would wait for ever and has no value. The invariant
  \<open>bc_inv\<close> says that valid buffers agree with the device, that no sector is cached twice and that
  only the buffer a caller has between \<open>bread\<close> and \<open>brelse\<close> is referenced. The two access patterns of
  the layers above, \<open>bio_get\<close> (bread, read, brelse) and \<open>bio_update\<close> (bread, modify, bwrite, brelse),
  make the cache a sector store that agrees with the device.
\<close>

definition NBUF :: nat where
  "NBUF = 30"

definition B_VALID :: "32 word" where
  "B_VALID = 0x1"

definition B_DIRTY :: "32 word" where
  "B_DIRTY = 0x2"

record buf =
  flags :: "32 word"
  buf_sector :: sector
  refcnt :: nat
  buf_data :: sector_data

record bcache =
  bc_lock :: bool
  bufs :: "buf list"

record 'm bio =
  BCACHE :: "bcache option"
  reg :: "'m registry"

definition lock_acquire :: "bool \<Rightarrow> bool option" where
  "lock_acquire held = (if held then None else Some True)"

definition lock_release :: "bool \<Rightarrow> bool option" where
  "lock_release held = (if held then Some False else None)"

definition bio_init :: "'m bio \<Rightarrow> 'm bio" where
  "bio_init s = s \<lparr> BCACHE := Some \<lparr> bc_lock = False,
     bufs = replicate NBUF \<lparr> flags = 0, buf_sector = 0, refcnt = 0,
                             buf_data = replicate BLOCK_SECTOR_SIZE 0 \<rparr> \<rparr> \<rparr>"

definition read_sector :: "sector \<Rightarrow> sector_data \<Rightarrow> 'm registry \<Rightarrow> (sector_data \<times> 'm registry) option" where
  "read_sector s buf r = role_read FileSys s buf r"

definition write_sector :: "sector \<Rightarrow> sector_data \<Rightarrow> 'm registry \<Rightarrow> 'm registry option" where
  "write_sector s buf r = role_write FileSys s buf r"

text \<open>The search loops of \<open>bread\<close>: the first buffer that holds the sector, the first unreferenced
  one.\<close>

definition find_cached :: "sector \<Rightarrow> buf list \<Rightarrow> nat option" where
  "find_cached s bs =
     List.find (\<lambda>i. buf_sector (bs ! i) = s \<and> flags (bs ! i) AND B_VALID \<noteq> 0) [0 ..< length bs]"

definition find_unused :: "buf list \<Rightarrow> nat option" where
  "find_unused bs = List.find (\<lambda>i. refcnt (bs ! i) = 0) [0 ..< length bs]"

definition bread :: "sector \<Rightarrow> 'm bio \<Rightarrow> (nat \<times> 'm bio) option" where
  "bread sector s = do {
     bc \<leftarrow> BCACHE s;
     l \<leftarrow> lock_acquire (bc_lock bc);
     case find_cached sector (bufs bc) of
       Some i \<Rightarrow> do {
         let b = bufs bc ! i;
         n \<leftarrow> add_usize (refcnt b) 1;
         l \<leftarrow> lock_release l;
         Some (i, s \<lparr> BCACHE := Some \<lparr> bc_lock = l, bufs = (bufs bc)[i := b \<lparr> refcnt := n \<rparr>] \<rparr> \<rparr>)
       }
     | None \<Rightarrow> (case find_unused (bufs bc) of
         Some i \<Rightarrow> do {
           let b = bufs bc ! i;
           (b, r) \<leftarrow> (if flags b AND B_DIRTY \<noteq> 0
             then do {
               r \<leftarrow> write_sector (buf_sector b) (buf_data b) (reg s);
               Some (b \<lparr> flags := flags b AND NOT B_DIRTY \<rparr>, r)
             }
             else Some (b, reg s));
           let b = b \<lparr> buf_sector := sector, flags := 0, refcnt := 1 \<rparr>;
           (d, r) \<leftarrow> read_sector sector (buf_data b) r;
           let b = b \<lparr> buf_data := d, flags := flags b OR B_VALID \<rparr>;
           l \<leftarrow> lock_release l;
           Some (i, s \<lparr> BCACHE := Some \<lparr> bc_lock = l, bufs = (bufs bc)[i := b] \<rparr>, reg := r \<rparr>)
         }
       | None \<Rightarrow> None)
   }"

definition brelse :: "nat \<Rightarrow> 'm bio \<Rightarrow> 'm bio option" where
  "brelse i s = do {
     bc \<leftarrow> BCACHE s;
     l \<leftarrow> lock_acquire (bc_lock bc);
     b \<leftarrow> idx (bufs bc) i;
     n \<leftarrow> sub_usize (refcnt b) 1;
     l \<leftarrow> lock_release l;
     Some (s \<lparr> BCACHE := Some \<lparr> bc_lock = l, bufs = (bufs bc)[i := b \<lparr> refcnt := n \<rparr>] \<rparr> \<rparr>)
   }"

definition bwrite :: "nat \<Rightarrow> 'm bio \<Rightarrow> 'm bio option" where
  "bwrite i s = do {
     bc \<leftarrow> BCACHE s;
     b \<leftarrow> idx (bufs bc) i;
     r \<leftarrow> write_sector (buf_sector b) (buf_data b) (reg s);
     let b = b \<lparr> flags := flags b AND NOT B_DIRTY \<rparr>;
     Some (s \<lparr> BCACHE := Some (bc \<lparr> bufs := (bufs bc)[i := b] \<rparr>), reg := r \<rparr>)
   }"

definition sync :: "'m bio \<Rightarrow> 'm bio option" where
  "sync s = do {
     bc \<leftarrow> BCACHE s;
     l \<leftarrow> lock_acquire (bc_lock bc);
     (bs, r) \<leftarrow> for_range 0 (length (bufs bc)) (\<lambda>i (bs, r).
       let b = bs ! i
       in if flags b AND (B_VALID OR B_DIRTY) = B_VALID OR B_DIRTY
          then do {
            r \<leftarrow> write_sector (buf_sector b) (buf_data b) r;
            Some (bs[i := b \<lparr> flags := flags b AND NOT B_DIRTY \<rparr>], r)
          }
          else Some (bs, r)) (bufs bc, reg s);
     l \<leftarrow> lock_release l;
     Some (s \<lparr> BCACHE := Some \<lparr> bc_lock = l, bufs = bs \<rparr>, reg := r \<rparr>)
   }"

definition binvalidate :: "sector \<Rightarrow> 'm bio \<Rightarrow> 'm bio option" where
  "binvalidate sector s = do {
     bc \<leftarrow> BCACHE s;
     l \<leftarrow> lock_acquire (bc_lock bc);
     let bs = map (\<lambda>b. if buf_sector b = sector then b \<lparr> flags := 0, refcnt := 0 \<rparr> else b) (bufs bc);
     l \<leftarrow> lock_release l;
     Some (s \<lparr> BCACHE := Some \<lparr> bc_lock = l, bufs = bs \<rparr> \<rparr>)
   }"

text \<open>Access to the data of a buffer through its reference.\<close>

definition bdata :: "nat \<Rightarrow> 'm bio \<Rightarrow> sector_data option" where
  "bdata i s = do { bc \<leftarrow> BCACHE s; b \<leftarrow> idx (bufs bc) i; Some (buf_data b) }"

definition set_bdata :: "nat \<Rightarrow> sector_data \<Rightarrow> 'm bio \<Rightarrow> 'm bio option" where
  "set_bdata i d s = do {
     bc \<leftarrow> BCACHE s;
     b \<leftarrow> idx (bufs bc) i;
     Some (s \<lparr> BCACHE := Some (bc \<lparr> bufs := (bufs bc)[i := b \<lparr> buf_data := d \<rparr>] \<rparr>) \<rparr>)
   }"

definition bio_get :: "sector \<Rightarrow> 'm bio \<Rightarrow> (sector_data \<times> 'm bio) option" where
  "bio_get sector s = do {
     (i, s) \<leftarrow> bread sector s;
     d \<leftarrow> bdata i s;
     s \<leftarrow> brelse i s;
     Some (d, s)
   }"

definition bio_update :: "sector \<Rightarrow> (sector_data \<Rightarrow> sector_data option) \<Rightarrow> 'm bio \<Rightarrow> 'm bio option" where
  "bio_update sector f s = do {
     (i, s) \<leftarrow> bread sector s;
     d \<leftarrow> bdata i s;
     d' \<leftarrow> f d;
     s \<leftarrow> set_bdata i d' s;
     s \<leftarrow> bwrite i s;
     brelse i s
   }"

subsection \<open>The cache invariant\<close>

abbreviation bio_disk :: "'m bio \<Rightarrow> sector \<Rightarrow> sector_data" where
  "bio_disk s \<equiv> role_disk FileSys (reg s)"

abbreviation bio_cap :: "'m bio \<Rightarrow> nat" where
  "bio_cap s \<equiv> role_cap FileSys (reg s)"

text \<open>A buffer nobody references: empty, or a copy of its sector.\<close>

definition clean_buf :: "'m registry \<Rightarrow> buf \<Rightarrow> bool" where
  "clean_buf r b \<longleftrightarrow> refcnt b = 0 \<and> (flags b = 0 \<or> flags b = B_VALID
     \<and> buf_sector b < role_cap FileSys r \<and> buf_data b = role_disk FileSys r (buf_sector b))"

text \<open>The buffer between \<open>bread\<close> and \<open>brelse\<close>, if any: its index, its sector and its data.\<close>

definition held_buf :: "sector \<Rightarrow> sector_data \<Rightarrow> buf" where
  "held_buf sec d = \<lparr> flags = B_VALID, buf_sector = sec, refcnt = 1, buf_data = d \<rparr>"

definition bufs_inv :: "'m registry \<Rightarrow> buf list \<Rightarrow> (nat \<times> sector \<times> sector_data) option \<Rightarrow> bool" where
  "bufs_inv r bs h \<longleftrightarrow> length bs = NBUF
     \<and> (\<forall>i < NBUF. case h of
          None \<Rightarrow> clean_buf r (bs ! i)
        | Some (j, sec, d) \<Rightarrow> if i = j then bs ! i = held_buf sec d else clean_buf r (bs ! i))
     \<and> inj_on (\<lambda>i. buf_sector (bs ! i)) {i. i < NBUF \<and> flags (bs ! i) = B_VALID}
     \<and> (case h of None \<Rightarrow> True
         | Some (j, sec, d) \<Rightarrow> j < NBUF \<and> sec < role_cap FileSys r \<and> length d = 512)"

definition bc_inv :: "'m bio \<Rightarrow> (nat \<times> sector \<times> sector_data) option \<Rightarrow> bool" where
  "bc_inv s h \<longleftrightarrow> role_ok FileSys (reg s)
     \<and> (\<exists>bs. BCACHE s = Some \<lparr> bc_lock = False, bufs = bs \<rparr> \<and> bufs_inv (reg s) bs h)"

abbreviation bio_ok :: "'m bio \<Rightarrow> bool" where
  "bio_ok s \<equiv> bc_inv s None"

lemma valid_flag [simp]: "B_VALID AND B_VALID \<noteq> 0" "B_VALID AND B_DIRTY = 0" "0 OR B_VALID = B_VALID"
  "B_VALID AND NOT B_DIRTY = B_VALID" "B_VALID \<noteq> 0"
  by (simp_all add: B_VALID_def B_DIRTY_def)

lemma clean_buf_cong:
  "role_disk FileSys r' = role_disk FileSys r \<Longrightarrow> role_cap FileSys r' = role_cap FileSys r
     \<Longrightarrow> clean_buf r' b = clean_buf r b"
  by (simp add: clean_buf_def)

lemma bufs_inv_clean: "bufs_inv r bs None \<Longrightarrow> i < NBUF \<Longrightarrow> clean_buf r (bs ! i)"
  by (simp add: bufs_inv_def)

lemma bufs_inv_other:
  "bufs_inv r bs (Some (i, sec, d)) \<Longrightarrow> j < NBUF \<Longrightarrow> j \<noteq> i \<Longrightarrow> clean_buf r (bs ! j)"
  by (simp add: bufs_inv_def)

text \<open>Changes that keep the flags and the sectors keep the absence of duplicates.\<close>

lemma bufs_inv_change:
  assumes "bufs_inv r bs h" and "length bs' = length bs"
    and "\<And>j. flags (bs' ! j) = flags (bs ! j) \<and> buf_sector (bs' ! j) = buf_sector (bs ! j)"
    and "\<And>i. i < NBUF \<Longrightarrow> case h' of None \<Rightarrow> clean_buf r' (bs' ! i)
        | Some (j, sec, d) \<Rightarrow> if i = j then bs' ! i = held_buf sec d else clean_buf r' (bs' ! i)"
    and "case h' of None \<Rightarrow> True
         | Some (j, sec, d) \<Rightarrow> j < NBUF \<and> sec < role_cap FileSys r' \<and> length d = 512"
  shows "bufs_inv r' bs' h'"
proof -
  have "inj_on (\<lambda>i. buf_sector (bs' ! i)) {i. i < NBUF \<and> flags (bs' ! i) = B_VALID}"
    using assms(1) unfolding bufs_inv_def by (simp add: assms(3))
  then show ?thesis using assms(1,2,4,5) unfolding bufs_inv_def by simp
qed

lemma find_cached_Some:
  assumes "bufs_inv r bs None" and "find_cached sec bs = Some i"
  shows "i < NBUF" "flags (bs ! i) = B_VALID" "buf_sector (bs ! i) = sec" "refcnt (bs ! i) = 0"
    "buf_data (bs ! i) = role_disk FileSys r sec"
proof -
  from assms(2) have i: "i < length bs" "buf_sector (bs ! i) = sec" "flags (bs ! i) AND B_VALID \<noteq> 0"
    by (auto simp: find_cached_def find_Some_iff)
  with assms(1) have "i < NBUF" "clean_buf r (bs ! i)" by (auto simp: bufs_inv_def)
  with i show "i < NBUF" "flags (bs ! i) = B_VALID" "buf_sector (bs ! i) = sec" "refcnt (bs ! i) = 0"
    "buf_data (bs ! i) = role_disk FileSys r sec" by (auto simp: clean_buf_def)
qed

lemma find_cached_None:
  assumes "bufs_inv r bs h" and "find_cached sec bs = None" and "i < NBUF"
    and "flags (bs ! i) = B_VALID"
  shows "buf_sector (bs ! i) \<noteq> sec"
  using assms by (auto simp: find_cached_def find_None_iff bufs_inv_def)

lemma find_unused_first: "bufs_inv r bs None \<Longrightarrow> find_unused bs = Some 0"
  by (auto simp: find_unused_def find_Some_iff bufs_inv_def clean_buf_def NBUF_def
      intro!: exI [of _ 0])

lemma bufs_inv_hold:
  assumes "bufs_inv r bs None" and "i < NBUF" and "sec < role_cap FileSys r" and "length d = 512"
    and "\<And>j. j < NBUF \<Longrightarrow> j \<noteq> i \<Longrightarrow> flags (bs ! j) = B_VALID \<Longrightarrow> buf_sector (bs ! j) \<noteq> sec"
    and "role_disk FileSys r' = role_disk FileSys r" "role_cap FileSys r' = role_cap FileSys r"
  shows "bufs_inv r' (bs[i := held_buf sec d]) (Some (i, sec, d))"
proof -
  let ?bs = "bs[i := held_buf sec d]"
  have len: "length bs = NBUF" and inj: "inj_on (\<lambda>i. buf_sector (bs ! i)) {i. i < NBUF \<and> flags (bs ! i) = B_VALID}"
    using assms(1) by (simp_all add: bufs_inv_def)
  have "inj_on (\<lambda>i. buf_sector (?bs ! i)) {i. i < NBUF \<and> flags (?bs ! i) = B_VALID}"
  proof (rule inj_onI)
    fix x y
    assume "x \<in> {i. i < NBUF \<and> flags (?bs ! i) = B_VALID}" "y \<in> {i. i < NBUF \<and> flags (?bs ! i) = B_VALID}"
      and "buf_sector (?bs ! x) = buf_sector (?bs ! y)"
    then show "x = y"
      using assms(5) [of x] assms(5) [of y] inj_onD [OF inj, of x y] len
      by (cases "x = i"; cases "y = i") (auto simp: held_buf_def)
  qed
  then show ?thesis
    using assms(1-4,6,7) len
    by (simp add: bufs_inv_def nth_list_update clean_buf_cong [OF assms(6,7)])
qed

lemma bread_spec:
  assumes inv: "bio_ok s" and sec: "sec < bio_cap s"
  shows "\<exists>i s'. bread sec s = Some (i, s') \<and> bc_inv s' (Some (i, sec, bio_disk s sec))
           \<and> bio_disk s' = bio_disk s \<and> bio_cap s' = bio_cap s"
proof -
  from inv obtain bs where bs: "BCACHE s = Some \<lparr> bc_lock = False, bufs = bs \<rparr>"
    "bufs_inv (reg s) bs None" and r: "role_ok FileSys (reg s)" by (auto simp: bc_inv_def)
  have len: "length (bio_disk s sec) = 512" using rd.disk_length [OF r sec] .
  show ?thesis
  proof (cases "find_cached sec bs")
    case (Some i)
    note c = find_cached_Some [OF bs(2) Some]
    have "(bs ! i) \<lparr> refcnt := 1 \<rparr> = held_buf sec (bio_disk s sec)"
      using c by (simp add: held_buf_def)
    moreover have "bufs_inv (reg s) (bs[i := held_buf sec (bio_disk s sec)]) (Some (i, sec, bio_disk s sec))"
      using bs(2) c sec len by (intro bufs_inv_hold) (auto simp: bufs_inv_def dest: inj_onD)
    ultimately show ?thesis using bs(1) r Some c(4)
      by (simp add: bread_def lock_acquire_def lock_release_def add_usize_def bc_inv_def Let_def)
  next
    case None
    from rd.rd_disk [OF r sec, of "buf_data (bs ! 0)"] obtain r' where
      r': "role_read FileSys sec (buf_data (bs ! 0)) (reg s) = Some (bio_disk s sec, r')"
        "role_ok FileSys r'" "role_disk FileSys r' = bio_disk s" "role_cap FileSys r' = bio_cap s"
      by blast
    have "flags (bs ! 0) = 0 \<or> flags (bs ! 0) = B_VALID"
      using bufs_inv_clean [OF bs(2), of 0] by (auto simp: NBUF_def clean_buf_def)
    then have nd: "flags (bs ! 0) AND B_DIRTY = 0" by auto
    have "bufs_inv r' (bs[0 := held_buf sec (bio_disk s sec)]) (Some (0, sec, bio_disk s sec))"
      using bs(2) sec len find_cached_None [OF bs(2) None] r'(3,4)
      by (intro bufs_inv_hold) (auto simp: NBUF_def)
    moreover have "(bs ! 0) \<lparr> buf_sector := sec, refcnt := Suc 0, buf_data := bio_disk s sec,
        flags := B_VALID \<rparr> = held_buf sec (bio_disk s sec)" by (simp add: held_buf_def)
    ultimately show ?thesis using nd r' bs(1) None find_unused_first [OF bs(2)]
      by (simp add: bread_def lock_acquire_def lock_release_def bc_inv_def Let_def read_sector_def)
  qed
qed

lemma heldE:
  assumes "bc_inv s (Some (i, sec, d))"
  obtains bs where "BCACHE s = Some \<lparr> bc_lock = False, bufs = bs \<rparr>"
    "bufs_inv (reg s) bs (Some (i, sec, d))" "role_ok FileSys (reg s)" "i < NBUF" "i < length bs"
    "bs ! i = held_buf sec d" "sec < bio_cap s" "length d = 512"
proof -
  from assms obtain bs where bs: "BCACHE s = Some \<lparr> bc_lock = False, bufs = bs \<rparr>"
    "bufs_inv (reg s) bs (Some (i, sec, d))" "role_ok FileSys (reg s)" unfolding bc_inv_def by blast
  then have "i < NBUF" "length bs = NBUF" "sec < bio_cap s" "length d = 512"
    unfolding bufs_inv_def by simp_all
  moreover have "bs ! i = held_buf sec d" using bs(2) calculation(1) unfolding bufs_inv_def by simp
  ultimately show ?thesis using that bs by simp
qed

lemma bdata_held: "bc_inv s (Some (i, sec, d)) \<Longrightarrow> bdata i s = Some d"
  by (erule heldE) (simp add: bdata_def idx_def held_buf_def)

lemma set_bdata_held:
  assumes "bc_inv s (Some (i, sec, d))" and "length d' = 512"
  shows "\<exists>s'. set_bdata i d' s = Some s' \<and> bc_inv s' (Some (i, sec, d')) \<and> reg s' = reg s"
  using assms(1)
proof (rule heldE)
  fix bs
  assume bs: "BCACHE s = Some \<lparr> bc_lock = False, bufs = bs \<rparr>" "bufs_inv (reg s) bs (Some (i, sec, d))"
    "role_ok FileSys (reg s)" "i < NBUF" "i < length bs" "bs ! i = held_buf sec d"
  have "flags (bs[i := held_buf sec d'] ! j) = flags (bs ! j)
      \<and> buf_sector (bs[i := held_buf sec d'] ! j) = buf_sector (bs ! j)" for j
    using bs(5,6) by (cases "j = i") (simp_all add: held_buf_def)
  then have "bufs_inv (reg s) (bs[i := held_buf sec d']) (Some (i, sec, d'))"
    by (intro bufs_inv_change [OF bs(2)]) (use bs(2,5) assms(2) in \<open>simp_all add: bufs_inv_def\<close>)
  with bs show ?thesis by (simp add: set_bdata_def idx_def bc_inv_def held_buf_def)
qed

lemma bwrite_held:
  assumes "bc_inv s (Some (i, sec, d))"
  shows "\<exists>s'. bwrite i s = Some s' \<and> bc_inv s' (Some (i, sec, d))
           \<and> bio_disk s' = (bio_disk s)(sec := d) \<and> bio_cap s' = bio_cap s"
proof -
  obtain bs where bs: "BCACHE s = Some \<lparr> bc_lock = False, bufs = bs \<rparr>"
    "bufs_inv (reg s) bs (Some (i, sec, d))" and r: "role_ok FileSys (reg s)"
    and i: "i < NBUF" "i < length bs" "bs ! i = held_buf sec d" "sec < bio_cap s" "length d = 512"
    using heldE [OF assms] by metis
  from rd.wr_disk [OF r i(4,5)] obtain r' where r': "role_write FileSys sec d (reg s) = Some r'"
    "role_ok FileSys r'" "role_disk FileSys r' = (bio_disk s)(sec := d)"
    "role_cap FileSys r' = bio_cap s" by blast
  have "clean_buf r' (bs ! j)" if "j < NBUF" "j \<noteq> i" for j
  proof -
    have c: "clean_buf (reg s) (bs ! j)"
      and "inj_on (\<lambda>i. buf_sector (bs ! i)) {i. i < NBUF \<and> flags (bs ! i) = B_VALID}"
      using bs(2) that by (simp_all add: bufs_inv_def)
    from inj_onD [OF this(2), of j i] that i(1,3)
    have "flags (bs ! j) = B_VALID \<longrightarrow> buf_sector (bs ! j) \<noteq> sec" by (auto simp: held_buf_def)
    with c show ?thesis by (auto simp: clean_buf_def r'(3,4))
  qed
  then have "bufs_inv r' bs (Some (i, sec, d))"
    using i r'(4) by (intro bufs_inv_change [OF bs(2)]) simp_all
  moreover have "bs[i := held_buf sec d] = bs" using i(3) by (metis list_update_id)
  ultimately show ?thesis using bs(1) i r'
    by (simp add: bwrite_def idx_def write_sector_def bc_inv_def held_buf_def Let_def)
qed

lemma brelse_held:
  assumes "bc_inv s (Some (i, sec, d))" and "bio_disk s sec = d"
  shows "\<exists>s'. brelse i s = Some s' \<and> bio_ok s' \<and> reg s' = reg s"
proof -
  obtain bs where bs: "BCACHE s = Some \<lparr> bc_lock = False, bufs = bs \<rparr>"
    "bufs_inv (reg s) bs (Some (i, sec, d))" and r: "role_ok FileSys (reg s)"
    and i: "i < NBUF" "i < length bs" "bs ! i = held_buf sec d" "sec < bio_cap s" "length d = 512"
    using heldE [OF assms(1)] by metis
  let ?bs = "bs[i := held_buf sec d \<lparr> refcnt := 0 \<rparr>]"
  have same: "flags (?bs ! j) = flags (bs ! j) \<and> buf_sector (?bs ! j) = buf_sector (bs ! j)" for j
    using i(2,3) by (cases "j = i") (simp_all add: held_buf_def)
  have "clean_buf (reg s) (?bs ! j)" if "j < NBUF" for j
  proof (cases "j = i")
    case True
    with i assms(2) show ?thesis by (simp add: clean_buf_def held_buf_def)
  next
    case False
    with bufs_inv_other [OF bs(2) that] show ?thesis by simp
  qed
  then have "bufs_inv (reg s) ?bs None"
    using same by (intro bufs_inv_change [OF bs(2)]) simp_all
  with bs(1) i r show ?thesis
    by (simp add: brelse_def idx_def lock_acquire_def lock_release_def sub_usize_def bc_inv_def
        held_buf_def)
qed

subsection \<open>The access patterns\<close>

lemma bio_get_spec:
  assumes "bio_ok s" and "sec < bio_cap s"
  shows "\<exists>s'. bio_get sec s = Some (bio_disk s sec, s') \<and> bio_ok s'
           \<and> bio_disk s' = bio_disk s \<and> bio_cap s' = bio_cap s"
proof -
  from bread_spec [OF assms] obtain i s1 where s1: "bread sec s = Some (i, s1)"
    "bc_inv s1 (Some (i, sec, bio_disk s sec))" "bio_disk s1 = bio_disk s" "bio_cap s1 = bio_cap s"
    by blast
  from brelse_held [OF s1(2)] s1(3) obtain s2 where
    "brelse i s1 = Some s2" "bio_ok s2" "reg s2 = reg s1" by auto
  with s1 bdata_held [OF s1(2)] show ?thesis by (simp add: bio_get_def)
qed

lemma bio_update_spec:
  assumes "bio_ok s" and "sec < bio_cap s" and "f (bio_disk s sec) = Some d" and "length d = 512"
  shows "\<exists>s'. bio_update sec f s = Some s' \<and> bio_ok s'
           \<and> bio_disk s' = (bio_disk s)(sec := d) \<and> bio_cap s' = bio_cap s"
proof -
  from bread_spec [OF assms(1,2)] obtain i s1 where s1: "bread sec s = Some (i, s1)"
    "bc_inv s1 (Some (i, sec, bio_disk s sec))" "bio_disk s1 = bio_disk s" "bio_cap s1 = bio_cap s"
    by blast
  from set_bdata_held [OF s1(2) assms(4)] obtain s2 where s2: "set_bdata i d s1 = Some s2"
    "bc_inv s2 (Some (i, sec, d))" "reg s2 = reg s1" by blast
  from bwrite_held [OF s2(2)] obtain s3 where s3: "bwrite i s2 = Some s3"
    "bc_inv s3 (Some (i, sec, d))" "bio_disk s3 = (bio_disk s2)(sec := d)" "bio_cap s3 = bio_cap s2"
    by blast
  from brelse_held [OF s3(2)] s3(3) obtain s4 where "brelse i s3 = Some s4" "bio_ok s4" "reg s4 = reg s3"
    by auto
  with s1 s2 s3 bdata_held [OF s1(2)] assms(3) show ?thesis by (simp add: bio_update_def)
qed

interpretation bc: sector_store bio_get "\<lambda>n d. bio_update n (\<lambda>_. Some d)" bio_disk bio_cap "\<lambda>s. bio_ok s"
proof
  fix s :: "'a bio" and n d
  assume s: "bio_ok s" "n < bio_cap s"
  show "\<exists>s'. bio_get n s = Some (bio_disk s n, s') \<and> bio_ok s' \<and> bio_disk s' = bio_disk s
      \<and> bio_cap s' = bio_cap s" using s by (rule bio_get_spec)
  show "\<exists>s'. bio_update n (\<lambda>_. Some d) s = Some s' \<and> bio_ok s' \<and> bio_disk s' = (bio_disk s)(n := d)
      \<and> bio_cap s' = bio_cap s" if "length d = 512" using s that by (intro bio_update_spec) auto
  show "length (bio_disk s n) = 512" using s by (auto simp: bc_inv_def intro: rd.disk_length)
qed

lemma bio_init_ok: "role_ok FileSys (reg s) \<Longrightarrow> bio_ok (bio_init s)"
  by (auto simp: bio_init_def bc_inv_def bufs_inv_def clean_buf_def inj_on_def)

subsection \<open>Properties\<close>

text \<open>C6: the buffer cache is transparent and write-through. From any state that satisfies the cache
  invariant, updating a sector through the cache succeeds and changes exactly that sector of the
  device; reading any sector afterwards through the cache succeeds and returns what the device
  holds: the new contents for that sector, the old ones for every other. The invariant is kept.\<close>

theorem cache_read_after_write:
  assumes "bio_ok s" and "n < bio_cap s" and "m < bio_cap s"
    and "f (bio_disk s n) = Some d" and "length d = 512"
  shows "\<exists>s1 s2. bio_update n f s = Some s1 \<and> bio_disk s1 = (bio_disk s)(n := d)
    \<and> bio_get m s1 = Some (if m = n then d else bio_disk s m, s2) \<and> bio_disk s2 = bio_disk s1
    \<and> bio_ok s2 \<and> bio_cap s2 = bio_cap s"
proof -
  from bio_update_spec [where f = f, OF assms(1,2,4,5)] obtain s1 where s1: "bio_update n f s = Some s1"
    "bio_ok s1" "bio_disk s1 = (bio_disk s)(n := d)" "bio_cap s1 = bio_cap s" by blast
  with bio_get_spec [OF s1(2), of m] assms(3) obtain s2 where
    "bio_get m s1 = Some (bio_disk s1 m, s2)" "bio_ok s2" "bio_disk s2 = bio_disk s1"
    "bio_cap s2 = bio_cap s" by auto
  with s1 show ?thesis by simp
qed

definition sample_bio :: "(sector \<Rightarrow> sector_data) bio" where
  "sample_bio = bio_init \<lparr> BCACHE = None, reg = ram_registry 64 (\<lambda>_. []) \<rparr>"

lemma sample_bio_ok: "bio_ok sample_bio" "reg sample_bio = ram_registry 64 (\<lambda>_. [])"
  unfolding sample_bio_def by (rule bio_init_ok) (simp_all add: bio_init_def)

theorem cache_read_after_write_witness:
  "\<exists>s1 s2. bio_update 7 (\<lambda>d. upd d 3 0xAB) sample_bio = Some s1
    \<and> bio_disk s1 = (bio_disk sample_bio)(7 := (replicate 512 0)[3 := 0xAB])
    \<and> bio_get 7 s1 = Some (if (7 :: nat) = 7 then (replicate 512 0)[3 := 0xAB] else bio_disk sample_bio 7, s2)
    \<and> bio_disk s2 = bio_disk s1 \<and> bio_ok s2 \<and> bio_cap s2 = bio_cap sample_bio"
  by (rule cache_read_after_write [where f = "\<lambda>d. upd d 3 0xAB"]) (simp_all add: sample_bio_ok upd_def)

end
