(* ===== verification/FreeMap.thy ===== *)
theory FreeMap
  imports Bitmap Block
begin

unbundle bit_operations_syntax

section \<open>The sector free map in memory: filesys/free_map.rs\<close>

text \<open>
  The bit vector of used sectors and the allocation of runs of sectors. The operations that keep
  the map on disk through the inode of sector 0 are in the theory of the file system, because they
  call the inode layer. The free map provides the interface \<open>bit_store\<close>.
\<close>

record fmap =
  FREE_MAP :: "byte list option"
  SECTOR_COUNT :: nat
  IN_FLUSH :: bool

definition bit_get :: "sector \<Rightarrow> fmap \<Rightarrow> bool option" where
  "bit_get sector fm = do {
     bm \<leftarrow> FREE_MAP fm;
     if sector div 8 \<ge> length bm then Some False
     else Some (bm ! (sector div 8) AND push_bit (sector mod 8) 1 \<noteq> 0)
   }"

definition bit_set :: "sector \<Rightarrow> bool \<Rightarrow> fmap \<Rightarrow> fmap option" where
  "bit_set sector val fm = do {
     bm \<leftarrow> FREE_MAP fm;
     if sector div 8 \<ge> length bm then Some fm
     else let byte = bm ! (sector div 8); mask = push_bit (sector mod 8) 1
          in if val then Some (fm \<lparr> FREE_MAP := Some (bm[sector div 8 := byte OR mask]) \<rparr>)
             else Some (fm \<lparr> FREE_MAP := Some (bm[sector div 8 := byte AND NOT mask]) \<rparr>)
   }"

definition fm_init :: "nat \<Rightarrow> fmap \<Rightarrow> fmap option" where
  "fm_init sector_count fm = do {
     let fm = fm \<lparr> SECTOR_COUNT := sector_count,
                   FREE_MAP := Some (replicate (div_ceil sector_count 8) 0) \<rparr>;
     fm \<leftarrow> bit_set 0 True fm;
     bit_set 1 True fm
   }"

text \<open>The inner loop of \<open>allocate\<close>: the first used sector of the \<open>n\<close> ones from \<open>start + i\<close> on.\<close>

primrec first_used :: "fmap \<Rightarrow> nat \<Rightarrow> nat \<Rightarrow> nat \<Rightarrow> nat option option" where
  "first_used fm start i 0 = Some None"
| "first_used fm start i (Suc n) = do {
     u \<leftarrow> bit_get (start + i) fm;
     if u then Some (Some i) else first_used fm start (Suc i) n
   }"

function alloc_scan :: "fmap \<Rightarrow> nat \<Rightarrow> nat \<Rightarrow> (sector option \<times> fmap) option" where
  "alloc_scan fm cnt start = do {
     stop \<leftarrow> add_usize start cnt;
     if stop \<le> SECTOR_COUNT fm
     then do {
       u \<leftarrow> first_used fm start 0 cnt;
       case u of
         Some i \<Rightarrow> alloc_scan fm cnt (start + i + 1)
       | None \<Rightarrow> do {
           fm' \<leftarrow> for_range start cnt (\<lambda>s fm. bit_set s True fm) fm;
           Some (Some start, fm')
         }
     }
     else Some (None, fm)
   }"
  by pat_completeness auto
termination
  by (relation "measure (\<lambda>(fm, cnt, start). Suc (SECTOR_COUNT fm) - start)")
    (auto simp: add_usize_def split: if_splits)

declare alloc_scan.simps [simp del]

definition fm_allocate :: "nat \<Rightarrow> fmap \<Rightarrow> (sector option \<times> fmap) option" where
  "fm_allocate cnt fm = (if cnt = 0 then Some (None, fm) else alloc_scan fm cnt 2)"

definition fm_release :: "sector \<Rightarrow> nat \<Rightarrow> fmap \<Rightarrow> fmap option" where
  "fm_release sector cnt fm = for_range 0 cnt (\<lambda>i fm. do {
     s \<leftarrow> add_usize sector i;
     bit_set s False fm
   }) fm"

subsection \<open>The free map is a bit store\<close>

definition fm_ok :: "fmap \<Rightarrow> bool" where
  "fm_ok fm \<longleftrightarrow> (\<exists>bm. FREE_MAP fm = Some bm \<and> SECTOR_COUNT fm \<le> 8 * length bm) \<and> SECTOR_COUNT fm < 2 ^ 31"

definition fm_view :: "fmap \<Rightarrow> sector \<Rightarrow> bool" where
  "fm_view fm = array_bit (the (FREE_MAP fm))"

lemma bit_get_eq: "fm_ok fm \<Longrightarrow> bit_get s fm = Some (fm_view fm s)"
  by (auto simp: bit_get_def fm_ok_def fm_view_def array_bit_def and_exp_eq_0_iff_not_bit)

lemma bit_set_eq:
  assumes "fm_ok fm"
  shows "\<exists>fm'. bit_set s v fm = Some fm' \<and> fm_ok fm' \<and> SECTOR_COUNT fm' = SECTOR_COUNT fm
    \<and> IN_FLUSH fm' = IN_FLUSH fm \<and> (s < SECTOR_COUNT fm \<longrightarrow> fm_view fm' = (fm_view fm)(s := v))"
proof -
  obtain bm where bm: "FREE_MAP fm = Some bm" "SECTOR_COUNT fm \<le> 8 * length bm"
    using assms by (auto simp: fm_ok_def)
  show ?thesis
  proof (cases "s div 8 < length bm")
    case True
    have "bit_set s v fm = Some (fm \<lparr> FREE_MAP := Some (array_set bm s v) \<rparr>)"
      using True bm by (simp add: bit_set_def array_set_def Let_def)
    with array_bit_set [OF True, of v] bm assms show ?thesis by (simp add: fm_ok_def fm_view_def)
  next
    case False
    with bm assms show ?thesis by (auto simp: bit_set_def fm_ok_def)
  qed
qed

interpretation fmb: bit_store "\<lambda>fm s. bit_get s fm" "\<lambda>fm s v. bit_set s v fm" fm_view SECTOR_COUNT fm_ok
proof
  fix fm s v assume "fm_ok fm" "s < SECTOR_COUNT fm"
  then show "bit_get s fm = Some (fm_view fm s)"
    and "\<exists>fm'. bit_set s v fm = Some fm' \<and> fm_ok fm' \<and> SECTOR_COUNT fm' = SECTOR_COUNT fm
      \<and> fm_view fm' = (fm_view fm)(s := v)"
    using bit_get_eq bit_set_eq [of fm s v] by auto
qed

lemma first_used_spec:
  assumes "fm_ok fm"
  shows "case first_used fm start i n of
      None \<Rightarrow> False
    | Some None \<Rightarrow> run_at (fm_view fm) False (start + i) n
    | Some (Some j) \<Rightarrow> i \<le> j \<and> j < i + n \<and> fm_view fm (start + j)"
proof (induction n arbitrary: i)
  case (Suc n)
  show ?case
  proof (cases "fm_view fm (start + i)")
    case False
    with Suc.IH [of "Suc i"] show ?thesis
      by (auto simp: bit_get_eq [OF assms] run_at_Suc split: option.splits)
  qed (simp add: bit_get_eq [OF assms])
qed simp

lemma alloc_scan_spec:
  assumes "fm_ok fm" and "0 < cnt" and "SECTOR_COUNT fm + cnt < 2 ^ 32" and "start \<le> SECTOR_COUNT fm"
  shows "\<exists>r fm'. alloc_scan fm cnt start = Some (r, fm')
    \<and> first_fit (fm_view fm) (SECTOR_COUNT fm) False cnt start r
    \<and> (case r of
         None \<Rightarrow> fm' = fm
       | Some i \<Rightarrow> fm_ok fm' \<and> SECTOR_COUNT fm' = SECTOR_COUNT fm
           \<and> fm_view fm' = (\<lambda>j. if i \<le> j \<and> j < i + cnt then True else fm_view fm j))"
  using assms
proof (induction fm cnt start rule: alloc_scan.induct)
  case (1 fm cnt start)
  let ?f = "fm_view fm"
  note unfold = alloc_scan.simps [of fm cnt start]
  have e: "add_usize start cnt = Some (start + cnt)" using 1 by (simp add: add_usize_def)
  show ?case
  proof (cases "start + cnt \<le> SECTOR_COUNT fm")
    case False
    then show ?thesis using e by (simp add: unfold first_fit_none)
  next
    case le: True
    note u = first_used_spec [OF 1(2), of start 0 cnt]
    show ?thesis
    proof (cases "first_used fm start 0 cnt")
      case None
      with u show ?thesis by simp
    next
      case (Some r)
      show ?thesis
      proof (cases r)
        case None
        with Some u have "run_at ?f False start cnt" by simp
        with fmb.put_range [OF 1(2) le, of True] show ?thesis
          using e le Some None by (auto simp: unfold first_fit_here)
      next
        case (Some i)
        with \<open>first_used fm start 0 cnt = Some r\<close> u have i: "i < cnt" "?f (start + i)"
          and f: "first_used fm start 0 cnt = Some (Some i)" by auto
        from 1(1) [OF e le f refl] 1(2-5) i le obtain r' fm' where
          IH: "alloc_scan fm cnt (start + i + 1) = Some (r', fm')"
            "first_fit ?f (SECTOR_COUNT fm) False cnt (start + i + 1) r'"
            "case r' of None \<Rightarrow> fm' = fm
             | Some i \<Rightarrow> fm_ok fm' \<and> SECTOR_COUNT fm' = SECTOR_COUNT fm
                 \<and> fm_view fm' = (\<lambda>j. if i \<le> j \<and> j < i + cnt then True else fm_view fm j)" by auto
        have "first_fit ?f (SECTOR_COUNT fm) False cnt start r'"
          by (rule first_fit_skip [OF IH(2)])
            (simp, rule run_at_broken [where k = "start + i"], use i in auto)
        with IH e le f show ?thesis by (simp add: unfold)
      qed
    qed
  qed
qed

text \<open>One sector at a time, as the inode layer allocates.\<close>

lemma run_at_1 [simp]: "run_at f v i (Suc 0) \<longleftrightarrow> f i = v"
  by (simp add: run_at_Suc)

lemma fm_allocate_one:
  assumes "fm_ok fm" and "2 \<le> SECTOR_COUNT fm"
  shows "\<exists>r fm'. fm_allocate 1 fm = Some (r, fm') \<and>
    (case r of
       None \<Rightarrow> fm' = fm \<and> (\<forall>s. 2 \<le> s \<and> s < SECTOR_COUNT fm \<longrightarrow> fm_view fm s)
     | Some s \<Rightarrow> 2 \<le> s \<and> s < SECTOR_COUNT fm \<and> \<not> fm_view fm s \<and> fm_ok fm'
         \<and> SECTOR_COUNT fm' = SECTOR_COUNT fm \<and> fm_view fm' = (fm_view fm)(s := True))"
proof -
  have "SECTOR_COUNT fm + 1 < 2 ^ 32" using assms(1) by (simp add: fm_ok_def)
  from alloc_scan_spec [OF assms(1) _ this assms(2)] obtain r fm' where
    r: "alloc_scan fm 1 2 = Some (r, fm')" "first_fit (fm_view fm) (SECTOR_COUNT fm) False 1 2 r"
      "case r of None \<Rightarrow> fm' = fm | Some i \<Rightarrow> fm_ok fm' \<and> SECTOR_COUNT fm' = SECTOR_COUNT fm
           \<and> fm_view fm' = (\<lambda>j. if i \<le> j \<and> j < i + 1 then True else fm_view fm j)" by auto
  have eq: "(\<lambda>j. if i \<le> j \<and> j < i + 1 then True else fm_view fm j) = (fm_view fm)(i := True)" for i
    by (auto simp: fun_eq_iff)
  show ?thesis
  proof (cases r)
    case None
    with r show ?thesis by (auto simp: fm_allocate_def first_fit_def)
  next
    case (Some i)
    with r(3) have "fm_ok fm'" "SECTOR_COUNT fm' = SECTOR_COUNT fm"
      "fm_view fm' = (fm_view fm)(i := True)" by (simp_all only: option.case eq)
    with r(1,2) Some show ?thesis by (auto simp: fm_allocate_def first_fit_def)
  qed
qed

lemma fm_release_one:
  assumes "fm_ok fm" and "s < SECTOR_COUNT fm"
  shows "\<exists>fm'. fm_release s 1 fm = Some fm' \<and> fm_ok fm' \<and> SECTOR_COUNT fm' = SECTOR_COUNT fm
    \<and> fm_view fm' = (fm_view fm)(s := False)"
proof -
  have "s < 2 ^ 32" using assms by (simp add: fm_ok_def)
  with bit_set_eq [OF assms(1), of s False] assms(2) show ?thesis
    by (auto simp: fm_release_def add_usize_def)
qed

lemma fm_init_spec:
  assumes "2 \<le> n" and "n < 2 ^ 31"
  shows "\<exists>fm'. fm_init n fm = Some fm' \<and> fm_ok fm' \<and> SECTOR_COUNT fm' = n
    \<and> (\<forall>s < n. fm_view fm' s \<longleftrightarrow> s < 2)"
proof -
  define fm0 where "fm0 = fm \<lparr> SECTOR_COUNT := n, FREE_MAP := Some (replicate (div_ceil n 8) 0) \<rparr>"
  have ok: "fm_ok fm0" using assms(2) by (auto simp: fm0_def fm_ok_def div_ceil_def)
  have zero: "\<not> fm_view fm0 s" for s
    by (auto simp: fm0_def fm_view_def array_bit_def)
  from bit_set_eq [OF ok, of 0 True] assms(1) obtain fm1 where
    f1: "bit_set 0 True fm0 = Some fm1" "fm_ok fm1" "SECTOR_COUNT fm1 = n"
      "fm_view fm1 = (fm_view fm0)(0 := True)" by (auto simp: fm0_def)
  from bit_set_eq [OF f1(2), of 1 True] assms(1) f1(3) obtain fm2 where
    f2: "bit_set 1 True fm1 = Some fm2" "fm_ok fm2" "SECTOR_COUNT fm2 = n"
      "fm_view fm2 = (fm_view fm1)(1 := True)" by auto
  have "fm_init n fm = Some fm2" using f1(1) f2(1) by (simp add: fm_init_def fm0_def)
  moreover have "fm_view fm2 s \<longleftrightarrow> s < 2" for s using zero by (auto simp: f1(4) f2(4))
  ultimately show ?thesis using f2 by blast
qed

subsection \<open>Properties\<close>

text \<open>sector allocation is first fit and exclusive. \<open>allocate\<close> returns without panicking. If it
  answers a sector, that sector is at least 2 (the two inode sectors are never handed out), the
  whole run was free, no earlier run of that length was free, and exactly the run becomes used. If
  it answers nothing, no such run is free and the map is unchanged.\<close>

theorem fm_allocate_first_fit:
  assumes "fm_ok fm" and "0 < cnt" and "cnt < 2 ^ 31" and "2 \<le> SECTOR_COUNT fm"
  shows "\<exists>r fm'. fm_allocate cnt fm = Some (r, fm') \<and>
    (case r of
       None \<Rightarrow> fm' = fm \<and> (\<forall>j \<ge> 2. j + cnt \<le> SECTOR_COUNT fm \<longrightarrow> \<not> run_at (fm_view fm) False j cnt)
     | Some i \<Rightarrow> 2 \<le> i \<and> i + cnt \<le> SECTOR_COUNT fm \<and> run_at (fm_view fm) False i cnt
         \<and> (\<forall>j. 2 \<le> j \<and> j < i \<longrightarrow> \<not> run_at (fm_view fm) False j cnt)
         \<and> (\<forall>j. fm_view fm' j = (i \<le> j \<and> j < i + cnt \<or> fm_view fm j)))"
proof -
  have "SECTOR_COUNT fm + cnt < 2 ^ 32" using assms(1,3) by (simp add: fm_ok_def)
  from alloc_scan_spec [OF assms(1,2) this assms(4)] obtain r fm' where
    r: "alloc_scan fm cnt 2 = Some (r, fm')" "first_fit (fm_view fm) (SECTOR_COUNT fm) False cnt 2 r"
      "case r of None \<Rightarrow> fm' = fm | Some i \<Rightarrow> fm_ok fm' \<and> SECTOR_COUNT fm' = SECTOR_COUNT fm
           \<and> fm_view fm' = (\<lambda>j. if i \<le> j \<and> j < i + cnt then True else fm_view fm j)" by auto
  then show ?thesis using assms(2) by (cases r) (auto simp: fm_allocate_def first_fit_def)
qed

definition sample_fmap :: fmap where
  "sample_fmap = \<lparr> FREE_MAP = Some [0xF7, 0x0F, 0], SECTOR_COUNT = 20, IN_FLUSH = False \<rparr>"

theorem fm_allocate_first_fit_witness:
  "\<exists>r fm'. fm_allocate 3 sample_fmap = Some (r, fm') \<and>
    (case r of
       None \<Rightarrow> fm' = sample_fmap \<and> (\<forall>j \<ge> 2. j + 3 \<le> SECTOR_COUNT sample_fmap
         \<longrightarrow> \<not> run_at (fm_view sample_fmap) False j 3)
     | Some i \<Rightarrow> 2 \<le> i \<and> i + 3 \<le> SECTOR_COUNT sample_fmap \<and> run_at (fm_view sample_fmap) False i 3
         \<and> (\<forall>j. 2 \<le> j \<and> j < i \<longrightarrow> \<not> run_at (fm_view sample_fmap) False j 3)
         \<and> (\<forall>j. fm_view fm' j = (i \<le> j \<and> j < i + 3 \<or> fm_view sample_fmap j)))"
  by (rule fm_allocate_first_fit) (simp_all add: sample_fmap_def fm_ok_def)

end
