(* ===== verification/Encoding.thy ===== *)
theory Encoding
  imports Prelude
begin

section \<open>Little-endian words in byte arrays\<close>

text \<open>
  The kernel stores its on-disk structures as the memory images of \<open>repr(C)\<close> structs on a
  little-endian machine. This theory has the 32-bit word as four bytes, a word of a sector
  (\<open>*ptrs.add(idx)\<close> on the sector's bytes), and the laws of both.
\<close>

definition u32_bytes :: "nat \<Rightarrow> byte list" where
  "u32_bytes n = [of_nat n, of_nat (n div 256), of_nat (n div 256 ^ 2), of_nat (n div 256 ^ 3)]"

definition bytes_u32 :: "byte list \<Rightarrow> nat" where
  "bytes_u32 bs = unat (bs ! 0) + 256 * unat (bs ! 1) + 256 ^ 2 * unat (bs ! 2) + 256 ^ 3 * unat (bs ! 3)"

text \<open>The word at byte offset \<open>k\<close>.\<close>

definition u32_at :: "byte list \<Rightarrow> nat \<Rightarrow> nat" where
  "u32_at bs k = bytes_u32 (take 4 (drop k bs))"

text \<open>Reading and writing \<open>*ptrs.add(i)\<close> in a buffer: outside of it the access is undefined
  behaviour, so it has no value.\<close>

definition get_ptr :: "byte list \<Rightarrow> nat \<Rightarrow> nat option" where
  "get_ptr bs i = (if 4 * i + 4 \<le> length bs then Some (u32_at bs (4 * i)) else None)"

definition put_ptr :: "byte list \<Rightarrow> nat \<Rightarrow> nat \<Rightarrow> byte list option" where
  "put_ptr bs i n = splice bs (4 * i) (u32_bytes n)"

lemma length_u32_bytes [simp]: "length (u32_bytes n) = 4"
  by (simp add: u32_bytes_def)

lemma bytes_u32_bytes [simp]: "n < 2 ^ 32 \<Longrightarrow> bytes_u32 (u32_bytes n) = n"
proof -
  assume n: "n < 2 ^ 32"
  define a b where "a = n div 256" and "b = a div 256"
  have d: "n div 65536 = b" "n div 16777216 = b div 256"
    by (simp_all add: a_def b_def flip: div_mult2_eq)
  have "n = n mod 256 + 256 * a" "a = a mod 256 + 256 * b" "b = b mod 256 + 256 * (b div 256)"
    by (simp_all add: a_def b_def)
  then have "n mod 256 + 256 * (a mod 256) + 65536 * (b mod 256) + 16777216 * (b div 256) = n"
    by linarith
  with n d show ?thesis by (simp add: bytes_u32_def u32_bytes_def unat_of_nat flip: a_def)
qed

lemma bytes_u32_bound: "bytes_u32 bs < 2 ^ 32"
proof -
  have "unat (bs ! k) < 2 ^ LENGTH(8)" for k by (rule unsigned_less)
  from this [of 0] this [of 1] this [of 2] this [of 3] show ?thesis by (simp add: bytes_u32_def)
qed

lemma u32_at_bound: "u32_at bs k < 2 ^ 32"
  unfolding u32_at_def by (rule bytes_u32_bound)

lemma u32_at_nth:
  "k + 4 \<le> length bs \<Longrightarrow> u32_at bs k = unat (bs ! k) + 256 * unat (bs ! (k + 1))
     + 256 ^ 2 * unat (bs ! (k + 2)) + 256 ^ 3 * unat (bs ! (k + 3))"
  by (simp add: u32_at_def bytes_u32_def)

lemma u32_at_cong:
  assumes "k + 4 \<le> length bs" and "k' + 4 \<le> length bs'"
    and "\<And>j. j < 4 \<Longrightarrow> bs ! (k + j) = bs' ! (k' + j)"
  shows "u32_at bs k = u32_at bs' k'"
  using assms(3) [of 0] assms(3) [of 1] assms(3) [of 2] assms(3) [of 3] assms(1,2)
  by (simp add: u32_at_nth)

lemma u32_at_append_left: "k + 4 \<le> length xs \<Longrightarrow> u32_at (xs @ ys) k = u32_at xs k"
  by (rule u32_at_cong) (auto simp: nth_append)

lemma u32_at_append_right: "length xs \<le> k \<Longrightarrow> u32_at (xs @ ys) k = u32_at ys (k - length xs)"
  by (simp add: u32_at_def)

lemma u32_at_u32_bytes [simp]: "n < 2 ^ 32 \<Longrightarrow> u32_at (u32_bytes n) 0 = n"
  by (simp add: u32_at_def)

lemma u32_at_zero [simp]: "k + 4 \<le> n \<Longrightarrow> u32_at (replicate n 0) k = 0"
  by (simp add: u32_at_nth)

lemma get_ptr_Some: "4 * i + 4 \<le> length bs \<Longrightarrow> get_ptr bs i = Some (u32_at bs (4 * i))"
  by (simp add: get_ptr_def)

lemma put_ptr_spec:
  assumes "4 * i + 4 \<le> length bs" and "n < 2 ^ 32"
  shows "\<exists>bs'. put_ptr bs i n = Some bs' \<and> length bs' = length bs
    \<and> (\<forall>j. 4 * j + 4 \<le> length bs \<longrightarrow> u32_at bs' (4 * j) = (if j = i then n else u32_at bs (4 * j)))"
proof -
  obtain bs' where bs': "splice bs (4 * i) (u32_bytes n) = Some bs'"
    using assms(1) by (simp add: splice_def)
  note len = length_splice [OF bs'] and nth = nth_splice [OF bs']
  have "u32_at bs' (4 * j) = (if j = i then n else u32_at bs (4 * j))"
    if j: "4 * j + 4 \<le> length bs" for j
  proof (cases "j = i")
    case True
    have "u32_at bs' (4 * i) = u32_at (u32_bytes n) 0"
      by (rule u32_at_cong) (use assms(1) len nth in auto)
    with True assms(2) show ?thesis by simp
  next
    case False
    have "u32_at bs' (4 * j) = u32_at bs (4 * j)"
      by (rule u32_at_cong) (use j False len nth in auto)
    with False show ?thesis by simp
  qed
  with bs' len show ?thesis by (simp add: put_ptr_def)
qed

text \<open>An array of words as bytes.\<close>

definition u32s_bytes :: "nat list \<Rightarrow> byte list" where
  "u32s_bytes ns = concat (map u32_bytes ns)"

lemma length_u32s_bytes [simp]: "length (u32s_bytes ns) = 4 * length ns"
  by (induction ns) (simp_all add: u32s_bytes_def)

lemma u32_at_u32s_bytes:
  "i < length ns \<Longrightarrow> \<forall>n \<in> set ns. n < 2 ^ 32 \<Longrightarrow> u32_at (u32s_bytes ns) (4 * i) = ns ! i"
proof (induction ns arbitrary: i)
  case (Cons n ns)
  show ?case
  proof (cases i)
    case 0
    with Cons.prems show ?thesis by (simp add: u32s_bytes_def u32_at_append_left)
  next
    case (Suc j)
    with Cons.IH [of j] Cons.prems show ?thesis by (simp add: u32s_bytes_def u32_at_append_right)
  qed
qed simp

end
