(* ===== verification/Inode.thy ===== *)
theory Inode
  imports Bio FreeMap Encoding
begin

section \<open>The inode layer: filesys/inode.rs\<close>

text \<open>
  On-disk inodes with direct, indirect and doubly-indirect block pointers, the table of open
  inodes, and reading, writing, truncating and freeing files. \<open>fs\<close> is the state of the file
  system: buffer cache and device, free map, open inodes. Every operation is the whole function
  of the source; \<open>fs_get\<close> and \<open>fs_update\<close> are its bread-brelse and bread-bwrite-brelse sequences (a
  buffer that the source keeps across calls of the free map is released before them here; the free
  map does not touch the cache).
  A pointer access outside a sector buffer is undefined behaviour and has no value.
\<close>

definition FREE_MAP_SECTOR :: sector where
  "FREE_MAP_SECTOR = 0"

definition ROOT_DIR_SECTOR :: sector where
  "ROOT_DIR_SECTOR = 1"

definition DIRECT_PTR_CNT :: nat where
  "DIRECT_PTR_CNT = 12"

definition PTRS_PER_BLOCK :: nat where
  "PTRS_PER_BLOCK = 128"

definition INODE_MAGIC :: nat where
  "INODE_MAGIC = 0x494e4f44"

record inode_disk =
  direct_blocks :: "nat list"
  indirect_block :: nat
  doubly_indirect_block :: nat
  length_field :: int
  write_end :: int
  magic :: nat
  is_dir_byte :: byte
  is_symlink_byte :: byte
  padding :: "byte list"

text \<open>The memory image of the \<open>repr(C)\<close> struct, which is what is on disk.\<close>

definition inode_bytes :: "inode_disk \<Rightarrow> byte list" where
  "inode_bytes d = u32s_bytes (direct_blocks d @ [indirect_block d, doubly_indirect_block d,
       as_u32 (length_field d), as_u32 (write_end d), magic d])
     @ [is_dir_byte d, is_symlink_byte d] @ padding d"

definition bytes_inode :: "byte list \<Rightarrow> inode_disk" where
  "bytes_inode bs = \<lparr> direct_blocks = map (\<lambda>i. u32_at bs (4 * i)) [0 ..< DIRECT_PTR_CNT],
     indirect_block = u32_at bs 48, doubly_indirect_block = u32_at bs 52,
     length_field = as_i32 (int (u32_at bs 56)), write_end = as_i32 (int (u32_at bs 60)),
     magic = u32_at bs 64, is_dir_byte = bs ! 68, is_symlink_byte = bs ! 69,
     padding = take 442 (drop 70 bs) \<rparr>"

definition new_boxed :: inode_disk where
  "new_boxed = \<lparr> direct_blocks = replicate DIRECT_PTR_CNT 0, indirect_block = 0,
     doubly_indirect_block = 0, length_field = 0, write_end = 0, magic = INODE_MAGIC,
     is_dir_byte = 0, is_symlink_byte = 0, padding = replicate 442 0 \<rparr>"

record inode =
  i_sector :: sector
  open_cnt :: int
  removed :: bool
  deny_write_cnt :: int
  i_length :: int
  i_is_dir :: bool
  i_is_symlink :: bool

record 'm fs =
  fs_bio :: "'m bio"
  fs_map :: fmap
  OPEN_INODES :: "(sector \<rightharpoonup> inode) option"

subsection \<open>Calls to the layers below\<close>

definition fs_get :: "sector \<Rightarrow> 'm fs \<Rightarrow> (sector_data \<times> 'm fs) option" where
  "fs_get sec s = do { (d, b) \<leftarrow> bio_get sec (fs_bio s); Some (d, s \<lparr> fs_bio := b \<rparr>) }"

definition fs_update :: "sector \<Rightarrow> (sector_data \<Rightarrow> sector_data option) \<Rightarrow> 'm fs \<Rightarrow> 'm fs option" where
  "fs_update sec f s = do { b \<leftarrow> bio_update sec f (fs_bio s); Some (s \<lparr> fs_bio := b \<rparr>) }"

text \<open>\<open>buf.data.fill(0)\<close> and write back.\<close>

definition fs_zero :: "sector \<Rightarrow> 'm fs \<Rightarrow> 'm fs option" where
  "fs_zero sec s = fs_update sec (\<lambda>d. Some (replicate (length d) 0)) s"

definition fs_allocate :: "'m fs \<Rightarrow> (sector option \<times> 'm fs) option" where
  "fs_allocate s = do { (r, fm) \<leftarrow> fm_allocate 1 (fs_map s); Some (r, s \<lparr> fs_map := fm \<rparr>) }"

definition fs_release :: "sector \<Rightarrow> 'm fs \<Rightarrow> 'm fs option" where
  "fs_release sec s = do { fm \<leftarrow> fm_release sec 1 (fs_map s); Some (s \<lparr> fs_map := fm \<rparr>) }"

definition inode_init :: "'m fs \<Rightarrow> 'm fs" where
  "inode_init s = s \<lparr> fs_bio := bio_init (fs_bio s), OPEN_INODES := Some Map.empty \<rparr>"

definition read_inode_disk :: "sector \<Rightarrow> 'm fs \<Rightarrow> (inode_disk \<times> 'm fs) option" where
  "read_inode_disk sec s = do { (d, s) \<leftarrow> fs_get sec s; Some (bytes_inode d, s) }"

definition write_inode_disk :: "sector \<Rightarrow> inode_disk \<Rightarrow> 'm fs \<Rightarrow> 'm fs option" where
  "write_inode_disk sec disk s = fs_update sec (\<lambda>_. Some (inode_bytes disk)) s"

subsection \<open>Block indexing\<close>

definition bytes_to_sectors :: "int \<Rightarrow> nat" where
  "bytes_to_sectors bytes = (if bytes \<le> 0 then 0 else div_ceil (as_u32 bytes) BLOCK_SECTOR_SIZE)"

definition nonzero :: "nat \<Rightarrow> nat option" where
  "nonzero s = (if s = 0 then None else Some s)"

definition get_block_sector_disk :: "inode_disk \<Rightarrow> nat \<Rightarrow> 'm fs \<Rightarrow> (sector option \<times> 'm fs) option" where
  "get_block_sector_disk disk block_idx s =
     (if block_idx < DIRECT_PTR_CNT
      then do { x \<leftarrow> idx (direct_blocks disk) block_idx; Some (nonzero x, s) }
      else if block_idx < DIRECT_PTR_CNT + PTRS_PER_BLOCK
      then (if indirect_block disk = 0 then Some (None, s)
            else do {
              (d, s) \<leftarrow> fs_get (indirect_block disk) s;
              x \<leftarrow> get_ptr d (block_idx - DIRECT_PTR_CNT);
              Some (nonzero x, s)
            })
      else (if doubly_indirect_block disk = 0 then Some (None, s)
            else do {
              let rel = block_idx - DIRECT_PTR_CNT - PTRS_PER_BLOCK;
              let outer_idx = rel div PTRS_PER_BLOCK;
              let inner_idx = rel mod PTRS_PER_BLOCK;
              (d, s) \<leftarrow> fs_get (doubly_indirect_block disk) s;
              inner_sector \<leftarrow> get_ptr d outer_idx;
              if inner_sector = 0 then Some (None, s)
              else do {
                (d, s) \<leftarrow> fs_get inner_sector s;
                x \<leftarrow> get_ptr d inner_idx;
                Some (nonzero x, s)
              }
            }))"

definition set_block_sector :: "inode_disk \<Rightarrow> nat \<Rightarrow> sector \<Rightarrow> inode_disk option" where
  "set_block_sector disk block_idx sec =
     (if block_idx < DIRECT_PTR_CNT
      then do { bs \<leftarrow> upd (direct_blocks disk) block_idx sec; Some (disk \<lparr> direct_blocks := bs \<rparr>) }
      else Some disk)"

text \<open>The pointer block at \<open>p\<close> of the inode, allocated and zeroed if there is none yet; \<open>None\<close> is
  the early return of \<open>?\<close> when the disk is full.\<close>

definition ensure_block :: "nat \<Rightarrow> 'm fs \<Rightarrow> (sector option \<times> 'm fs) option" where
  "ensure_block p s =
     (if p = 0
      then do {
        (r, s) \<leftarrow> fs_allocate s;
        case r of
          None \<Rightarrow> Some (None, s)
        | Some b \<Rightarrow> do { s \<leftarrow> fs_zero b s; Some (Some b, s) }
      }
      else Some (Some p, s))"

definition allocate_block_for ::
    "inode_disk \<Rightarrow> nat \<Rightarrow> 'm fs \<Rightarrow> (sector option \<times> inode_disk \<times> 'm fs) option" where
  "allocate_block_for disk block_idx s = do {
     (r, s) \<leftarrow> fs_allocate s;
     case r of
       None \<Rightarrow> Some (None, disk, s)
     | Some new_sector \<Rightarrow>
         (if block_idx < DIRECT_PTR_CNT
          then do {
            bs \<leftarrow> upd (direct_blocks disk) block_idx new_sector;
            Some (Some new_sector, disk \<lparr> direct_blocks := bs \<rparr>, s)
          }
          else if block_idx < DIRECT_PTR_CNT + PTRS_PER_BLOCK
          then do {
            (r, s) \<leftarrow> ensure_block (indirect_block disk) s;
            case r of
              None \<Rightarrow> Some (None, disk, s)
            | Some ib \<Rightarrow> do {
                let disk = disk \<lparr> indirect_block := ib \<rparr>;
                s \<leftarrow> fs_update ib (\<lambda>d. put_ptr d (block_idx - DIRECT_PTR_CNT) new_sector) s;
                Some (Some new_sector, disk, s)
              }
          }
          else do {
            (r, s) \<leftarrow> ensure_block (doubly_indirect_block disk) s;
            case r of
              None \<Rightarrow> Some (None, disk, s)
            | Some db \<Rightarrow> do {
                let disk = disk \<lparr> doubly_indirect_block := db \<rparr>;
                let rel = block_idx - DIRECT_PTR_CNT - PTRS_PER_BLOCK;
                let outer_idx = rel div PTRS_PER_BLOCK;
                let inner_idx = rel mod PTRS_PER_BLOCK;
                (d, s) \<leftarrow> fs_get db s;
                inner \<leftarrow> get_ptr d outer_idx;
                (r, s) \<leftarrow>
                  (if inner = 0
                   then do {
                     (r, s) \<leftarrow> fs_allocate s;
                     case r of
                       None \<Rightarrow> Some (None, s)
                     | Some new_inner \<Rightarrow> do {
                         s \<leftarrow> fs_update db (\<lambda>d. put_ptr d outer_idx new_inner) s;
                         s \<leftarrow> fs_zero new_inner s;
                         Some (Some new_inner, s)
                       }
                   }
                   else Some (Some inner, s));
                case r of
                  None \<Rightarrow> Some (None, disk, s)
                | Some inner_sector \<Rightarrow> do {
                    s \<leftarrow> fs_update inner_sector (\<lambda>d. put_ptr d inner_idx new_sector) s;
                    Some (Some new_sector, disk, s)
                  }
              }
          })
   }"

subsection \<open>Creating and opening\<close>

text \<open>The loop of \<open>create\<close>; the inner \<open>None\<close> is the return of false on a full disk.\<close>

primrec create_loop :: "inode_disk \<Rightarrow> nat \<Rightarrow> nat \<Rightarrow> 'm fs \<Rightarrow> (inode_disk option \<times> 'm fs) option" where
  "create_loop disk i 0 s = Some (Some disk, s)"
| "create_loop disk i (Suc n) s = do {
     (r, s) \<leftarrow> fs_allocate s;
     case r of
       None \<Rightarrow> Some (None, s)
     | Some sec \<Rightarrow> do {
         disk \<leftarrow> set_block_sector disk i sec;
         s \<leftarrow> fs_zero sec s;
         create_loop disk (Suc i) n s
       }
   }"

definition inode_create :: "sector \<Rightarrow> int \<Rightarrow> bool \<Rightarrow> 'm fs \<Rightarrow> (bool \<times> 'm fs) option" where
  "inode_create sec len is_dir s = do {
     let disk = new_boxed \<lparr> length_field := len, write_end := len,
                            is_dir_byte := (if is_dir then 1 else 0) \<rparr>;
     (r, s) \<leftarrow> create_loop disk 0 (bytes_to_sectors len) s;
     case r of
       None \<Rightarrow> Some (False, s)
     | Some disk \<Rightarrow> do { s \<leftarrow> write_inode_disk sec disk s; Some (True, s) }
   }"

text \<open>\<open>open\<close> always answers an inode; the callers use its sector.\<close>

definition inode_open :: "sector \<Rightarrow> 'm fs \<Rightarrow> 'm fs option" where
  "inode_open sec s = do {
     inodes \<leftarrow> OPEN_INODES s;
     case inodes sec of
       Some n \<Rightarrow> do {
         c \<leftarrow> add_i32 (open_cnt n) 1;
         Some (s \<lparr> OPEN_INODES := Some (inodes(sec \<mapsto> n \<lparr> open_cnt := c \<rparr>)) \<rparr>)
       }
     | None \<Rightarrow> do {
         (disk, s) \<leftarrow> read_inode_disk sec s;
         let n = \<lparr> i_sector = sec, open_cnt = 1, removed = False, deny_write_cnt = 0,
                   i_length = length_field disk, i_is_dir = (is_dir_byte disk \<noteq> 0),
                   i_is_symlink = (is_symlink_byte disk \<noteq> 0) \<rparr>;
         inodes \<leftarrow> OPEN_INODES s;
         Some (s \<lparr> OPEN_INODES := Some (inodes(sec \<mapsto> n)) \<rparr>)
       }
   }"

text \<open>The part that \<open>close\<close> and \<open>truncate\<close> share: free the data blocks of the first \<open>cnt\<close> block
  indices, the indirect block, the inner pointer blocks and the doubly-indirect block.\<close>

definition release_ptr :: "nat \<Rightarrow> 'm fs \<Rightarrow> 'm fs option" where
  "release_ptr p s = (if p \<noteq> 0 then fs_release p s else Some s)"

definition free_blocks :: "inode_disk \<Rightarrow> nat \<Rightarrow> 'm fs \<Rightarrow> 'm fs option" where
  "free_blocks disk cnt s = do {
     s \<leftarrow> for_range 0 cnt (\<lambda>i s. do {
       (r, s) \<leftarrow> get_block_sector_disk disk i s;
       case r of Some x \<Rightarrow> fs_release x s | None \<Rightarrow> Some s
     }) s;
     s \<leftarrow> release_ptr (indirect_block disk) s;
     if doubly_indirect_block disk \<noteq> 0
     then do {
       (d, s) \<leftarrow> fs_get (doubly_indirect_block disk) s;
       s \<leftarrow> for_range 0 PTRS_PER_BLOCK (\<lambda>j s. do { p \<leftarrow> get_ptr d j; release_ptr p s }) s;
       fs_release (doubly_indirect_block disk) s
     }
     else Some s
   }"

definition inode_close :: "sector \<Rightarrow> 'm fs \<Rightarrow> 'm fs option" where
  "inode_close sec s = do {
     inodes \<leftarrow> OPEN_INODES s;
     case inodes sec of
       None \<Rightarrow> Some s
     | Some n \<Rightarrow> do {
         c \<leftarrow> sub_i32 (open_cnt n) 1;
         if c \<le> 0
         then do {
           let s = s \<lparr> OPEN_INODES := Some (inodes(sec := None)) \<rparr>;
           if removed n
           then do {
             s \<leftarrow> fs_release (i_sector n) s;
             (disk, s) \<leftarrow> read_inode_disk (i_sector n) s;
             free_blocks disk (bytes_to_sectors (i_length n)) s
           }
           else Some s
         }
         else Some (s \<lparr> OPEN_INODES := Some (inodes(sec \<mapsto> n \<lparr> open_cnt := c \<rparr>)) \<rparr>)
       }
   }"

definition inode_remove :: "sector \<Rightarrow> 'm fs \<Rightarrow> 'm fs option" where
  "inode_remove sec s = do {
     inodes \<leftarrow> OPEN_INODES s;
     case inodes sec of
       None \<Rightarrow> Some s
     | Some n \<Rightarrow> Some (s \<lparr> OPEN_INODES := Some (inodes(sec \<mapsto> n \<lparr> removed := True \<rparr>)) \<rparr>)
   }"

definition inode_length :: "sector \<Rightarrow> 'm fs \<Rightarrow> (int \<times> 'm fs) option" where
  "inode_length sec s = do {
     inodes \<leftarrow> OPEN_INODES s;
     case inodes sec of
       Some n \<Rightarrow> Some (i_length n, s)
     | None \<Rightarrow> do { (disk, s) \<leftarrow> read_inode_disk sec s; Some (length_field disk, s) }
   }"

definition inode_is_dir :: "sector \<Rightarrow> 'm fs \<Rightarrow> (bool \<times> 'm fs) option" where
  "inode_is_dir sec s = do {
     inodes \<leftarrow> OPEN_INODES s;
     case inodes sec of
       Some n \<Rightarrow> Some (i_is_dir n, s)
     | None \<Rightarrow> do { (disk, s) \<leftarrow> read_inode_disk sec s; Some (is_dir_byte disk \<noteq> 0, s) }
   }"

text \<open>\<open>if let Some(inode) = open_inodes().get_mut(&sector) { inode.length = len }\<close>.\<close>

definition set_open_length :: "sector \<Rightarrow> int \<Rightarrow> 'm fs \<Rightarrow> 'm fs option" where
  "set_open_length sec len s = do {
     inodes \<leftarrow> OPEN_INODES s;
     case inodes sec of
       None \<Rightarrow> Some s
     | Some n \<Rightarrow> Some (s \<lparr> OPEN_INODES := Some (inodes(sec \<mapsto> n \<lparr> i_length := len \<rparr>)) \<rparr>)
   }"

definition truncate :: "sector \<Rightarrow> 'm fs \<Rightarrow> 'm fs option" where
  "truncate sec s = do {
     (old_length, s) \<leftarrow> inode_length sec s;
     (disk, s) \<leftarrow> read_inode_disk sec s;
     s \<leftarrow> free_blocks disk (bytes_to_sectors old_length) s;
     (dir, s) \<leftarrow> inode_is_dir sec s;
     s \<leftarrow> write_inode_disk sec (new_boxed \<lparr> is_dir_byte := (if dir then 1 else 0) \<rparr>) s;
     set_open_length sec 0 s
   }"

definition inode_deny_write :: "sector \<Rightarrow> 'm fs \<Rightarrow> 'm fs option" where
  "inode_deny_write sec s = do {
     inodes \<leftarrow> OPEN_INODES s;
     case inodes sec of
       None \<Rightarrow> Some s
     | Some n \<Rightarrow> do {
         c \<leftarrow> add_i32 (deny_write_cnt n) 1;
         Some (s \<lparr> OPEN_INODES := Some (inodes(sec \<mapsto> n \<lparr> deny_write_cnt := c \<rparr>)) \<rparr>)
       }
   }"

definition inode_allow_write :: "sector \<Rightarrow> 'm fs \<Rightarrow> 'm fs option" where
  "inode_allow_write sec s = do {
     inodes \<leftarrow> OPEN_INODES s;
     case inodes sec of
       None \<Rightarrow> Some s
     | Some n \<Rightarrow>
         if deny_write_cnt n > 0
         then do {
           c \<leftarrow> sub_i32 (deny_write_cnt n) 1;
           Some (s \<lparr> OPEN_INODES := Some (inodes(sec \<mapsto> n \<lparr> deny_write_cnt := c \<rparr>)) \<rparr>)
         }
         else Some s
   }"

subsection \<open>Reading and writing\<close>

text \<open>\<open>off / 512\<close> and \<open>off % 512\<close> on \<open>i32\<close> round toward zero; the casts wrap.\<close>

definition sector_idx :: "int \<Rightarrow> nat" where
  "sector_idx off = as_u32 (off sdiv int BLOCK_SECTOR_SIZE)"

definition sector_ofs :: "int \<Rightarrow> nat" where
  "sector_ofs off = as_u32 (off smod int BLOCK_SECTOR_SIZE)"

lemma sector_ofs_less: "sector_ofs off \<le> 512 \<Longrightarrow> sector_ofs off < 512 \<and> 0 \<le> off smod 512"
proof -
  assume le: "sector_ofs off \<le> 512"
  have r: "- 512 < off smod 512" "off smod 512 < 512"
    using abs_mod_less [of 512 "\<bar>off\<bar>"] by (auto simp: signed_modulo_int_def sgn_if)
  have "0 \<le> off smod 512"
  proof (rule ccontr)
    assume neg: "\<not> 0 \<le> off smod 512"
    with as_u32_neg [of "off smod 512"] le r show False
      by (simp add: sector_ofs_def BLOCK_SECTOR_SIZE_def)
  qed
  with r show ?thesis by (simp add: sector_ofs_def as_u32_def BLOCK_SECTOR_SIZE_def nat_less_iff)
qed

text \<open>The data of one iteration of \<open>read_at\<close>: \<open>chunk\<close> bytes into the buffer at \<open>pos\<close>.\<close>

definition read_chunk :: "inode_disk \<Rightarrow> int \<Rightarrow> nat \<Rightarrow> byte list \<Rightarrow> nat \<Rightarrow> 'm fs
    \<Rightarrow> (byte list \<times> 'm fs) option" where
  "read_chunk disk off chunk buf pos s = do {
     (r, s) \<leftarrow> get_block_sector_disk disk (sector_idx off) s;
     case r of
       Some data_sector \<Rightarrow> do {
         (d, s) \<leftarrow> fs_get data_sector s;
         x \<leftarrow> slice d (sector_ofs off) chunk;
         buf \<leftarrow> splice buf pos x;
         Some (buf, s)
       }
     | None \<Rightarrow> do { buf \<leftarrow> splice buf pos (replicate chunk 0); Some (buf, s) }
   }"

lemma add_i32_decreases:
  "add_i32 b (int c) = Some b' \<Longrightarrow> 0 < c \<Longrightarrow> b < sz \<Longrightarrow> nat (sz - b') < nat (sz - b)"
  by (simp add: arith_defs split: if_splits)

lemma chunk_pos:
  assumes "sub_usize BLOCK_SECTOR_SIZE (sector_ofs off) = Some room"
    and "sub_i32 a b = Some c" and "b < a"
  shows "0 < room \<and> 0 < as_u32 c"
proof -
  have "sector_ofs off < 512"
    using assms(1) sector_ofs_less [of off] by (simp add: sub_usize_def BLOCK_SECTOR_SIZE_def split: if_splits)
  moreover have "0 < c" "c < 2 ^ 31"
    using assms(2,3) by (auto simp: arith_defs split: if_splits)
  ultimately show ?thesis using assms(1) by (auto simp: sub_usize_def BLOCK_SECTOR_SIZE_def split: if_splits)
qed

function read_loop :: "inode_disk \<Rightarrow> int \<Rightarrow> int \<Rightarrow> int \<Rightarrow> int \<Rightarrow> nat \<Rightarrow> byte list \<Rightarrow> 'm fs
    \<Rightarrow> (int \<times> byte list \<times> 'm fs) option" where
  "read_loop disk sz len bytes_read off pos buf s =
     (if bytes_read < sz \<and> off < len
      then do {
        remaining_in_inode \<leftarrow> sub_i32 len off;
        remaining_wanted \<leftarrow> sub_i32 sz bytes_read;
        room \<leftarrow> sub_usize BLOCK_SECTOR_SIZE (sector_ofs off);
        let chunk = min room (min (as_u32 remaining_in_inode) (as_u32 remaining_wanted));
        (buf, s) \<leftarrow> read_chunk disk off chunk buf pos s;
        bytes_read' \<leftarrow> add_i32 bytes_read (int chunk);
        off' \<leftarrow> add_i32 off (int chunk);
        read_loop disk sz len bytes_read' off' (pos + chunk) buf s
      }
      else Some (bytes_read, buf, s))"
  by pat_completeness auto

termination
proof (relation "measure (\<lambda>(disk, sz, len, bytes_read, off, pos, buf, s). nat (sz - bytes_read))", goal_cases)
  case 1
  show ?case by simp
next
  case (2 disk sz len bytes_read off pos buf s ri rw room chunk p buf' s' br' off')
  have "0 < min room (min (as_u32 ri) (as_u32 rw))"
    using chunk_pos [OF 2(4) 2(2)] chunk_pos [OF 2(4) 2(3)] 2(1) by simp
  with add_i32_decreases [OF 2(8), of sz] 2(1,5) show ?case by simp
qed

declare read_loop.simps [simp del]

definition read_at :: "sector \<Rightarrow> byte list \<Rightarrow> int \<Rightarrow> int \<Rightarrow> 'm fs \<Rightarrow> (int \<times> byte list \<times> 'm fs) option" where
  "read_at sec buf sz offset s = do {
     (len, s) \<leftarrow> inode_length sec s;
     if offset \<ge> len then Some (0, buf, s)
     else do {
       (disk, s) \<leftarrow> read_inode_disk sec s;
       read_loop disk sz len 0 offset 0 buf s
     }
   }"

text \<open>One iteration of \<open>write_at\<close>: the block is found or allocated and zeroed, and \<open>chunk\<close> bytes are
  copied. The inner \<open>None\<close> is the \<open>break\<close> on a full disk.\<close>

definition data_block :: "inode_disk \<Rightarrow> nat \<Rightarrow> 'm fs \<Rightarrow> (sector option \<times> inode_disk \<times> 'm fs) option" where
  "data_block disk bi s = do {
     (r, s) \<leftarrow> get_block_sector_disk disk bi s;
     case r of
       Some x \<Rightarrow> Some (Some x, disk, s)
     | None \<Rightarrow> do {
         (r, disk, s) \<leftarrow> allocate_block_for disk bi s;
         case r of
           None \<Rightarrow> Some (None, disk, s)
         | Some new_sec \<Rightarrow> do { s \<leftarrow> fs_zero new_sec s; Some (Some new_sec, disk, s) }
       }
   }"

function write_loop :: "byte list \<Rightarrow> int \<Rightarrow> inode_disk \<Rightarrow> int \<Rightarrow> int \<Rightarrow> nat \<Rightarrow> 'm fs
    \<Rightarrow> (int \<times> inode_disk \<times> 'm fs) option" where
  "write_loop buf sz disk bytes_written off pos s =
     (if bytes_written < sz
      then do {
        remaining_wanted \<leftarrow> sub_i32 sz bytes_written;
        room \<leftarrow> sub_usize BLOCK_SECTOR_SIZE (sector_ofs off);
        let chunk = min room (as_u32 remaining_wanted);
        (r, disk, s) \<leftarrow> data_block disk (sector_idx off) s;
        case r of
          None \<Rightarrow> Some (bytes_written, disk, s)
        | Some data_sector \<Rightarrow> do {
            s \<leftarrow> fs_update data_sector (\<lambda>d. do {
              x \<leftarrow> slice buf pos chunk;
              splice d (sector_ofs off) x
            }) s;
            bytes_written' \<leftarrow> add_i32 bytes_written (int chunk);
            off' \<leftarrow> add_i32 off (int chunk);
            write_loop buf sz disk bytes_written' off' (pos + chunk) s
          }
      }
      else Some (bytes_written, disk, s))"
  by pat_completeness auto

termination
proof (relation "measure (\<lambda>(buf, sz, disk, bytes_written, off, pos, s). nat (sz - bytes_written))", goal_cases)
  case 1
  show ?case by simp
next
  case (2 buf sz disk bytes_written off pos s rw room chunk p r q disk' s' sec s'' bw' off')
  have "0 < min room (as_u32 rw)" using chunk_pos [OF 2(3) 2(2)] 2(1) by simp
  with add_i32_decreases [OF 2(10), of sz] 2(1,4) show ?case by simp
qed

declare write_loop.simps [simp del]

definition write_at :: "sector \<Rightarrow> byte list \<Rightarrow> int \<Rightarrow> int \<Rightarrow> 'm fs \<Rightarrow> (int \<times> 'm fs) option" where
  "write_at sec buf sz offset s = do {
     inodes \<leftarrow> OPEN_INODES s;
     if (case inodes sec of Some n \<Rightarrow> deny_write_cnt n > 0 | None \<Rightarrow> False) then Some (0, s)
     else do {
       (disk, s) \<leftarrow> read_inode_disk sec s;
       (bytes_written, disk, s) \<leftarrow> write_loop buf sz disk 0 offset 0 s;
       new_end \<leftarrow> add_i32 offset bytes_written;
       let disk = (if new_end > length_field disk
                   then disk \<lparr> length_field := new_end, write_end := new_end \<rparr> else disk);
       s \<leftarrow> write_inode_disk sec disk s;
       s \<leftarrow> set_open_length sec (length_field disk) s;
       Some (bytes_written, s)
     }
   }"

end
