(* ===== verification/FsState.thy ===== *)
theory FsState
  imports Inode
begin

section \<open>The file-system state, seen as sectors and a free map\<close>

text \<open>
  The file system above the buffer cache depends on four things only: the contents of the sectors,
  which sectors are used, the number of sectors and the table of open inodes. \<open>st N I v u s\<close> says
  that the state \<open>s\<close> is well formed and has these as its view. The lemmas give every call to the
  layers below as a step on views; the proofs about inodes use nothing else.
\<close>

definition st :: "nat \<Rightarrow> (sector \<rightharpoonup> inode) option \<Rightarrow> (sector \<Rightarrow> sector_data) \<Rightarrow> (sector \<Rightarrow> bool)
    \<Rightarrow> 'm fs \<Rightarrow> bool" where
  "st N I v u s \<longleftrightarrow> bio_ok (fs_bio s) \<and> fm_ok (fs_map s) \<and> bio_cap (fs_bio s) = N
     \<and> SECTOR_COUNT (fs_map s) = N \<and> 2 \<le> N \<and> bio_disk (fs_bio s) = v \<and> fm_view (fs_map s) = u
     \<and> OPEN_INODES s = I"

lemma st_length: "st N I v u s \<Longrightarrow> x < N \<Longrightarrow> length (v x) = 512"
  using bc.disk_length [of "fs_bio s" x] by (auto simp: st_def)

lemma st_bound: "st N I v u s \<Longrightarrow> N < 2 ^ 31 \<and> 2 \<le> N"
  by (auto simp: st_def fm_ok_def)

lemma st_get:
  assumes "st N I v u s" and "x < N"
  shows "\<exists>s'. fs_get x s = Some (v x, s') \<and> st N I v u s'"
proof -
  from assms bio_get_spec [of "fs_bio s" x] obtain b where
    "bio_get x (fs_bio s) = Some (v x, b)" "bio_ok b" "bio_disk b = v" "bio_cap b = N"
    by (auto simp: st_def)
  with assms show ?thesis by (auto simp: fs_get_def st_def)
qed

lemma st_update:
  assumes "st N I v u s" and "x < N" and "f (v x) = Some d" and "length d = 512"
  shows "\<exists>s'. fs_update x f s = Some s' \<and> st N I (v(x := d)) u s'"
proof -
  from assms bio_update_spec [of "fs_bio s" x f d] obtain b where
    "bio_update x f (fs_bio s) = Some b" "bio_ok b" "bio_disk b = v(x := d)" "bio_cap b = N"
    by (auto simp: st_def)
  with assms(1) show ?thesis by (auto simp: fs_update_def st_def)
qed

definition zero_sector :: sector_data where
  "zero_sector = replicate 512 0"

lemma st_zero:
  assumes "st N I v u s" and "x < N"
  shows "\<exists>s'. fs_zero x s = Some s' \<and> st N I (v(x := zero_sector)) u s'"
  unfolding fs_zero_def
  by (rule st_update) (use assms st_length [OF assms] in \<open>simp_all add: zero_sector_def\<close>)

lemma st_allocate:
  assumes "st N I v u s"
  shows "\<exists>r s'. fs_allocate s = Some (r, s') \<and>
    (case r of
       None \<Rightarrow> st N I v u s' \<and> (\<forall>x. 2 \<le> x \<and> x < N \<longrightarrow> u x)
     | Some x \<Rightarrow> 2 \<le> x \<and> x < N \<and> \<not> u x \<and> st N I v (u(x := True)) s')"
proof -
  have fm: "fm_ok (fs_map s)" "2 \<le> SECTOR_COUNT (fs_map s)"
    and eqs: "SECTOR_COUNT (fs_map s) = N" "fm_view (fs_map s) = u" using assms by (auto simp: st_def)
  obtain r fm where "fm_allocate 1 (fs_map s) = Some (r, fm)"
    "case r of None \<Rightarrow> fm = fs_map s \<and> (\<forall>x. 2 \<le> x \<and> x < N \<longrightarrow> u x)
     | Some x \<Rightarrow> 2 \<le> x \<and> x < N \<and> \<not> u x \<and> fm_ok fm \<and> SECTOR_COUNT fm = N \<and> fm_view fm = u(x := True)"
    using fm_allocate_one [OF fm, unfolded eqs] by blast
  with assms show ?thesis by (cases r) (auto simp: fs_allocate_def st_def)
qed

lemma st_release:
  assumes "st N I v u s" and "x < N"
  shows "\<exists>s'. fs_release x s = Some s' \<and> st N I v (u(x := False)) s'"
proof -
  from assms fm_release_one [of "fs_map s" x] obtain fm where
    "fm_release x 1 (fs_map s) = Some fm" "fm_ok fm" "SECTOR_COUNT fm = N" "fm_view fm = u(x := False)"
    by (auto simp: st_def)
  with assms show ?thesis by (auto simp: fs_release_def st_def)
qed

lemma st_open_inodes: "st N I v u s \<Longrightarrow> OPEN_INODES s = I"
  by (simp add: st_def)

lemma st_set_open: "st N I v u s \<Longrightarrow> st N J v u (s \<lparr> OPEN_INODES := J \<rparr>)"
  by (simp add: st_def)

text \<open>The on-disk inode of a sector, and well-formed on-disk inodes.\<close>

definition disk_wf :: "inode_disk \<Rightarrow> bool" where
  "disk_wf d \<longleftrightarrow> length (direct_blocks d) = 12 \<and> (\<forall>x \<in> set (direct_blocks d). x < 2 ^ 32)
     \<and> indirect_block d < 2 ^ 32 \<and> doubly_indirect_block d < 2 ^ 32 \<and> magic d < 2 ^ 32
     \<and> in_i32 (length_field d) \<and> in_i32 (write_end d) \<and> length (padding d) = 442"

lemma length_inode_bytes [simp]: "disk_wf d \<Longrightarrow> length (inode_bytes d) = 512"
  by (simp add: inode_bytes_def disk_wf_def)

lemma bytes_inode_wf: "length bs = 512 \<Longrightarrow> disk_wf (bytes_inode bs)"
  using u32_at_bound as_i32_range by (auto simp: disk_wf_def bytes_inode_def DIRECT_PTR_CNT_def)

lemma inode_roundtrip:
  assumes "disk_wf d"
  shows "bytes_inode (inode_bytes d) = d"
proof -
  define ws where "ws = direct_blocks d @ [indirect_block d, doubly_indirect_block d,
    as_u32 (length_field d), as_u32 (write_end d), magic d]"
  have ws: "length ws = 17" "\<forall>x \<in> set ws. x < 2 ^ 32"
    using assms as_u32_bound by (auto simp: ws_def disk_wf_def)
  have b: "inode_bytes d = u32s_bytes ws @ [is_dir_byte d, is_symlink_byte d] @ padding d"
    by (simp add: inode_bytes_def ws_def)
  have at: "u32_at (inode_bytes d) (4 * i) = ws ! i" if "i < 17" for i
    using that ws by (simp add: b u32_at_append_left u32_at_u32s_bytes)
  have i32: "as_i32 (int (as_u32 x)) = x" if "in_i32 x" for x
    using that by (simp add: as_i32_def as_u32_def in_i32_def mod_simps)
  have "u32_at (inode_bytes d) 48 = indirect_block d" "u32_at (inode_bytes d) 52 = doubly_indirect_block d"
    "u32_at (inode_bytes d) 56 = as_u32 (length_field d)" "u32_at (inode_bytes d) 60 = as_u32 (write_end d)"
    "u32_at (inode_bytes d) 64 = magic d"
    using at [of 12] at [of 13] at [of 14] at [of 15] at [of 16] assms
    by (simp_all add: ws_def disk_wf_def nth_append)
  moreover have "map (\<lambda>i. u32_at (inode_bytes d) (4 * i)) [0 ..< 12] = direct_blocks d"
    using assms at by (intro nth_equalityI) (auto simp: disk_wf_def ws_def nth_append)
  moreover have "inode_bytes d ! 68 = is_dir_byte d" "inode_bytes d ! 69 = is_symlink_byte d"
    "take 442 (drop 70 (inode_bytes d)) = padding d"
    using ws(1) assms by (simp_all add: b nth_append disk_wf_def)
  ultimately show ?thesis
    using assms i32 by (simp add: bytes_inode_def DIRECT_PTR_CNT_def disk_wf_def)
qed

lemma st_read_inode:
  "st N I v u s \<Longrightarrow> sec < N \<Longrightarrow> \<exists>s'. read_inode_disk sec s = Some (bytes_inode (v sec), s') \<and> st N I v u s'"
  using st_get [of N I v u s sec] by (auto simp: read_inode_disk_def)

lemma st_write_inode:
  "st N I v u s \<Longrightarrow> sec < N \<Longrightarrow> disk_wf d
     \<Longrightarrow> \<exists>s'. write_inode_disk sec d s = Some s' \<and> st N I (v(sec := inode_bytes d)) u s'"
  unfolding write_inode_disk_def by (rule st_update) simp_all

end
