(* ===== verification/InodeTree.thy ===== *)
theory InodeTree
  imports FsState
begin

section \<open>The block tree of an inode\<close>

text \<open>
  The sectors an inode owns form a tree: direct blocks, the indirect block and its entries, the
  doubly-indirect block, the inner pointer blocks and their entries. \<open>slot\<close> names a position of the
  tree and \<open>ptr\<close> reads the sector stored there, 0 for none. \<open>tree_ok\<close> says that the sectors of the
  tree are used, in range, different from each other and from the inode's own sector. \<open>grow\<close> relates
  the state before and after an operation that only adds to a tree: it is transitive, every step of
  \<open>allocate_block_for\<close> is one, and it frames everything the inode does not own.
\<close>

datatype slot = Direct nat | Ind | IndE nat | Dbl | Inner nat | InnerE nat nat

fun valid_slot :: "slot \<Rightarrow> bool" where
  "valid_slot (Direct i) \<longleftrightarrow> i < 12"
| "valid_slot Ind \<longleftrightarrow> True"
| "valid_slot (IndE j) \<longleftrightarrow> j < 128"
| "valid_slot Dbl \<longleftrightarrow> True"
| "valid_slot (Inner j) \<longleftrightarrow> j < 128"
| "valid_slot (InnerE j k) \<longleftrightarrow> j < 128 \<and> k < 128"

fun data_slot :: "slot \<Rightarrow> bool" where
  "data_slot (Direct i) \<longleftrightarrow> True"
| "data_slot (IndE j) \<longleftrightarrow> True"
| "data_slot (InnerE j k) \<longleftrightarrow> True"
| "data_slot _ \<longleftrightarrow> False"

definition entry :: "(sector \<Rightarrow> sector_data) \<Rightarrow> sector \<Rightarrow> nat \<Rightarrow> nat" where
  "entry v b j = (if b = 0 then 0 else u32_at (v b) (4 * j))"

fun ptr :: "(sector \<Rightarrow> sector_data) \<Rightarrow> inode_disk \<Rightarrow> slot \<Rightarrow> sector" where
  "ptr v d (Direct i) = direct_blocks d ! i"
| "ptr v d Ind = indirect_block d"
| "ptr v d (IndE j) = entry v (indirect_block d) j"
| "ptr v d Dbl = doubly_indirect_block d"
| "ptr v d (Inner j) = entry v (doubly_indirect_block d) j"
| "ptr v d (InnerE j k) = entry v (entry v (doubly_indirect_block d) j) k"

text \<open>The slot of a logical block index, and the number of blocks the tree can hold.\<close>

definition slot_of :: "nat \<Rightarrow> slot" where
  "slot_of i = (if i < 12 then Direct i else if i < 140 then IndE (i - 12)
     else InnerE ((i - 140) div 128) ((i - 140) mod 128))"

definition MAX_BLOCKS :: nat where
  "MAX_BLOCKS = 12 + 128 + 128 * 128"

lemma slot_of_valid: "i < MAX_BLOCKS \<Longrightarrow> valid_slot (slot_of i) \<and> data_slot (slot_of i)"
  by (auto simp: slot_of_def MAX_BLOCKS_def less_mult_imp_div_less)

lemma slot_of_inj: "slot_of i = slot_of j \<Longrightarrow> i = j"
proof -
  assume eq: "slot_of i = slot_of j"
  consider "i < 140" | "j < 140" | "140 \<le> i" "140 \<le> j" by linarith
  then show ?thesis
  proof cases
    case 3
    then have "(i - 140) div 128 = (j - 140) div 128" "(i - 140) mod 128 = (j - 140) mod 128"
      using eq by (auto simp: slot_of_def)
    then have "i - 140 = j - 140" by (metis div_mult_mod_eq)
    with 3 show ?thesis by simp
  qed (use eq in \<open>auto simp: slot_of_def split: if_splits\<close>)
qed

definition linked :: "(sector \<Rightarrow> sector_data) \<Rightarrow> inode_disk \<Rightarrow> slot set" where
  "linked v d = {p. valid_slot p \<and> ptr v d p \<noteq> 0}"

definition owned :: "(sector \<Rightarrow> sector_data) \<Rightarrow> inode_disk \<Rightarrow> sector set" where
  "owned v d = ptr v d ` linked v d"

definition tree_ok :: "nat \<Rightarrow> sector \<Rightarrow> (sector \<Rightarrow> sector_data) \<Rightarrow> (sector \<Rightarrow> bool) \<Rightarrow> inode_disk \<Rightarrow> bool" where
  "tree_ok N sec v u d \<longleftrightarrow> disk_wf d \<and> u sec \<and> sec < N
     \<and> (\<forall>x \<in> owned v d. 2 \<le> x \<and> x < N \<and> x \<noteq> sec \<and> u x) \<and> inj_on (ptr v d) (linked v d)"

lemma linkedI: "valid_slot p \<Longrightarrow> ptr v d p \<noteq> 0 \<Longrightarrow> p \<in> linked v d"
  by (simp add: linked_def)

lemma ownedI: "valid_slot p \<Longrightarrow> ptr v d p \<noteq> 0 \<Longrightarrow> ptr v d p \<in> owned v d"
  by (simp add: owned_def linked_def)

lemma tree_sector:
  "tree_ok N sec v u d \<Longrightarrow> valid_slot p \<Longrightarrow> ptr v d p \<noteq> 0
     \<Longrightarrow> 2 \<le> ptr v d p \<and> ptr v d p < N \<and> ptr v d p \<noteq> sec \<and> u (ptr v d p)"
  using ownedI by (auto simp: tree_ok_def)

lemma tree_distinct:
  "tree_ok N sec v u d \<Longrightarrow> valid_slot p \<Longrightarrow> valid_slot q \<Longrightarrow> ptr v d p \<noteq> 0
     \<Longrightarrow> ptr v d p = ptr v d q \<Longrightarrow> p = q"
  unfolding tree_ok_def inj_on_def linked_def by auto

lemma fresh_not_owned: "tree_ok N sec v u d \<Longrightarrow> \<not> u x \<Longrightarrow> x \<notin> owned v d"
  by (auto simp: tree_ok_def)

text \<open>The pointers depend on the contents of the pointer blocks only.\<close>

lemma ptr_cong:
  assumes "\<And>p. valid_slot p \<Longrightarrow> \<not> data_slot p \<Longrightarrow> ptr v d p \<noteq> 0 \<Longrightarrow> v' (ptr v d p) = v (ptr v d p)"
    and "valid_slot p"
  shows "ptr v' d p = ptr v d p"
proof -
  have ind: "indirect_block d \<noteq> 0 \<Longrightarrow> v' (indirect_block d) = v (indirect_block d)"
    and dbl: "doubly_indirect_block d \<noteq> 0 \<Longrightarrow> v' (doubly_indirect_block d) = v (doubly_indirect_block d)"
    using assms(1) [of Ind] assms(1) [of Dbl] by auto
  have inner: "entry v' (doubly_indirect_block d) j = entry v (doubly_indirect_block d) j" for j
    using dbl by (simp add: entry_def)
  have "entry v b j \<noteq> 0 \<Longrightarrow> v' (entry v b j) = v (entry v b j)" if "j < 128" "b = doubly_indirect_block d" for b j
    using assms(1) [of "Inner j"] that by simp
  with assms(2) ind inner show ?thesis by (cases p) (auto simp: entry_def [of _ "entry v b j" for b j] entry_def [of _ "indirect_block d"])
qed

text \<open>Trees with the same pointers.\<close>

lemma tree_cong:
  assumes "\<And>p. valid_slot p \<Longrightarrow> ptr v' d p = ptr v d p"
  shows "owned v' d = owned v d" and "tree_ok N sec v' u d = tree_ok N sec v u d"
proof -
  have lk: "linked v' d = linked v d" using assms by (auto simp: linked_def)
  show own: "owned v' d = owned v d"
    unfolding owned_def lk using assms by (intro image_cong) (auto simp: linked_def)
  have "inj_on (ptr v' d) (linked v d) = inj_on (ptr v d) (linked v d)"
    using assms by (intro inj_on_cong) (auto simp: linked_def)
  then show "tree_ok N sec v' u d = tree_ok N sec v u d" by (simp add: tree_ok_def own lk)
qed

lemma ptr_update_data:
  assumes "tree_ok N sec v u d" and "valid_slot q" "data_slot q" "ptr v d q = x" "x \<noteq> 0" and "valid_slot p"
  shows "ptr (v(x := c)) d p = ptr v d p"
  using assms tree_distinct [OF assms(1)] by (intro ptr_cong) auto

lemma ptr_update_outside:
  assumes "x \<notin> owned v d" and "valid_slot p"
  shows "ptr (v(x := c)) d p = ptr v d p"
  using assms ownedI by (intro ptr_cong) auto

subsection \<open>Growing the tree\<close>

definition same_meta :: "inode_disk \<Rightarrow> inode_disk \<Rightarrow> bool" where
  "same_meta d d' \<longleftrightarrow> length_field d' = length_field d \<and> write_end d' = write_end d \<and> magic d' = magic d
     \<and> is_dir_byte d' = is_dir_byte d \<and> is_symlink_byte d' = is_symlink_byte d \<and> padding d' = padding d"

text \<open>\<open>Q\<close> are the data slots that may be newly linked.\<close>

definition grow :: "nat \<Rightarrow> sector \<Rightarrow> slot set
    \<Rightarrow> (sector \<Rightarrow> sector_data) \<Rightarrow> (sector \<Rightarrow> bool) \<Rightarrow> inode_disk
    \<Rightarrow> (sector \<Rightarrow> sector_data) \<Rightarrow> (sector \<Rightarrow> bool) \<Rightarrow> inode_disk \<Rightarrow> bool" where
  "grow N sec Q v u d v' u' d' \<longleftrightarrow> tree_ok N sec v' u' d' \<and> same_meta d d' \<and> (\<forall>x. u x \<longrightarrow> u' x)
     \<and> (\<forall>y. u y \<and> y \<notin> owned v d \<longrightarrow> v' y = v y) \<and> owned v' d' \<subseteq> owned v d \<union> {y. \<not> u y}
     \<and> (\<forall>p. valid_slot p \<and> ptr v d p \<noteq> 0 \<longrightarrow> ptr v' d' p = ptr v d p
          \<and> (data_slot p \<longrightarrow> v' (ptr v d p) = v (ptr v d p)))
     \<and> (\<forall>p. valid_slot p \<and> data_slot p \<and> ptr v d p = 0 \<and> ptr v' d' p \<noteq> 0 \<longrightarrow> p \<in> Q)"

lemma tree_ok_mono: "tree_ok N sec v u d \<Longrightarrow> (\<And>x. u x \<Longrightarrow> u' x) \<Longrightarrow> tree_ok N sec v u' d"
  by (auto simp: tree_ok_def)

lemma grow_mark: "tree_ok N sec v u d \<Longrightarrow> (\<And>x. u x \<Longrightarrow> u' x) \<Longrightarrow> grow N sec Q v u d v u' d"
  by (auto simp: grow_def same_meta_def intro: tree_ok_mono)

lemma grow_tree: "grow N sec Q v u d v' u' d' \<Longrightarrow> tree_ok N sec v' u' d'"
  by (simp add: grow_def)

text \<open>The steps of growing: sector \<open>x\<close>, free in the beginning and used since, is linked at slot \<open>q\<close>;
  nothing but \<open>x\<close> and pointer blocks changes.\<close>

lemma grow_link:
  assumes g: "grow N sec Q v (u(x := True)) d v2 u2 d2" and t: "tree_ok N sec v u d"
    and x: "\<not> u x" "2 \<le> x" "x < N"
    and q: "valid_slot q" "ptr v2 d2 q = 0" "data_slot q \<Longrightarrow> q \<in> Q"
    and d3: "disk_wf d3" "same_meta d2 d3"
    and agree: "\<And>p. valid_slot p \<Longrightarrow> ptr v3 d3 p = (if p = q then x else ptr v2 d2 p)"
    and ch: "\<And>y. v3 y \<noteq> v2 y \<Longrightarrow> y = x \<or> (\<exists>p. valid_slot p \<and> \<not> data_slot p \<and> ptr v2 d2 p = y \<and> y \<noteq> 0)"
  shows "grow N sec Q v u d v3 u2 d3"
proof -
  have t2: "tree_ok N sec v2 u2 d2" and u2: "\<And>y. u y \<or> y = x \<Longrightarrow> u2 y" and meta: "same_meta d d2"
    and fr: "\<And>y. u y \<or> y = x \<Longrightarrow> y \<notin> owned v d \<Longrightarrow> v2 y = v y"
    and own: "owned v2 d2 \<subseteq> owned v d \<union> {y. \<not> u y \<and> y \<noteq> x}"
    and pers: "\<And>p. valid_slot p \<Longrightarrow> ptr v d p \<noteq> 0 \<Longrightarrow> ptr v2 d2 p = ptr v d p
        \<and> (data_slot p \<longrightarrow> v2 (ptr v d p) = v (ptr v d p))"
    and new: "\<And>p. valid_slot p \<Longrightarrow> data_slot p \<Longrightarrow> ptr v d p = 0 \<Longrightarrow> ptr v2 d2 p \<noteq> 0 \<Longrightarrow> p \<in> Q"
    using g by (auto simp: grow_def split: if_splits)
  have xo: "x \<notin> owned v2 d2" using fresh_not_owned [OF t x(1)] own by auto
  have lk: "linked v3 d3 = insert q (linked v2 d2)" using agree q(1,2) x(2) by (auto simp: linked_def)
  have ow: "owned v3 d3 = insert x (owned v2 d2)"
  proof -
    have "ptr v3 d3 ` linked v2 d2 = ptr v2 d2 ` linked v2 d2"
      using agree q(2) by (intro image_cong) (auto simp: linked_def)
    then show ?thesis using agree [OF q(1)] by (simp add: owned_def lk)
  qed
  have "inj_on (ptr v3 d3) (linked v3 d3)"
  proof (rule inj_onI)
    fix a b assume ab: "a \<in> linked v3 d3" "b \<in> linked v3 d3" "ptr v3 d3 a = ptr v3 d3 b"
    have v: "valid_slot a" "valid_slot b" using ab by (auto simp: linked_def)
    have nx: "ptr v2 d2 c \<noteq> x" if "valid_slot c" for c
      using ownedI [OF that, of v2 d2] xo x(2) by (cases "ptr v2 d2 c = 0") auto
    show "a = b"
      using ab agree [OF v(1)] agree [OF v(2)] nx [OF v(1)] nx [OF v(2)] tree_distinct [OF t2 v]
      by (auto simp: linked_def split: if_splits)
  qed
  moreover have "x \<noteq> sec" using t x(1) by (auto simp: tree_ok_def)
  ultimately have "tree_ok N sec v3 u2 d3"
    using t2 x u2 [of x] d3(1) by (auto simp: tree_ok_def ow)
  moreover have "v3 y = v y" if "u y" "y \<notin> owned v d" for y
  proof -
    have "y \<notin> owned v2 d2" "y \<noteq> x" using that own x(1) by auto
    then have "v3 y = v2 y" using ch [of y] ownedI by blast
    with fr that show ?thesis by simp
  qed
  moreover have "owned v3 d3 \<subseteq> owned v d \<union> {y. \<not> u y}" using own x(1) by (auto simp: ow)
  moreover have "ptr v3 d3 p = ptr v d p \<and> (data_slot p \<longrightarrow> v3 (ptr v d p) = v (ptr v d p))"
    if p: "valid_slot p" "ptr v d p \<noteq> 0" for p
  proof -
    note p2 = pers [OF p]
    then have "p \<noteq> q" using q(2) p(2) by auto
    moreover have "v3 (ptr v d p) = v2 (ptr v d p)" if "data_slot p"
      using ch [of "ptr v d p"] tree_distinct [OF t2 p(1)] p2 p(2) that xo ownedI [OF p(1), of v2 d2]
      by metis
    ultimately show ?thesis using agree [OF p(1)] p2 by auto
  qed
  moreover have "p \<in> Q" if "valid_slot p" "data_slot p" "ptr v d p = 0" "ptr v3 d3 p \<noteq> 0" for p
    using agree [OF that(1)] that new [of p] q(3) by (auto split: if_splits)
  moreover have "same_meta d d3" using meta d3(2) by (auto simp: same_meta_def)
  ultimately show ?thesis using u2 unfolding grow_def by blast
qed

lemma grow_trans:
  assumes "grow N sec Q v u d v2 u2 d2" and "grow N sec Q v2 u2 d2 v3 u3 d3"
  shows "grow N sec Q v u d v3 u3 d3"
proof -
  have own: "owned v2 d2 \<subseteq> owned v d \<union> {y. \<not> u y}" "owned v3 d3 \<subseteq> owned v2 d2 \<union> {y. \<not> u2 y}"
    and u: "\<And>y. u y \<Longrightarrow> u2 y" "\<And>y. u2 y \<Longrightarrow> u3 y"
    and fr: "\<And>y. u y \<Longrightarrow> y \<notin> owned v d \<Longrightarrow> v2 y = v y"
      "\<And>y. u2 y \<Longrightarrow> y \<notin> owned v2 d2 \<Longrightarrow> v3 y = v2 y"
    and pers: "\<And>p. valid_slot p \<Longrightarrow> ptr v d p \<noteq> 0 \<Longrightarrow> ptr v2 d2 p = ptr v d p
        \<and> (data_slot p \<longrightarrow> v2 (ptr v d p) = v (ptr v d p))"
      "\<And>p. valid_slot p \<Longrightarrow> ptr v2 d2 p \<noteq> 0 \<Longrightarrow> ptr v3 d3 p = ptr v2 d2 p
        \<and> (data_slot p \<longrightarrow> v3 (ptr v2 d2 p) = v2 (ptr v2 d2 p))"
    and new: "\<And>p. valid_slot p \<Longrightarrow> data_slot p \<Longrightarrow> ptr v d p = 0 \<Longrightarrow> ptr v2 d2 p \<noteq> 0 \<Longrightarrow> p \<in> Q"
      "\<And>p. valid_slot p \<Longrightarrow> data_slot p \<Longrightarrow> ptr v2 d2 p = 0 \<Longrightarrow> ptr v3 d3 p \<noteq> 0 \<Longrightarrow> p \<in> Q"
    and rest: "tree_ok N sec v3 u3 d3" "same_meta d d3"
    using assms by (simp_all add: grow_def same_meta_def)
  have "v3 y = v y" if "u y" "y \<notin> owned v d" for y
    using fr(1) [OF that] fr(2) [of y] u(1) [OF that(1)] own(1) that by auto
  moreover have "owned v3 d3 \<subseteq> owned v d \<union> {y. \<not> u y}" using own u(1) by blast
  moreover have "ptr v3 d3 p = ptr v d p \<and> (data_slot p \<longrightarrow> v3 (ptr v d p) = v (ptr v d p))"
    if "valid_slot p" "ptr v d p \<noteq> 0" for p
    using pers(1) [OF that] pers(2) [of p] that by auto
  moreover have "p \<in> Q" if "valid_slot p" "data_slot p" "ptr v d p = 0" "ptr v3 d3 p \<noteq> 0" for p
    using new(1) [OF that(1-3)] new(2) [OF that(1,2)] that(4) by blast
  ultimately show ?thesis using rest u unfolding grow_def by blast
qed

subsection \<open>The ways a sector is linked\<close>

lemma entry_update_other: "b \<noteq> x \<Longrightarrow> entry (v(x := c)) b j = entry v b j"
  by (simp add: entry_def)

lemma entry_zero_sector: "j < 128 \<Longrightarrow> entry (v(x := zero_sector)) x j = 0"
  by (simp add: entry_def zero_sector_def)

lemma entry_put:
  assumes "length (v b) = 512" and "b \<noteq> 0" and "j < 128" and "x < 2 ^ 32"
  shows "\<exists>c. put_ptr (v b) j x = Some c \<and> length c = 512
    \<and> (\<forall>k < 128. entry (v(b := c)) b k = (if k = j then x else entry v b k))"
  using put_ptr_spec [of j "v b" x] assms by (auto simp: entry_def)

text \<open>The pointer blocks of a tree are three kinds of sectors, different from each other.\<close>

lemma inner_distinct:
  assumes "tree_ok N sec v u d" and "j < 128" and "k < 128"
  shows "entry v (doubly_indirect_block d) j \<noteq> 0 \<Longrightarrow> entry v (doubly_indirect_block d) j \<noteq> indirect_block d"
    and "entry v (doubly_indirect_block d) j \<noteq> 0 \<Longrightarrow> entry v (doubly_indirect_block d) j \<noteq> doubly_indirect_block d"
    and "entry v (doubly_indirect_block d) j \<noteq> 0
      \<Longrightarrow> entry v (doubly_indirect_block d) j = entry v (doubly_indirect_block d) k \<Longrightarrow> j = k"
    and "indirect_block d \<noteq> 0 \<Longrightarrow> indirect_block d \<noteq> doubly_indirect_block d"
  using tree_distinct [OF assms(1), of "Inner j" Ind] tree_distinct [OF assms(1), of "Inner j" Dbl]
    tree_distinct [OF assms(1), of "Inner j" "Inner k"] tree_distinct [OF assms(1), of Ind Dbl] assms
  by auto

lemma link_direct:
  "length (direct_blocks d) = 12 \<Longrightarrow> i < 12 \<Longrightarrow>
   ptr v (d \<lparr> direct_blocks := (direct_blocks d)[i := x] \<rparr>) p = (if p = Direct i then x else ptr v d p)"
  by (cases p) (auto simp: nth_list_update)

lemma link_ind:
  assumes "x \<notin> owned v d" and "x \<noteq> 0" and "indirect_block d = 0" and "valid_slot p"
  shows "ptr (v(x := zero_sector)) (d \<lparr> indirect_block := x \<rparr>) p = (if p = Ind then x else ptr v d p)"
proof -
  have "ptr (v(x := zero_sector)) (d \<lparr> indirect_block := x \<rparr>) p = ptr (v(x := zero_sector)) d p"
    if "p \<noteq> Ind" "\<forall>j. p \<noteq> IndE j" using that by (cases p) auto
  with ptr_update_outside [OF assms(1,4)] assms show ?thesis
    by (cases p) (auto simp: entry_zero_sector entry_def [of v 0])
qed

lemma link_dbl:
  assumes "x \<notin> owned v d" and "x \<noteq> 0" and "doubly_indirect_block d = 0" and "valid_slot p"
  shows "ptr (v(x := zero_sector)) (d \<lparr> doubly_indirect_block := x \<rparr>) p = (if p = Dbl then x else ptr v d p)"
proof -
  have "ptr (v(x := zero_sector)) (d \<lparr> doubly_indirect_block := x \<rparr>) p = ptr (v(x := zero_sector)) d p"
    if "p \<noteq> Dbl" "\<forall>j. p \<noteq> Inner j" "\<forall>j k. p \<noteq> InnerE j k" using that by (cases p) auto
  with ptr_update_outside [OF assms(1,4)] assms show ?thesis
    by (cases p) (auto simp: entry_zero_sector entry_def [of v 0] entry_def [of _ 0])
qed

lemma link_ind_entry:
  assumes t: "tree_ok N sec v u d" and b: "b = indirect_block d" "b \<noteq> 0"
    and c: "\<forall>k < 128. entry (v(b := c)) b k = (if k = j then x else entry v b k)" and p: "valid_slot p"
  shows "ptr (v(b := c)) d p = (if p = IndE j then x else ptr v d p)"
proof (cases "\<exists>k. p = IndE k")
  case True
  with b c p show ?thesis by (auto split: if_splits)
next
  case False
  have "doubly_indirect_block d \<noteq> b" using inner_distinct(4) [OF t, of 0 0] b by auto
  moreover have "entry v (doubly_indirect_block d) m \<noteq> b" if "m < 128" for m
    using inner_distinct(1) [OF t that that] b by (cases "entry v (doubly_indirect_block d) m = 0") auto
  ultimately show ?thesis using False p by (cases p) (auto simp: entry_update_other)
qed

lemma link_inner_entry:
  assumes t: "tree_ok N sec v u d" and i: "i < 128" and b: "b = entry v (doubly_indirect_block d) i" "b \<noteq> 0"
    and c: "\<forall>k < 128. entry (v(b := c)) b k = (if k = j then x else entry v b k)" and p: "valid_slot p"
  shows "ptr (v(b := c)) d p = (if p = InnerE i j then x else ptr v d p)"
proof -
  have ne: "indirect_block d \<noteq> b" "doubly_indirect_block d \<noteq> b"
    using inner_distinct [OF t i i] b by auto
  show ?thesis
  proof (cases p)
    case (InnerE m k)
    show ?thesis
    proof (cases "m = i")
      case True
      with InnerE c p b ne show ?thesis by (auto simp: entry_update_other split: if_splits)
    next
      case False
      then have "entry v (doubly_indirect_block d) m \<noteq> b"
        using inner_distinct(3) [OF t i, of m] b p InnerE by auto
      with False InnerE ne show ?thesis by (simp add: entry_update_other)
    qed
  qed (use ne in \<open>auto simp: entry_update_other\<close>)
qed

lemma link_inner:
  assumes t: "tree_ok N sec v u d" and x: "x \<notin> owned v d" "x \<noteq> 0"
    and b: "b = doubly_indirect_block d" "b \<noteq> 0" and j: "entry v b j = 0"
    and c: "\<forall>k < 128. entry (v(b := c)) b k = (if k = j then x else entry v b k)" and p: "valid_slot p"
  shows "ptr (v(b := c, x := zero_sector)) d p = (if p = Inner j then x else ptr v d p)"
proof -
  have ne: "b \<noteq> x" "indirect_block d \<noteq> b" "indirect_block d \<noteq> x"
    using x b ownedI [of Dbl v d] ownedI [of Ind v d] inner_distinct(4) [OF t, of 0 0] by auto
  have inner: "entry (v(b := c, x := zero_sector)) b k = (if k = j then x else entry v b k)" if "k < 128" for k
    using c that ne(1) by (simp add: entry_update_other)
  show ?thesis
  proof (cases p)
    case (InnerE m k)
    show ?thesis
    proof (cases "m = j")
      case True
      with InnerE p b inner j x(2) show ?thesis by (auto simp: entry_zero_sector entry_def [of v 0])
    next
      case False
      have "entry v b m \<noteq> b" "entry v b m \<noteq> x"
        using inner_distinct(2) [OF t, of m m] ownedI [of "Inner m" v d] x b p InnerE by (auto split: if_splits)
      with False InnerE p b inner show ?thesis by (simp add: entry_update_other)
    qed
  next
    case (Inner k)
    with p inner b show ?thesis by simp
  qed (use ne b in \<open>auto simp: entry_update_other\<close>)
qed

end
