(* ===== verification/InodeAlloc.thy ===== *)
theory InodeAlloc
  imports InodeTree
begin

section \<open>Finding and allocating blocks\<close>

text \<open>
  \<open>get_block_sector_disk\<close> reads the slot of the block index, and \<open>allocate_block_for\<close> and the block
  step of \<open>write_at\<close> grow the tree by that slot.
\<close>

lemma st_get_block:
  assumes s: "st N I v u0 s" and t: "tree_ok N sec v u d" and i: "i < MAX_BLOCKS"
  shows "\<exists>s'. get_block_sector_disk d i s = Some (nonzero (ptr v d (slot_of i)), s') \<and> st N I v u0 s'"
proof -
  consider "i < 12" | "12 \<le> i" "i < 140" | "140 \<le> i" by linarith
  then show ?thesis
  proof cases
    case 1
    with s t show ?thesis
      by (simp add: get_block_sector_disk_def DIRECT_PTR_CNT_def idx_def slot_of_def tree_ok_def disk_wf_def)
  next
    case 2
    show ?thesis
    proof (cases "indirect_block d = 0")
      case True
      with 2 s show ?thesis
        by (simp add: get_block_sector_disk_def DIRECT_PTR_CNT_def PTRS_PER_BLOCK_def slot_of_def entry_def
            nonzero_def)
    next
      case False
      then have b: "indirect_block d < N" using tree_sector [OF t, of Ind] by simp
      with st_get [OF s b] st_length [OF s b] 2 False show ?thesis
        by (auto simp: get_block_sector_disk_def DIRECT_PTR_CNT_def PTRS_PER_BLOCK_def slot_of_def entry_def
            get_ptr_def)
    qed
  next
    case 3
    define j k where "j = (i - 140) div 128" and "k = (i - 140) mod 128"
    have jk: "j < 128" "k < 128" using slot_of_valid [OF i] 3 by (auto simp: slot_of_def j_def k_def)
    have sl: "slot_of i = InnerE j k" using 3 by (simp add: slot_of_def j_def k_def)
    note defs = get_block_sector_disk_def DIRECT_PTR_CNT_def PTRS_PER_BLOCK_def get_ptr_def sl Let_def
    have i': "i - 12 - 128 = i - 140" by simp
    show ?thesis
    proof (cases "doubly_indirect_block d = 0")
      case True
      with 3 s show ?thesis by (simp add: defs entry_def nonzero_def)
    next
      case dbl: False
      then have b: "doubly_indirect_block d < N" using tree_sector [OF t, of Dbl] by simp
      from st_get [OF s b] obtain s1 where
        s1: "fs_get (doubly_indirect_block d) s = Some (v (doubly_indirect_block d), s1)" "st N I v u0 s1" by blast
      let ?inner = "entry v (doubly_indirect_block d) j"
      have inner: "u32_at (v (doubly_indirect_block d)) (4 * j) = ?inner" using dbl by (simp add: entry_def)
      note common = defs i' s1(1) inner st_length [OF s b]
      show ?thesis
      proof (cases "?inner = 0")
        case True
        with 3 dbl jk s1(2) show ?thesis by (simp add: common entry_def [of v 0] nonzero_def flip: j_def k_def)
      next
        case False
        then have c: "?inner < N" using tree_sector [OF t, of "Inner j"] jk by simp
        from st_get [OF s1(2) c] obtain s2 where s2: "fs_get ?inner s1 = Some (v ?inner, s2)" "st N I v u0 s2"
          by blast
        have "entry v ?inner k = u32_at (v ?inner) (4 * k)" using False by (simp add: entry_def [of v ?inner])
        with 3 dbl jk False s2 st_length [OF s1(2) c] show ?thesis
          by (simp add: common flip: j_def k_def)
      qed
    qed
  qed
qed

lemma grow_refl: "tree_ok N sec v u d \<Longrightarrow> grow N sec Q v u d v u d"
  by (rule grow_mark)

lemma grow_mono: "grow N sec Q v u d v' u' d' \<Longrightarrow> Q \<subseteq> R \<Longrightarrow> grow N sec R v u d v' u' d'"
  unfolding grow_def by blast

lemma tree_wf: "tree_ok N sec v u d \<Longrightarrow> disk_wf d"
  by (simp add: tree_ok_def)

text \<open>The disk is full: no sector that \<open>allocate\<close> may hand out is free.\<close>

definition full :: "nat \<Rightarrow> (sector \<Rightarrow> bool) \<Rightarrow> bool" where
  "full N u \<longleftrightarrow> (\<forall>x. 2 \<le> x \<and> x < N \<longrightarrow> u x)"

text \<open>A fresh sector becomes the indirect or the doubly-indirect block.\<close>

lemma grow_new_ind:
  assumes t: "tree_ok N sec v u d" and x: "\<not> u x" "2 \<le> x" "x < N" "x < 2 ^ 32" and z: "indirect_block d = 0"
  shows "grow N sec {} v u d (v(x := zero_sector)) (u(x := True)) (d \<lparr> indirect_block := x \<rparr>)"
proof (rule grow_link [OF _ t x(1-3)])
  show "grow N sec {} v (u(x := True)) d v (u(x := True)) d"
    by (rule grow_mark [OF tree_ok_mono [OF t]]) auto
  show "ptr (v(x := zero_sector)) (d \<lparr> indirect_block := x \<rparr>) p = (if p = Ind then x else ptr v d p)"
    if "valid_slot p" for p
    using link_ind [OF fresh_not_owned [OF t x(1)] _ z that] x(2) by simp
qed (use z x tree_wf [OF t] in \<open>auto simp: disk_wf_def same_meta_def\<close>)

lemma grow_new_dbl:
  assumes t: "tree_ok N sec v u d" and x: "\<not> u x" "2 \<le> x" "x < N" "x < 2 ^ 32" and z: "doubly_indirect_block d = 0"
  shows "grow N sec {} v u d (v(x := zero_sector)) (u(x := True)) (d \<lparr> doubly_indirect_block := x \<rparr>)"
proof (rule grow_link [OF _ t x(1-3)])
  show "grow N sec {} v (u(x := True)) d v (u(x := True)) d"
    by (rule grow_mark [OF tree_ok_mono [OF t]]) auto
  show "ptr (v(x := zero_sector)) (d \<lparr> doubly_indirect_block := x \<rparr>) p = (if p = Dbl then x else ptr v d p)"
    if "valid_slot p" for p
    using link_dbl [OF fresh_not_owned [OF t x(1)] _ z that] x(2) by simp
qed (use z x tree_wf [OF t] in \<open>auto simp: disk_wf_def same_meta_def\<close>)

text \<open>\<open>ensure_block\<close> for either of them; \<open>store\<close> puts the block in the inode.\<close>

lemma st_ensure_block:
  assumes s: "st N I v u s" and t: "tree_ok N sec v u d"
    and old: "p \<noteq> 0 \<Longrightarrow> store p = d"
    and new: "\<And>x. \<not> u x \<Longrightarrow> 2 \<le> x \<Longrightarrow> x < N \<Longrightarrow> x < 2 ^ 32 \<Longrightarrow> p = 0
      \<Longrightarrow> grow N sec {} v u d (v(x := zero_sector)) (u(x := True)) (store x)"
  shows "\<exists>r s' v' u'. ensure_block p s = Some (r, s') \<and> st N I v' u' s' \<and>
    (case r of
       None \<Rightarrow> v' = v \<and> u' = u \<and> full N u
     | Some b \<Rightarrow> b \<noteq> 0 \<and> grow N sec {} v u d v' u' (store b))"
proof (cases "p = 0")
  case False
  with s old grow_refl [OF t] show ?thesis by (auto simp: ensure_block_def)
next
  case True
  from st_allocate [OF s] obtain r s1 where a: "fs_allocate s = Some (r, s1)"
    "case r of None \<Rightarrow> st N I v u s1 \<and> (\<forall>x. 2 \<le> x \<and> x < N \<longrightarrow> u x)
     | Some x \<Rightarrow> 2 \<le> x \<and> x < N \<and> \<not> u x \<and> st N I v (u(x := True)) s1" by blast
  show ?thesis
  proof (cases r)
    case None
    with a True show ?thesis by (auto simp: ensure_block_def full_def)
  next
    case (Some x)
    with a have x: "2 \<le> x" "x < N" "\<not> u x" "st N I v (u(x := True)) s1" by auto
    from st_zero [OF x(4,2)] obtain s2 where
      "fs_zero x s1 = Some s2" "st N I (v(x := zero_sector)) (u(x := True)) s2" by blast
    moreover have "x < 2 ^ 32" using st_bound [OF s] x(2) by simp
    ultimately show ?thesis using new [OF x(3,1,2)] a(1) Some True x(1) by (auto simp: ensure_block_def)
  qed
qed

text \<open>A pending sector \<open>x\<close> is linked in an entry of a pointer block.\<close>

lemma grow_ind_entry:
  assumes g: "grow N sec {} v (u(x := True)) d v2 u2 d2" and t: "tree_ok N sec v u d"
    and x: "\<not> u x" "2 \<le> x" "x < N" "x < 2 ^ 32" and j: "j < 128" "ptr v d (IndE j) = 0"
    and b: "b = indirect_block d2" "b \<noteq> 0" "length (v2 b) = 512"
  shows "\<exists>c. put_ptr (v2 b) j x = Some c \<and> length c = 512 \<and> ptr (v2(b := c)) d2 (IndE j) = x
           \<and> grow N sec {IndE j} v u d (v2(b := c)) u2 d2"
proof -
  note t2 = grow_tree [OF g]
  from entry_put [of v2, OF b(3,2) j(1) x(4)] obtain c where
    c: "put_ptr (v2 b) j x = Some c" "length c = 512"
      "\<forall>k < 128. entry (v2(b := c)) b k = (if k = j then x else entry v2 b k)" by blast
  have q: "ptr v2 d2 (IndE j) = 0" using g j unfolding grow_def by (meson data_slot.simps(2) empty_iff valid_slot.simps(3))
  note agree = link_ind_entry [OF t2 b(1,2) c(3)]
  have "grow N sec {IndE j} v u d (v2(b := c)) u2 d2"
  proof (rule grow_link [OF grow_mono [OF g] t x(1-3) _ q])
    show "y = x \<or> (\<exists>p. valid_slot p \<and> \<not> data_slot p \<and> ptr v2 d2 p = y \<and> y \<noteq> 0)"
      if "(v2(b := c)) y \<noteq> v2 y" for y
      using that b(1,2) by (auto intro!: exI [of _ Ind] split: if_splits)
  qed (use agree j(1) tree_wf [OF t2] in \<open>auto simp: same_meta_def\<close>)
  with c agree [of "IndE j"] j(1) show ?thesis by auto
qed

lemma grow_inner_entry:
  assumes g: "grow N sec {} v (u(x := True)) d v2 u2 d2" and t: "tree_ok N sec v u d"
    and x: "\<not> u x" "2 \<le> x" "x < N" "x < 2 ^ 32" and jk: "j < 128" "k < 128" "ptr v d (InnerE j k) = 0"
    and b: "b = entry v2 (doubly_indirect_block d2) j" "b \<noteq> 0" "length (v2 b) = 512"
  shows "\<exists>c. put_ptr (v2 b) k x = Some c \<and> length c = 512 \<and> ptr (v2(b := c)) d2 (InnerE j k) = x
           \<and> grow N sec {InnerE j k} v u d (v2(b := c)) u2 d2"
proof -
  note t2 = grow_tree [OF g]
  from entry_put [of v2, OF b(3,2) jk(2) x(4)] obtain c where
    c: "put_ptr (v2 b) k x = Some c" "length c = 512"
      "\<forall>m < 128. entry (v2(b := c)) b m = (if m = k then x else entry v2 b m)" by blast
  have q: "ptr v2 d2 (InnerE j k) = 0"
    using g jk unfolding grow_def by (meson data_slot.simps(3) empty_iff valid_slot.simps(6))
  note agree = link_inner_entry [OF t2 jk(1) b(1,2) c(3)]
  have "grow N sec {InnerE j k} v u d (v2(b := c)) u2 d2"
  proof (rule grow_link [OF grow_mono [OF g] t x(1-3) _ q])
    show "y = x \<or> (\<exists>p. valid_slot p \<and> \<not> data_slot p \<and> ptr v2 d2 p = y \<and> y \<noteq> 0)"
      if "(v2(b := c)) y \<noteq> v2 y" for y
      using that b(1,2) jk(1) by (auto intro!: exI [of _ "Inner j"] split: if_splits)
  qed (use agree jk tree_wf [OF t2] in \<open>auto simp: same_meta_def\<close>)
  with c agree [of "InnerE j k"] jk show ?thesis by auto
qed

lemma grow_new_inner:
  assumes t: "tree_ok N sec v u d" and x: "\<not> u x" "2 \<le> x" "x < N" "x < 2 ^ 32" and j: "j < 128"
    and b: "b = doubly_indirect_block d" "b \<noteq> 0" "length (v b) = 512" "entry v b j = 0"
  shows "\<exists>c. put_ptr (v b) j x = Some c \<and> length c = 512
    \<and> entry (v(b := c, x := zero_sector)) b j = x
    \<and> grow N sec {} v u d (v(b := c, x := zero_sector)) (u(x := True)) d"
proof -
  from entry_put [of v, OF b(3,2) j x(4)] obtain c where
    c: "put_ptr (v b) j x = Some c" "length c = 512"
      "\<forall>k < 128. entry (v(b := c)) b k = (if k = j then x else entry v b k)" by blast
  note agree = link_inner [OF t fresh_not_owned [OF t x(1)] _ b(1,2,4) c(3)]
  have "grow N sec {} v u d (v(b := c, x := zero_sector)) (u(x := True)) d"
  proof (rule grow_link [OF _ t x(1-3), where q = "Inner j"])
    show "grow N sec {} v (u(x := True)) d v (u(x := True)) d"
      by (rule grow_mark [OF tree_ok_mono [OF t]]) auto
    show "y = x \<or> (\<exists>p. valid_slot p \<and> \<not> data_slot p \<and> ptr v d p = y \<and> y \<noteq> 0)"
      if "(v(b := c, x := zero_sector)) y \<noteq> v y" for y
      using that b(1,2) by (auto intro!: exI [of _ Dbl] split: if_splits)
  qed (use agree x(2) j b tree_wf [OF t] in \<open>auto simp: same_meta_def\<close>)
  with c agree [of "Inner j"] x(2) j b(1) show ?thesis by auto
qed

lemma grow_direct:
  assumes t: "tree_ok N sec v u d" and x: "\<not> u x" "2 \<le> x" "x < N" "x < 2 ^ 32"
    and i: "i < 12" "ptr v d (Direct i) = 0"
  shows "grow N sec {Direct i} v u d v (u(x := True)) (d \<lparr> direct_blocks := (direct_blocks d)[i := x] \<rparr>)"
proof (rule grow_link [OF _ t x(1-3)])
  show "grow N sec {Direct i} v (u(x := True)) d v (u(x := True)) d"
    by (rule grow_mark [OF tree_ok_mono [OF t]]) auto
  show "ptr v (d \<lparr> direct_blocks := (direct_blocks d)[i := x] \<rparr>) p = (if p = Direct i then x else ptr v d p)"
    for p using link_direct i(1) tree_wf [OF t] by (simp add: disk_wf_def)
  show "disk_wf (d \<lparr> direct_blocks := (direct_blocks d)[i := x] \<rparr>)"
    using tree_wf [OF t] x(4) by (auto simp: disk_wf_def dest!: subsetD [OF set_update_subset_insert])
qed (use i in \<open>auto simp: same_meta_def\<close>)

subsection \<open>\<open>allocate_block_for\<close>\<close>

text \<open>What it does: the tree grows by the slot of the block index, or the disk is full.\<close>

definition alloc_post :: "nat \<Rightarrow> (sector \<rightharpoonup> inode) option \<Rightarrow> sector \<Rightarrow> slot
    \<Rightarrow> (sector \<Rightarrow> sector_data) \<Rightarrow> (sector \<Rightarrow> bool) \<Rightarrow> inode_disk
    \<Rightarrow> (sector option \<times> inode_disk \<times> 'm fs) option \<Rightarrow> bool" where
  "alloc_post N I sec q v u d res \<longleftrightarrow> (\<exists>r d' s' v' u'. res = Some (r, d', s') \<and> st N I v' u' s'
     \<and> grow N sec {q} v u d v' u' d' \<and>
     (case r of
        None \<Rightarrow> ptr v' d' q = 0 \<and> full N u'
      | Some x \<Rightarrow> ptr v' d' q = x \<and> x \<noteq> 0 \<and> x < N))"

lemma alloc_post_Some:
  "st N I v' u' s' \<Longrightarrow> grow N sec {q} v u d v' u' d' \<Longrightarrow> ptr v' d' q = x \<Longrightarrow> 2 \<le> x \<Longrightarrow> x < N
     \<Longrightarrow> alloc_post N I sec q v u d (Some (Some x, d', s'))"
  unfolding alloc_post_def by force

lemma grow_none:
  "grow N sec {} v u d v' u' d' \<Longrightarrow> valid_slot q \<Longrightarrow> data_slot q \<Longrightarrow> ptr v d q = 0 \<Longrightarrow> ptr v' d' q = 0"
  unfolding grow_def by blast

lemma grow_unmark:
  assumes "grow N sec Q v (u(x := True)) d v' u' d'" and "tree_ok N sec v u d"
  shows "grow N sec Q v u d v' u' d'"
  by (rule grow_trans [OF grow_mark [OF assms(2)] assms(1)]) auto

lemma alloc_post_None:
  assumes "st N I v' u' s'" and "grow N sec {} v (u(x := True)) d v' u' d'" and "tree_ok N sec v u d"
    and "valid_slot q" "data_slot q" "ptr v d q = 0" and "full N u'"
  shows "alloc_post N I sec q v u d (Some (None, d', s'))"
proof -
  have g: "grow N sec {} v u d v' u' d'" using grow_unmark assms(2,3) by blast
  then have "grow N sec {q} v u d v' u' d'" by (rule grow_mono) simp
  with grow_none [OF g assms(4-6)] assms(1,7) show ?thesis unfolding alloc_post_def by auto
qed

lemma alloc_indirect:
  assumes s: "st N I v (u(x := True)) s" and t: "tree_ok N sec v u d"
    and x: "\<not> u x" "2 \<le> x" "x < N" "x < 2 ^ 32" and j: "j < 128" "ptr v d (IndE j) = 0"
  shows "alloc_post N I sec (IndE j) v u d (do {
      (r, s) \<leftarrow> ensure_block (indirect_block d) s;
      case r of
        None \<Rightarrow> Some (None, d, s)
      | Some ib \<Rightarrow> do {
          let disk = d \<lparr> indirect_block := ib \<rparr>;
          s \<leftarrow> fs_update ib (\<lambda>c. put_ptr c j x) s;
          Some (Some x, disk, s)
        } })"
proof -
  have t1: "tree_ok N sec v (u(x := True)) d" by (rule tree_ok_mono [OF t]) auto
  from st_ensure_block [OF s t1, of "indirect_block d" "\<lambda>b. d \<lparr> indirect_block := b \<rparr>"] grow_new_ind [OF t1]
  obtain r s2 v2 u2 where e: "ensure_block (indirect_block d) s = Some (r, s2)" "st N I v2 u2 s2"
    "case r of None \<Rightarrow> v2 = v \<and> u2 = u(x := True) \<and> full N (u(x := True))
     | Some b \<Rightarrow> b \<noteq> 0 \<and> grow N sec {} v (u(x := True)) d v2 u2 (d \<lparr> indirect_block := b \<rparr>)" by auto
  show ?thesis
  proof (cases r)
    case None
    have "alloc_post N I sec (IndE j) v u d (Some (None, d, s2))"
      by (rule alloc_post_None [OF _ grow_refl [OF t1] t]) (use e None j in auto)
    with e None show ?thesis by simp
  next
    case (Some b)
    let ?d = "d \<lparr> indirect_block := b \<rparr>"
    have g: "grow N sec {} v (u(x := True)) d v2 u2 ?d" "b \<noteq> 0" using e(3) Some by auto
    have b: "b < N" using tree_sector [OF grow_tree [OF g(1)], of Ind] g(2) by simp
    from grow_ind_entry [OF g(1) t x j, of b] g(2) st_length [OF e(2) b] obtain c where
      c: "put_ptr (v2 b) j x = Some c" "length c = 512" "ptr (v2(b := c)) ?d (IndE j) = x"
        "grow N sec {IndE j} v u d (v2(b := c)) u2 ?d" by auto
    from st_update [OF e(2) b, where f = "\<lambda>d. put_ptr d j x", OF c(1,2)] obtain s3 where
      "fs_update b (\<lambda>d. put_ptr d j x) s2 = Some s3" "st N I (v2(b := c)) u2 s3" by blast
    with e(1) Some alloc_post_Some [OF _ c(4,3) x(2,3)] show ?thesis by simp
  qed
qed

text \<open>The inner pointer block of a doubly-indirect block, found or allocated.\<close>

lemma st_inner_block:
  assumes s: "st N I v u s" and t: "tree_ok N sec v u d" and j: "j < 128"
    and b: "b = doubly_indirect_block d" "b \<noteq> 0"
  shows "\<exists>r s' v' u'. (if entry v b j = 0
       then do {
         (r, s) \<leftarrow> fs_allocate s;
         case r of
           None \<Rightarrow> Some (None, s)
         | Some new_inner \<Rightarrow> do {
             s \<leftarrow> fs_update b (\<lambda>c. put_ptr c j new_inner) s;
             s \<leftarrow> fs_zero new_inner s;
             Some (Some new_inner, s)
           }
       }
       else Some (Some (entry v b j), s)) = Some (r, s') \<and> st N I v' u' s' \<and>
    (case r of
       None \<Rightarrow> v' = v \<and> u' = u \<and> full N u
     | Some c \<Rightarrow> c \<noteq> 0 \<and> c = entry v' b j \<and> grow N sec {} v u d v' u' d)"
proof (cases "entry v b j = 0")
  case False
  with s grow_refl [OF t] show ?thesis by auto
next
  case True
  have bN: "b < N" using tree_sector [OF t, of Dbl] b by simp
  from st_allocate [OF s] obtain r s1 where a: "fs_allocate s = Some (r, s1)"
    "case r of None \<Rightarrow> st N I v u s1 \<and> (\<forall>x. 2 \<le> x \<and> x < N \<longrightarrow> u x)
     | Some x \<Rightarrow> 2 \<le> x \<and> x < N \<and> \<not> u x \<and> st N I v (u(x := True)) s1" by blast
  show ?thesis
  proof (cases r)
    case None
    with a True show ?thesis by (auto simp: full_def)
  next
    case (Some x)
    with a have x: "2 \<le> x" "x < N" "\<not> u x" "st N I v (u(x := True)) s1" by auto
    have x32: "x < 2 ^ 32" using st_bound [OF s] x(2) by simp
    from grow_new_inner [OF t x(3,1,2) x32 j b st_length [OF s bN] True] obtain c where
      c: "put_ptr (v b) j x = Some c" "length c = 512" "entry (v(b := c, x := zero_sector)) b j = x"
        "grow N sec {} v u d (v(b := c, x := zero_sector)) (u(x := True)) d" by blast
    from st_update [OF x(4) bN, where f = "\<lambda>d. put_ptr d j x", OF c(1,2)] obtain s2 where
      s2: "fs_update b (\<lambda>d. put_ptr d j x) s1 = Some s2" "st N I (v(b := c)) (u(x := True)) s2" by blast
    from st_zero [OF s2(2) x(2)] obtain s3 where
      "fs_zero x s2 = Some s3" "st N I (v(b := c, x := zero_sector)) (u(x := True)) s3" by blast
    with True a(1) Some s2(1) c(3,4) x(1) show ?thesis
      by (intro exI [of _ "Some x"] exI [of _ s3] exI [of _ "v(b := c, x := zero_sector)"]
          exI [of _ "u(x := True)"]) auto
  qed
qed

lemma alloc_doubly:
  assumes s: "st N I v (u(x := True)) s" and t: "tree_ok N sec v u d"
    and x: "\<not> u x" "2 \<le> x" "x < N" "x < 2 ^ 32" and jk: "j < 128" "k < 128" "ptr v d (InnerE j k) = 0"
  shows "alloc_post N I sec (InnerE j k) v u d (do {
      (r, s) \<leftarrow> ensure_block (doubly_indirect_block d) s;
      case r of
        None \<Rightarrow> Some (None, d, s)
      | Some db \<Rightarrow> do {
          let disk = d \<lparr> doubly_indirect_block := db \<rparr>;
          (c, s) \<leftarrow> fs_get db s;
          inner \<leftarrow> get_ptr c j;
          (r, s) \<leftarrow>
            (if inner = 0
             then do {
               (r, s) \<leftarrow> fs_allocate s;
               case r of
                 None \<Rightarrow> Some (None, s)
               | Some new_inner \<Rightarrow> do {
                   s \<leftarrow> fs_update db (\<lambda>c. put_ptr c j new_inner) s;
                   s \<leftarrow> fs_zero new_inner s;
                   Some (Some new_inner, s)
                 }
             }
             else Some (Some inner, s));
          case r of
            None \<Rightarrow> Some (None, disk, s)
          | Some inner_sector \<Rightarrow> do {
              s \<leftarrow> fs_update inner_sector (\<lambda>c. put_ptr c k x) s;
              Some (Some x, disk, s)
            }
        } })"
proof -
  have t1: "tree_ok N sec v (u(x := True)) d" by (rule tree_ok_mono [OF t]) auto
  from st_ensure_block [OF s t1, of "doubly_indirect_block d" "\<lambda>b. d \<lparr> doubly_indirect_block := b \<rparr>"]
    grow_new_dbl [OF t1]
  obtain r s2 v2 u2 where e: "ensure_block (doubly_indirect_block d) s = Some (r, s2)" "st N I v2 u2 s2"
    "case r of None \<Rightarrow> v2 = v \<and> u2 = u(x := True) \<and> full N (u(x := True))
     | Some b \<Rightarrow> b \<noteq> 0 \<and> grow N sec {} v (u(x := True)) d v2 u2 (d \<lparr> doubly_indirect_block := b \<rparr>)" by auto
  show ?thesis
  proof (cases r)
    case None
    have "alloc_post N I sec (InnerE j k) v u d (Some (None, d, s2))"
      by (rule alloc_post_None [OF _ grow_refl [OF t1] t]) (use e None jk in auto)
    with e None show ?thesis by simp
  next
    case (Some b)
    let ?d = "d \<lparr> doubly_indirect_block := b \<rparr>"
    have g: "grow N sec {} v (u(x := True)) d v2 u2 ?d" "b \<noteq> 0" using e(3) Some by auto
    note t2 = grow_tree [OF g(1)]
    have b: "b < N" using tree_sector [OF t2, of Dbl] g(2) by simp
    from st_get [OF e(2) b] obtain s3 where s3: "fs_get b s2 = Some (v2 b, s3)" "st N I v2 u2 s3" by blast
    have ent: "get_ptr (v2 b) j = Some (entry v2 b j)"
      using st_length [OF e(2) b] jk(1) g(2) by (simp add: get_ptr_def entry_def)
    from st_inner_block [OF s3(2) t2 jk(1), of b] g(2) obtain r' s4 v4 u4 where
      i: "(if entry v2 b j = 0
       then do {
         (r, s) \<leftarrow> fs_allocate s3;
         case r of
           None \<Rightarrow> Some (None, s)
         | Some new_inner \<Rightarrow> do {
             s \<leftarrow> fs_update b (\<lambda>c. put_ptr c j new_inner) s;
             s \<leftarrow> fs_zero new_inner s;
             Some (Some new_inner, s)
           }
       }
       else Some (Some (entry v2 b j), s3)) = Some (r', s4)" "st N I v4 u4 s4"
        "case r' of None \<Rightarrow> v4 = v2 \<and> u4 = u2 \<and> full N u2
         | Some c \<Rightarrow> c \<noteq> 0 \<and> c = entry v4 b j \<and> grow N sec {} v2 u2 ?d v4 u4 ?d" by auto
    note run = e(1) Some s3(1) ent i(1)
    show ?thesis
    proof (cases r')
      case None
      have "alloc_post N I sec (InnerE j k) v u d (Some (None, ?d, s4))"
        by (rule alloc_post_None [OF _ g(1) t]) (use i None jk in auto)
      with run None show ?thesis by simp
    next
      case (Some c)
      have c: "c \<noteq> 0" "c = entry v4 b j" and g4: "grow N sec {} v2 u2 ?d v4 u4 ?d" using i(3) Some by auto
      note g5 = grow_trans [OF g(1) g4]
      have cN: "c < N" using tree_sector [OF grow_tree [OF g4], of "Inner j"] c jk(1) by simp
      from grow_inner_entry [OF g5 t x jk, of c] c st_length [OF i(2) cN] obtain e where
        e: "put_ptr (v4 c) k x = Some e" "length e = 512" "ptr (v4(c := e)) ?d (InnerE j k) = x"
          "grow N sec {InnerE j k} v u d (v4(c := e)) u4 ?d" by auto
      from st_update [OF i(2) cN, where f = "\<lambda>d. put_ptr d k x", OF e(1,2)] obtain s5 where
        "fs_update c (\<lambda>d. put_ptr d k x) s4 = Some s5" "st N I (v4(c := e)) u4 s5" by blast
      with run Some alloc_post_Some [OF _ e(4,3) x(2,3)] show ?thesis by simp
    qed
  qed
qed

lemma st_allocate_block:
  assumes s: "st N I v u s" and t: "tree_ok N sec v u d" and i: "i < MAX_BLOCKS"
    and z: "ptr v d (slot_of i) = 0"
  shows "alloc_post N I sec (slot_of i) v u d (allocate_block_for d i s)"
proof -
  from st_allocate [OF s] obtain r s1 where a: "fs_allocate s = Some (r, s1)"
    "case r of None \<Rightarrow> st N I v u s1 \<and> (\<forall>x. 2 \<le> x \<and> x < N \<longrightarrow> u x)
     | Some x \<Rightarrow> 2 \<le> x \<and> x < N \<and> \<not> u x \<and> st N I v (u(x := True)) s1" by blast
  show ?thesis
  proof (cases r)
    case None
    then show ?thesis using a z grow_refl [OF t, of "{slot_of i}"]
      by (auto simp: allocate_block_for_def alloc_post_def full_def)
  next
    case (Some x)
    with a have x: "\<not> u x" "2 \<le> x" "x < N" "st N I v (u(x := True)) s1" by auto
    have x32: "x < 2 ^ 32" using st_bound [OF s] x(3) by simp
    consider "i < 12" | "12 \<le> i" "i < 140" | "140 \<le> i" by linarith
    then show ?thesis
    proof cases
      case 1
      have sl: "slot_of i = Direct i" using 1 by (simp add: slot_of_def)
      have "length (direct_blocks d) = 12" using tree_wf [OF t] by (simp add: disk_wf_def)
      then show ?thesis using a(1) Some 1 z alloc_post_Some [OF x(4) grow_direct [OF t x(1-3) x32 1] _ x(2,3)]
        by (simp add: allocate_block_for_def DIRECT_PTR_CNT_def upd_def sl)
    next
      case 2
      have "slot_of i = IndE (i - 12)" using 2 by (simp add: slot_of_def)
      then show ?thesis using a(1) Some 2 z alloc_indirect [OF x(4) t x(1-3) x32, of "i - 12"]
        unfolding allocate_block_for_def DIRECT_PTR_CNT_def PTRS_PER_BLOCK_def by simp
    next
      case 3
      define j k where "j = (i - 140) div 128" and "k = (i - 140) mod 128"
      have sl: "slot_of i = InnerE j k" using 3 by (simp add: slot_of_def j_def k_def)
      have jk: "j < 128" "k < 128" using slot_of_valid [OF i] by (auto simp: sl)
      have i': "i - 12 - 128 = i - 140" by simp
      show ?thesis using a(1) Some 3 alloc_doubly [OF x(4) t x(1-3) x32 jk] z
        unfolding allocate_block_for_def DIRECT_PTR_CNT_def PTRS_PER_BLOCK_def sl i' Let_def
          j_def [symmetric] k_def [symmetric] by simp
    qed
  qed
qed

end
