(* ===== verification/InodeRW.thy ===== *)
theory InodeRW
  imports InodeAlloc
begin

section \<open>Reading and writing files\<close>

text \<open>
  \<open>content\<close> is the byte of a file at a position, as the block tree stores it; unallocated blocks
  read as zeros. \<open>write_loop\<close> overwrites exactly the bytes of its range with the buffer and touches
  no sector of another file; \<open>read_loop\<close> returns exactly the bytes of its range.
\<close>

definition content :: "(sector \<Rightarrow> sector_data) \<Rightarrow> inode_disk \<Rightarrow> nat \<Rightarrow> byte" where
  "content v d k = (let b = ptr v d (slot_of (k div 512)) in if b = 0 then 0 else v b ! (k mod 512))"

definition MAX_BYTES :: nat where
  "MAX_BYTES = 512 * MAX_BLOCKS"

lemma block_in_range: "k < MAX_BYTES \<Longrightarrow> k div 512 < MAX_BLOCKS"
  by (simp add: MAX_BYTES_def less_mult_imp_div_less mult.commute)

text \<open>What a file operation on one inode keeps: the tree stays well formed, used sectors stay used,
  a used sector that the inode does not own keeps its contents, and what the inode owns in the end
  was its own or free.\<close>

definition ext :: "nat \<Rightarrow> sector \<Rightarrow> (sector \<Rightarrow> sector_data) \<Rightarrow> (sector \<Rightarrow> bool) \<Rightarrow> inode_disk
    \<Rightarrow> (sector \<Rightarrow> sector_data) \<Rightarrow> (sector \<Rightarrow> bool) \<Rightarrow> inode_disk \<Rightarrow> bool" where
  "ext N sec v u d v' u' d' \<longleftrightarrow> tree_ok N sec v' u' d' \<and> same_meta d d' \<and> (\<forall>x. u x \<longrightarrow> u' x)
     \<and> (\<forall>y. u y \<and> y \<notin> owned v d \<longrightarrow> v' y = v y) \<and> owned v' d' \<subseteq> owned v d \<union> {y. \<not> u y}"

lemma grow_ext: "grow N sec Q v u d v' u' d' \<Longrightarrow> ext N sec v u d v' u' d'"
  by (simp add: grow_def ext_def)

lemma ext_refl: "tree_ok N sec v u d \<Longrightarrow> ext N sec v u d v u d"
  by (simp add: ext_def same_meta_def)

lemma ext_tree: "ext N sec v u d v' u' d' \<Longrightarrow> tree_ok N sec v' u' d'"
  by (simp add: ext_def)

lemma ext_trans:
  assumes "ext N sec v u d v2 u2 d2" and "ext N sec v2 u2 d2 v3 u3 d3"
  shows "ext N sec v u d v3 u3 d3"
proof -
  have own: "owned v2 d2 \<subseteq> owned v d \<union> {y. \<not> u y}" "owned v3 d3 \<subseteq> owned v2 d2 \<union> {y. \<not> u2 y}"
    and u: "\<And>y. u y \<Longrightarrow> u2 y" "\<And>y. u2 y \<Longrightarrow> u3 y"
    and fr: "\<And>y. u y \<Longrightarrow> y \<notin> owned v d \<Longrightarrow> v2 y = v y" "\<And>y. u2 y \<Longrightarrow> y \<notin> owned v2 d2 \<Longrightarrow> v3 y = v2 y"
    and rest: "tree_ok N sec v3 u3 d3" "same_meta d d3"
    using assms by (simp_all add: ext_def same_meta_def)
  have "v3 y = v y" if "u y" "y \<notin> owned v d" for y
    using fr(1) [OF that] fr(2) [of y] u(1) [OF that(1)] own(1) that by auto
  moreover have "owned v3 d3 \<subseteq> owned v d \<union> {y. \<not> u y}" using own u(1) by blast
  ultimately show ?thesis using rest u unfolding ext_def by blast
qed

text \<open>Overwriting a data block.\<close>

lemma data_update:
  assumes t: "tree_ok N sec v u d" and i: "i < MAX_BLOCKS" and x: "x = ptr v d (slot_of i)" "x \<noteq> 0"
  shows "ext N sec v u d (v(x := c)) u d"
    and "k div 512 < MAX_BLOCKS
      \<Longrightarrow> content (v(x := c)) d k = (if k div 512 = i then c ! (k mod 512) else content v d k)"
    and "j < MAX_BLOCKS \<Longrightarrow> ptr (v(x := c)) d (slot_of j) = ptr v d (slot_of j)"
proof -
  note q = slot_of_valid [OF i]
  have same: "ptr (v(x := c)) d p = ptr v d p" if "valid_slot p" for p
    using ptr_update_data [OF t _ _ _ x(2) that, of "slot_of i"] q x(1) by simp
  note own = tree_cong [OF same]
  show "ext N sec v u d (v(x := c)) u d"
    using t own x ownedI [of "slot_of i" v d] q by (auto simp: ext_def same_meta_def)
  show j: "ptr (v(x := c)) d (slot_of j) = ptr v d (slot_of j)" if "j < MAX_BLOCKS" for j
    using same slot_of_valid [OF that] by simp
  show "content (v(x := c)) d k = (if k div 512 = i then c ! (k mod 512) else content v d k)"
    if k: "k div 512 < MAX_BLOCKS"
  proof (cases "k div 512 = i")
    case True
    then have "ptr (v(x := c)) d (slot_of (k div 512)) = x" using j [OF i] x(1) by simp
    with True x(2) show ?thesis by (simp add: content_def Let_def)
  next
    case False
    have "ptr v d (slot_of (k div 512)) \<noteq> x"
    proof
      assume "ptr v d (slot_of (k div 512)) = x"
      then have "slot_of i = slot_of (k div 512)"
        using tree_distinct [OF t] slot_of_valid [OF k] q x by metis
      with False slot_of_inj show False by metis
    qed
    with False j [OF k] show ?thesis by (simp add: content_def Let_def)
  qed
qed

lemma grow_content:
  assumes g: "grow N sec {slot_of i} v u d v' u' d'" and k: "k div 512 < MAX_BLOCKS" "k div 512 \<noteq> i"
  shows "content v' d' k = content v d k"
proof (cases "ptr v d (slot_of (k div 512)) = 0")
  case True
  then have "ptr v' d' (slot_of (k div 512)) = 0"
    using g slot_of_valid [OF k(1)] slot_of_inj [of "k div 512" i] k(2) unfolding grow_def by blast
  with True show ?thesis by (simp add: content_def Let_def)
next
  case False
  then have "ptr v' d' (slot_of (k div 512)) = ptr v d (slot_of (k div 512))"
    "v' (ptr v d (slot_of (k div 512))) = v (ptr v d (slot_of (k div 512)))"
    using g slot_of_valid [OF k(1)] unfolding grow_def by blast+
  then show ?thesis by (simp add: content_def Let_def)
qed

lemma st_data_block:
  assumes s: "st N I v u s" and t: "tree_ok N sec v u d" and i: "i < MAX_BLOCKS"
  shows "\<exists>r d' s' v' u'. data_block d i s = Some (r, d', s') \<and> st N I v' u' s' \<and> ext N sec v u d v' u' d'
    \<and> (\<forall>k < MAX_BYTES. content v' d' k = content v d k)
    \<and> (case r of None \<Rightarrow> full N u' | Some x \<Rightarrow> x = ptr v' d' (slot_of i) \<and> x \<noteq> 0 \<and> x < N)"
proof -
  from st_get_block [OF assms] obtain s1 where
    s1: "get_block_sector_disk d i s = Some (nonzero (ptr v d (slot_of i)), s1)" "st N I v u s1" by blast
  show ?thesis
  proof (cases "ptr v d (slot_of i) = 0")
    case False
    then have "ptr v d (slot_of i) < N" using tree_sector [OF t] slot_of_valid [OF i] by blast
    with False s1 ext_refl [OF t] show ?thesis by (auto simp: data_block_def nonzero_def)
  next
    case True
    from st_allocate_block [OF s1(2) t i True] obtain r d' s2 v' u' where
      a: "allocate_block_for d i s1 = Some (r, d', s2)" "st N I v' u' s2"
        "grow N sec {slot_of i} v u d v' u' d'"
        "case r of None \<Rightarrow> ptr v' d' (slot_of i) = 0 \<and> full N u'
         | Some x \<Rightarrow> ptr v' d' (slot_of i) = x \<and> x \<noteq> 0 \<and> x < N" unfolding alloc_post_def by blast
    have hole: "content v d k = 0" if "k div 512 = i" for k using True that by (simp add: content_def Let_def)
    show ?thesis
    proof (cases r)
      case None
      then have "content v' d' k = content v d k" if "k < MAX_BYTES" for k
        using grow_content [OF a(3) block_in_range [OF that]] a(4) hole [of k]
        by (cases "k div 512 = i") (auto simp: content_def Let_def)
      with None a s1(1) True grow_ext [OF a(3)] show ?thesis by (auto simp: data_block_def nonzero_def)
    next
      case (Some x)
      with a(4) have x: "x = ptr v' d' (slot_of i)" "x \<noteq> 0" "x < N" by auto
      note du = data_update [OF grow_tree [OF a(3)] i x(1,2), where c = zero_sector]
      from st_zero [OF a(2) x(3)] obtain s3 where
        s3: "fs_zero x s2 = Some s3" "st N I (v'(x := zero_sector)) u' s3" by blast
      have "content (v'(x := zero_sector)) d' k = content v d k" if "k < MAX_BYTES" for k
        using du(2) [OF block_in_range [OF that]] hole [of k] grow_content [OF a(3) block_in_range [OF that]]
        by (auto simp: zero_sector_def)
      moreover have "x = ptr (v'(x := zero_sector)) d' (slot_of i)" using du(3) [OF i] x(1) by simp
      ultimately show ?thesis
        using a(1) s1(1) True Some s3 x(2,3) ext_trans [OF grow_ext [OF a(3)] du(1)]
        by (intro exI [of _ "Some x"] exI [of _ d'] exI [of _ s3] exI [of _ "v'(x := zero_sector)"] exI [of _ u'])
          (simp add: data_block_def nonzero_def)
    qed
  qed
qed

subsection \<open>The loops\<close>

lemma sector_idx_nat: "k < 2 ^ 31 \<Longrightarrow> sector_idx (int k) = k div 512"
proof -
  assume "k < 2 ^ 31"
  moreover have "int k sdiv 512 = int (k div 512)" by (simp add: signed_divide_int_def sgn_if zdiv_int)
  ultimately show ?thesis
    using as_u32_of_nat [of "k div 512"] by (simp add: sector_idx_def BLOCK_SECTOR_SIZE_def)
qed

lemma sector_ofs_nat: "sector_ofs (int k) = k mod 512"
proof -
  have "int k smod 512 = int (k mod 512)" by (simp add: signed_modulo_int_def sgn_if zmod_int)
  moreover have "k mod 512 < 2 ^ 32" by (rule less_trans [of _ 512]) simp_all
  ultimately show ?thesis
    using as_u32_of_nat [of "k mod 512"] by (simp add: sector_ofs_def BLOCK_SECTOR_SIZE_def)
qed

text \<open>The checked arithmetic of an iteration.\<close>

lemma iteration_arith:
  assumes "w < n" "n < 2 ^ 31"
  shows "sub_i32 (int n) (int w) = Some (int n - int w)" and "as_u32 (int n - int w) = n - w"
    and "sub_usize BLOCK_SECTOR_SIZE (sector_ofs (int k)) = Some (512 - k mod 512)"
    and "w + c < 2 ^ 31 \<Longrightarrow> add_i32 (int w) (int c) = Some (int (w + c))"
  using assms by (auto simp: arith_defs sector_ofs_nat BLOCK_SECTOR_SIZE_def of_nat_diff)

lemma splice_block:
  assumes "length b = 512" and "o1 + c \<le> 512" and "p + c \<le> length buf"
  shows "\<exists>b'. do { x \<leftarrow> slice buf p c; splice b o1 x } = Some b' \<and> length b' = 512
    \<and> (\<forall>k < 512. b' ! k = (if o1 \<le> k \<and> k < o1 + c then buf ! (p + (k - o1)) else b ! k))"
proof -
  have x: "slice buf p c = Some (take c (drop p buf))" using assms(3) by (simp add: slice_def)
  have len: "length (take c (drop p buf)) = c" using assms(3) by simp
  obtain b' where b': "splice b o1 (take c (drop p buf)) = Some b'"
    using assms(1,2) len by (simp add: splice_def)
  have "b' ! k = (if o1 \<le> k \<and> k < o1 + c then buf ! (p + (k - o1)) else b ! k)" if "k < 512" for k
    using nth_splice [OF b', of k] that assms(1,3) len by auto
  with x b' length_splice [OF b'] assms(1) show ?thesis by simp
qed

text \<open>One chunk: it stays inside one block.\<close>

lemma chunk_div:
  fixes k :: nat
  assumes "a \<le> k" and "k < a + c" and "c \<le> 512 - a mod 512"
  shows "k div 512 = a div 512" and "k mod 512 = a mod 512 + (k - a)"
proof -
  have "k = 512 * (a div 512) + (a mod 512 + (k - a))" using assms(1) by simp
  moreover have "a mod 512 + (k - a) < 512" using assms by simp
  ultimately show "k div 512 = a div 512" "k mod 512 = a mod 512 + (k - a)"
    by (metis div_mult_self4 add.commute div_less zero_neq_numeral add_0 mult.commute,
        metis mod_mult_self4 add.commute mod_less mult.commute)
qed

lemma write_step:
  assumes s: "st N I v u s" and t: "tree_ok N sec v u d"
    and c: "c = min (512 - a mod 512) m" "0 < m" and a: "a + m \<le> MAX_BYTES" and p: "p + m \<le> length buf"
    and x: "x = ptr v d (slot_of (a div 512))" "x \<noteq> 0" "x < N"
  shows "\<exists>s' v'. fs_update x (\<lambda>b. do { y \<leftarrow> slice buf p c; splice b (a mod 512) y }) s = Some s'
    \<and> st N I v' u s' \<and> ext N sec v u d v' u d
    \<and> (\<forall>k < MAX_BYTES. content v' d k = (if a \<le> k \<and> k < a + c then buf ! (p + (k - a)) else content v d k))"
proof -
  have i: "a div 512 < MAX_BLOCKS" using a c(2) by (intro block_in_range) simp
  have c': "a mod 512 + c \<le> 512" "p + c \<le> length buf" "c \<le> 512 - a mod 512" using c(1) p by auto
  from splice_block [OF st_length [OF s x(3)] c'(1,2)] obtain b' where
    b': "do { y \<leftarrow> slice buf p c; splice (v x) (a mod 512) y } = Some b'" "length b' = 512"
      "\<forall>k < 512. b' ! k = (if a mod 512 \<le> k \<and> k < a mod 512 + c then buf ! (p + (k - a mod 512)) else v x ! k)"
    by blast
  from st_update [OF s x(3), where f = "\<lambda>b. do { y \<leftarrow> slice buf p c; splice b (a mod 512) y }", OF b'(1,2)]
  obtain s' where s': "fs_update x (\<lambda>b. do { y \<leftarrow> slice buf p c; splice b (a mod 512) y }) s = Some s'"
    "st N I (v(x := b')) u s'" by blast
  note du = data_update [OF t i x(1,2), where c = b']
  have "content (v(x := b')) d k = (if a \<le> k \<and> k < a + c then buf ! (p + (k - a)) else content v d k)"
    if k: "k < MAX_BYTES" for k
  proof (cases "k div 512 = a div 512")
    case True
    define q rk ra where "q = a div 512" and "rk = k mod 512" and "ra = a mod 512"
    have km: "k = 512 * q + rk" "a = 512 * q + ra"
      using True by (metis q_def rk_def mult_div_mod_eq, metis q_def ra_def mult_div_mod_eq)
    have old: "content v d k = v x ! (k mod 512)" using True x by (simp add: content_def Let_def)
    have "a \<le> k \<longleftrightarrow> ra \<le> rk" "k - a = rk - ra" "k < a + c \<longleftrightarrow> rk < ra + c" using km by simp_all
    moreover have "content (v(x := b')) d k = b' ! rk"
      using du(2) [OF block_in_range [OF k]] True by (simp add: rk_def)
    moreover have "b' ! rk = (if ra \<le> rk \<and> rk < ra + c then buf ! (p + (rk - ra)) else v x ! rk)"
      using b'(3) by (simp add: rk_def ra_def)
    ultimately show ?thesis using old by (simp only: rk_def [symmetric])
  next
    case False
    then have "\<not> (a \<le> k \<and> k < a + c)" using chunk_div(1) [OF _ _ c'(3), of k] by auto
    with du(2) [OF block_in_range [OF k]] False show ?thesis by auto
  qed
  with s' du(1) show ?thesis by blast
qed

lemma write_loop_spec:
  assumes "st N I v u s" and "tree_ok N sec v u d" and "w \<le> n" and "n < 2 ^ 31"
    and "p + (n - w) \<le> length buf" and "a + (n - w) \<le> MAX_BYTES"
  shows "\<exists>m d' s' v' u'. write_loop buf (int n) d (int w) (int a) p s = Some (int m, d', s')
    \<and> w \<le> m \<and> m \<le> n \<and> st N I v' u' s' \<and> ext N sec v u d v' u' d' \<and> (m = n \<or> full N u')
    \<and> (\<forall>k < MAX_BYTES. content v' d' k
         = (if a \<le> k \<and> k < a + (m - w) then buf ! (p + (k - a)) else content v d k))"
  using assms
proof (induction "n - w" arbitrary: w a p d s v u rule: less_induct)
  case less
  note unfold = write_loop.simps [of buf "int n" d "int w" "int a" p s]
  show ?case
  proof (cases "w < n")
    case False
    then have "write_loop buf (int n) d (int w) (int a) p s = Some (int w, d, s)" by (simp add: unfold)
    with False less.prems ext_refl [OF less.prems(2)] show ?thesis
      by (intro exI [of _ w] exI [of _ d] exI [of _ s] exI [of _ v] exI [of _ u]) auto
  next
    case True
    have a31: "a < 2 ^ 31" "a + (n - w) < 2 ^ 31"
      using less.prems(6) True by (auto simp: MAX_BYTES_def MAX_BLOCKS_def)
    define c where "c = min (512 - a mod 512) (n - w)"
    have c: "0 < c" "c \<le> n - w" using True by (auto simp: c_def)
    have i: "a div 512 < MAX_BLOCKS" using less.prems(6) True by (intro block_in_range) simp
    note ar = iteration_arith [OF True less.prems(4)]
    from st_data_block [OF less.prems(1,2) i] obtain r d1 s1 v1 u1 where
      db: "data_block d (a div 512) s = Some (r, d1, s1)" "st N I v1 u1 s1" "ext N sec v u d v1 u1 d1"
        "\<forall>k < MAX_BYTES. content v1 d1 k = content v d k"
        "case r of None \<Rightarrow> full N u1
         | Some x \<Rightarrow> x = ptr v1 d1 (slot_of (a div 512)) \<and> x \<noteq> 0 \<and> x < N" by blast
    note run = unfold ar(1,2) ar(3) [of a, unfolded sector_ofs_nat] sector_idx_nat [OF a31(1)] sector_ofs_nat db(1) Let_def
    show ?thesis
    proof (cases r)
      case None
      with True have "write_loop buf (int n) d (int w) (int a) p s = Some (int w, d1, s1)"
        by (simp add: run)
      with None db True show ?thesis
        by (intro exI [of _ w] exI [of _ d1] exI [of _ s1] exI [of _ v1] exI [of _ u1]) auto
    next
      case (Some x)
      with db(5) have x: "x = ptr v1 d1 (slot_of (a div 512))" "x \<noteq> 0" "x < N" by auto
      from write_step [OF db(2) ext_tree [OF db(3)] c_def _ less.prems(6,5) x] True obtain s2 v2 where
        s2: "fs_update x (\<lambda>b. do { y \<leftarrow> slice buf p c; splice b (a mod 512) y }) s1 = Some s2"
          "st N I v2 u1 s2" "ext N sec v1 u1 d1 v2 u1 d1"
          "\<forall>k < MAX_BYTES. content v2 d1 k = (if a \<le> k \<and> k < a + c then buf ! (p + (k - a)) else content v1 d1 k)"
        by auto
      have adds: "add_i32 (int w) (int c) = Some (int (w + c))" "add_i32 (int a) (int c) = Some (int (a + c))"
        using c a31 less.prems(3,4) by (auto simp: arith_defs)
      have pre: "n - (w + c) < n - w" "w + c \<le> n" "p + c + (n - (w + c)) \<le> length buf"
        "a + c + (n - (w + c)) \<le> MAX_BYTES" using c less.prems by auto
      from less.hyps [OF pre(1) s2(2) ext_tree [OF s2(3)] pre(2) less.prems(4) pre(3,4)] obtain m d3 s3 v3 u3 where
        IH: "write_loop buf (int n) d1 (int (w + c)) (int (a + c)) (p + c) s2 = Some (int m, d3, s3)"
          "w + c \<le> m" "m \<le> n" "st N I v3 u3 s3" "ext N sec v2 u1 d1 v3 u3 d3" "m = n \<or> full N u3"
          "\<forall>k < MAX_BYTES. content v3 d3 k = (if a + c \<le> k \<and> k < a + c + (m - (w + c))
             then buf ! (p + c + (k - (a + c))) else content v2 d1 k)" by blast
      have "content v3 d3 k = (if a \<le> k \<and> k < a + (m - w) then buf ! (p + (k - a)) else content v d k)"
        if "k < MAX_BYTES" for k
        using IH(2,7) s2(4) db(4) that by (auto simp: not_le)
      moreover have "write_loop buf (int n) d (int w) (int a) p s = Some (int m, d3, s3)"
        using True Some s2(1) adds IH(1) by (simp add: run flip: c_def)
      moreover have "ext N sec v u d v3 u3 d3" by (rule ext_trans [OF ext_trans [OF db(3) s2(3)] IH(5)])
      ultimately show ?thesis using IH(2-4,6) by (metis add_leD1)
    qed
  qed
qed

lemma read_chunk_spec:
  assumes s: "st N I v u s" and t: "tree_ok N sec v u d" and a: "a < MAX_BYTES" "c \<le> 512 - a mod 512"
    and p: "p + c \<le> length buf"
  shows "\<exists>buf' s'. read_chunk d (int a) c buf p s = Some (buf', s') \<and> st N I v u s'
    \<and> length buf' = length buf
    \<and> (\<forall>k < length buf. buf' ! k = (if p \<le> k \<and> k < p + c then content v d (a + (k - p)) else buf ! k))"
proof -
  have i: "a div 512 < MAX_BLOCKS" using a(1) by (rule block_in_range)
  have a31: "a < 2 ^ 31" using a(1) by (simp add: MAX_BYTES_def MAX_BLOCKS_def)
  let ?x = "ptr v d (slot_of (a div 512))"
  from st_get_block [OF s t i] obtain s1 where
    s1: "get_block_sector_disk d (a div 512) s = Some (nonzero ?x, s1)" "st N I v u s1" by blast
  note run = read_chunk_def sector_idx_nat [OF a31] sector_ofs_nat s1(1)
  define ys where "ys = (if ?x = 0 then replicate c 0 else take c (drop (a mod 512) (v ?x)))"
  have xN: "?x < N" if "?x \<noteq> 0" using tree_sector [OF t _ that] slot_of_valid [OF i] by simp
  have len: "length (v ?x) = 512" if "?x \<noteq> 0" using st_length [OF s xN [OF that]] .
  have ys: "length ys = c" "\<And>j. j < c \<Longrightarrow> ys ! j = content v d (a + j)"
  proof -
    show "length ys = c" using len a(2) by (simp add: ys_def)
    fix j assume j: "j < c"
    have "(a + j) div 512 = a div 512" "(a + j) mod 512 = a mod 512 + j"
      using chunk_div [of a "a + j" c] j a(2) by auto
    with j len a(2) show "ys ! j = content v d (a + j)" by (simp add: ys_def content_def Let_def)
  qed
  obtain buf' where b: "splice buf p ys = Some buf'" using p ys(1) by (simp add: splice_def)
  have "\<exists>s'. read_chunk d (int a) c buf p s = Some (buf', s') \<and> st N I v u s'"
  proof (cases "?x = 0")
    case True
    with b s1(2) show ?thesis by (simp add: run nonzero_def ys_def)
  next
    case False
    from st_get [OF s1(2) xN [OF False]] obtain s2 where
      "fs_get ?x s1 = Some (v ?x, s2)" "st N I v u s2" by blast
    with False b len a(2) show ?thesis by (simp add: run nonzero_def ys_def slice_def)
  qed
  moreover have "buf' ! k = (if p \<le> k \<and> k < p + c then content v d (a + (k - p)) else buf ! k)"
    if "k < length buf" for k using nth_splice [OF b that] ys by auto
  ultimately show ?thesis using length_splice [OF b] by blast
qed

lemma read_loop_spec:
  assumes "st N I v u s" and "tree_ok N sec v u d" and "w \<le> n" and "n < 2 ^ 31" and "len \<le> MAX_BYTES"
    and "p + min (n - w) (len - a) \<le> length buf"
  shows "\<exists>buf' s'. read_loop d (int n) (int len) (int w) (int a) p buf s
      = Some (int (w + min (n - w) (len - a)), buf', s')
    \<and> st N I v u s' \<and> length buf' = length buf
    \<and> (\<forall>k < length buf. buf' ! k = (if p \<le> k \<and> k < p + min (n - w) (len - a)
         then content v d (a + (k - p)) else buf ! k))"
  using assms
proof (induction "n - w" arbitrary: w a p buf s rule: less_induct)
  case less
  note unfold = read_loop.simps [of d "int n" "int len" "int w" "int a" p buf s]
  show ?case
  proof (cases "w < n \<and> a < len")
    case False
    then have "read_loop d (int n) (int len) (int w) (int a) p buf s = Some (int w, buf, s)"
      "min (n - w) (len - a) = 0" by (auto simp: unfold)
    with less.prems show ?thesis by auto
  next
    case True
    have len31: "len < 2 ^ 31" using less.prems(5) by (simp add: MAX_BYTES_def MAX_BLOCKS_def)
    define c where "c = min (512 - a mod 512) (min (len - a) (n - w))"
    have c: "0 < c" "c \<le> n - w" "c \<le> len - a" "c \<le> 512 - a mod 512" using True by (auto simp: c_def)
    note ar = iteration_arith [OF conjunct1 [OF True] less.prems(4)]
      iteration_arith(1,2) [OF conjunct2 [OF True] len31]
    have a: "a < MAX_BYTES" "p + c \<le> length buf" using True less.prems(5,6) c by auto
    from read_chunk_spec [OF less.prems(1,2) a(1) c(4) a(2)] obtain buf1 s1 where
      r1: "read_chunk d (int a) c buf p s = Some (buf1, s1)" "st N I v u s1" "length buf1 = length buf"
        "\<forall>k < length buf. buf1 ! k = (if p \<le> k \<and> k < p + c then content v d (a + (k - p)) else buf ! k)"
      by blast
    have adds: "add_i32 (int w) (int c) = Some (int (w + c))" "add_i32 (int a) (int c) = Some (int (a + c))"
      using c len31 less.prems(3,4) True by (auto simp: arith_defs)
    have mins: "min (n - w) (len - a) = c + min (n - (w + c)) (len - (a + c))"
      using c(2,3) by (auto simp: min_def)
    have pre: "n - (w + c) < n - w" "w + c \<le> n" using c(1,2) True by linarith+
    have pre3: "p + c + min (n - (w + c)) (len - (a + c)) \<le> length buf1"
      using less.prems(6) by (simp add: r1(3) mins add.assoc)
    from less.hyps [OF pre(1) r1(2) less.prems(2) pre(2) less.prems(4,5) pre3] obtain buf2 s2 where
      IH: "read_loop d (int n) (int len) (int (w + c)) (int (a + c)) (p + c) buf1 s1
          = Some (int (w + c + min (n - (w + c)) (len - (a + c))), buf2, s2)" "st N I v u s2"
        "length buf2 = length buf1"
        "\<forall>k < length buf1. buf2 ! k = (if p + c \<le> k \<and> k < p + c + min (n - (w + c)) (len - (a + c))
           then content v d (a + c + (k - (p + c))) else buf1 ! k)" by blast
    have "read_loop d (int n) (int len) (int w) (int a) p buf s
        = Some (int (w + min (n - w) (len - a)), buf2, s2)"
      using True r1(1) adds IH(1)
      by (simp add: unfold ar Let_def mins add.assoc flip: c_def)
    moreover have "buf2 ! k = (if p \<le> k \<and> k < p + min (n - w) (len - a)
         then content v d (a + (k - p)) else buf ! k)" if "k < length buf" for k
      unfolding mins using IH(4) r1(3,4) that by (auto simp: not_le)
    ultimately show ?thesis using IH(2,3) r1(3) by auto
  qed
qed

end
