(* ===== verification/InodeProps.thy ===== *)
theory InodeProps
  imports InodeRW
begin

section \<open>Correctness of \<open>read_at\<close> and \<open>write_at\<close>\<close>

text \<open>
  The operations on whole files: what \<open>write_at\<close> changes and what it leaves alone, what \<open>read_at\<close>
  returns, that reading gives back what was written, and where the pointer arithmetic on sector
  buffers leaves its bounds.
\<close>

abbreviation inode_at :: "(sector \<Rightarrow> sector_data) \<Rightarrow> sector \<Rightarrow> inode_disk" where
  "inode_at v sec \<equiv> bytes_inode (v sec)"

text \<open>A file is well formed, and the length of the open inode, if it is open, is the one on disk.\<close>

definition file_ok :: "nat \<Rightarrow> (sector \<rightharpoonup> inode) \<Rightarrow> (sector \<Rightarrow> sector_data) \<Rightarrow> (sector \<Rightarrow> bool) \<Rightarrow> sector \<Rightarrow> bool" where
  "file_ok N I v u sec \<longleftrightarrow> tree_ok N sec v u (inode_at v sec)
     \<and> 0 \<le> length_field (inode_at v sec) \<and> length_field (inode_at v sec) \<le> int MAX_BYTES
     \<and> (\<forall>e. I sec = Some e \<longrightarrow> i_length e = length_field (inode_at v sec))"

definition file_len :: "(sector \<Rightarrow> sector_data) \<Rightarrow> sector \<Rightarrow> nat" where
  "file_len v sec = nat (length_field (inode_at v sec))"

definition file_byte :: "(sector \<Rightarrow> sector_data) \<Rightarrow> sector \<Rightarrow> nat \<Rightarrow> byte" where
  "file_byte v sec k = content v (inode_at v sec) k"

definition writable :: "(sector \<rightharpoonup> inode) \<Rightarrow> sector \<Rightarrow> bool" where
  "writable I sec \<longleftrightarrow> (\<forall>e. I sec = Some e \<longrightarrow> deny_write_cnt e \<le> 0)"

lemma file_ok_sec: "file_ok N I v u sec \<Longrightarrow> sec < N \<and> u sec"
  by (simp add: file_ok_def tree_ok_def)

text \<open>Changing the length does not change the tree.\<close>

lemma ptr_length_field [simp]: "ptr v (d \<lparr> length_field := l, write_end := e \<rparr>) p = ptr v d p"
  by (cases p) auto

lemma tree_length_field [simp]:
  "owned v (d \<lparr> length_field := l, write_end := e \<rparr>) = owned v d"
  "linked v (d \<lparr> length_field := l, write_end := e \<rparr>) = linked v d"
  "content v (d \<lparr> length_field := l, write_end := e \<rparr>) k = content v d k"
  by (auto simp: owned_def linked_def content_def)

lemma tree_ok_length_field:
  "in_i32 l \<Longrightarrow> in_i32 e \<Longrightarrow> tree_ok N sec v u d \<Longrightarrow> tree_ok N sec v u (d \<lparr> length_field := l, write_end := e \<rparr>)"
  by (simp add: tree_ok_def disk_wf_def inj_on_def)

text \<open>Writing the inode back to its own sector does not disturb its tree.\<close>

lemma store_inode:
  assumes t: "tree_ok N sec v u d"
  shows "inode_at (v(sec := inode_bytes d)) sec = d" and "tree_ok N sec (v(sec := inode_bytes d)) u d"
    and "k < MAX_BYTES \<Longrightarrow> content (v(sec := inode_bytes d)) d k = content v d k"
    and "owned (v(sec := inode_bytes d)) d = owned v d"
proof -
  show "inode_at (v(sec := inode_bytes d)) sec = d" using inode_roundtrip [OF tree_wf [OF t]] by simp
  have out: "sec \<notin> owned v d" using t by (auto simp: tree_ok_def)
  have same: "ptr (v(sec := inode_bytes d)) d p = ptr v d p" if "valid_slot p" for p
    using ptr_update_outside [OF out that] .
  show "tree_ok N sec (v(sec := inode_bytes d)) u d" "owned (v(sec := inode_bytes d)) d = owned v d"
    using tree_cong [OF same] t by auto
  assume "k < MAX_BYTES"
  then have q: "valid_slot (slot_of (k div 512))" using slot_of_valid block_in_range by blast
  then have "ptr v d (slot_of (k div 512)) \<noteq> 0 \<Longrightarrow> ptr v d (slot_of (k div 512)) \<noteq> sec"
    using tree_sector [OF t q] by simp
  with same [OF q] show "content (v(sec := inode_bytes d)) d k = content v d k"
    by (auto simp: content_def Let_def)
qed

text \<open>The table of open inodes after \<open>set_open_length\<close>.\<close>

definition with_length :: "(sector \<rightharpoonup> inode) \<Rightarrow> sector \<Rightarrow> int \<Rightarrow> (sector \<rightharpoonup> inode)" where
  "with_length I sec l = (case I sec of None \<Rightarrow> I | Some e \<Rightarrow> I(sec \<mapsto> e \<lparr> i_length := l \<rparr>))"

lemma st_set_open_length:
  "st N (Some I) v u s \<Longrightarrow> \<exists>s'. set_open_length sec l s = Some s' \<and> st N (Some (with_length I sec l)) v u s'"
  using st_open_inodes [of N "Some I" v u s] st_set_open [of N "Some I" v u s]
  by (cases "I sec") (auto simp: set_open_length_def with_length_def)

lemma st_inode_length:
  assumes "st N (Some I) v u s" and "file_ok N I v u sec"
  shows "\<exists>s'. inode_length sec s = Some (length_field (inode_at v sec), s') \<and> st N (Some I) v u s'"
  using assms st_open_inodes [OF assms(1)] st_read_inode [OF assms(1), of sec] file_ok_sec [OF assms(2)]
  by (cases "I sec") (auto simp: inode_length_def file_ok_def)

lemma file_ok_written:
  "tree_ok N sec v u (inode_at v sec) \<Longrightarrow> length_field (inode_at v sec) = int l \<Longrightarrow> l \<le> MAX_BYTES
     \<Longrightarrow> file_ok N (with_length I sec (int l)) v u sec"
  by (auto simp: file_ok_def with_length_def split: option.splits)

lemma file_len_max: "file_ok N I v u sec \<Longrightarrow> file_len v sec \<le> MAX_BYTES"
  by (auto simp: file_ok_def file_len_def)

lemma write_at_spec:
  assumes s: "st N (Some I) v u s" and f: "file_ok N I v u sec" and w: "writable I sec"
    and n: "n \<le> length buf" "off + n \<le> MAX_BYTES"
  shows "\<exists>m s' v' u'. write_at sec buf (int n) (int off) s = Some (int m, s') \<and> m \<le> n
    \<and> st N (Some (with_length I sec (int (max (file_len v sec) (off + m))))) v' u' s' \<and> (m = n \<or> full N u')
    \<and> tree_ok N sec v' u' (inode_at v' sec) \<and> file_len v' sec = max (file_len v sec) (off + m)
    \<and> length_field (inode_at v' sec) = int (max (file_len v sec) (off + m))
    \<and> (\<forall>k < MAX_BYTES. file_byte v' sec k
         = (if off \<le> k \<and> k < off + m then buf ! (k - off) else file_byte v sec k))
    \<and> (\<forall>y. u y \<longrightarrow> u' y) \<and> (\<forall>y. u y \<and> y \<noteq> sec \<and> y \<notin> owned v (inode_at v sec) \<longrightarrow> v' y = v y)
    \<and> owned v' (inode_at v' sec) \<subseteq> owned v (inode_at v sec) \<union> {y. \<not> u y}"
proof -
  let ?d = "inode_at v sec"
  have t: "tree_ok N sec v u ?d" and sec: "sec < N" and len0: "0 \<le> length_field ?d"
    "length_field ?d \<le> int MAX_BYTES" using f by (auto simp: file_ok_def tree_ok_def)
  from st_read_inode [OF s sec] obtain s1 where
    s1: "read_inode_disk sec s = Some (?d, s1)" "st N (Some I) v u s1" by blast
  have big: "n < 2 ^ 31" "MAX_BYTES < 2 ^ 31" using n(2) by (auto simp: MAX_BYTES_def MAX_BLOCKS_def)
  from write_loop_spec [OF s1(2) t, of 0 n 0 buf off] big n obtain m d2 s2 v2 u2 where
    w2: "write_loop buf (int n) ?d 0 (int off) 0 s1 = Some (int m, d2, s2)" "m \<le> n"
      "st N (Some I) v2 u2 s2" "ext N sec v u ?d v2 u2 d2" "m = n \<or> full N u2"
      "\<forall>k < MAX_BYTES. content v2 d2 k = (if off \<le> k \<and> k < off + m then buf ! (k - off) else content v ?d k)"
    by auto
  define l where "l = int (max (file_len v sec) (off + m))"
  define d3 where "d3 = (if int off + int m > length_field d2
    then d2 \<lparr> length_field := int off + int m, write_end := int off + int m \<rparr> else d2)"
  have lf: "length_field d2 = length_field ?d" using w2(4) by (simp add: ext_def same_meta_def)
  have m31: "off + m \<le> MAX_BYTES" using n(2) w2(2) by simp
  have d3: "length_field d3 = l" using lf len0(1) by (auto simp: d3_def l_def file_len_def)
  have i32: "in_i32 (int off + int m)" using m31 big(2) by (simp add: in_i32_def)
  have t3: "tree_ok N sec v2 u2 d3" "owned v2 d3 = owned v2 d2" "\<And>k. content v2 d3 k = content v2 d2 k"
    using ext_tree [OF w2(4)] tree_ok_length_field [OF i32 i32] by (auto simp: d3_def)
  note st3 = store_inode [OF t3(1)]
  from st_write_inode [OF w2(3) sec tree_wf [OF t3(1)]] obtain s3 where
    s3: "write_inode_disk sec d3 s2 = Some s3" "st N (Some I) (v2(sec := inode_bytes d3)) u2 s3" by blast
  from st_set_open_length [OF s3(2), of sec l] obtain s4 where
    s4: "set_open_length sec l s3 = Some s4" "st N (Some (with_length I sec l)) (v2(sec := inode_bytes d3)) u2 s4"
    by blast
  have "write_at sec buf (int n) (int off) s = Some (int m, s4)"
    using w st_open_inodes [OF s] s1(1) w2(1) s3(1) s4(1) i32 d3
    by (auto simp: write_at_def writable_def add_i32_def chk_i32_def d3_def Let_def not_less split: option.split)
  moreover have "file_byte (v2(sec := inode_bytes d3)) sec k
      = (if off \<le> k \<and> k < off + m then buf ! (k - off) else file_byte v sec k)" if "k < MAX_BYTES" for k
    using st3(1) st3(3) [OF that] t3(3) w2(6) that by (simp add: file_byte_def)
  moreover have "\<forall>y. u y \<longrightarrow> u2 y" "\<forall>y. u y \<and> y \<noteq> sec \<and> y \<notin> owned v ?d \<longrightarrow> (v2(sec := inode_bytes d3)) y = v y"
    "owned v2 d2 \<subseteq> owned v ?d \<union> {y. \<not> u y}" using w2(4) by (auto simp: ext_def)
  ultimately show ?thesis
    using w2(2,5) s4(2) st3(1,2,4) t3(2) d3 unfolding l_def
    by (intro exI [of _ m] exI [of _ s4] exI [of _ "v2(sec := inode_bytes d3)"] exI [of _ u2])
      (auto simp: file_len_def [of "v2(sec := inode_bytes d3)"])
qed

lemma read_at_spec:
  assumes s: "st N (Some I) v u s" and f: "file_ok N I v u sec" and n: "n < 2 ^ 31" "off < 2 ^ 31"
    and b: "min n (file_len v sec - off) \<le> length buf"
  shows "\<exists>buf' s'. read_at sec buf (int n) (int off) s = Some (int (min n (file_len v sec - off)), buf', s')
    \<and> st N (Some I) v u s' \<and> length buf' = length buf
    \<and> (\<forall>k < length buf. buf' ! k
         = (if k < min n (file_len v sec - off) then file_byte v sec (off + k) else buf ! k))"
proof -
  let ?d = "inode_at v sec"
  have t: "tree_ok N sec v u ?d" and sec: "sec < N" and len: "length_field ?d = int (file_len v sec)"
    "file_len v sec \<le> MAX_BYTES" using f by (auto simp: file_ok_def tree_ok_def file_len_def)
  from st_inode_length [OF s f] obtain s1 where
    s1: "inode_length sec s = Some (int (file_len v sec), s1)" "st N (Some I) v u s1" unfolding len by blast
  show ?thesis
  proof (cases "file_len v sec \<le> off")
    case True
    with s1 show ?thesis by (simp add: read_at_def)
  next
    case False
    from st_read_inode [OF s1(2) sec] obtain s2 where
      s2: "read_inode_disk sec s1 = Some (?d, s2)" "st N (Some I) v u s2" by blast
    from read_loop_spec [OF s2(2) t, of 0 n "file_len v sec" 0 off buf] n(1) len(2) b obtain buf' s3 where
      "read_loop ?d (int n) (int (file_len v sec)) 0 (int off) 0 buf s2
         = Some (int (min n (file_len v sec - off)), buf', s3)"
      "st N (Some I) v u s3" "length buf' = length buf"
      "\<forall>k < length buf. buf' ! k = (if k < min n (file_len v sec - off) then content v ?d (off + k) else buf ! k)"
      by auto
    with s1(1) s2(1) False show ?thesis by (auto simp: read_at_def file_byte_def)
  qed
qed

subsection \<open>A concrete file system\<close>

text \<open>A RAM disk of 64 zeroed sectors with an empty file whose inode is sector 5.\<close>

definition sample_fs :: "(sector \<Rightarrow> sector_data) fs" where
  "sample_fs = \<lparr> fs_bio = sample_bio,
     fs_map = \<lparr> FREE_MAP = Some [0x23, 0, 0, 0, 0, 0, 0, 0], SECTOR_COUNT = 64, IN_FLUSH = False \<rparr>,
     OPEN_INODES = Some Map.empty \<rparr>"

abbreviation sample_view :: "sector \<Rightarrow> sector_data" where
  "sample_view \<equiv> \<lambda>_. replicate 512 0"

abbreviation sample_used :: "sector \<Rightarrow> bool" where
  "sample_used \<equiv> array_bit [0x23, 0, 0, 0, 0, 0, 0, 0]"

lemma sample_st: "st 64 (Some Map.empty) sample_view sample_used sample_fs"
  using sample_bio_ok by (simp add: st_def sample_fs_def fm_ok_def fm_view_def)

lemma sample_inode: "ptr sample_view (bytes_inode (replicate 512 0)) p = 0 \<or> \<not> valid_slot p"
proof -
  have "direct_blocks (bytes_inode (replicate 512 0)) ! i = 0" if "i < 12" for i
    using that by (simp add: bytes_inode_def DIRECT_PTR_CNT_def)
  then show ?thesis by (cases p) (auto simp: bytes_inode_def entry_def)
qed

lemma sample_owned: "owned sample_view (bytes_inode (replicate 512 0)) = {}"
  using sample_inode by (auto simp: owned_def linked_def)

lemma sample_tree:
  assumes "sec < 64" and "sample_used sec"
  shows "file_ok 64 Map.empty sample_view sample_used sec"
proof -
  have "linked sample_view (bytes_inode (replicate 512 0)) = {}" using sample_inode by (auto simp: linked_def)
  moreover have "disk_wf (bytes_inode (replicate 512 0))" by (rule bytes_inode_wf) simp
  ultimately show ?thesis using assms sample_owned
    by (simp add: file_ok_def tree_ok_def) (simp add: bytes_inode_def as_i32_def)
qed

lemma sample_file: "file_ok 64 Map.empty sample_view sample_used 5"
  by (rule sample_tree) (simp_all add: array_bit_def)

lemma sample_len: "file_len sample_view 5 = 0"
  by (simp add: file_len_def bytes_inode_def as_i32_def)

subsection \<open>Properties\<close>

text \<open>C1: \<open>write_at\<close> is correct. On a well-formed file whose writes are not denied, for a range inside
  the largest file the block tree can hold, it returns without panicking and reports how many bytes
  it wrote: all of them, unless no allocatable sector is left. Exactly the bytes of that range
  become the buffer's; the length becomes the end of the range if that is larger, on disk and in
  the open inode; the file stays well formed. No used sector outside the file changes, no sector
  is freed, and every sector the file gains was free.\<close>

theorem write_at_correct:
  assumes "st N (Some I) v u s" and "file_ok N I v u sec" and "writable I sec"
    and "n \<le> length buf" and "off + n \<le> MAX_BYTES"
  shows "\<exists>m s' v' u' I'. write_at sec buf (int n) (int off) s = Some (int m, s')
    \<and> m \<le> n \<and> (m = n \<or> full N u') \<and> st N (Some I') v' u' s' \<and> file_ok N I' v' u' sec
    \<and> file_len v' sec = max (file_len v sec) (off + m)
    \<and> (\<forall>k < MAX_BYTES. file_byte v' sec k
         = (if off \<le> k \<and> k < off + m then buf ! (k - off) else file_byte v sec k))
    \<and> (\<forall>y. u y \<longrightarrow> u' y) \<and> (\<forall>y. u y \<and> y \<noteq> sec \<and> y \<notin> owned v (inode_at v sec) \<longrightarrow> v' y = v y)
    \<and> owned v' (inode_at v' sec) \<subseteq> owned v (inode_at v sec) \<union> {y. \<not> u y}"
proof -
  from write_at_spec [OF assms] obtain m s' v' u' where
    w: "write_at sec buf (int n) (int off) s = Some (int m, s')" "m \<le> n" "m = n \<or> full N u'"
      "st N (Some (with_length I sec (int (max (file_len v sec) (off + m))))) v' u' s'"
      "tree_ok N sec v' u' (inode_at v' sec)" "file_len v' sec = max (file_len v sec) (off + m)"
      "length_field (inode_at v' sec) = int (max (file_len v sec) (off + m))"
      "\<forall>k < MAX_BYTES. file_byte v' sec k
         = (if off \<le> k \<and> k < off + m then buf ! (k - off) else file_byte v sec k)"
      "\<forall>y. u y \<longrightarrow> u' y" "\<forall>y. u y \<and> y \<noteq> sec \<and> y \<notin> owned v (inode_at v sec) \<longrightarrow> v' y = v y"
      "owned v' (inode_at v' sec) \<subseteq> owned v (inode_at v sec) \<union> {y. \<not> u y}" by blast
  have "file_ok N (with_length I sec (int (max (file_len v sec) (off + m)))) v' u' sec"
    using w(2) assms(5) file_len_max [OF assms(2)] by (intro file_ok_written [OF w(5,7)]) simp
  with w show ?thesis by blast
qed

theorem write_at_correct_witness:
  "\<exists>m s' v' u' I'. write_at 5 [0xCA, 0xFE] (int 2) (int 510) sample_fs = Some (int m, s')
    \<and> m \<le> 2 \<and> (m = 2 \<or> full 64 u') \<and> st 64 (Some I') v' u' s' \<and> file_ok 64 I' v' u' 5
    \<and> file_len v' 5 = max (file_len sample_view 5) (510 + m)
    \<and> (\<forall>k < MAX_BYTES. file_byte v' 5 k
         = (if 510 \<le> k \<and> k < 510 + m then [0xCA, 0xFE] ! (k - 510) else file_byte sample_view 5 k))
    \<and> (\<forall>y. sample_used y \<longrightarrow> u' y)
    \<and> (\<forall>y. sample_used y \<and> y \<noteq> 5 \<and> y \<notin> owned sample_view (inode_at sample_view 5) \<longrightarrow> v' y = sample_view y)
    \<and> owned v' (inode_at v' 5) \<subseteq> owned sample_view (inode_at sample_view 5) \<union> {y. \<not> sample_used y}"
  by (rule write_at_correct [OF sample_st sample_file])
    (simp_all add: writable_def MAX_BYTES_def MAX_BLOCKS_def)

text \<open>C19: \<open>read_at\<close> is correct. On a well-formed file it returns without panicking the number of bytes
  from the offset to the end of the file, at most the number asked for; that many bytes of the
  buffer become the bytes of the file from the offset on, the rest of the buffer and the whole
  file system are unchanged.\<close>

theorem read_at_correct:
  assumes "st N (Some I) v u s" and "file_ok N I v u sec" and "n < 2 ^ 31" and "off < 2 ^ 31"
    and "min n (file_len v sec - off) \<le> length buf"
  shows "\<exists>buf' s'. read_at sec buf (int n) (int off) s = Some (int (min n (file_len v sec - off)), buf', s')
    \<and> st N (Some I) v u s' \<and> length buf' = length buf
    \<and> (\<forall>k < length buf. buf' ! k
         = (if k < min n (file_len v sec - off) then file_byte v sec (off + k) else buf ! k))"
  using assms by (rule read_at_spec)

theorem read_at_correct_witness:
  "\<exists>buf' s'. read_at 5 [1, 2] (int 2) (int 0) sample_fs = Some (int (min 2 (file_len sample_view 5 - 0)), buf', s')
    \<and> st 64 (Some Map.empty) sample_view sample_used s' \<and> length buf' = length [1, 2 :: byte]
    \<and> (\<forall>k < length [1, 2 :: byte]. buf' ! k
         = (if k < min 2 (file_len sample_view 5 - 0) then file_byte sample_view 5 (0 + k) else [1, 2] ! k))"
  by (rule read_at_correct [OF sample_st sample_file]) simp_all

text \<open>what is written is read back: reading as many bytes as \<open>write_at\<close> reports, from the same
  offset in the state it leaves, returns them all, and the front of the reader's buffer is what
  was written.\<close>

theorem write_read_roundtrip:
  assumes "st N (Some I) v u s" and "file_ok N I v u sec" and "writable I sec"
    and "off + length buf \<le> MAX_BYTES" and "length buf \<le> length b0"
  shows "\<exists>m s1 s2. write_at sec buf (int (length buf)) (int off) s = Some (int m, s1) \<and> m \<le> length buf
    \<and> read_at sec b0 (int m) (int off) s1 = Some (int m, take m buf @ drop m b0, s2)"
proof -
  from write_at_spec [OF assms(1-3) order_refl assms(4)] obtain m s1 v' u' where
    w: "write_at sec buf (int (length buf)) (int off) s = Some (int m, s1)" "m \<le> length buf"
      "st N (Some (with_length I sec (int (max (file_len v sec) (off + m))))) v' u' s1"
      "tree_ok N sec v' u' (inode_at v' sec)" "file_len v' sec = max (file_len v sec) (off + m)"
      "length_field (inode_at v' sec) = int (max (file_len v sec) (off + m))"
      "\<forall>k < MAX_BYTES. file_byte v' sec k
         = (if off \<le> k \<and> k < off + m then buf ! (k - off) else file_byte v sec k)" by blast
  let ?I = "with_length I sec (int (max (file_len v sec) (off + m)))"
  have f: "file_ok N ?I v' u' sec"
    using w(2) assms(4) file_len_max [OF assms(2)] by (intro file_ok_written [OF w(4,6)]) simp
  have min: "min m (file_len v' sec - off) = m" using w(5) by simp
  have big: "m < 2 ^ 31" "off < 2 ^ 31" using assms(4) w(2) by (auto simp: MAX_BYTES_def MAX_BLOCKS_def)
  from read_at_spec [OF w(3) f big, of b0] assms(5) min w(2) obtain buf' s2 where
    r: "read_at sec b0 (int m) (int off) s1 = Some (int m, buf', s2)" "length buf' = length b0"
      "\<forall>k < length b0. buf' ! k = (if k < m then file_byte v' sec (off + k) else b0 ! k)" by auto
  have "buf' = take m buf @ drop m b0"
    using r(2,3) w(2,7) assms(4,5) by (intro nth_equalityI) (auto simp: nth_append)
  with r(1) w(1,2) show ?thesis by blast
qed

theorem write_read_roundtrip_witness:
  "\<exists>m s1 s2. write_at 5 [7, 8, 9] (int (length [7, 8, 9 :: byte])) (int 511) sample_fs = Some (int m, s1)
    \<and> m \<le> length [7, 8, 9 :: byte]
    \<and> read_at 5 [0, 0, 0, 0] (int m) (int 511) s1 = Some (int m, take m [7, 8, 9] @ drop m [0, 0, 0, 0], s2)"
  by (rule write_read_roundtrip [OF sample_st sample_file])
    (simp_all add: writable_def MAX_BYTES_def MAX_BLOCKS_def)

text \<open>A file depends on its inode's sector and the sectors it owns only.\<close>

lemma file_frame:
  assumes g: "file_ok N I v u sec" and keep: "\<forall>y. y = sec \<or> y \<in> owned v (inode_at v sec) \<longrightarrow> v' y = v y"
    and u: "\<forall>y. u y \<longrightarrow> u' y"
    and I: "\<forall>e. I' sec = Some e \<longrightarrow> i_length e = length_field (inode_at v sec)"
  shows "file_ok N I' v' u' sec" and "inode_at v' sec = inode_at v sec"
    and "owned v' (inode_at v' sec) = owned v (inode_at v sec)"
    and "k < MAX_BYTES \<Longrightarrow> file_byte v' sec k = file_byte v sec k"
proof -
  let ?d = "inode_at v sec"
  have t: "tree_ok N sec v u ?d" using g by (simp add: file_ok_def)
  show d: "inode_at v' sec = ?d" using keep by simp
  have same: "ptr v' ?d p = ptr v ?d p" if "valid_slot p" for p
    using keep ownedI that by (intro ptr_cong) auto
  note tc = tree_cong [OF same]
  show "owned v' (inode_at v' sec) = owned v ?d" using tc(1) d by simp
  have "tree_ok N sec v' u' ?d" using tc(2) tree_ok_mono [OF t] u by auto
  then show "file_ok N I' v' u' sec" using g I by (auto simp: file_ok_def d)
  assume "k < MAX_BYTES"
  then have q: "valid_slot (slot_of (k div 512))" using slot_of_valid block_in_range by blast
  show "file_byte v' sec k = file_byte v sec k" using same [OF q] keep ownedI [OF q, of v ?d]
    by (auto simp: file_byte_def content_def Let_def d)
qed

text \<open>C20: files do not interfere. If two well-formed files own different sectors, then after writing to
  the first one the second has the same inode, the same length and the same bytes, is well formed,
  and the two still own different sectors.\<close>

theorem write_at_other_file:
  assumes s: "st N (Some I) v u s" and f: "file_ok N I v u sec" and "writable I sec"
    and "n \<le> length buf" and "off + n \<le> MAX_BYTES"
    and g: "file_ok N I v u sec2" and ne: "sec2 \<noteq> sec"
    and dis: "owned v (inode_at v sec) \<inter> owned v (inode_at v sec2) = {}"
      "sec \<notin> owned v (inode_at v sec2)" "sec2 \<notin> owned v (inode_at v sec)"
  shows "\<exists>m s' v' u' I'. write_at sec buf (int n) (int off) s = Some (int m, s')
    \<and> st N (Some I') v' u' s' \<and> file_ok N I' v' u' sec2 \<and> inode_at v' sec2 = inode_at v sec2
    \<and> (\<forall>k < MAX_BYTES. file_byte v' sec2 k = file_byte v sec2 k)
    \<and> owned v' (inode_at v' sec) \<inter> owned v' (inode_at v' sec2) = {}"
proof -
  from write_at_spec [OF assms(1-5)] obtain m s' v' u' where
    w: "write_at sec buf (int n) (int off) s = Some (int m, s')"
      "st N (Some (with_length I sec (int (max (file_len v sec) (off + m))))) v' u' s'"
      "\<forall>y. u y \<longrightarrow> u' y" "\<forall>y. u y \<and> y \<noteq> sec \<and> y \<notin> owned v (inode_at v sec) \<longrightarrow> v' y = v y"
      "owned v' (inode_at v' sec) \<subseteq> owned v (inode_at v sec) \<union> {y. \<not> u y}" by blast
  let ?I = "with_length I sec (int (max (file_len v sec) (off + m)))"
  have t: "tree_ok N sec2 v u (inode_at v sec2)" and u2: "u sec2" using g by (auto simp: file_ok_def tree_ok_def)
  have keep: "\<forall>y. y = sec2 \<or> y \<in> owned v (inode_at v sec2) \<longrightarrow> v' y = v y"
    using w(4) dis ne t u2 by (auto simp: tree_ok_def)
  have "\<forall>e. ?I sec2 = Some e \<longrightarrow> i_length e = length_field (inode_at v sec2)"
    using g ne by (auto simp: file_ok_def with_length_def split: option.splits)
  note fr = file_frame [where I' = ?I, OF g keep w(3) this]
  have "owned v' (inode_at v' sec) \<inter> owned v' (inode_at v' sec2) = {}"
    using fr(3) w(5) dis(1) t by (auto simp: tree_ok_def)
  then show ?thesis using w(1,2) fr(1,2,4) by blast
qed

theorem write_at_other_file_witness:
  "\<exists>m s' v' u' I'. write_at 5 [7, 8, 9] (int 3) (int 511) sample_fs = Some (int m, s')
    \<and> st 64 (Some I') v' u' s' \<and> file_ok 64 I' v' u' 1 \<and> inode_at v' 1 = inode_at sample_view 1
    \<and> (\<forall>k < MAX_BYTES. file_byte v' 1 k = file_byte sample_view 1 k)
    \<and> owned v' (inode_at v' 5) \<inter> owned v' (inode_at v' 1) = {}"
  by (rule write_at_other_file [OF sample_st sample_file])
    (simp_all add: writable_def MAX_BYTES_def MAX_BLOCKS_def sample_owned sample_tree array_bit_def)

text \<open>C30: the pointer arithmetic of the inode layer is not bounded by the block size. For a file that
  has a doubly-indirect block, \<open>write_at\<close> at an offset at or behind \<open>MAX_BYTES\<close> reads a pointer behind
  the end of the sector buffer: it has no defined result, and no check stops it.\<close>

theorem write_beyond_tree:
  assumes s: "st N (Some I) v u s" and f: "file_ok N I v u sec" and w: "writable I sec"
    and d: "doubly_indirect_block (inode_at v sec) \<noteq> 0" and off: "MAX_BYTES \<le> off" "off < 2 ^ 31"
    and n: "0 < n" "n < 2 ^ 31"
  shows "write_at sec buf (int n) (int off) s = None"
proof -
  let ?d = "inode_at v sec"
  have t: "tree_ok N sec v u ?d" and sec: "sec < N" using f by (auto simp: file_ok_def tree_ok_def)
  from st_read_inode [OF s sec] obtain s1 where
    s1: "read_inode_disk sec s = Some (?d, s1)" "st N (Some I) v u s1" by blast
  have b: "doubly_indirect_block ?d < N" using tree_sector [OF t, of Dbl] d by simp
  from st_get [OF s1(2) b] obtain s2 where
    s2: "fs_get (doubly_indirect_block ?d) s1 = Some (v (doubly_indirect_block ?d), s2)" by blast
  have "MAX_BLOCKS \<le> off div 512" using div_le_mono [OF off(1), of 512] by (simp add: MAX_BYTES_def)
  then have i: "\<not> off div 512 < 12" "\<not> off div 512 < 140" "128 \<le> (off div 512 - 12 - 128) div 128"
    by (auto simp: MAX_BLOCKS_def)
  then have "get_block_sector_disk ?d (off div 512) s1 = None"
    using d s2 st_length [OF s b]
    by (simp add: get_block_sector_disk_def DIRECT_PTR_CNT_def PTRS_PER_BLOCK_def get_ptr_def Let_def)
  then have "write_loop buf (int n) ?d 0 (int off) 0 s1 = None"
    using n iteration_arith(1,2) [of 0 n] iteration_arith(3) [of 0 n off] sector_idx_nat [OF off(2)]
    by (subst write_loop.simps) (simp add: data_block_def Let_def)
  with s1(1) w st_open_inodes [OF s] show ?thesis
    by (auto simp: write_at_def writable_def not_less split: option.split)
qed

text \<open>The same disk with a file in sector 5 whose doubly-indirect block is sector 6.\<close>

definition dbl_inode :: inode_disk where
  "dbl_inode = new_boxed \<lparr> doubly_indirect_block := 6 \<rparr>"

definition dbl_fs :: "(sector \<Rightarrow> sector_data) fs" where
  "dbl_fs = sample_fs \<lparr> fs_bio := bio_init \<lparr> BCACHE = None,
       reg = ram_registry 64 ((\<lambda>_. [])(5 := inode_bytes dbl_inode)) \<rparr>,
     fs_map := \<lparr> FREE_MAP = Some [0x63, 0, 0, 0, 0, 0, 0, 0], SECTOR_COUNT = 64, IN_FLUSH = False \<rparr> \<rparr>"

abbreviation dbl_view :: "sector \<Rightarrow> sector_data" where
  "dbl_view \<equiv> sample_view(5 := inode_bytes dbl_inode)"

abbreviation dbl_used :: "sector \<Rightarrow> bool" where
  "dbl_used \<equiv> array_bit [0x63, 0, 0, 0, 0, 0, 0, 0]"

lemma dbl_wf: "disk_wf dbl_inode"
  by (simp add: disk_wf_def dbl_inode_def new_boxed_def DIRECT_PTR_CNT_def INODE_MAGIC_def in_i32_def)

lemma dbl_st: "st 64 (Some Map.empty) dbl_view dbl_used dbl_fs"
proof -
  have "bio_ok (bio_init \<lparr> BCACHE = None, reg = ram_registry 64 ((\<lambda>_. [])(5 := inode_bytes dbl_inode)) \<rparr>)"
    by (rule bio_init_ok) simp
  then show ?thesis
    by (auto simp: st_def dbl_fs_def sample_fs_def bio_init_def fm_ok_def fm_view_def dbl_wf fun_eq_iff)
qed

lemma dbl_file: "file_ok 64 Map.empty dbl_view dbl_used 5" "inode_at dbl_view 5 = dbl_inode"
proof -
  show at: "inode_at dbl_view 5 = dbl_inode" using inode_roundtrip [OF dbl_wf] by simp
  have p: "ptr dbl_view dbl_inode p = (if p = Dbl then 6 else 0)" if "valid_slot p" for p
    using that by (cases p) (auto simp: dbl_inode_def new_boxed_def DIRECT_PTR_CNT_def entry_def)
  then have "linked dbl_view dbl_inode = {Dbl}"
    by (auto simp: linked_def dbl_inode_def split: if_splits)
  then have "owned dbl_view dbl_inode = {6}" "inj_on (ptr dbl_view dbl_inode) (linked dbl_view dbl_inode)"
    by (auto simp: owned_def dbl_inode_def)
  then have "tree_ok 64 5 dbl_view dbl_used dbl_inode"
    using dbl_wf by (simp add: tree_ok_def array_bit_def)
  then show "file_ok 64 Map.empty dbl_view dbl_used 5"
    unfolding file_ok_def at by (simp add: dbl_inode_def new_boxed_def)
qed

theorem write_beyond_tree_witness:
  "write_at 5 [1] (int 1) (int 8460288) dbl_fs = None"
  by (rule write_beyond_tree [OF dbl_st dbl_file(1)])
    (use dbl_file(2) in \<open>simp_all add: writable_def MAX_BYTES_def MAX_BLOCKS_def dbl_inode_def\<close>)

end
