(* ===== verification/InodeLife.thy ===== *)
theory InodeLife
  imports InodeProps
begin

section \<open>Creating inodes and freeing their sectors\<close>

text \<open>
  What \<open>create\<close> leaves on disk, and that \<open>truncate\<close> and the last \<open>close\<close> of a removed file free
  exactly the sectors of the file's block tree.
\<close>

subsection \<open>Creating\<close>

text \<open>An inode whose direct pointers are the sectors \<open>xs\<close>, the others null.\<close>

definition direct_disk :: "inode_disk \<Rightarrow> sector list \<Rightarrow> inode_disk" where
  "direct_disk b xs = b \<lparr> direct_blocks := take 12 (xs @ replicate 12 0) \<rparr>"

abbreviation zeroed :: "(sector \<Rightarrow> sector_data) \<Rightarrow> sector list \<Rightarrow> sector \<Rightarrow> sector_data" where
  "zeroed v ys \<equiv> \<lambda>y. if y \<in> set ys then zero_sector else v y"

abbreviation used_too :: "(sector \<Rightarrow> bool) \<Rightarrow> sector list \<Rightarrow> sector \<Rightarrow> bool" where
  "used_too u ys \<equiv> \<lambda>y. u y \<or> y \<in> set ys"

lemma set_block_direct:
  "set_block_sector (direct_disk b xs) (length xs) x = Some (direct_disk b (xs @ [x]))"
proof (cases "length xs < 12")
  case True
  then obtain k where k: "12 - length xs = Suc k" "k \<le> 12" by (cases "12 - length xs") auto
  with True show ?thesis
    by (simp add: set_block_sector_def direct_disk_def DIRECT_PTR_CNT_def upd_def list_update_append min_def)
qed (simp add: set_block_sector_def direct_disk_def DIRECT_PTR_CNT_def)

lemma create_loop_spec:
  assumes "st N I v u s"
  shows "\<exists>r s' ys. create_loop (direct_disk b xs) (length xs) n s = Some (r, s')
    \<and> st N I (zeroed v ys) (used_too u ys) s' \<and> distinct ys \<and> (\<forall>y \<in> set ys. 2 \<le> y \<and> y < N \<and> \<not> u y)
    \<and> (case r of None \<Rightarrow> full N (used_too u ys) \<and> length ys < n
       | Some d \<Rightarrow> d = direct_disk b (xs @ ys) \<and> length ys = n)"
  using assms
proof (induction n arbitrary: xs v u s)
  case 0
  then show ?case by (intro exI [of _ "Some (direct_disk b xs)"] exI [of _ s] exI [of _ "[]"]) simp
next
  case (Suc n)
  from st_allocate [OF Suc.prems] obtain r s1 where a: "fs_allocate s = Some (r, s1)"
    "case r of None \<Rightarrow> st N I v u s1 \<and> (\<forall>x. 2 \<le> x \<and> x < N \<longrightarrow> u x)
     | Some x \<Rightarrow> 2 \<le> x \<and> x < N \<and> \<not> u x \<and> st N I v (u(x := True)) s1" by blast
  show ?case
  proof (cases r)
    case None
    with a show ?thesis by (intro exI [of _ None] exI [of _ s1] exI [of _ "[]"]) (simp add: full_def)
  next
    case (Some x)
    with a have x: "2 \<le> x" "x < N" "\<not> u x" "st N I v (u(x := True)) s1" by auto
    from st_zero [OF x(4,2)] obtain s2 where
      s2: "fs_zero x s1 = Some s2" "st N I (v(x := zero_sector)) (u(x := True)) s2" by blast
    from Suc.IH [OF s2(2), of "xs @ [x]"] obtain r' s' ys where
      l: "create_loop (direct_disk b (xs @ [x])) (Suc (length xs)) n s2 = Some (r', s')"
        "st N I (zeroed (v(x := zero_sector)) ys) (used_too (u(x := True)) ys) s'" "distinct ys"
        "\<forall>y \<in> set ys. 2 \<le> y \<and> y < N \<and> \<not> (u(x := True)) y"
        "case r' of None \<Rightarrow> full N (used_too (u(x := True)) ys) \<and> length ys < n
         | Some d \<Rightarrow> d = direct_disk b ((xs @ [x]) @ ys) \<and> length ys = n" by auto
    have eq: "zeroed (v(x := zero_sector)) ys = zeroed v (x # ys)" "used_too (u(x := True)) ys = used_too u (x # ys)"
      by auto
    have "create_loop (direct_disk b xs) (length xs) (Suc n) s = Some (r', s')"
      using a(1) Some s2(1) l(1) by (simp add: set_block_direct)
    with l x show ?thesis unfolding eq
      by (intro exI [of _ r'] exI [of _ s'] exI [of _ "x # ys"]) (auto split: option.splits if_splits)
  qed
qed

definition created :: "int \<Rightarrow> bool \<Rightarrow> sector list \<Rightarrow> inode_disk" where
  "created len dir ys = direct_disk (new_boxed \<lparr> length_field := len, write_end := len,
     is_dir_byte := (if dir then 1 else 0) \<rparr>) ys"

lemma created_fields [simp]:
  "length_field (created len dir ys) = len" "indirect_block (created len dir ys) = 0"
  "doubly_indirect_block (created len dir ys) = 0"
  by (simp_all add: created_def direct_disk_def new_boxed_def)

lemma direct_created [simp]:
  "i < 12 \<Longrightarrow> direct_blocks (created len dir ys) ! i = (if i < length ys then ys ! i else 0)"
  by (simp add: created_def direct_disk_def nth_append)

lemma ptr_created:
  "valid_slot p \<Longrightarrow> ptr v (created len dir ys) p = (case p of Direct i \<Rightarrow> if i < length ys then ys ! i else 0 | _ \<Rightarrow> 0)"
  by (cases p) (simp_all add: entry_def)

lemma linked_created:
  assumes "\<forall>y \<in> set ys. 2 \<le> y"
  shows "linked v (created len dir ys) = Direct ` {i. i < 12 \<and> i < length ys}"
proof
  show "linked v (created len dir ys) \<subseteq> Direct ` {i. i < 12 \<and> i < length ys}"
    by (auto simp: linked_def ptr_created split: slot.splits if_splits)
  show "Direct ` {i. i < 12 \<and> i < length ys} \<subseteq> linked v (created len dir ys)"
  proof
    fix p assume "p \<in> Direct ` {i. i < 12 \<and> i < length ys}"
    then obtain i where p: "p = Direct i" "i < 12" "i < length ys" by blast
    have "2 \<le> ys ! i" using assms nth_mem [OF p(3)] by blast
    with p show "p \<in> linked v (created len dir ys)" by (simp add: linked_def)
  qed
qed

lemma owned_created:
  assumes "\<forall>y \<in> set ys. 2 \<le> y"
  shows "owned v (created len dir ys) = set (take 12 ys)"
proof -
  have "owned v (created len dir ys) = (!) ys ` {i. i < 12 \<and> i < length ys}"
    unfolding owned_def linked_created [OF assms] by (simp add: image_image)
  moreover have "{i. i < 12 \<and> i < length ys} = {0..<min 12 (length ys)}" by auto
  moreover have "take (min 12 (length ys)) ys = take 12 ys" by (simp add: min_def)
  ultimately show ?thesis using nth_image [of "min 12 (length ys)" ys] by simp
qed


lemma st_inode_create:
  assumes s: "st N I v u s" and sec: "sec < N" "u sec" and len: "in_i32 len"
  shows "\<exists>r s' ys v'. inode_create sec len dir s = Some (r, s') \<and> st N I v' (used_too u ys) s' \<and> distinct ys
    \<and> (\<forall>y \<in> set ys. 2 \<le> y \<and> y < N \<and> \<not> u y)
    \<and> (if r then length ys = bytes_to_sectors len \<and> v' = (zeroed v ys)(sec := inode_bytes (created len dir ys))
         \<and> inode_at v' sec = created len dir ys \<and> tree_ok N sec v' (used_too u ys) (created len dir ys)
       else v' = zeroed v ys \<and> full N (used_too u ys))"
proof -
  let ?b = "new_boxed \<lparr> length_field := len, write_end := len, is_dir_byte := (if dir then 1 else 0) \<rparr>"
  have b: "direct_disk ?b [] = ?b" by (simp add: direct_disk_def new_boxed_def DIRECT_PTR_CNT_def)
  from create_loop_spec [OF s, of ?b "[]" "bytes_to_sectors len"] obtain r s1 ys where
    l: "create_loop ?b 0 (bytes_to_sectors len) s = Some (r, s1)" "st N I (zeroed v ys) (used_too u ys) s1"
      "distinct ys" "\<forall>y \<in> set ys. 2 \<le> y \<and> y < N \<and> \<not> u y"
      "case r of None \<Rightarrow> full N (used_too u ys) \<and> length ys < bytes_to_sectors len
       | Some d \<Rightarrow> d = direct_disk ?b ys \<and> length ys = bytes_to_sectors len"
    unfolding b append_Nil list.size(3) by blast
  show ?thesis
  proof (cases r)
    case None
    with l show ?thesis unfolding inode_create_def Let_def
      by (intro exI [of _ False] exI [of _ s1] exI [of _ ys] exI [of _ "zeroed v ys"]) simp
  next
    case (Some d)
    let ?d = "created len dir ys" and ?v = "(zeroed v ys)(sec := inode_bytes (created len dir ys))"
    have d: "d = ?d" "length ys = bytes_to_sectors len" using l(5) Some by (auto simp: created_def)
    have N: "N < 2 ^ 31" using st_bound [OF s] by simp
    have "\<forall>x \<in> set (take 12 ys). x < 2 ^ 32" using l(4) N by (fastforce dest: in_set_takeD)
    then have wf: "disk_wf ?d"
      using len by (auto simp: disk_wf_def created_def direct_disk_def new_boxed_def INODE_MAGIC_def)
    from st_write_inode [OF l(2) sec(1) wf] obtain s2 where
      s2: "write_inode_disk sec ?d s1 = Some s2" "st N I ?v (used_too u ys) s2" by blast
    have two: "\<forall>y \<in> set ys. 2 \<le> y" using l(4) by blast
    note own = owned_created [OF two, of ?v len dir]
    have inj: "inj_on (ptr ?v ?d) (linked ?v ?d)"
      unfolding linked_created [OF two] using l(3) by (auto simp: inj_on_def nth_eq_iff_index_eq)
    have "tree_ok N sec ?v (used_too u ys) ?d"
      unfolding tree_ok_def own using wf sec inj l(4) by (auto dest: in_set_takeD)
    with l(1,3,4) s2 Some d inode_roundtrip [OF wf] show ?thesis unfolding inode_create_def Let_def
      by (intro exI [of _ True] exI [of _ s2] exI [of _ ys] exI [of _ ?v]) simp
  qed
qed

lemma content_created:
  assumes "\<forall>y \<in> set ys. v y = zero_sector" and "k < MAX_BYTES"
  shows "content v (created len dir ys) k = 0"
proof -
  have "valid_slot (slot_of (k div 512))" using slot_of_valid block_in_range [OF assms(2)] by blast
  then show ?thesis using assms(1) nth_mem [of _ ys]
    by (auto simp: content_def Let_def ptr_created zero_sector_def split: slot.splits)
qed

text \<open>C31: \<open>inode::create\<close> makes a well-formed file of the given length whose bytes are all zero. It
  changes no used sector but the inode's own. It answers false only if no sector is left.\<close>

theorem inode_create_correct:
  assumes s: "st N (Some I) v u s" and sec: "sec < N" "u sec" "I sec = None"
    and len: "0 \<le> len" "len \<le> int MAX_BYTES"
  shows "\<exists>r s' v' u'. inode_create sec len dir s = Some (r, s') \<and> st N (Some I) v' u' s'
    \<and> (r \<longrightarrow> file_ok N I v' u' sec \<and> file_len v' sec = nat len \<and> (\<forall>k < MAX_BYTES. file_byte v' sec k = 0))
    \<and> (\<not> r \<longrightarrow> full N u') \<and> (\<forall>y. u y \<longrightarrow> u' y) \<and> (\<forall>y. u y \<and> y \<noteq> sec \<longrightarrow> v' y = v y)"
proof -
  have "in_i32 len" using len by (simp add: in_i32_def MAX_BYTES_def MAX_BLOCKS_def)
  from st_inode_create [OF s sec(1,2) this, of dir] obtain r s' ys v' where
    c: "inode_create sec len dir s = Some (r, s')" "st N (Some I) v' (used_too u ys) s'"
      "\<forall>y \<in> set ys. 2 \<le> y \<and> y < N \<and> \<not> u y"
      "if r then length ys = bytes_to_sectors len \<and> v' = (zeroed v ys)(sec := inode_bytes (created len dir ys))
         \<and> inode_at v' sec = created len dir ys \<and> tree_ok N sec v' (used_too u ys) (created len dir ys)
       else v' = zeroed v ys \<and> full N (used_too u ys)" by blast
  have keep: "\<forall>y. u y \<and> y \<noteq> sec \<longrightarrow> v' y = v y" using c(3,4) by (auto split: if_splits)
  have "file_ok N I v' (used_too u ys) sec \<and> file_len v' sec = nat len \<and> (\<forall>k < MAX_BYTES. file_byte v' sec k = 0)" if r
  proof -
    have v': "v' = (zeroed v ys)(sec := inode_bytes (created len dir ys))"
      and d: "inode_at v' sec = created len dir ys" "tree_ok N sec v' (used_too u ys) (created len dir ys)"
      using c(4) that unfolding if_P [OF that] by blast+
    have "\<forall>y \<in> set ys. v' y = zero_sector" using v' c(3) sec(2) by auto
    from content_created [OF this] d len sec(3) show ?thesis by (simp add: file_ok_def file_len_def file_byte_def)
  qed
  with c(1,2,4) keep show ?thesis
    by (intro exI [of _ r] exI [of _ s'] exI [of _ v'] exI [of _ "used_too u ys"]) auto
qed

theorem inode_create_correct_witness:
  "\<exists>r s' v' u'. inode_create 5 700 False sample_fs = Some (r, s') \<and> st 64 (Some Map.empty) v' u' s'
    \<and> (r \<longrightarrow> file_ok 64 Map.empty v' u' 5 \<and> file_len v' 5 = nat 700 \<and> (\<forall>k < MAX_BYTES. file_byte v' 5 k = 0))
    \<and> (\<not> r \<longrightarrow> full 64 u') \<and> (\<forall>y. sample_used y \<longrightarrow> u' y) \<and> (\<forall>y. sample_used y \<and> y \<noteq> 5 \<longrightarrow> v' y = sample_view y)"
  by (rule inode_create_correct [OF sample_st])
    (simp_all add: MAX_BYTES_def MAX_BLOCKS_def array_bit_def)

text \<open>C32: \<open>inode::create\<close> loses sectors. It allocates every data sector of the requested length but
  links only the first 12. After a successful \<open>create\<close> of more than 12 sectors, exactly the rest of
  them are marked as used and belong to no block of the new file. After a \<open>create\<close> that ran out of
  sectors, every sector it had taken stays marked, so none can be allocated any more.\<close>

theorem inode_create_leaks:
  assumes s: "st N (Some I) v u s" and sec: "sec < N" "u sec" and len: "0 \<le> len" "len < 2 ^ 31"
  shows "\<exists>r s' v' u'. inode_create sec len dir s = Some (r, s') \<and> st N (Some I) v' u' s'
    \<and> (r \<longrightarrow> card {y. u' y \<and> \<not> u y \<and> y \<notin> owned v' (inode_at v' sec)} = bytes_to_sectors len - 12)
    \<and> (\<not> r \<longrightarrow> full N u' \<and> v' sec = v sec)"
proof -
  have "in_i32 len" using len by (simp add: in_i32_def)
  from st_inode_create [OF s sec this, of dir] obtain r s' ys v' where
    c: "inode_create sec len dir s = Some (r, s')" "st N (Some I) v' (used_too u ys) s'" "distinct ys"
      "\<forall>y \<in> set ys. 2 \<le> y \<and> y < N \<and> \<not> u y"
      "if r then length ys = bytes_to_sectors len \<and> v' = (zeroed v ys)(sec := inode_bytes (created len dir ys))
         \<and> inode_at v' sec = created len dir ys \<and> tree_ok N sec v' (used_too u ys) (created len dir ys)
       else v' = zeroed v ys \<and> full N (used_too u ys)" by blast
  have "card {y. used_too u ys y \<and> \<not> u y \<and> y \<notin> owned v' (inode_at v' sec)} = bytes_to_sectors len - 12" if r
  proof -
    have own: "owned v' (inode_at v' sec) = set (take 12 ys)" and n: "length ys = bytes_to_sectors len"
      using c(4,5) that owned_created [of ys v'] by auto
    have "set (take 12 ys) \<inter> set (drop 12 ys) = {}" "set ys = set (take 12 ys) \<union> set (drop 12 ys)"
      using c(3) by (simp_all add: set_take_disj_set_drop_if_distinct flip: set_append)
    then have "{y. used_too u ys y \<and> \<not> u y \<and> y \<notin> owned v' (inode_at v' sec)} = set (drop 12 ys)"
      unfolding own using c(4) by blast
    then show ?thesis using c(3) n by (simp add: distinct_card)
  qed
  with c show ?thesis
    by (intro exI [of _ r] exI [of _ s'] exI [of _ v'] exI [of _ "used_too u ys"]) (use sec(2) in \<open>auto split: if_splits\<close>)
qed

theorem inode_create_leaks_witness:
  "\<exists>r s' v' u'. inode_create 5 7000 False sample_fs = Some (r, s') \<and> st 64 (Some Map.empty) v' u' s'
    \<and> (r \<longrightarrow> card {y. u' y \<and> \<not> sample_used y \<and> y \<notin> owned v' (inode_at v' 5)} = bytes_to_sectors 7000 - 12)
    \<and> (\<not> r \<longrightarrow> full 64 u' \<and> v' 5 = sample_view 5)"
  by (rule inode_create_leaks [OF sample_st]) (simp_all add: array_bit_def)


subsection \<open>Freeing\<close>

abbreviation without :: "(sector \<Rightarrow> bool) \<Rightarrow> sector set \<Rightarrow> sector \<Rightarrow> bool" where
  "without u A \<equiv> \<lambda>y. u y \<and> y \<notin> A"

lemma without_insert: "(without u A)(x := False) = without u (insert x A)"
  by (rule ext) auto

lemma st_release_ptr:
  "st N I v (without u A) s \<Longrightarrow> p < N \<Longrightarrow> p \<noteq> 0
     \<Longrightarrow> \<exists>s'. fs_release p s = Some s' \<and> st N I v (without u (insert p A)) s'"
  using st_release [of N I v "without u A" s p] unfolding without_insert by blast

text \<open>The three loops: the data blocks, the indirect block and the inner pointer blocks.\<close>

definition data_ptrs :: "(sector \<Rightarrow> sector_data) \<Rightarrow> inode_disk \<Rightarrow> nat \<Rightarrow> sector set" where
  "data_ptrs v d n = (\<lambda>i. ptr v d (slot_of i)) ` {0..<n} - {0}"

definition inner_ptrs :: "(sector \<Rightarrow> sector_data) \<Rightarrow> inode_disk \<Rightarrow> nat \<Rightarrow> sector set" where
  "inner_ptrs v d n = (\<lambda>j. ptr v d (Inner j)) ` {0..<n} - {0}"

lemma ptrs_Suc:
  "data_ptrs v d (Suc n) = (if ptr v d (slot_of n) = 0 then data_ptrs v d n
     else insert (ptr v d (slot_of n)) (data_ptrs v d n))"
  "inner_ptrs v d (Suc n) = (if ptr v d (Inner n) = 0 then inner_ptrs v d n
     else insert (ptr v d (Inner n)) (inner_ptrs v d n))"
  by (simp_all add: data_ptrs_def inner_ptrs_def atLeast0_lessThan_Suc insert_Diff_if)

lemma free_data:
  assumes s: "st N I v (without u A) s" and t: "tree_ok N sec v u d" and n: "n \<le> MAX_BLOCKS"
  shows "\<exists>s'. for_range 0 n (\<lambda>i s. do {
       (r, s) \<leftarrow> get_block_sector_disk d i s;
       case r of Some x \<Rightarrow> fs_release x s | None \<Rightarrow> Some s
     }) s = Some s' \<and> st N I v (without u (A \<union> data_ptrs v d n)) s'"
    (is "\<exists>s'. for_range 0 n ?f s = _ \<and> _")
proof -
  let ?P = "\<lambda>i s. st N I v (without u (A \<union> data_ptrs v d i)) s"
  have start: "?P 0 s" using s by (simp add: data_ptrs_def)
  have iter: "\<exists>s'. ?f i s = Some s' \<and> ?P (Suc i) s'" if i: "i < 0 + n" and P: "?P i s" for i s
  proof -
    have i: "i < MAX_BLOCKS" using n i by simp
    from st_get_block [OF P t i] obtain s1 where
      s1: "get_block_sector_disk d i s = Some (nonzero (ptr v d (slot_of i)), s1)" "?P i s1" by blast
    show ?thesis
      using s1 st_release_ptr [OF s1(2), of "ptr v d (slot_of i)"] tree_sector [OF t, of "slot_of i"]
        slot_of_valid [OF i]
      by (cases "ptr v d (slot_of i) = 0") (simp_all add: nonzero_def ptrs_Suc conj_left_commute)
  qed
  show ?thesis using for_range_rule [where P = ?P and f = ?f, OF start iter] by simp
qed

lemma free_inner:
  assumes s: "st N I v (without u A) s" and t: "tree_ok N sec v u d" and b: "doubly_indirect_block d \<noteq> 0"
  shows "\<exists>s'. for_range 0 PTRS_PER_BLOCK
      (\<lambda>j s. do { p \<leftarrow> get_ptr (v (doubly_indirect_block d)) j; release_ptr p s }) s = Some s'
    \<and> st N I v (without u (A \<union> inner_ptrs v d 128)) s'"
    (is "\<exists>s'. for_range 0 _ ?f s = _ \<and> _")
proof -
  let ?P = "\<lambda>i s. st N I v (without u (A \<union> inner_ptrs v d i)) s" and ?b = "doubly_indirect_block d"
  have start: "?P 0 s" using s by (simp add: inner_ptrs_def)
  have iter: "\<exists>s'. ?f j s = Some s' \<and> ?P (Suc j) s'" if "j < 0 + 128" and P: "?P j s" for j s
  proof -
    have j: "j < 128" using that by simp
    have bN: "?b < N" using tree_sector [OF t, of Dbl] b by simp
    have g: "get_ptr (v ?b) j = Some (ptr v d (Inner j))"
      using j st_length [OF s bN] b by (simp add: get_ptr_Some entry_def)
    show ?thesis
      using P st_release_ptr [OF P, of "ptr v d (Inner j)"] tree_sector [OF t, of "Inner j"] j
      unfolding g by (cases "ptr v d (Inner j) = 0") (auto simp: release_ptr_def ptrs_Suc)
  qed
  show ?thesis using for_range_rule [where P = ?P and f = ?f, OF start iter] by (simp add: PTRS_PER_BLOCK_def)
qed

definition covers :: "nat \<Rightarrow> (sector \<Rightarrow> sector_data) \<Rightarrow> inode_disk \<Rightarrow> bool" where
  "covers n v d \<longleftrightarrow> (\<forall>p. valid_slot p \<and> data_slot p \<and> ptr v d p \<noteq> 0 \<longrightarrow> (\<exists>i < n. p = slot_of i))"

lemma owned_parts:
  assumes n: "n \<le> MAX_BLOCKS" and c: "covers n v d"
  shows "owned v d = data_ptrs v d n \<union> ({indirect_block d} - {0})
    \<union> (if doubly_indirect_block d = 0 then {} else inner_ptrs v d 128 \<union> {doubly_indirect_block d})" (is "_ = ?R")
proof
  show "owned v d \<subseteq> ?R"
  proof
    fix x assume "x \<in> owned v d"
    then obtain p where p: "valid_slot p" "ptr v d p = x" "x \<noteq> 0" by (auto simp: owned_def linked_def)
    show "x \<in> ?R"
    proof (cases "data_slot p")
      case True
      with c p show ?thesis by (auto simp: covers_def data_ptrs_def)
    next
      case False
      with p show ?thesis by (cases p) (auto simp: inner_ptrs_def entry_def split: if_splits)
    qed
  qed
  have da: "ptr v d (slot_of i) \<in> owned v d" if "i < n" "ptr v d (slot_of i) \<noteq> 0" for i
    using that n slot_of_valid [of i] by (intro ownedI) auto
  then have "data_ptrs v d n \<subseteq> owned v d" unfolding data_ptrs_def using da atLeast0LessThan by fastforce
  moreover have inn: "ptr v d (Inner j) \<in> owned v d" if "j < 128" "ptr v d (Inner j) \<noteq> 0" for j
    using that by (intro ownedI) simp
  then have "inner_ptrs v d 128 \<subseteq> owned v d" unfolding inner_ptrs_def using inn atLeast0LessThan by fastforce
  moreover note ownedI [of Ind v d] ownedI [of Dbl v d]
  ultimately show "?R \<subseteq> owned v d" by auto
qed

lemma st_free_blocks:
  assumes s: "st N I v (without u A0) s" and t: "tree_ok N sec v u d" and n: "n \<le> MAX_BLOCKS" and c: "covers n v d"
  shows "\<exists>s'. free_blocks d n s = Some s' \<and> st N I v (without u (A0 \<union> owned v d)) s'"
proof -
  let ?A = "A0 \<union> data_ptrs v d n" and ?b = "indirect_block d" and ?c = "doubly_indirect_block d"
  from free_data [OF s t n] obtain s1 where
    s1: "for_range 0 n (\<lambda>i s. do {
       (r, s) \<leftarrow> get_block_sector_disk d i s;
       case r of Some x \<Rightarrow> fs_release x s | None \<Rightarrow> Some s
     }) s = Some s1" "st N I v (without u ?A) s1" by blast
  let ?B = "?A \<union> ({?b} - {0})"
  obtain s2 where s2: "release_ptr ?b s1 = Some s2" "st N I v (without u ?B) s2"
    using st_release_ptr [OF s1(2), of ?b] s1(2) tree_sector [OF t, of Ind]
    by (cases "?b = 0") (auto simp: release_ptr_def)
  show ?thesis
  proof (cases "?c = 0")
    case True
    have "A0 \<union> owned v d = ?B" unfolding owned_parts [OF n c] using True by auto
    with s1(1) s2 True show ?thesis by (simp add: free_blocks_def)
  next
    case False
    then have cN: "?c < N" using tree_sector [OF t, of Dbl] by simp
    from st_get [OF s2(2) cN] obtain s3 where
      s3: "fs_get ?c s2 = Some (v ?c, s3)" "st N I v (without u ?B) s3" by blast
    from free_inner [OF s3(2) t False] obtain s4 where
      s4: "for_range 0 PTRS_PER_BLOCK (\<lambda>j s. do { p \<leftarrow> get_ptr (v ?c) j; release_ptr p s }) s3 = Some s4"
        "st N I v (without u (?B \<union> inner_ptrs v d 128)) s4" by blast
    from st_release_ptr [OF s4(2) cN False] obtain s5 where
      s5: "fs_release ?c s4 = Some s5" "st N I v (without u (insert ?c (?B \<union> inner_ptrs v d 128))) s5" by blast
    have "A0 \<union> owned v d = insert ?c (?B \<union> inner_ptrs v d 128)" unfolding owned_parts [OF n c] using False by auto
    with s1(1) s2(1) s3(1) s4(1) s5 False show ?thesis by (simp add: free_blocks_def)
  qed
qed


lemma blocks_of_length:
  assumes "0 \<le> l" and "l \<le> int MAX_BYTES"
  shows "bytes_to_sectors l \<le> MAX_BLOCKS"
proof -
  have "as_u32 l = nat l" using assms by (simp add: as_u32_id MAX_BYTES_def MAX_BLOCKS_def)
  moreover have "nat l \<le> 512 * MAX_BLOCKS" using assms(2) by (simp add: MAX_BYTES_def)
  ultimately show ?thesis by (auto simp: bytes_to_sectors_def div_ceil_def BLOCK_SECTOR_SIZE_def)
qed

text \<open>C33: the last close of a removed file frees its sectors. If the open inode is marked as removed and
  this is its only handle, \<open>close\<close> drops it from the table of open inodes and frees exactly the inode's
  sector and the sectors of its block tree; no other sector is freed and no sector changes. The
  blocks of the file must lie within its length.\<close>

theorem close_removed_frees:
  assumes s: "st N (Some I) v u s" and f: "file_ok N I v u sec"
    and e: "I sec = Some e" "removed e" "open_cnt e = 1" "i_sector e = sec"
    and c: "covers (bytes_to_sectors (i_length e)) v (inode_at v sec)"
  shows "\<exists>s'. inode_close sec s = Some s'
    \<and> st N (Some (I(sec := None))) v (\<lambda>y. u y \<and> y \<noteq> sec \<and> y \<notin> owned v (inode_at v sec)) s'"
proof -
  let ?d = "inode_at v sec" and ?s0 = "s \<lparr> OPEN_INODES := Some (I(sec := None)) \<rparr>"
  have t: "tree_ok N sec v u ?d" and sec: "sec < N" and len: "i_length e = length_field ?d"
    "0 \<le> length_field ?d" "length_field ?d \<le> int MAX_BYTES" using f e(1) by (auto simp: file_ok_def tree_ok_def)
  have s0: "st N (Some (I(sec := None))) v u ?s0" by (rule st_set_open [OF s])
  from st_release [OF s0 sec] obtain s1 where
    s1: "fs_release sec ?s0 = Some s1" "st N (Some (I(sec := None))) v (u(sec := False)) s1" by blast
  from st_read_inode [OF s1(2) sec] obtain s2 where
    s2: "read_inode_disk sec s1 = Some (?d, s2)" "st N (Some (I(sec := None))) v (u(sec := False)) s2" by blast
  have "u(sec := False) = without u {sec}" by (rule ext) auto
  with s2(2) have "st N (Some (I(sec := None))) v (without u {sec}) s2" by simp
  from st_free_blocks [OF this t _ c] obtain s3 where
    s3: "free_blocks ?d (bytes_to_sectors (i_length e)) s2 = Some s3"
      "st N (Some (I(sec := None))) v (without u ({sec} \<union> owned v ?d)) s3"
    using blocks_of_length len by auto
  have "sub_i32 (open_cnt e) 1 = Some 0" using e(3) by (simp add: arith_defs in_i32_def)
  with st_open_inodes [OF s] e s1(1) s2(1) s3(1) have "inode_close sec s = Some s3"
    by (simp add: inode_close_def Let_def)
  moreover have "without u ({sec} \<union> owned v ?d) = (\<lambda>y. u y \<and> y \<noteq> sec \<and> y \<notin> owned v ?d)" by (rule ext) auto
  ultimately show ?thesis using s3(2) by auto
qed

text \<open>An open and removed file on the sample disk.\<close>

definition removed_inode :: inode where
  "removed_inode = \<lparr> i_sector = 5, open_cnt = 1, removed = True, deny_write_cnt = 0, i_length = 0,
     i_is_dir = False, i_is_symlink = False \<rparr>"

definition removed_fs :: "(sector \<Rightarrow> sector_data) fs" where
  "removed_fs = sample_fs \<lparr> OPEN_INODES := Some [5 \<mapsto> removed_inode] \<rparr>"

lemma sample_length_field: "length_field (bytes_inode (replicate 512 0)) = 0"
  by (simp add: bytes_inode_def as_i32_def)

lemma sample_covers: "covers n sample_view (bytes_inode (replicate 512 0))"
proof -
  have "False" if "valid_slot p" "ptr sample_view (bytes_inode (replicate 512 0)) p \<noteq> 0" for p
    using that sample_inode [of p] by simp
  then show ?thesis unfolding covers_def by meson
qed

theorem close_removed_frees_witness:
  "\<exists>s'. inode_close 5 removed_fs = Some s'
    \<and> st 64 (Some ([5 \<mapsto> removed_inode](5 := None))) sample_view
        (\<lambda>y. sample_used y \<and> y \<noteq> 5 \<and> y \<notin> owned sample_view (inode_at sample_view 5)) s'"
  by (rule close_removed_frees [where e = removed_inode])
    (use sample_file in \<open>simp_all add: removed_fs_def st_set_open [OF sample_st] sample_covers removed_inode_def
      file_ok_def sample_length_field\<close>)

text \<open>\<open>truncate\<close> empties a file: it leaves a well-formed file of length 0, on disk and in the open
  inode, that is a directory exactly if it was one, and frees exactly the sectors of its old block
  tree. No sector but the inode's own changes.\<close>

theorem truncate_frees:
  assumes s: "st N (Some I) v u s" and f: "file_ok N I v u sec"
    and c: "covers (bytes_to_sectors (length_field (inode_at v sec))) v (inode_at v sec)"
  shows "\<exists>s' v' I'. truncate sec s = Some s' \<and> file_len v' sec = 0
    \<and> st N (Some I') v' (\<lambda>y. u y \<and> y \<notin> owned v (inode_at v sec)) s'
    \<and> file_ok N I' v' (\<lambda>y. u y \<and> y \<notin> owned v (inode_at v sec)) sec \<and> owned v' (inode_at v' sec) = {}
    \<and> (is_dir_byte (inode_at v' sec) \<noteq> 0 \<longleftrightarrow> (case I sec of Some e \<Rightarrow> i_is_dir e | None \<Rightarrow> is_dir_byte (inode_at v sec) \<noteq> 0))
    \<and> (\<forall>y. y \<noteq> sec \<longrightarrow> v' y = v y)"
proof -
  let ?d = "inode_at v sec" and ?u = "without u (owned v (inode_at v sec))"
  define dr where "dr = (case I sec of Some e \<Rightarrow> i_is_dir e | None \<Rightarrow> is_dir_byte ?d \<noteq> 0)"
  define d' where "d' = new_boxed \<lparr> is_dir_byte := (if dr then 1 else 0) \<rparr>"
  let ?v = "v(sec := inode_bytes d')" and ?I = "with_length I sec 0"
  have t: "tree_ok N sec v u ?d" and sec: "sec < N" "u sec" and len: "0 \<le> length_field ?d"
    "length_field ?d \<le> int MAX_BYTES" using f by (auto simp: file_ok_def tree_ok_def)
  from st_inode_length [OF s f] obtain s1 where
    s1: "inode_length sec s = Some (length_field ?d, s1)" "st N (Some I) v u s1" by blast
  from st_read_inode [OF s1(2) sec(1)] obtain s2 where
    s2: "read_inode_disk sec s1 = Some (?d, s2)" "st N (Some I) v (without u {}) s2" by auto
  from st_free_blocks [OF s2(2) t blocks_of_length [OF len] c] obtain s3 where
    s3: "free_blocks ?d (bytes_to_sectors (length_field ?d)) s2 = Some s3" "st N (Some I) v ?u s3" by auto
  obtain s4 where s4: "inode_is_dir sec s3 = Some (dr, s4)" "st N (Some I) v ?u s4"
    using st_open_inodes [OF s3(2)] st_read_inode [OF s3(2) sec(1)] s3(2)
    by (cases "I sec") (auto simp: inode_is_dir_def dr_def)
  have new: "d' = created 0 dr []"
    by (simp add: d'_def created_def direct_disk_def new_boxed_def DIRECT_PTR_CNT_def)
  have wf: "disk_wf d'"
    by (simp add: d'_def disk_wf_def new_boxed_def INODE_MAGIC_def in_i32_def DIRECT_PTR_CNT_def)
  from st_write_inode [OF s4(2) sec(1) wf] obtain s5 where
    s5: "write_inode_disk sec d' s4 = Some s5" "st N (Some I) ?v ?u s5" by blast
  from st_set_open_length [OF s5(2), of sec 0] obtain s6 where
    s6: "set_open_length sec 0 s5 = Some s6" "st N (Some ?I) ?v ?u s6" by blast
  have at: "inode_at ?v sec = d'" using inode_roundtrip [OF wf] by simp
  have own: "owned ?v d' = {}" "linked ?v d' = {}"
    using owned_created [of "[]" ?v 0 dr] linked_created [of "[]" ?v 0 dr] new by simp_all
  have "sec \<notin> owned v ?d" using t by (auto simp: tree_ok_def)
  with sec wf have "tree_ok N sec ?v ?u d'" by (simp add: tree_ok_def own)
  then have tr: "tree_ok N sec ?v ?u (inode_at ?v sec)" unfolding at .
  have "length_field (inode_at ?v sec) = int 0" unfolding at by (simp add: new)
  from file_ok_written [OF tr this le0] have "file_ok N (with_length I sec (int 0)) ?v ?u sec" .
  moreover have "truncate sec s = Some s6"
    using s1(1) s2(1) s3(1) s4(1) s5(1) s6(1) by (simp add: truncate_def d'_def)
  moreover have "file_len ?v sec = 0" unfolding file_len_def at by (simp add: new)
  moreover have "is_dir_byte d' \<noteq> 0 \<longleftrightarrow> dr" by (simp add: d'_def)
  moreover have "\<forall>y. y \<noteq> sec \<longrightarrow> ?v y = v y" by simp
  ultimately show ?thesis using s6(2) own(1) unfolding dr_def
    unfolding at by (intro exI [of _ s6] exI [of _ ?v] exI [of _ ?I]) (simp add: at del: fun_upd_apply)
qed

theorem truncate_frees_witness:
  "\<exists>s' v' I'. truncate 5 sample_fs = Some s' \<and> file_len v' 5 = 0
    \<and> st 64 (Some I') v' (\<lambda>y. sample_used y \<and> y \<notin> owned sample_view (inode_at sample_view 5)) s'
    \<and> file_ok 64 I' v' (\<lambda>y. sample_used y \<and> y \<notin> owned sample_view (inode_at sample_view 5)) 5
    \<and> owned v' (inode_at v' 5) = {}
    \<and> (is_dir_byte (inode_at v' 5) \<noteq> 0
         \<longleftrightarrow> (case (Map.empty :: sector \<rightharpoonup> inode) 5 of Some e \<Rightarrow> i_is_dir e | None \<Rightarrow> is_dir_byte (inode_at sample_view 5) \<noteq> 0))
    \<and> (\<forall>y. y \<noteq> 5 \<longrightarrow> v' y = sample_view y)"
  by (rule truncate_frees [OF sample_st sample_file]) (rule sample_covers)

end
