(* ===== verification/Directory.thy ===== *)
theory Directory
  imports Inode
begin

section \<open>Directories and file handles: filesys/directory.rs, filesys/file.rs\<close>

text \<open>
  A directory is a file of 20-byte entries. Names are their UTF-8 bytes. A directory handle
  \<open>Dir\<close> is the sector of its inode and a position; opening a handle opens the inode and dropping it
  closes the inode. A file handle \<open>File\<close> adds the access mode and the write denial.
\<close>

definition NAME_MAX :: nat where
  "NAME_MAX = 14"

definition DIR_ENTRY_SIZE :: nat where
  "DIR_ENTRY_SIZE = 20"

record dir_entry =
  de_sector :: nat
  de_name :: "byte list"
  de_in_use :: byte

definition de_zeroed :: dir_entry where
  "de_zeroed = \<lparr> de_sector = 0, de_name = replicate (NAME_MAX + 1) 0, de_in_use = 0 \<rparr>"

text \<open>The name up to the first zero byte.\<close>

definition de_text :: "dir_entry \<Rightarrow> byte list" where
  "de_text e = takeWhile (\<lambda>b. b \<noteq> 0) (de_name e)"

definition name_matches :: "dir_entry \<Rightarrow> byte list \<Rightarrow> bool" where
  "name_matches e name \<longleftrightarrow>
     (if de_in_use e = 0 then False
      else let len = length (de_text e)
           in if len \<noteq> length name then False else take len (de_name e) = name)"

definition make_entry :: "byte list \<Rightarrow> nat \<Rightarrow> dir_entry" where
  "make_entry name sec =
     (let len = min (length name) NAME_MAX
      in de_zeroed \<lparr> de_sector := sec, de_in_use := 1,
           de_name := take len name @ drop len (de_name de_zeroed) \<rparr>)"

text \<open>The \<open>repr(C)\<close> image of an entry.\<close>

definition entry_to_bytes :: "dir_entry \<Rightarrow> byte list" where
  "entry_to_bytes e = u32_bytes (de_sector e) @ de_name e @ [de_in_use e]"

definition bytes_to_entry :: "byte list \<Rightarrow> dir_entry" where
  "bytes_to_entry bs = \<lparr> de_sector = u32_at bs 0, de_name = take 15 (drop 4 bs), de_in_use = bs ! 19 \<rparr>"

record dir =
  d_inode_sector :: sector
  d_pos :: int

definition dir_open :: "sector \<Rightarrow> 'm fs \<Rightarrow> (dir \<times> 'm fs) option" where
  "dir_open sec s = do {
     s \<leftarrow> inode_open sec s;
     Some (\<lparr> d_inode_sector = sec, d_pos = 0 \<rparr>, s)
   }"

definition dir_open_root :: "'m fs \<Rightarrow> (dir \<times> 'm fs) option" where
  "dir_open_root s = dir_open ROOT_DIR_SECTOR s"

text \<open>\<open>close_dir\<close> and every other end of a handle's life run \<open>Drop\<close>.\<close>

definition dir_close :: "dir \<Rightarrow> 'm fs \<Rightarrow> 'm fs option" where
  "dir_close dr s = inode_close (d_inode_sector dr) s"

definition dir_create :: "sector \<Rightarrow> sector \<Rightarrow> 'm fs \<Rightarrow> (bool \<times> 'm fs) option" where
  "dir_create sec parent_sector s = do {
     (ok, s) \<leftarrow> inode_create sec (int (DIR_ENTRY_SIZE * 2)) True s;
     if \<not> ok then Some (False, s)
     else do {
       let dot = de_zeroed \<lparr> de_sector := sec, de_in_use := 1,
                             de_name := (de_name de_zeroed)[0 := 0x2E] \<rparr>;
       let dotdot = de_zeroed \<lparr> de_sector := parent_sector, de_in_use := 1,
                                de_name := (de_name de_zeroed)[0 := 0x2E, 1 := 0x2E] \<rparr>;
       (_, s) \<leftarrow> write_at sec (entry_to_bytes dot) (int DIR_ENTRY_SIZE) 0 s;
       (_, s) \<leftarrow> write_at sec (entry_to_bytes dotdot) (int DIR_ENTRY_SIZE) (int DIR_ENTRY_SIZE) s;
       Some (True, s)
     }
   }"

text \<open>The common head of the loops over the entries: read entry \<open>i\<close>; \<open>None\<close> if it is incomplete.\<close>

definition read_entry :: "sector \<Rightarrow> nat \<Rightarrow> 'm fs \<Rightarrow> (dir_entry option \<times> 'm fs) option" where
  "read_entry sec i s = do {
     offset \<leftarrow> mul_i32 (int i) (int DIR_ENTRY_SIZE);
     (n, buf, s) \<leftarrow> read_at sec (replicate DIR_ENTRY_SIZE 0) (int DIR_ENTRY_SIZE) offset s;
     Some (if n < int DIR_ENTRY_SIZE then None else Some (bytes_to_entry buf), s)
   }"

text \<open>The loop: the first entry from \<open>i\<close> on, of \<open>n\<close>, that satisfies \<open>P\<close>; it ends early at an
  incomplete entry.\<close>

primrec find_entry :: "(dir_entry \<Rightarrow> bool) \<Rightarrow> sector \<Rightarrow> nat \<Rightarrow> nat \<Rightarrow> 'm fs
    \<Rightarrow> ((nat \<times> dir_entry) option \<times> 'm fs) option" where
  "find_entry P sec i 0 s = Some (None, s)"
| "find_entry P sec i (Suc n) s = do {
     (r, s) \<leftarrow> read_entry sec i s;
     case r of
       None \<Rightarrow> Some (None, s)
     | Some e \<Rightarrow> if P e then Some (Some (i, e), s) else find_entry P sec (Suc i) n s
   }"

definition entry_count :: "int \<Rightarrow> nat" where
  "entry_count len = nat (len sdiv int DIR_ENTRY_SIZE)"

definition search :: "(dir_entry \<Rightarrow> bool) \<Rightarrow> sector \<Rightarrow> 'm fs \<Rightarrow> ((nat \<times> dir_entry) option \<times> 'm fs) option" where
  "search P sec s = do {
     (len, s) \<leftarrow> inode_length sec s;
     find_entry P sec 0 (entry_count len) s
   }"

definition dir_lookup :: "dir \<Rightarrow> byte list \<Rightarrow> 'm fs \<Rightarrow> (sector option \<times> 'm fs) option" where
  "dir_lookup dr name s = do {
     (r, s) \<leftarrow> search (\<lambda>e. name_matches e name) (d_inode_sector dr) s;
     Some (map_option (\<lambda>(i, e). de_sector e) r, s)
   }"

definition dir_add :: "dir \<Rightarrow> byte list \<Rightarrow> sector \<Rightarrow> 'm fs \<Rightarrow> (bool \<times> 'm fs) option" where
  "dir_add dr name sec s = do {
     (dup, s) \<leftarrow> dir_lookup dr name s;
     if dup \<noteq> None then Some (False, s)
     else if length name > NAME_MAX then Some (False, s)
     else do {
       (len, s) \<leftarrow> inode_length (d_inode_sector dr) s;
       (r, s) \<leftarrow> find_entry (\<lambda>e. de_in_use e = 0) (d_inode_sector dr) 0 (entry_count len) s;
       let bytes = entry_to_bytes (make_entry name sec);
       case r of
         Some (i, _) \<Rightarrow> do {
           (_, s) \<leftarrow> write_at (d_inode_sector dr) bytes (int DIR_ENTRY_SIZE) (int (i * DIR_ENTRY_SIZE)) s;
           Some (True, s)
         }
       | None \<Rightarrow> do {
           offset \<leftarrow> mul_i32 (len sdiv int DIR_ENTRY_SIZE) (int DIR_ENTRY_SIZE);
           (n, s) \<leftarrow> write_at (d_inode_sector dr) bytes (int DIR_ENTRY_SIZE) offset s;
           Some (n = int DIR_ENTRY_SIZE, s)
         }
     }
   }"

text \<open>An entry that makes a directory not empty.\<close>

definition real_entry :: "dir_entry \<Rightarrow> bool" where
  "real_entry e \<longleftrightarrow> de_in_use e \<noteq> 0 \<and> valid_utf8 (de_text e) \<and> de_text e \<noteq> [0x2E] \<and> de_text e \<noteq> [0x2E, 0x2E]"

definition dir_is_empty :: "sector \<Rightarrow> 'm fs \<Rightarrow> (bool \<times> 'm fs) option" where
  "dir_is_empty sec s = do { (r, s) \<leftarrow> search real_entry sec s; Some (r = None, s) }"

definition dir_remove :: "dir \<Rightarrow> byte list \<Rightarrow> 'm fs \<Rightarrow> (bool \<times> 'm fs) option" where
  "dir_remove dr name s = do {
     (r, s) \<leftarrow> search (\<lambda>e. name_matches e name) (d_inode_sector dr) s;
     case r of
       None \<Rightarrow> Some (False, s)
     | Some (i, e) \<Rightarrow> do {
         (is_d, s) \<leftarrow> inode_is_dir (de_sector e) s;
         (empty, s) \<leftarrow> (if is_d then dir_is_empty (de_sector e) s else Some (True, s));
         if \<not> empty then Some (False, s)
         else do {
           s \<leftarrow> inode_remove (de_sector e) s;
           (_, s) \<leftarrow> write_at (d_inode_sector dr) (entry_to_bytes (e \<lparr> de_in_use := 0 \<rparr>))
                        (int DIR_ENTRY_SIZE) (int (i * DIR_ENTRY_SIZE)) s;
           Some (True, s)
         }
       }
   }"

definition dir_reopen :: "dir \<Rightarrow> 'm fs \<Rightarrow> (dir \<times> 'm fs) option" where
  "dir_reopen dr s = dir_open (d_inode_sector dr) s"

text \<open>\<open>readdir\<close>: the next name that is not \<open>.\<close> or \<open>..\<close>; a name that is not UTF-8 ends the listing.\<close>

function readdir_loop :: "sector \<Rightarrow> int \<Rightarrow> int \<Rightarrow> 'm fs \<Rightarrow> (byte list option \<times> int \<times> 'm fs) option" where
  "readdir_loop sec len pos s =
     (if pos \<ge> len then Some (None, pos, s)
      else do {
        (n, buf, s) \<leftarrow> read_at sec (replicate DIR_ENTRY_SIZE 0) (int DIR_ENTRY_SIZE) pos s;
        pos' \<leftarrow> add_i32 pos (int DIR_ENTRY_SIZE);
        if n < int DIR_ENTRY_SIZE then Some (None, pos', s)
        else let e = bytes_to_entry buf
             in if de_in_use e \<noteq> 0
                then if \<not> valid_utf8 (de_text e) then Some (None, pos', s)
                     else if de_text e \<noteq> [0x2E] \<and> de_text e \<noteq> [0x2E, 0x2E]
                     then Some (Some (de_text e), pos', s)
                     else readdir_loop sec len pos' s
                else readdir_loop sec len pos' s
      })"
  by pat_completeness auto
termination
  by (relation "measure (\<lambda>(sec, len, pos, s). nat (len - pos))")
    (auto simp: arith_defs DIR_ENTRY_SIZE_def split: if_splits)

declare readdir_loop.simps [simp del]

definition readdir :: "dir \<Rightarrow> 'm fs \<Rightarrow> (byte list option \<times> dir \<times> 'm fs) option" where
  "readdir dr s = do {
     (len, s) \<leftarrow> inode_length (d_inode_sector dr) s;
     (r, pos, s) \<leftarrow> readdir_loop (d_inode_sector dr) len (d_pos dr) s;
     Some (r, dr \<lparr> d_pos := pos \<rparr>, s)
   }"

subsection \<open>File handles\<close>

definition MODE_RDONLY :: int where
  "MODE_RDONLY = 0"

definition MODE_WRONLY :: int where
  "MODE_WRONLY = 1"

definition MODE_RDWR :: int where
  "MODE_RDWR = 2"

record file_handle =
  f_inode_sector :: sector
  f_pos :: int
  f_deny_write :: bool
  f_mode :: int

definition file_open_with_mode :: "sector \<Rightarrow> int \<Rightarrow> 'm fs \<Rightarrow> (file_handle \<times> 'm fs) option" where
  "file_open_with_mode sec mode s = do {
     s \<leftarrow> inode_open sec s;
     Some (\<lparr> f_inode_sector = sec, f_pos = 0, f_deny_write = False, f_mode = mode \<rparr>, s)
   }"

definition file_open :: "sector \<Rightarrow> 'm fs \<Rightarrow> (file_handle \<times> 'm fs) option" where
  "file_open sec s = file_open_with_mode sec MODE_RDWR s"

text \<open>\<open>Drop for File\<close>, which \<open>close_file\<close> triggers.\<close>

definition file_close :: "file_handle \<Rightarrow> 'm fs \<Rightarrow> 'm fs option" where
  "file_close f s = do {
     s \<leftarrow> (if f_deny_write f then inode_allow_write (f_inode_sector f) s else Some s);
     inode_close (f_inode_sector f) s
   }"

definition file_deny_write :: "file_handle \<Rightarrow> 'm fs \<Rightarrow> (file_handle \<times> 'm fs) option" where
  "file_deny_write f s = do {
     s \<leftarrow> inode_deny_write (f_inode_sector f) s;
     Some (f \<lparr> f_deny_write := True \<rparr>, s)
   }"

definition file_read :: "file_handle \<Rightarrow> byte list \<Rightarrow> int \<Rightarrow> 'm fs \<Rightarrow> (int \<times> byte list \<times> file_handle \<times> 'm fs) option" where
  "file_read f buf sz s = do {
     (n, buf, s) \<leftarrow> read_at (f_inode_sector f) buf sz (f_pos f) s;
     p \<leftarrow> add_i32 (f_pos f) n;
     Some (n, buf, f \<lparr> f_pos := p \<rparr>, s)
   }"

definition file_write :: "file_handle \<Rightarrow> byte list \<Rightarrow> int \<Rightarrow> 'm fs \<Rightarrow> (int \<times> file_handle \<times> 'm fs) option" where
  "file_write f buf sz s = do {
     (n, s) \<leftarrow> write_at (f_inode_sector f) buf sz (f_pos f) s;
     p \<leftarrow> add_i32 (f_pos f) n;
     Some (n, f \<lparr> f_pos := p \<rparr>, s)
   }"

definition file_seek :: "int \<Rightarrow> file_handle \<Rightarrow> file_handle" where
  "file_seek p f = f \<lparr> f_pos := p \<rparr>"

definition file_tell :: "file_handle \<Rightarrow> int" where
  "file_tell f = f_pos f"

definition file_length :: "file_handle \<Rightarrow> 'm fs \<Rightarrow> (int \<times> 'm fs) option" where
  "file_length f s = inode_length (f_inode_sector f) s"

end
