(* ===== verification/DirProps.thy ===== *)
theory DirProps
  imports InodeProps Directory
begin

section \<open>Directories are finite maps from names to inodes\<close>

text \<open>
  The abstract value of a directory is the map \<open>dir_map\<close> from names to inode sectors that its
  entries define. \<open>lookup\<close>, \<open>add\<close> and \<open>remove\<close> refine application, update and deletion of that map.
\<close>

lemma name_matches_iff: "name_matches e name \<longleftrightarrow> de_in_use e \<noteq> 0 \<and> de_text e = name"
proof -
  have "take (length (de_text e)) (de_name e) = de_text e"
    unfolding de_text_def using takeWhile_eq_take by metis
  then show ?thesis by (auto simp: name_matches_def Let_def)
qed

text \<open>Entries as \<open>make_entry\<close> builds them and as the disk holds them.\<close>

definition entry_wf :: "dir_entry \<Rightarrow> bool" where
  "entry_wf e \<longleftrightarrow> de_sector e < 2 ^ 32 \<and> length (de_name e) = 15"

lemma length_entry_to_bytes: "entry_wf e \<Longrightarrow> length (entry_to_bytes e) = 20"
  by (simp add: entry_to_bytes_def entry_wf_def)

lemma entry_roundtrip: "entry_wf e \<Longrightarrow> bytes_to_entry (entry_to_bytes e) = e"
  by (cases e) (simp add: entry_to_bytes_def bytes_to_entry_def entry_wf_def nth_append u32_at_append_left)

lemma bytes_to_entry_wf: "length bs = 20 \<Longrightarrow> entry_wf (bytes_to_entry bs)"
  using u32_at_bound by (simp add: bytes_to_entry_def entry_wf_def)

lemma make_entry_wf: "sec < 2 ^ 32 \<Longrightarrow> entry_wf (make_entry name sec)"
  by (simp add: make_entry_def entry_wf_def de_zeroed_def NAME_MAX_def Let_def)

lemma make_entry_fields:
  assumes "length name \<le> NAME_MAX" and "0 \<notin> set name"
  shows "de_in_use (make_entry name sec) = 1" "de_sector (make_entry name sec) = sec"
    "de_text (make_entry name sec) = name"
proof -
  have "drop (length name) (replicate (NAME_MAX + 1) (0 :: byte)) = 0 # replicate (NAME_MAX - length name) 0"
    unfolding drop_replicate using assms(1) by (simp add: Suc_diff_le)
  moreover have "takeWhile (\<lambda>b. b \<noteq> 0) (name @ 0 # xs) = name" for xs
    using assms(2) by (subst takeWhile_append2) auto
  ultimately show "de_text (make_entry name sec) = name"
    using assms(1) by (simp add: make_entry_def de_text_def de_zeroed_def Let_def min_absorb1)
qed (simp_all add: make_entry_def Let_def)

subsection \<open>The entries of a directory\<close>

definition entry_bytes :: "(sector \<Rightarrow> sector_data) \<Rightarrow> sector \<Rightarrow> nat \<Rightarrow> byte list" where
  "entry_bytes v sec i = map (\<lambda>k. file_byte v sec (20 * i + k)) [0..<20]"

definition dir_entries :: "(sector \<Rightarrow> sector_data) \<Rightarrow> sector \<Rightarrow> dir_entry list" where
  "dir_entries v sec = map (\<lambda>i. bytes_to_entry (entry_bytes v sec i)) [0..<file_len v sec div 20]"

definition dir_map :: "(sector \<Rightarrow> sector_data) \<Rightarrow> sector \<Rightarrow> byte list \<rightharpoonup> sector" where
  "dir_map v sec name = map_option de_sector (List.find (\<lambda>e. name_matches e name) (dir_entries v sec))"

text \<open>No name is in use twice.\<close>

definition names_distinct :: "dir_entry list \<Rightarrow> bool" where
  "names_distinct es \<longleftrightarrow> (\<forall>i < length es. \<forall>j < length es.
     de_in_use (es ! i) \<noteq> 0 \<and> de_in_use (es ! j) \<noteq> 0 \<and> de_text (es ! i) = de_text (es ! j) \<longrightarrow> i = j)"

lemma length_dir_entries [simp]: "length (dir_entries v sec) = file_len v sec div 20"
  by (simp add: dir_entries_def)

lemma dir_entries_wf: "e \<in> set (dir_entries v sec) \<Longrightarrow> entry_wf e"
  by (auto simp: dir_entries_def entry_bytes_def intro: bytes_to_entry_wf)

lemma st_read_entry:
  assumes s: "st N (Some I) v u s" and f: "file_ok N I v u sec" and i: "i < file_len v sec div 20"
  shows "\<exists>s'. read_entry sec i s = Some (Some (dir_entries v sec ! i), s') \<and> st N (Some I) v u s'"
proof -
  have len: "20 * i + 20 \<le> file_len v sec" using i by linarith
  have off: "20 * i < 2 ^ 31" "mul_i32 (int i) (int DIR_ENTRY_SIZE) = Some (int (20 * i))"
    using len file_len_max [OF f] by (auto simp: MAX_BYTES_def MAX_BLOCKS_def arith_defs DIR_ENTRY_SIZE_def in_i32_def)
  have "min 20 (file_len v sec - 20 * i) = 20" using len by simp
  with read_at_spec [OF s f _ off(1), of 20 "replicate 20 0"] obtain buf s' where
    r: "read_at sec (replicate 20 0) (int 20) (int (20 * i)) s = Some (int 20, buf, s')" "st N (Some I) v u s'"
      "length buf = 20" "\<forall>k < 20. buf ! k = file_byte v sec (20 * i + k)"
    by auto
  have "buf = entry_bytes v sec i" using r(3,4) by (intro nth_equalityI) (simp_all add: entry_bytes_def)
  with r(1,2) off(2) i show ?thesis by (simp add: read_entry_def DIR_ENTRY_SIZE_def dir_entries_def)
qed

lemma st_find_entry:
  assumes "st N (Some I) v u s" and "file_ok N I v u sec" and "i + n = file_len v sec div 20"
  shows "\<exists>s'. find_entry P sec i n s
      = Some (List.find (\<lambda>p. P (snd p)) (enumerate i (drop i (dir_entries v sec))), s') \<and> st N (Some I) v u s'"
  using assms
proof (induction n arbitrary: i s)
  case (Suc n)
  then have i: "i < file_len v sec div 20" by simp
  from st_read_entry [OF Suc.prems(1,2) i] obtain s1 where
    s1: "read_entry sec i s = Some (Some (dir_entries v sec ! i), s1)" "st N (Some I) v u s1" by blast
  have "drop i (dir_entries v sec) = dir_entries v sec ! i # drop (Suc i) (dir_entries v sec)"
    using i by (simp add: Cons_nth_drop_Suc)
  with Suc.IH [OF s1(2) Suc.prems(2), of "Suc i"] Suc.prems(3) s1 show ?case by auto
qed simp

lemma entry_count_nat: "0 \<le> l \<Longrightarrow> entry_count l = nat l div 20"
  by (simp add: entry_count_def DIR_ENTRY_SIZE_def signed_divide_int_def nat_div_distrib sgn_if)

lemma st_search:
  assumes "st N (Some I) v u s" and "file_ok N I v u sec"
  shows "\<exists>s'. search P sec s = Some (List.find (\<lambda>p. P (snd p)) (enumerate 0 (dir_entries v sec)), s')
    \<and> st N (Some I) v u s'"
proof -
  from st_inode_length [OF assms] obtain s1 where
    s1: "inode_length sec s = Some (length_field (inode_at v sec), s1)" "st N (Some I) v u s1" by blast
  have "entry_count (length_field (inode_at v sec)) = file_len v sec div 20"
    using assms(2) by (simp add: file_ok_def entry_count_nat file_len_def)
  with st_find_entry [OF s1(2) assms(2), of 0] s1(1) show ?thesis by (simp add: search_def)
qed

lemma find_enumerate:
  "map_option snd (List.find (\<lambda>p. P (snd p)) (enumerate n xs)) = List.find P xs"
  by (induction xs arbitrary: n) auto

lemma find_enumerate_None: "List.find (\<lambda>p. P (snd p)) (enumerate n xs) = None \<longleftrightarrow> List.find P xs = None"
  by (subst find_enumerate [symmetric, of P xs n]) simp

lemma find_enumerate_Some:
  "List.find (\<lambda>p. P (snd p)) (enumerate 0 xs) = Some (i, e) \<Longrightarrow> i < length xs \<and> xs ! i = e \<and> P e"
  by (auto simp: find_Some_iff nth_enumerate_eq)

lemma st_dir_lookup:
  assumes "st N (Some I) v u s" and "file_ok N I v u (d_inode_sector dr)"
  shows "\<exists>s'. dir_lookup dr name s = Some (dir_map v (d_inode_sector dr) name, s') \<and> st N (Some I) v u s'"
proof -
  have "map_option (\<lambda>(i, e). de_sector e) r = map_option de_sector (map_option snd r)" for r :: "(nat \<times> dir_entry) option"
    by (cases r) auto
  with st_search [OF assms, of "\<lambda>e. name_matches e name"]
    find_enumerate [of "\<lambda>e. name_matches e name" 0 "dir_entries v (d_inode_sector dr)"]
  show ?thesis by (auto simp: dir_lookup_def dir_map_def)
qed

subsection \<open>Writing an entry\<close>

definition put_entry :: "dir_entry list \<Rightarrow> nat \<Rightarrow> dir_entry \<Rightarrow> dir_entry list" where
  "put_entry es i e = (if i < length es then es[i := e] else es @ [e])"

lemma dir_entries_put:
  assumes e: "entry_wf e" and i: "i \<le> file_len v sec div 20" and n: "20 * i + 20 \<le> MAX_BYTES"
    and len: "file_len v' sec = max (file_len v sec) (20 * i + 20)" and max: "file_len v sec \<le> MAX_BYTES"
    and bts: "\<forall>k < MAX_BYTES. file_byte v' sec k
      = (if 20 * i \<le> k \<and> k < 20 * i + 20 then entry_to_bytes e ! (k - 20 * i) else file_byte v sec k)"
  shows "dir_entries v' sec = put_entry (dir_entries v sec) i e"
proof -
  have count: "file_len v' sec div 20 = (if i < file_len v sec div 20 then file_len v sec div 20 else Suc i)"
    using len i by (simp add: max_def) linarith
  have new: "entry_bytes v' sec i = entry_to_bytes e"
    using bts n e by (intro nth_equalityI) (simp_all add: entry_bytes_def length_entry_to_bytes)
  have old: "entry_bytes v' sec j = entry_bytes v sec j" if "j \<noteq> i" "j < file_len v sec div 20" for j
  proof -
    have "20 * j + 20 \<le> file_len v sec" using that(2) by linarith
    then have "20 * j + k < MAX_BYTES" "\<not> (20 * i \<le> 20 * j + k \<and> 20 * j + k < 20 * i + 20)" if "k < 20" for k
      using that \<open>j \<noteq> i\<close> max by linarith+
    with bts have "file_byte v' sec (20 * j + k) = file_byte v sec (20 * j + k)" if "k < 20" for k
      using that by (auto simp del: not_le)
    then show ?thesis by (simp add: entry_bytes_def)
  qed
  show ?thesis
    using i count new old entry_roundtrip [OF e]
    by (intro nth_equalityI) (auto simp: put_entry_def dir_entries_def nth_list_update nth_append less_Suc_eq)
qed

lemma st_write_entry:
  assumes s: "st N (Some I) v u s" and f: "file_ok N I v u sec" and w: "writable I sec"
    and e: "entry_wf e" and i: "i \<le> file_len v sec div 20" "20 * i + 20 \<le> MAX_BYTES"
  shows "\<exists>m s' v' u' I'. write_at sec (entry_to_bytes e) (int 20) (int (20 * i)) s = Some (int m, s')
    \<and> st N (Some I') v' u' s' \<and> file_ok N I' v' u' sec \<and> (m = 20 \<or> full N u')
    \<and> (m = 20 \<longrightarrow> dir_entries v' sec = put_entry (dir_entries v sec) i e)
    \<and> (\<forall>y. u y \<longrightarrow> u' y) \<and> (\<forall>y. u y \<and> y \<noteq> sec \<and> y \<notin> owned v (inode_at v sec) \<longrightarrow> v' y = v y)
    \<and> (\<exists>l. I' = with_length I sec l)"
proof -
  have "20 \<le> length (entry_to_bytes e)" using length_entry_to_bytes [OF e] by simp
  from write_at_spec [OF s f w this i(2)] obtain m s' v' u' where
    w: "write_at sec (entry_to_bytes e) (int 20) (int (20 * i)) s = Some (int m, s')" "m \<le> 20"
      "st N (Some (with_length I sec (int (max (file_len v sec) (20 * i + m))))) v' u' s'" "m = 20 \<or> full N u'"
      "tree_ok N sec v' u' (inode_at v' sec)" "file_len v' sec = max (file_len v sec) (20 * i + m)"
      "length_field (inode_at v' sec) = int (max (file_len v sec) (20 * i + m))"
      "\<forall>k < MAX_BYTES. file_byte v' sec k
         = (if 20 * i \<le> k \<and> k < 20 * i + m then entry_to_bytes e ! (k - 20 * i) else file_byte v sec k)"
      "\<forall>y. u y \<longrightarrow> u' y" "\<forall>y. u y \<and> y \<noteq> sec \<and> y \<notin> owned v (inode_at v sec) \<longrightarrow> v' y = v y" by blast
  have "file_ok N (with_length I sec (int (max (file_len v sec) (20 * i + m)))) v' u' sec"
    using w(2) i(2) file_len_max [OF f] by (intro file_ok_written [OF w(5,7)]) simp
  moreover have "m = 20 \<longrightarrow> dir_entries v' sec = put_entry (dir_entries v sec) i e"
    using dir_entries_put [OF e i _ file_len_max [OF f]] w(6,8) by simp
  ultimately show ?thesis using w by blast
qed

text \<open>Lookups in a list of entries with one entry replaced or appended.\<close>

lemma put_entry_simps [simp]:
  "put_entry [] i e = [e]" "put_entry (a # es) 0 e = e # es" "put_entry (a # es) (Suc j) e = a # put_entry es j e"
  by (simp_all add: put_entry_def)

lemma find_put_other:
  "(i < length es \<Longrightarrow> \<not> P (es ! i)) \<Longrightarrow> \<not> P e \<Longrightarrow> List.find P (put_entry es i e) = List.find P es"
proof (induction es arbitrary: i)
  case (Cons a es)
  then show ?case by (cases i) auto
qed simp

lemma find_put_new:
  "\<forall>x \<in> set es. \<not> P x \<Longrightarrow> P e \<Longrightarrow> List.find P (put_entry es i e) = Some e"
proof (induction es arbitrary: i)
  case (Cons a es)
  then show ?case by (cases i) auto
qed simp

lemma names_distinct_put:
  assumes "names_distinct es" and "i \<le> length es"
    and "de_in_use e \<noteq> 0 \<Longrightarrow> \<forall>x \<in> set es. \<not> (de_in_use x \<noteq> 0 \<and> de_text x = de_text e)"
  shows "names_distinct (put_entry es i e)"
proof -
  have nth: "put_entry es i e ! j = (if j = i then e else es ! j) \<and> (j = i \<or> j < length es)"
    if "j < length (put_entry es i e)" for j
    using that assms(2) by (auto simp: put_entry_def nth_list_update nth_append split: if_splits)
  show ?thesis unfolding names_distinct_def
  proof (intro allI impI)
    fix j k assume jk: "j < length (put_entry es i e)" "k < length (put_entry es i e)"
      and same: "de_in_use (put_entry es i e ! j) \<noteq> 0 \<and> de_in_use (put_entry es i e ! k) \<noteq> 0
        \<and> de_text (put_entry es i e ! j) = de_text (put_entry es i e ! k)"
    show "j = k"
    proof (cases "j = i \<or> k = i")
      case True
      with nth [OF jk(1)] nth [OF jk(2)] same assms(3) nth_mem show ?thesis by (metis (no_types, lifting))
    next
      case False
      with nth [OF jk(1)] nth [OF jk(2)] same assms(1) show ?thesis unfolding names_distinct_def by metis
    qed
  qed
qed


subsection \<open>Adding and removing names\<close>

lemma dir_map_None: "dir_map v sec name = None \<longleftrightarrow> (\<forall>e \<in> set (dir_entries v sec). \<not> name_matches e name)"
  by (auto simp: dir_map_def find_None_iff)

lemma dir_map_add:
  assumes new: "dir_map v sec name = None" and name: "length name \<le> NAME_MAX" "0 \<notin> set name"
    and i: "i \<le> length (dir_entries v sec)"
      "i < length (dir_entries v sec) \<Longrightarrow> de_in_use (dir_entries v sec ! i) = 0"
    and es: "dir_entries v' sec = put_entry (dir_entries v sec) i (make_entry name x)"
    and dist: "names_distinct (dir_entries v sec)"
  shows "dir_map v' sec = (dir_map v sec)(name \<mapsto> x)" and "names_distinct (dir_entries v' sec)"
proof -
  note e = make_entry_fields [OF name, of x]
  show "dir_map v' sec = (dir_map v sec)(name \<mapsto> x)"
  proof
    fix n
    show "dir_map v' sec n = ((dir_map v sec)(name \<mapsto> x)) n"
    proof (cases "n = name")
      case True
      with new e show ?thesis unfolding dir_map_def [of v'] es dir_map_None
        by (subst find_put_new) (simp_all add: name_matches_iff)
    next
      case False
      with i(2) e show ?thesis unfolding dir_map_def [of v'] es
        by (subst find_put_other) (simp_all add: name_matches_iff dir_map_def)
    qed
  qed
  show "names_distinct (dir_entries v' sec)"
    unfolding es using new e by (intro names_distinct_put [OF dist i(1)]) (simp add: dir_map_None name_matches_iff)
qed

lemma st_dir_add:
  assumes s: "st N (Some I) v u s" and f: "file_ok N I v u sec" and w: "writable I sec" and sec: "d_inode_sector dr = sec"
    and room: "file_len v sec + 20 \<le> MAX_BYTES" and name: "0 \<notin> set name" and x: "x < 2 ^ 32"
    and dist: "names_distinct (dir_entries v sec)"
  shows "\<exists>r s' v' u' I'. dir_add dr name x s = Some (r, s') \<and> st N (Some I') v' u' s' \<and> file_ok N I' v' u' sec
    \<and> (full N u' \<or> (r \<longleftrightarrow> dir_map v sec name = None \<and> length name \<le> NAME_MAX)
         \<and> dir_map v' sec = (if r then (dir_map v sec)(name \<mapsto> x) else dir_map v sec)
         \<and> names_distinct (dir_entries v' sec))
    \<and> (\<forall>y. u y \<longrightarrow> u' y) \<and> (\<forall>y. u y \<and> y \<noteq> sec \<and> y \<notin> owned v (inode_at v sec) \<longrightarrow> v' y = v y)
    \<and> (I' = I \<or> (\<exists>l. I' = with_length I sec l)) \<and> (r \<or> full N u' \<or> v' = v \<and> u' = u)"
proof -
  from st_dir_lookup [OF s, of dr name] f sec obtain s1 where
    s1: "dir_lookup dr name s = Some (dir_map v sec name, s1)" "st N (Some I) v u s1" by auto
  show ?thesis
  proof (cases "dir_map v sec name = None \<and> length name \<le> NAME_MAX")
    case False
    with s1 have "dir_add dr name x s = Some (False, s1)" by (auto simp: dir_add_def)
    with False s1(2) f dist show ?thesis
      by (intro exI [of _ False] exI [of _ s1] exI [of _ v] exI [of _ u] exI [of _ I]) auto
  next
    case True
    let ?len = "length_field (inode_at v sec)" and ?es = "dir_entries v sec" and ?e = "make_entry name x"
    from st_inode_length [OF s1(2) f] obtain s2 where
      s2: "inode_length sec s1 = Some (?len, s2)" "st N (Some I) v u s2" by blast
    have cnt: "entry_count ?len = file_len v sec div 20"
      using f by (simp add: file_ok_def entry_count_nat file_len_def)
    from st_find_entry [OF s2(2) f, of 0 "file_len v sec div 20" "\<lambda>e. de_in_use e = 0"] obtain r s3 where
      s3: "find_entry (\<lambda>e. de_in_use e = 0) sec 0 (entry_count ?len) s2 = Some (r, s3)" "st N (Some I) v u s3"
      and r: "r = List.find (\<lambda>p. de_in_use (snd p) = 0) (enumerate 0 ?es)" unfolding cnt by auto
    define i where "i = (case r of Some (i, _) \<Rightarrow> i | None \<Rightarrow> file_len v sec div 20)"
    have i: "i \<le> file_len v sec div 20" "i < length ?es \<Longrightarrow> de_in_use (?es ! i) = 0"
      using find_enumerate_Some [of "\<lambda>e. de_in_use e = 0" ?es] unfolding i_def r
      by (auto split: option.splits prod.splits)
    have off: "20 * i + 20 \<le> MAX_BYTES" using i(1) room by linarith
    from st_write_entry [OF s3(2) f w make_entry_wf [OF x] i(1) off, of name] obtain m s4 v' u' I' where
      w: "write_at sec (entry_to_bytes ?e) (int 20) (int (20 * i)) s3 = Some (int m, s4)"
        "st N (Some I') v' u' s4" "file_ok N I' v' u' sec" "m = 20 \<or> full N u'"
        "m = 20 \<longrightarrow> dir_entries v' sec = put_entry ?es i ?e"
        "\<forall>y. u y \<longrightarrow> u' y" "\<forall>y. u y \<and> y \<noteq> sec \<and> y \<notin> owned v (inode_at v sec) \<longrightarrow> v' y = v y"
        "\<exists>l. I' = with_length I sec l" by blast
    have pos: "mul_i32 (?len sdiv 20) 20 = Some (int (20 * (file_len v sec div 20)))"
      using f room by (auto simp: file_ok_def file_len_def arith_defs in_i32_def MAX_BYTES_def MAX_BLOCKS_def
        signed_divide_int_def sgn_if nat_div_distrib)
    have "dir_add dr name x s = Some (r \<noteq> None \<or> m = 20, s4)"
      using s1(1) True s2(1) s3(1) w(1) pos sec unfolding dir_add_def i_def
      by (cases r) (auto simp: DIR_ENTRY_SIZE_def Let_def mult.commute)
    moreover have "m = 20 \<Longrightarrow> dir_map v' sec = (dir_map v sec)(name \<mapsto> x) \<and> names_distinct (dir_entries v' sec)"
      using dir_map_add [OF _ _ name _ _ _ dist, of i v' x] True i w(5) by simp
    ultimately show ?thesis using w(2-4,6-8) True
      by (intro exI [of _ "r \<noteq> None \<or> m = 20"] exI [of _ s4] exI [of _ v'] exI [of _ u'] exI [of _ I']) auto
  qed
qed


definition is_dir_at :: "(sector \<rightharpoonup> inode) \<Rightarrow> (sector \<Rightarrow> sector_data) \<Rightarrow> sector \<Rightarrow> bool" where
  "is_dir_at I v t = (case I t of Some e \<Rightarrow> i_is_dir e | None \<Rightarrow> is_dir_byte (inode_at v t) \<noteq> 0)"

lemma st_inode_is_dir:
  "st N (Some I) v u s \<Longrightarrow> t < N \<Longrightarrow> \<exists>s'. inode_is_dir t s = Some (is_dir_at I v t, s') \<and> st N (Some I) v u s'"
  using st_open_inodes [of N "Some I" v u s] st_read_inode [of N "Some I" v u s t]
  by (cases "I t") (auto simp: inode_is_dir_def is_dir_at_def)

definition mark_removed :: "(sector \<rightharpoonup> inode) \<Rightarrow> sector \<Rightarrow> (sector \<rightharpoonup> inode)" where
  "mark_removed I t = (case I t of None \<Rightarrow> I | Some e \<Rightarrow> I(t \<mapsto> e \<lparr> removed := True \<rparr>))"

lemma st_inode_remove:
  "st N (Some I) v u s \<Longrightarrow> \<exists>s'. inode_remove t s = Some s' \<and> st N (Some (mark_removed I t)) v u s'"
  using st_open_inodes [of N "Some I" v u s] st_set_open [of N "Some I" v u s]
  by (cases "I t") (auto simp: inode_remove_def mark_removed_def)

lemma mark_removed_keeps:
  "file_ok N I v u sec \<Longrightarrow> file_ok N (mark_removed I t) v u sec"
  "writable I sec \<Longrightarrow> writable (mark_removed I t) sec"
  by (auto simp: file_ok_def writable_def mark_removed_def split: option.splits)

lemma dir_map_remove:
  assumes i: "i < length (dir_entries v sec)" "name_matches (dir_entries v sec ! i) name"
    and es: "dir_entries v' sec = put_entry (dir_entries v sec) i ((dir_entries v sec ! i) \<lparr> de_in_use := 0 \<rparr>)"
    and dist: "names_distinct (dir_entries v sec)"
  shows "dir_map v' sec = (dir_map v sec)(name := None)" and "names_distinct (dir_entries v' sec)"
proof -
  let ?es = "dir_entries v sec"
  have others: "\<not> name_matches (?es ! j) name" if "j < length ?es" "j \<noteq> i" for j
    using dist i that unfolding names_distinct_def name_matches_iff by blast
  show "dir_map v' sec = (dir_map v sec)(name := None)"
  proof
    fix n
    show "dir_map v' sec n = ((dir_map v sec)(name := None)) n"
    proof (cases "n = name")
      case True
      have "\<not> name_matches (dir_entries v' sec ! j) name" if "j < length ?es" for j
        using that i(1) others [of j] unfolding es
        by (cases "j = i") (simp_all add: put_entry_def name_matches_iff)
      then have "\<not> name_matches e name" if "e \<in> set (dir_entries v' sec)" for e
        using that i(1) unfolding in_set_conv_nth es by (auto simp: put_entry_def)
      with True show ?thesis using dir_map_None by simp
    next
      case False
      with i show ?thesis unfolding dir_map_def [of v'] es
        by (subst find_put_other) (simp_all add: name_matches_iff dir_map_def)
    qed
  qed
  show "names_distinct (dir_entries v' sec)"
    unfolding es using i(1) by (intro names_distinct_put [OF dist]) simp_all
qed

text \<open>What \<open>remove\<close> relies on: the entries of the directory point to sectors of the disk, and those
  that are directories are well formed.\<close>

definition targets_ok :: "nat \<Rightarrow> (sector \<rightharpoonup> inode) \<Rightarrow> (sector \<Rightarrow> sector_data) \<Rightarrow> (sector \<Rightarrow> bool) \<Rightarrow> sector \<Rightarrow> bool" where
  "targets_ok N I v u sec \<longleftrightarrow> (\<forall>e \<in> set (dir_entries v sec). de_in_use e \<noteq> 0 \<longrightarrow> de_sector e < N
     \<and> (is_dir_at I v (de_sector e) \<longrightarrow> file_ok N I v u (de_sector e)))"

definition removable :: "(sector \<rightharpoonup> inode) \<Rightarrow> (sector \<Rightarrow> sector_data) \<Rightarrow> sector \<Rightarrow> bool" where
  "removable I v t \<longleftrightarrow> (is_dir_at I v t \<longrightarrow> (\<forall>e \<in> set (dir_entries v t). \<not> real_entry e))"

lemma st_emptiness:
  assumes s: "st N (Some I) v u s" and t: "t < N" "is_dir_at I v t \<Longrightarrow> file_ok N I v u t"
  shows "\<exists>s'. (do { (is_d, s) \<leftarrow> inode_is_dir t s; if is_d then dir_is_empty t s else Some (True, s) })
      = Some (removable I v t, s') \<and> st N (Some I) v u s'"
proof -
  from st_inode_is_dir [OF s t(1)] obtain s1 where
    s1: "inode_is_dir t s = Some (is_dir_at I v t, s1)" "st N (Some I) v u s1" by blast
  show ?thesis
  proof (cases "is_dir_at I v t")
    case True
    from st_search [OF s1(2) t(2) [OF True], of real_entry] obtain s2 where
      "search real_entry t s1 = Some (List.find (\<lambda>p. real_entry (snd p)) (enumerate 0 (dir_entries v t)), s2)"
      "st N (Some I) v u s2" by blast
    moreover have "(List.find (\<lambda>p. real_entry (snd p)) (enumerate 0 (dir_entries v t)) = None) = removable I v t"
      using True unfolding find_enumerate_None removable_def by (auto simp: find_None_iff)
    ultimately show ?thesis using s1 True by (simp add: dir_is_empty_def)
  qed (use s1 in \<open>auto simp: removable_def\<close>)
qed


subsection \<open>Properties\<close>

text \<open>C7: \<open>Dir::add\<close> refines the update of a finite map, and \<open>Dir::lookup\<close> its application. On a
  well-formed directory with room for one more entry, \<open>add\<close> returns, and unless no sector is left
  it answers true exactly for a new name of at most 14 bytes; the directory then maps that name to
  the given inode and every other name as before, and no name is in use twice. A lookup in the
  state it leaves answers what that map answers.\<close>

theorem dir_add_refines:
  assumes "st N (Some I) v u s" and "file_ok N I v u sec" and "writable I sec" and "d_inode_sector dr = sec"
    and "file_len v sec + 20 \<le> MAX_BYTES" and "0 \<notin> set name" and "x < 2 ^ 32"
    and "names_distinct (dir_entries v sec)"
  shows "\<exists>r s' v' u' I'. dir_add dr name x s = Some (r, s') \<and> st N (Some I') v' u' s' \<and> file_ok N I' v' u' sec
    \<and> (\<forall>y. u y \<and> y \<noteq> sec \<and> y \<notin> owned v (inode_at v sec) \<longrightarrow> v' y = v y)
    \<and> (\<forall>n. \<exists>s''. dir_lookup dr n s' = Some (dir_map v' sec n, s''))
    \<and> (full N u' \<or> (r \<longleftrightarrow> dir_map v sec name = None \<and> length name \<le> NAME_MAX)
         \<and> dir_map v' sec = (if r then (dir_map v sec)(name \<mapsto> x) else dir_map v sec)
         \<and> names_distinct (dir_entries v' sec))"
proof -
  from st_dir_add [OF assms] obtain r s' v' u' I' where
    a: "dir_add dr name x s = Some (r, s')" "st N (Some I') v' u' s'" "file_ok N I' v' u' sec"
      "full N u' \<or> (r \<longleftrightarrow> dir_map v sec name = None \<and> length name \<le> NAME_MAX)
         \<and> dir_map v' sec = (if r then (dir_map v sec)(name \<mapsto> x) else dir_map v sec)
         \<and> names_distinct (dir_entries v' sec)"
      "\<forall>y. u y \<and> y \<noteq> sec \<and> y \<notin> owned v (inode_at v sec) \<longrightarrow> v' y = v y" by blast
  then have "\<forall>n. \<exists>s''. dir_lookup dr n s' = Some (dir_map v' sec n, s'')"
    using st_dir_lookup [OF a(2), of dr] assms(4) by fast
  with a show ?thesis by blast
qed

lemma sample_entries: "dir_entries sample_view 5 = []"
  by (simp add: dir_entries_def sample_len)

theorem dir_add_refines_witness:
  "\<exists>r s' v' u' I'. dir_add \<lparr> d_inode_sector = 5, d_pos = 0 \<rparr> [0x61] 9 sample_fs = Some (r, s')
    \<and> st 64 (Some I') v' u' s' \<and> file_ok 64 I' v' u' 5
    \<and> (\<forall>y. sample_used y \<and> y \<noteq> 5 \<and> y \<notin> owned sample_view (inode_at sample_view 5) \<longrightarrow> v' y = sample_view y)
    \<and> (\<forall>n. \<exists>s''. dir_lookup \<lparr> d_inode_sector = 5, d_pos = 0 \<rparr> n s' = Some (dir_map v' 5 n, s''))
    \<and> (full 64 u' \<or> (r \<longleftrightarrow> dir_map sample_view 5 [0x61] = None \<and> length [0x61 :: byte] \<le> NAME_MAX)
         \<and> dir_map v' 5 = (if r then (dir_map sample_view 5)([0x61] \<mapsto> 9) else dir_map sample_view 5)
         \<and> names_distinct (dir_entries v' 5))"
  by (rule dir_add_refines [OF sample_st sample_file])
    (simp_all add: writable_def sample_len MAX_BYTES_def MAX_BLOCKS_def names_distinct_def)



end
