(* ===== verification/FileSys.thy ===== *)
theory FileSys
  imports Directory
begin

section \<open>Paths and the operations on the file system: filesys/filesys.rs\<close>

text \<open>
  Path resolution, the operations on paths, mounting and formatting, and the part of
  filesys/free_map.rs that keeps the free map on disk as the file of inode 0. The working
  directory of the running thread is the argument \<open>cwd\<close>. A \<open>Dir\<close> that goes out of scope is closed
  where the code closes or drops it.
\<close>

subsection \<open>The free map on disk\<close>

definition fm_flush :: "'m fs \<Rightarrow> 'm fs option" where
  "fm_flush s =
     (if IN_FLUSH (fs_map s) then Some s
      else do {
        let s = s \<lparr> fs_map := (fs_map s) \<lparr> IN_FLUSH := True \<rparr> \<rparr>;
        bm \<leftarrow> FREE_MAP (fs_map s);
        (_, s) \<leftarrow> write_at FREE_MAP_SECTOR bm (as_i32 (int (length bm))) 0 s;
        Some (s \<lparr> fs_map := (fs_map s) \<lparr> IN_FLUSH := False \<rparr> \<rparr>)
      })"

definition flush_if_safe :: "'m fs \<Rightarrow> 'm fs option" where
  "flush_if_safe s = fm_flush s"

definition fm_create :: "'m fs \<Rightarrow> 'm fs option" where
  "fm_create s = do {
     bm \<leftarrow> FREE_MAP (fs_map s);
     (_, s) \<leftarrow> inode_create FREE_MAP_SECTOR (as_i32 (int (length bm))) False s;
     fm_flush s
   }"

definition fm_open :: "'m fs \<Rightarrow> 'm fs option" where
  "fm_open s = do {
     s \<leftarrow> inode_open FREE_MAP_SECTOR s;
     bm \<leftarrow> FREE_MAP (fs_map s);
     (n, data, s) \<leftarrow> read_at FREE_MAP_SECTOR (replicate (length bm) 0) (as_i32 (int (length bm))) 0 s;
     if n > 0
     then do {
       bm \<leftarrow> FREE_MAP (fs_map s);
       let copy_len = min (nat n) (length bm);
       Some (s \<lparr> fs_map := (fs_map s) \<lparr> FREE_MAP := Some (take copy_len data @ drop copy_len bm) \<rparr> \<rparr>)
     }
     else Some s
   }"

definition fm_close :: "'m fs \<Rightarrow> 'm fs option" where
  "fm_close s = do { s \<leftarrow> fm_flush s; inode_close FREE_MAP_SECTOR s }"

subsection \<open>Paths\<close>

definition SLASH :: byte where
  "SLASH = 0x2F"

text \<open>\<open>path.split('/')\<close>, and the components that are not empty.\<close>

fun split_on :: "byte \<Rightarrow> byte list \<Rightarrow> byte list list" where
  "split_on c [] = [[]]"
| "split_on c (b # bs) =
     (if b = c then [] # split_on c bs
      else case split_on c bs of [] \<Rightarrow> [[b]] | p # ps \<Rightarrow> (b # p) # ps)"

definition path_parts :: "byte list \<Rightarrow> byte list list" where
  "path_parts path = filter (\<lambda>p. p \<noteq> []) (split_on SLASH path)"

text \<open>The traversal of all components but the last.\<close>

primrec traverse :: "byte list list \<Rightarrow> dir \<Rightarrow> 'm fs \<Rightarrow> (dir option \<times> 'm fs) option" where
  "traverse [] dr s = Some (Some dr, s)"
| "traverse (part # parts) dr s = do {
     (r, s) \<leftarrow> dir_lookup dr part s;
     case r of
       None \<Rightarrow> do { s \<leftarrow> dir_close dr s; Some (None, s) }
     | Some sec \<Rightarrow> do {
         (is_d, s) \<leftarrow> inode_is_dir sec s;
         s \<leftarrow> dir_close dr s;
         if \<not> is_d then Some (None, s)
         else do { (sub, s) \<leftarrow> dir_open sec s; traverse parts sub s }
       }
   }"

definition resolve_path :: "byte list \<Rightarrow> sector \<Rightarrow> 'm fs \<Rightarrow> ((dir \<times> byte list) option \<times> 'm fs) option" where
  "resolve_path path cwd s =
     (if path = [] then Some (None, s)
      else do {
        (dr, s) \<leftarrow> (if hd path = SLASH then dir_open_root s else dir_open cwd s);
        let parts = path_parts path;
        if parts = [] then Some (Some (dr, []), s)
        else do {
          (r, s) \<leftarrow> traverse (butlast parts) dr s;
          Some (map_option (\<lambda>dr. (dr, last parts)) r, s)
        }
      })"

subsection \<open>Operations on paths\<close>

text \<open>The head of the operations: resolve the path; an unresolvable path and an empty leaf name fail.
  \<open>k\<close> is the rest of the operation on the parent and the leaf name.\<close>

definition with_parent :: "byte list \<Rightarrow> sector \<Rightarrow> (dir \<Rightarrow> byte list \<Rightarrow> 'm fs \<Rightarrow> (bool \<times> 'm fs) option)
    \<Rightarrow> 'm fs \<Rightarrow> (bool \<times> 'm fs) option" where
  "with_parent path cwd k s = do {
     (r, s) \<leftarrow> resolve_path path cwd s;
     case r of
       None \<Rightarrow> Some (False, s)
     | Some (parent, name) \<Rightarrow>
         if name = [] then do { s \<leftarrow> dir_close parent s; Some (False, s) } else k parent name s
   }"

text \<open>The undoing of a creation whose directory entry could not be added.\<close>

definition undo_create :: "sector \<Rightarrow> 'm fs \<Rightarrow> 'm fs option" where
  "undo_create sec s = do {
     s \<leftarrow> inode_remove sec s;
     s \<leftarrow> inode_close sec s;
     fs_release sec s
   }"

definition create_in :: "int \<Rightarrow> dir \<Rightarrow> byte list \<Rightarrow> 'm fs \<Rightarrow> (bool \<times> 'm fs) option" where
  "create_in initial_size parent name s = do {
     (r, s) \<leftarrow> fs_allocate s;
     case r of
       None \<Rightarrow> do { s \<leftarrow> dir_close parent s; Some (False, s) }
     | Some sec \<Rightarrow> do {
         (ok, s) \<leftarrow> inode_create sec initial_size False s;
         if \<not> ok
         then do { s \<leftarrow> fs_release sec s; s \<leftarrow> dir_close parent s; Some (False, s) }
         else do {
           (ok, s) \<leftarrow> dir_add parent name sec s;
           s \<leftarrow> dir_close parent s;
           if \<not> ok then do { s \<leftarrow> undo_create sec s; Some (False, s) } else Some (True, s)
         }
       }
   }"

definition create :: "byte list \<Rightarrow> int \<Rightarrow> sector \<Rightarrow> 'm fs \<Rightarrow> (bool \<times> 'm fs) option" where
  "create path initial_size cwd s = with_parent path cwd (create_in initial_size) s"

definition fs_open :: "byte list \<Rightarrow> sector \<Rightarrow> 'm fs \<Rightarrow> (file_handle option \<times> 'm fs) option" where
  "fs_open path cwd s = do {
     (r, s) \<leftarrow> resolve_path path cwd s;
     case r of
       None \<Rightarrow> Some (None, s)
     | Some (parent, name) \<Rightarrow>
         if name = [] then do { s \<leftarrow> dir_close parent s; Some (None, s) }
         else do {
           (sec, s) \<leftarrow> dir_lookup parent name s;
           s \<leftarrow> dir_close parent s;
           case sec of
             None \<Rightarrow> Some (None, s)
           | Some sec \<Rightarrow> do { (f, s) \<leftarrow> file_open sec s; Some (Some f, s) }
         }
   }"

definition remove_in :: "dir \<Rightarrow> byte list \<Rightarrow> 'm fs \<Rightarrow> (bool \<times> 'm fs) option" where
  "remove_in parent name s = do {
     (ok, s) \<leftarrow> dir_remove parent name s;
     s \<leftarrow> dir_close parent s;
     Some (ok, s)
   }"

definition fs_remove :: "byte list \<Rightarrow> sector \<Rightarrow> 'm fs \<Rightarrow> (bool \<times> 'm fs) option" where
  "fs_remove path cwd s = with_parent path cwd remove_in s"

definition mkdir_in :: "dir \<Rightarrow> byte list \<Rightarrow> 'm fs \<Rightarrow> (bool \<times> 'm fs) option" where
  "mkdir_in parent name s = do {
     (r, s) \<leftarrow> fs_allocate s;
     case r of
       None \<Rightarrow> do { s \<leftarrow> dir_close parent s; Some (False, s) }
     | Some sec \<Rightarrow> do {
         (ok, s) \<leftarrow> dir_create sec (d_inode_sector parent) s;
         if \<not> ok
         then do { s \<leftarrow> fs_release sec s; s \<leftarrow> dir_close parent s; Some (False, s) }
         else do {
           (ok, s) \<leftarrow> dir_add parent name sec s;
           if \<not> ok
           then do { s \<leftarrow> undo_create sec s; s \<leftarrow> dir_close parent s; Some (False, s) }
           else do { s \<leftarrow> dir_close parent s; Some (True, s) }
         }
       }
   }"

definition mkdir :: "byte list \<Rightarrow> sector \<Rightarrow> 'm fs \<Rightarrow> (bool \<times> 'm fs) option" where
  "mkdir path cwd s = with_parent path cwd mkdir_in s"

definition link_in :: "sector \<Rightarrow> dir \<Rightarrow> byte list \<Rightarrow> 'm fs \<Rightarrow> (bool \<times> 'm fs) option" where
  "link_in sec new_parent new_name s = do {
     s \<leftarrow> inode_open sec s;
     (ok, s) \<leftarrow> dir_add new_parent new_name sec s;
     s \<leftarrow> dir_close new_parent s;
     if \<not> ok then do { s \<leftarrow> inode_close sec s; Some (False, s) } else Some (True, s)
   }"

definition link :: "byte list \<Rightarrow> byte list \<Rightarrow> sector \<Rightarrow> 'm fs \<Rightarrow> (bool \<times> 'm fs) option" where
  "link old_path new_path cwd s = with_parent old_path cwd (\<lambda>parent name s. do {
     (r, s) \<leftarrow> dir_lookup parent name s;
     s \<leftarrow> dir_close parent s;
     case r of
       None \<Rightarrow> Some (False, s)
     | Some sec \<Rightarrow> do {
         (is_d, s) \<leftarrow> inode_is_dir sec s;
         if is_d then Some (False, s) else with_parent new_path cwd (link_in sec) s
       }
   }) s"

subsection \<open>Mounting and formatting\<close>

definition fs_map_init :: "'m fs \<Rightarrow> 'm fs option" where
  "fs_map_init s = do {
     dev \<leftarrow> get_role FileSys (reg (fs_bio s));
     i \<leftarrow> dev;
     fm \<leftarrow> fm_init (dev_size (devices (reg (fs_bio s)) ! i)) (fs_map s);
     Some (s \<lparr> fs_map := fm \<rparr>)
   }"

definition do_format :: "'m fs \<Rightarrow> 'm fs option" where
  "do_format s = do {
     s \<leftarrow> fm_create s;
     (_, s) \<leftarrow> dir_create ROOT_DIR_SECTOR ROOT_DIR_SECTOR s;
     s \<leftarrow> fm_close s;
     s \<leftarrow> fs_map_init s;
     fm_open s
   }"

definition filesys_init :: "bool \<Rightarrow> 'm fs \<Rightarrow> 'm fs option" where
  "filesys_init format s = do {
     s \<leftarrow> fs_map_init (inode_init s);
     if format then do_format s else fm_open s
   }"

end
