(* ===== verification/FsProps.thy ===== *)
theory FsProps
  imports InodeLife DirProps FileSys
begin

section \<open>Creating files by path\<close>

text \<open>
  The operations of the layers composed: \<open>create\<close> allocates a sector, makes an inode in it and adds
  its name to the parent directory.
\<close>

text \<open>A directory does not change when its file does not.\<close>

lemma dir_frame:
  assumes "file_ok N I v u sec" and "inode_at v' sec = inode_at v sec"
    and "\<And>k. k < MAX_BYTES \<Longrightarrow> file_byte v' sec k = file_byte v sec k"
  shows "dir_entries v' sec = dir_entries v sec" "file_len v' sec = file_len v sec"
proof -
  show len: "file_len v' sec = file_len v sec" using assms(2) by (simp add: file_len_def)
  have "entry_bytes v' sec i = entry_bytes v sec i" if "i < file_len v sec div 20" for i
  proof -
    have "20 * i + k < MAX_BYTES" if "k < 20" for k
      using that \<open>i < file_len v sec div 20\<close> file_len_max [OF assms(1)] by linarith
    then show ?thesis using assms(3) by (simp add: entry_bytes_def)
  qed
  then show "dir_entries v' sec = dir_entries v sec" unfolding dir_entries_def len by simp
qed

text \<open>Closing a handle of an inode that is not marked as removed.\<close>

definition closed :: "(sector \<rightharpoonup> inode) \<Rightarrow> sector \<Rightarrow> (sector \<rightharpoonup> inode)" where
  "closed I sec = (case I sec of None \<Rightarrow> I
     | Some e \<Rightarrow> if open_cnt e \<le> 1 then I(sec := None) else I(sec \<mapsto> e \<lparr> open_cnt := open_cnt e - 1 \<rparr>))"

definition live :: "(sector \<rightharpoonup> inode) \<Rightarrow> sector \<Rightarrow> bool" where
  "live I sec \<longleftrightarrow> (\<forall>e. I sec = Some e \<longrightarrow> \<not> removed e \<and> 0 < open_cnt e \<and> in_i32 (open_cnt e))"

lemma st_close_live:
  assumes "st N (Some I) v u s" and "live I sec"
  shows "\<exists>s'. inode_close sec s = Some s' \<and> st N (Some (closed I sec)) v u s'"
proof (cases "I sec")
  case (Some e)
  then have e: "\<not> removed e" "sub_i32 (open_cnt e) 1 = Some (open_cnt e - 1)"
    using assms(2) by (auto simp: live_def arith_defs in_i32_def)
  show ?thesis using Some e st_open_inodes [OF assms(1)] st_set_open [OF assms(1)]
    by (auto simp: inode_close_def closed_def Let_def)
qed (use assms st_open_inodes [OF assms(1)] in \<open>auto simp: inode_close_def closed_def\<close>)

lemma closed_keeps: "file_ok N I v u sec2 \<Longrightarrow> file_ok N (closed I sec) v u sec2"
  by (auto simp: file_ok_def closed_def split: option.splits if_splits)

lemma closed_None: "I x = None \<Longrightarrow> closed I sec x = None"
  by (auto simp: closed_def split: option.splits)


lemma relen_keeps:
  assumes "I' = I \<or> (\<exists>l. I' = with_length I sec l)"
  shows "live I sec2 \<Longrightarrow> live I' sec2" and "I x = None \<Longrightarrow> I' x = None"
  using assms by (auto simp: live_def with_length_def split: option.splits if_splits)

text \<open>At most one sector can still be allocated.\<close>

definition nearly_full :: "nat \<Rightarrow> (sector \<Rightarrow> bool) \<Rightarrow> bool" where
  "nearly_full N u \<longleftrightarrow> card {y. 2 \<le> y \<and> y < N \<and> \<not> u y} \<le> 1"

lemma full_nearly: "full N u \<Longrightarrow> nearly_full N u"
proof -
  assume "full N u"
  then have "{y. 2 \<le> y \<and> y < N \<and> \<not> u y} = {}" by (auto simp: full_def)
  then have "card {y. 2 \<le> y \<and> y < N \<and> \<not> u y} = 0" by (simp only: card.empty)
  then show ?thesis unfolding nearly_full_def by linarith
qed

lemma full_release: "full N u \<Longrightarrow> nearly_full N (u(x := False))"
proof -
  assume "full N u"
  then have "{y. 2 \<le> y \<and> y < N \<and> \<not> (u(x := False)) y} \<subseteq> {x}" by (auto simp: full_def split: if_splits)
  then show ?thesis unfolding nearly_full_def using card_mono [of "{x}"] by fastforce
qed

text \<open>A state of the directory \<open>p\<close> in which a name can be added: it is well formed, open and writable.\<close>

definition parent_ok :: "nat \<Rightarrow> (sector \<rightharpoonup> inode) \<Rightarrow> (sector \<Rightarrow> sector_data) \<Rightarrow> (sector \<Rightarrow> bool) \<Rightarrow> sector \<Rightarrow> bool" where
  "parent_ok N I v u p \<longleftrightarrow> file_ok N I v u p \<and> writable I p \<and> live I p
     \<and> file_len v p + 20 \<le> MAX_BYTES \<and> names_distinct (dir_entries v p)"

lemma parent_frame:
  assumes "parent_ok N I v u p" and "\<forall>y. u y \<longrightarrow> v' y = v y" and "\<forall>y. u y \<longrightarrow> u' y"
  shows "parent_ok N I v' u' p" "dir_map v' p = dir_map v p" "owned v' (inode_at v' p) = owned v (inode_at v p)"
proof -
  have f: "file_ok N I v u p" using assms(1) by (simp add: parent_ok_def)
  then have keep: "\<forall>y. y = p \<or> y \<in> owned v (inode_at v p) \<longrightarrow> v' y = v y"
    using assms(2) by (auto simp: file_ok_def tree_ok_def)
  have I: "\<forall>e. I p = Some e \<longrightarrow> i_length e = length_field (inode_at v p)" using f by (simp add: file_ok_def)
  note fr = file_frame [where I' = I, OF f keep assms(3) I]
  note dfr = dir_frame [OF f fr(2) fr(4)]
  show "parent_ok N I v' u' p" using assms(1) fr(1) dfr by (simp add: parent_ok_def)
  show "dir_map v' p = dir_map v p" using dfr(1) by (simp add: dir_map_def fun_eq_iff)
  show "owned v' (inode_at v' p) = owned v (inode_at v p)" by (rule fr(3))
qed

lemma st_undo_create:
  assumes "st N (Some I) v u s" and "I x = None" and "x < N"
  shows "\<exists>s'. undo_create x s = Some s' \<and> st N (Some I) v (u(x := False)) s'"
  using assms st_open_inodes [OF assms(1)] st_release [OF assms(1,3)]
  by (auto simp: undo_create_def inode_remove_def inode_close_def)

text \<open>Adding the name of a file that was just created in sector \<open>x\<close>, with data sectors \<open>ys\<close>.\<close>

lemma st_add_created:
  assumes s: "st N (Some I) v u s" and p: "parent_ok N I v u p" "d_inode_sector parent = p" and name: "0 \<notin> set name"
    and x: "file_ok N I v u x" "x \<noteq> p" "I x = None" "x \<notin> owned v (inode_at v p)"
      "owned v (inode_at v x) \<inter> (owned v (inode_at v p) \<union> {p}) = {}"
  shows "\<exists>r s' v' u' I'. (do { (ok, s) \<leftarrow> dir_add parent name x s; s \<leftarrow> dir_close parent s; Some (ok, s) }) = Some (r, s')
    \<and> st N (Some I') v' u' s' \<and> file_ok N I' v' u' p \<and> I' x = None \<and> (\<forall>y. u y \<longrightarrow> u' y)
    \<and> (full N u' \<or> (r \<longleftrightarrow> dir_map v p name = None \<and> length name \<le> NAME_MAX)
         \<and> (if r then dir_map v' p = (dir_map v p)(name \<mapsto> x) \<and> file_ok N I' v' u' x \<and> file_len v' x = file_len v x
              \<and> (\<forall>k < MAX_BYTES. file_byte v' x k = file_byte v x k)
            else v' = v \<and> u' = u))"
proof -
  have pk: "file_ok N I v u p" "writable I p" "live I p" "file_len v p + 20 \<le> MAX_BYTES" "names_distinct (dir_entries v p)"
    using p(1) by (auto simp: parent_ok_def)
  have x32: "x < 2 ^ 32" using st_bound [OF s] file_ok_sec [OF x(1)] by simp
  from st_dir_add [OF s pk(1,2) p(2) pk(4) name x32 pk(5)] obtain r s1 v' u' I1 where
    a: "dir_add parent name x s = Some (r, s1)" "st N (Some I1) v' u' s1" "file_ok N I1 v' u' p"
      "full N u' \<or> (r \<longleftrightarrow> dir_map v p name = None \<and> length name \<le> NAME_MAX)
         \<and> dir_map v' p = (if r then (dir_map v p)(name \<mapsto> x) else dir_map v p)
         \<and> names_distinct (dir_entries v' p)"
      "\<forall>y. u y \<longrightarrow> u' y" "\<forall>y. u y \<and> y \<noteq> p \<and> y \<notin> owned v (inode_at v p) \<longrightarrow> v' y = v y"
      "I1 = I \<or> (\<exists>l. I1 = with_length I p l)" "r \<or> full N u' \<or> v' = v \<and> u' = u" by blast
  from st_close_live [OF a(2) relen_keeps(1) [OF a(7) pk(3)]] obtain s2 where
    s2: "inode_close p s1 = Some s2" "st N (Some (closed I1 p)) v' u' s2" by blast
  have xN: "closed I1 p x = None" using closed_None [of I1 x p] relen_keeps(2) [OF a(7), of x] x(3) by simp
  have "\<forall>y. y = x \<or> y \<in> owned v (inode_at v x) \<longrightarrow> v' y = v y"
    using a(6) x by (auto simp: file_ok_def tree_ok_def)
  from file_frame [where I' = "closed I1 p", OF x(1) this a(5)] xN
  have fx: "file_ok N (closed I1 p) v' u' x" "file_len v' x = file_len v x"
    "\<forall>k < MAX_BYTES. file_byte v' x k = file_byte v x k" by (auto simp: file_len_def)
  have "(do { (ok, s) \<leftarrow> dir_add parent name x s; s \<leftarrow> dir_close parent s; Some (ok, s) }) = Some (r, s2)"
    using a(1) s2(1) p(2) by (simp add: dir_close_def)
  with s2(2) closed_keeps [OF a(3), of p] xN fx a(4,5,8) show ?thesis
    by (intro exI [of _ r] exI [of _ s2] exI [of _ v'] exI [of _ u'] exI [of _ "closed I1 p"]) auto
qed


lemma create_in_eq:
  assumes "fs_allocate s = Some (Some x, s1)" and "inode_create x sz False s1 = Some (True, s2)"
    and "(do { (ok, s) \<leftarrow> dir_add parent name x s2; s \<leftarrow> dir_close parent s; Some (ok, s) }) = Some (r, s3)"
  shows "create_in sz parent name s
    = (if r then Some (True, s3) else do { s \<leftarrow> undo_create x s3; Some (False, s) })"
proof -
  from assms(3) obtain s4 where "dir_add parent name x s2 = Some (r, s4)" "dir_close parent s4 = Some s3"
    by (auto split: bind_splits)
  with assms(1,2) show ?thesis by (auto simp: create_in_def)
qed

lemma st_create_in:
  assumes s: "st N (Some I) v u s" and p: "parent_ok N I v u p" "d_inode_sector parent = p" and name: "0 \<notin> set name"
    and sz: "0 \<le> sz" "sz \<le> int MAX_BYTES" and op: "\<forall>y. I y \<noteq> None \<longrightarrow> u y"
  shows "\<exists>r s' v' u' I'. create_in sz parent name s = Some (r, s') \<and> st N (Some I') v' u' s'
    \<and> (nearly_full N u' \<or> file_ok N I' v' u' p \<and> (r \<longleftrightarrow> dir_map v p name = None \<and> length name \<le> NAME_MAX)
         \<and> (if r then \<exists>x. \<not> u x \<and> dir_map v' p = (dir_map v p)(name \<mapsto> x) \<and> file_ok N I' v' u' x
                \<and> file_len v' x = nat sz \<and> (\<forall>k < MAX_BYTES. file_byte v' x k = 0)
            else dir_map v' p = dir_map v p \<and> card {y. u' y \<and> \<not> u y} = bytes_to_sectors sz))"
    (is "\<exists>r s' v' u' I'. ?Q r s' v' u' I'")
proof -
  have lv: "live I p" and fp: "file_ok N I v u p" using p(1) by (auto simp: parent_ok_def)
  from st_allocate [OF s] obtain a s1 where a: "fs_allocate s = Some (a, s1)"
    "case a of None \<Rightarrow> st N (Some I) v u s1 \<and> (\<forall>x. 2 \<le> x \<and> x < N \<longrightarrow> u x)
     | Some x \<Rightarrow> 2 \<le> x \<and> x < N \<and> \<not> u x \<and> st N (Some I) v (u(x := True)) s1" by blast
  show ?thesis
  proof (cases a)
    case None
    then have n: "st N (Some I) v u s1" "nearly_full N u" using a(2) by (auto intro: full_nearly simp: full_def)
    from st_close_live [OF n(1) lv] obtain s2 where
      "inode_close p s1 = Some s2" "st N (Some (closed I p)) v u s2" by blast
    with a(1) None n(2) p(2) have "?Q False s2 v u (closed I p)" by (simp add: create_in_def dir_close_def)
    then show ?thesis by blast
  next
    case (Some x)
    then have x: "x < N" "\<not> u x" "st N (Some I) v (u(x := True)) s1" using a(2) by auto
    have xI: "I x = None" using op x(2) by auto
    have "in_i32 sz" using sz by (simp add: in_i32_def MAX_BYTES_def MAX_BLOCKS_def)
    from st_inode_create [OF x(3,1) fun_upd_same [of u x True, THEN iffD2, OF TrueI] this, of False]
    obtain r1 s2 ys v1 where
      c: "inode_create x sz False s1 = Some (r1, s2)" "st N (Some I) v1 (used_too (u(x := True)) ys) s2"
        "distinct ys" "\<forall>y \<in> set ys. 2 \<le> y \<and> y < N \<and> \<not> (u(x := True)) y"
        "if r1 then length ys = bytes_to_sectors sz \<and> v1 = (zeroed v ys)(x := inode_bytes (created sz False ys))
           \<and> inode_at v1 x = created sz False ys
           \<and> tree_ok N x v1 (used_too (u(x := True)) ys) (created sz False ys)
         else v1 = zeroed v ys \<and> full N (used_too (u(x := True)) ys)" by blast
    let ?u = "used_too (u(x := True)) ys"
    have ys: "\<forall>y \<in> set ys. y \<noteq> x \<and> \<not> u y" using c(4) by (auto split: if_splits)
    have keep: "\<forall>y. u y \<longrightarrow> v1 y = v y" "\<forall>y. u y \<longrightarrow> ?u y" using c(5) ys x(2) by (auto split: if_splits)
    note pf = parent_frame [OF p(1) keep]
    show ?thesis
    proof (cases r1)
      case False
      from st_release [OF c(2) x(1)] obtain s3 where
        s3: "fs_release x s2 = Some s3" "st N (Some I) v1 (?u(x := False)) s3" by blast
      from st_close_live [OF s3(2) lv] obtain s4 where
        "inode_close p s3 = Some s4" "st N (Some (closed I p)) v1 (?u(x := False)) s4" by blast
      with a(1) Some c(1) False s3(1) p(2) full_release [of N ?u x] c(5)
      have "?Q False s4 v1 (?u(x := False)) (closed I p)" by (simp add: create_in_def dir_close_def)
      then show ?thesis by blast
    next
      case True
      then have d: "length ys = bytes_to_sectors sz" "inode_at v1 x = created sz False ys"
        "tree_ok N x v1 ?u (created sz False ys)"
        "v1 = (zeroed v ys)(x := inode_bytes (created sz False ys))" using c(5) unfolding if_P [OF True] by blast+
      have fx: "file_ok N I v1 ?u x" "file_len v1 x = nat sz"
        using d(2,3) sz xI by (simp_all add: file_ok_def file_len_def)
      have zero: "\<forall>k < MAX_BYTES. file_byte v1 x k = 0"
        using content_created [of ys v1] d(2) ys unfolding d(4) by (simp add: file_byte_def)
      have own: "owned v1 (inode_at v1 x) \<subseteq> set ys"
        unfolding d(2) using owned_created [of ys v1] c(4) by (auto dest: in_set_takeD)
      have pu: "u p" "\<forall>y \<in> owned v (inode_at v p). u y" using fp by (auto simp: file_ok_def tree_ok_def)
      have dis: "x \<noteq> p" "x \<notin> owned v1 (inode_at v1 p)"
        "owned v1 (inode_at v1 x) \<inter> (owned v1 (inode_at v1 p) \<union> {p}) = {}"
        unfolding pf(3) using pu x(2) own ys by auto
      from st_add_created [OF c(2) pf(1) p(2) name fx(1) dis(1) xI dis(2,3)] obtain r s3 v2 u2 I2 where
        b: "(do { (ok, s) \<leftarrow> dir_add parent name x s2; s \<leftarrow> dir_close parent s; Some (ok, s) }) = Some (r, s3)"
          "st N (Some I2) v2 u2 s3" "file_ok N I2 v2 u2 p" "I2 x = None"
          "full N u2 \<or> (r \<longleftrightarrow> dir_map v1 p name = None \<and> length name \<le> NAME_MAX)
            \<and> (if r then dir_map v2 p = (dir_map v1 p)(name \<mapsto> x) \<and> file_ok N I2 v2 u2 x \<and> file_len v2 x = file_len v1 x
                 \<and> (\<forall>k < MAX_BYTES. file_byte v2 x k = file_byte v1 x k)
               else v2 = v1 \<and> u2 = ?u)" by blast
      have eq: "create_in sz parent name s
          = (if r then Some (True, s3) else do { s \<leftarrow> undo_create x s3; Some (False, s) })"
        using create_in_eq [OF _ _ b(1), of s s1 sz] a(1) Some c(1) True by simp
      show ?thesis
      proof (cases r)
        case True
        have "?Q True s3 v2 u2 I2" using eq a(1) Some True b(2,3,5) pf(2) fx(2) zero x(2) full_nearly by auto
        then show ?thesis by blast
      next
        case False
        from st_undo_create [OF b(2,4) x(1)] obtain s4 where
          s4: "undo_create x s3 = Some s4" "st N (Some I2) v2 (u2(x := False)) s4" by blast
        show ?thesis
        proof (cases "full N u2")
          case True
          have "?Q False s4 v2 (u2(x := False)) I2" using eq a(1) Some False s4 full_release [OF True] by simp
          then show ?thesis by blast
        next
          case nf: False
          then have v2: "v2 = v1" "u2 = ?u" using b(5) False by auto
          have u': "u2(x := False) = used_too u ys" unfolding v2 using x(2) ys by (intro ext) auto
          have "{y. used_too u ys y \<and> \<not> u y} = set ys" using ys by auto
          then have "card {y. (u2(x := False)) y \<and> \<not> u y} = bytes_to_sectors sz"
            unfolding u' using d(1) c(3) by (simp add: distinct_card)
          moreover have "file_ok N I2 v2 (u2(x := False)) p"
            using b(3) pf(1) dis(1,2) unfolding v2 by (auto simp: file_ok_def tree_ok_def)
          ultimately have "?Q False s4 v2 (u2(x := False)) I2"
            using eq a(1) Some False s4 b(5) nf pf(2) v2 by simp
          then show ?thesis by blast
        qed
      qed
    qed
  qed
qed


definition opened :: "(sector \<Rightarrow> sector_data) \<Rightarrow> sector \<Rightarrow> inode" where
  "opened v sec = \<lparr> i_sector = sec, open_cnt = 1, removed = False, deny_write_cnt = 0,
     i_length = length_field (inode_at v sec), i_is_dir = (is_dir_byte (inode_at v sec) \<noteq> 0),
     i_is_symlink = (is_symlink_byte (inode_at v sec) \<noteq> 0) \<rparr>"

lemma st_open_new:
  assumes "st N (Some I) v u s" and "I sec = None" and "sec < N"
  shows "\<exists>s'. inode_open sec s = Some s' \<and> st N (Some (I(sec \<mapsto> opened v sec))) v u s'"
proof -
  from st_read_inode [OF assms(1,3)] obtain s1 where
    s1: "read_inode_disk sec s = Some (inode_at v sec, s1)" "st N (Some I) v u s1" by blast
  with assms st_open_inodes [OF assms(1)] st_open_inodes [OF s1(2)] st_set_open [OF s1(2)] show ?thesis
    by (auto simp: inode_open_def opened_def)
qed

text \<open>The path \<open>/a\<close> on the sample disk.\<close>

abbreviation root_open :: "sector \<rightharpoonup> inode" where
  "root_open \<equiv> Map.empty(1 \<mapsto> opened sample_view 1)"

lemma sample_resolve:
  "\<exists>s. resolve_path [0x2F, 0x61] 0 sample_fs = Some (Some (\<lparr> d_inode_sector = 1, d_pos = 0 \<rparr>, [0x61]), s)
    \<and> st 64 (Some root_open) sample_view sample_used s"
proof -
  from st_open_new [OF sample_st, of 1] obtain s1 where
    "inode_open 1 sample_fs = Some s1" "st 64 (Some root_open) sample_view sample_used s1" by auto
  then show ?thesis
    by (simp add: resolve_path_def dir_open_root_def dir_open_def ROOT_DIR_SECTOR_def path_parts_def SLASH_def)
qed

lemma sample_parent: "parent_ok 64 root_open sample_view sample_used 1"
proof -
  have "file_ok 64 Map.empty sample_view sample_used 1" by (rule sample_tree) (simp_all add: array_bit_def)
  then show ?thesis
    by (simp add: parent_ok_def file_ok_def opened_def writable_def live_def in_i32_def file_len_def
        sample_length_field MAX_BYTES_def MAX_BLOCKS_def names_distinct_def)
qed

text \<open>C21: \<open>filesys::create\<close> is correct. If the path resolves to an open, writable parent directory and a
  leaf name, \<open>create\<close> returns, and unless at most one sector is left it answers true exactly for a
  name that is not in the directory and has at most 14 bytes. The directory then maps the name to
  an inode in a sector that was free, which is a well-formed file of the requested length whose
  bytes are all zero, and every other name as before.\<close>

theorem create_correct:
  assumes "resolve_path path cwd s0 = Some (Some (parent, name), s)" and "name \<noteq> []" and "0 \<notin> set name"
    and "st N (Some I) v u s" and "parent_ok N I v u p" and "d_inode_sector parent = p"
    and "0 \<le> sz" and "sz \<le> int MAX_BYTES" and "\<forall>y. I y \<noteq> None \<longrightarrow> u y"
  shows "\<exists>r s' v' u' I'. create path sz cwd s0 = Some (r, s') \<and> st N (Some I') v' u' s'
    \<and> (nearly_full N u' \<or> file_ok N I' v' u' p \<and> (r \<longleftrightarrow> dir_map v p name = None \<and> length name \<le> NAME_MAX)
         \<and> (if r then \<exists>x. \<not> u x \<and> dir_map v' p = (dir_map v p)(name \<mapsto> x) \<and> file_ok N I' v' u' x
                \<and> file_len v' x = nat sz \<and> (\<forall>k < MAX_BYTES. file_byte v' x k = 0)
            else dir_map v' p = dir_map v p))"
proof -
  have eq: "create path sz cwd s0 = create_in sz parent name s" using assms(1,2) by (simp add: create_def with_parent_def)
  show ?thesis unfolding eq using st_create_in [OF assms(4,5,6,3,7,8,9)] by (fastforce split: if_splits)
qed

theorem create_correct_witness:
  "\<exists>s. resolve_path [0x2F, 0x61] 0 sample_fs = Some (Some (\<lparr> d_inode_sector = 1, d_pos = 0 \<rparr>, [0x61]), s)
    \<and> (\<exists>r s' v' u' I'. create [0x2F, 0x61] 700 0 sample_fs = Some (r, s') \<and> st 64 (Some I') v' u' s'
    \<and> (nearly_full 64 u' \<or> file_ok 64 I' v' u' 1
         \<and> (r \<longleftrightarrow> dir_map sample_view 1 [0x61] = None \<and> length [0x61 :: byte] \<le> NAME_MAX)
         \<and> (if r then \<exists>x. \<not> sample_used x \<and> dir_map v' 1 = (dir_map sample_view 1)([0x61] \<mapsto> x) \<and> file_ok 64 I' v' u' x
                \<and> file_len v' x = nat 700 \<and> (\<forall>k < MAX_BYTES. file_byte v' x k = 0)
            else dir_map v' 1 = dir_map sample_view 1)))"
proof -
  from sample_resolve obtain s where
    s: "resolve_path [0x2F, 0x61] 0 sample_fs = Some (Some (\<lparr> d_inode_sector = 1, d_pos = 0 \<rparr>, [0x61]), s)"
      "st 64 (Some root_open) sample_view sample_used s" by blast
  have "\<forall>y. root_open y \<noteq> None \<longrightarrow> sample_used y" by (auto simp: array_bit_def)
  with s(1) create_correct [OF s(1) _ _ s(2) sample_parent, of 700] show ?thesis
    by (simp add: MAX_BYTES_def MAX_BLOCKS_def)
qed

text \<open>a \<open>create\<close> that fails loses the data sectors it allocated. When the name is already in the
  directory or too long, \<open>create\<close> answers false and releases the sector of the new inode only:
  \<open>inode::remove\<close> and \<open>inode::close\<close> do nothing for an inode that was never opened. Exactly the data
  sectors of the requested length stay marked as used.\<close>

theorem create_failure_leaks:
  assumes "resolve_path path cwd s0 = Some (Some (parent, name), s)" and "name \<noteq> []" and "0 \<notin> set name"
    and "st N (Some I) v u s" and "parent_ok N I v u p" and "d_inode_sector parent = p"
    and "0 \<le> sz" and "sz \<le> int MAX_BYTES" and "\<forall>y. I y \<noteq> None \<longrightarrow> u y"
    and "dir_map v p name \<noteq> None \<or> NAME_MAX < length name"
  shows "\<exists>r s' v' u' I'. create path sz cwd s0 = Some (r, s') \<and> st N (Some I') v' u' s'
    \<and> (nearly_full N u' \<or> \<not> r \<and> dir_map v' p = dir_map v p \<and> card {y. u' y \<and> \<not> u y} = bytes_to_sectors sz)"
proof -
  have eq: "create path sz cwd s0 = create_in sz parent name s" using assms(1,2) by (simp add: create_def with_parent_def)
  from st_create_in [OF assms(4,5,6,3,7,8,9)] obtain r s' v' u' I' where
    c: "create_in sz parent name s = Some (r, s')" "st N (Some I') v' u' s'"
      "nearly_full N u' \<or> (r \<longleftrightarrow> dir_map v p name = None \<and> length name \<le> NAME_MAX)
         \<and> (r \<or> dir_map v' p = dir_map v p \<and> card {y. u' y \<and> \<not> u y} = bytes_to_sectors sz)"
    by (fastforce split: if_splits)
  with assms(10) show ?thesis unfolding eq by (intro exI [of _ r] exI [of _ s'] exI [of _ v'] exI [of _ u'] exI [of _ I']) auto
qed

text \<open>The path is \<open>/\<close> and 15 times \<open>a\<close>.\<close>

abbreviation long_name :: "byte list" where
  "long_name \<equiv> [0x61, 0x61, 0x61, 0x61, 0x61, 0x61, 0x61, 0x61, 0x61, 0x61, 0x61, 0x61, 0x61, 0x61, 0x61]"

theorem create_failure_leaks_witness:
  "\<exists>r s' v' u' I'. create (0x2F # long_name) 700 0 sample_fs = Some (r, s') \<and> st 64 (Some I') v' u' s'
    \<and> (nearly_full 64 u' \<or> \<not> r \<and> dir_map v' 1 = dir_map sample_view 1
         \<and> card {y. u' y \<and> \<not> sample_used y} = bytes_to_sectors 700)"
proof -
  from st_open_new [OF sample_st, of 1] obtain s1 where
    s1: "inode_open 1 sample_fs = Some s1" "st 64 (Some root_open) sample_view sample_used s1" by auto
  have res: "resolve_path (0x2F # long_name) 0 sample_fs = Some (Some (\<lparr> d_inode_sector = 1, d_pos = 0 \<rparr>, long_name), s1)"
    using s1(1) by (simp add: resolve_path_def dir_open_root_def dir_open_def ROOT_DIR_SECTOR_def path_parts_def SLASH_def)
  show ?thesis
    by (rule create_failure_leaks [OF res _ _ s1(2) sample_parent])
      (simp_all add: MAX_BYTES_def MAX_BLOCKS_def array_bit_def NAME_MAX_def)
qed

end
