(* ===== verification/Thread.thy ===== *)
theory Thread
  imports Palloc
begin

unbundle bit_operations_syntax

section \<open>Threads and the scheduler: thread/mod.rs\<close>

text \<open>
  The kernel state of the scheduler: the thread pages, the ready list, the list of all threads,
  the running thread, the interrupt flags of arch/idt.rs, the active page directory and the stack
  pointer of the TSS. A thread is named by the address of its page, 0 the null pointer; the
  running thread, which the code finds by masking the stack pointer, is the field \<open>cur\<close>.

  A context switch is the change of \<open>cur\<close>. An operation that switches is modelled up to and
  including the switch and the \<open>schedule_tail\<close> that the next thread runs; what the old thread does
  when it is resumed belongs to its continuation, which the theory of the synchronisation
  primitives keeps explicitly.
\<close>

definition THREAD_MAGIC :: nat where
  "THREAD_MAGIC = 0xcd6abf4b"

definition PRI_MIN :: int where
  "PRI_MIN = 0"

definition PRI_DEFAULT :: int where
  "PRI_DEFAULT = 31"

definition PRI_MAX :: int where
  "PRI_MAX = 63"

definition TIME_SLICE :: nat where
  "TIME_SLICE = 4"

definition TID_ERROR :: int where
  "TID_ERROR = -1"

datatype thread_status = Running | Ready | Blocked | Dying

text \<open>\<open>frames\<close> are the words of the kernel stack from \<open>stack\<close> up to the end of the page.\<close>

record thread =
  tid :: int
  status :: thread_status
  t_name :: "byte list"
  stack :: nat
  frames :: "nat list"
  priority :: int
  original_priority :: int
  pagedir :: nat
  fd_table :: nat
  waiting_on_lock :: nat
  cwd_sector :: nat
  brk :: nat
  parent_tid :: int
  killed :: bool
  pgid :: int
  sig_pending :: "32 word"
  sig_ignore :: "32 word"
  magic :: nat

datatype intr_level = Off | On

record kernel =
  pal :: palloc
  threads :: "nat \<Rightarrow> thread"
  READY_LIST :: "nat list option"
  ALL_LIST :: "nat list option"
  IDLE_THREAD :: nat
  INITIAL_THREAD :: nat
  THREAD_TICKS :: nat
  NEXT_TID :: int
  cur :: nat
  intr_level :: intr_level
  YIELD_ON_RETURN :: bool
  IN_EXTERNAL_INTR :: bool
  INIT_PAGE_DIR :: nat
  cr3 :: nat
  TSS_PTR :: nat
  esp0 :: nat

type_synonym 'z kern = "'z kernel_scheme"

subsection \<open>Interrupt flags: arch/idt.rs\<close>

definition intr_get_level :: "'z kern \<Rightarrow> intr_level" where
  "intr_get_level k = intr_level k"

definition intr_disable :: "'z kern \<Rightarrow> intr_level \<times> 'z kern" where
  "intr_disable k = (intr_get_level k, k \<lparr> intr_level := Off \<rparr>)"

definition intr_enable :: "'z kern \<Rightarrow> intr_level \<times> 'z kern" where
  "intr_enable k = (intr_get_level k, k \<lparr> intr_level := On \<rparr>)"

definition intr_set_level :: "intr_level \<Rightarrow> 'z kern \<Rightarrow> intr_level \<times> 'z kern" where
  "intr_set_level level k = (case level of Off \<Rightarrow> intr_disable k | On \<Rightarrow> intr_enable k)"

definition intr_yield_on_return :: "'z kern \<Rightarrow> 'z kern" where
  "intr_yield_on_return k = k \<lparr> YIELD_ON_RETURN := True \<rparr>"

definition intr_context :: "'z kern \<Rightarrow> bool" where
  "intr_context k = IN_EXTERNAL_INTR k"

subsection \<open>Access to the thread pages\<close>

definition thr :: "nat \<Rightarrow> 'z kern \<Rightarrow> thread" where
  "thr t k = threads k t"

definition set_thr :: "nat \<Rightarrow> (thread \<Rightarrow> thread) \<Rightarrow> 'z kern \<Rightarrow> 'z kern" where
  "set_thr t f k = k \<lparr> threads := (threads k)(t := f (threads k t)) \<rparr>"

definition running_thread :: "'z kern \<Rightarrow> nat" where
  "running_thread k = cur k"

definition allocate_tid :: "'z kern \<Rightarrow> (int \<times> 'z kern) option" where
  "allocate_tid k = do {
     let t = NEXT_TID k;
     n \<leftarrow> add_i32 t 1;
     Some (t, k \<lparr> NEXT_TID := n \<rparr>)
   }"

text \<open>The name field keeps the old bytes behind the terminating zero; \<open>pgid\<close> is set from the \<open>tid\<close>
  the page holds at that moment.\<close>

definition init_thread :: "nat \<Rightarrow> byte list \<Rightarrow> int \<Rightarrow> 'z kern \<Rightarrow> 'z kern" where
  "init_thread t name pri k =
     (let len = min (length name) 15
      in set_thr t (\<lambda>th. th \<lparr> status := Blocked,
           t_name := (take len name @ drop len (t_name th))[len := 0],
           stack := t + PGSIZE, priority := pri, original_priority := pri, pagedir := 0, fd_table := 0,
           waiting_on_lock := 0, cwd_sector := 1, brk := 0, parent_tid := 0, killed := False,
           pgid := tid th, sig_pending := 0, sig_ignore := 0, magic := THREAD_MAGIC \<rparr>) k)"

definition thread_init :: "'z kern \<Rightarrow> 'z kern option" where
  "thread_init k = do {
     let k = k \<lparr> READY_LIST := Some [], ALL_LIST := Some [] \<rparr>;
     let t = running_thread k;
     let k = init_thread t [0x6D, 0x61, 0x69, 0x6E] PRI_DEFAULT k;
     let k = set_thr t (\<lambda>th. th \<lparr> status := Running \<rparr>) k;
     (n, k) \<leftarrow> allocate_tid k;
     let k = (set_thr t (\<lambda>th. th \<lparr> tid := n \<rparr>) k) \<lparr> INITIAL_THREAD := t \<rparr>;
     all \<leftarrow> ALL_LIST k;
     Some (k \<lparr> ALL_LIST := Some (all @ [t]) \<rparr>)
   }"

subsection \<open>The scheduler\<close>

definition check_thread :: "nat \<Rightarrow> 'z kern \<Rightarrow> unit option" where
  "check_thread t k = do { assert (t \<noteq> 0); assert (magic (thr t k) = THREAD_MAGIC) }"

definition next_thread_to_run :: "'z kern \<Rightarrow> (nat \<times> 'z kern) option" where
  "next_thread_to_run k = do {
     ready \<leftarrow> READY_LIST k;
     if ready = [] then Some (IDLE_THREAD k, k)
     else let best_idx = best_index (\<lambda>t. priority (thr t k)) ready
          in Some (ready ! best_idx, k \<lparr> READY_LIST := Some (remove_at best_idx ready) \<rparr>)
   }"

text \<open>\<open>process::activate\<close>: the page directory of the running thread, or the kernel's, and the top of its
  kernel stack.\<close>

definition pd_activate :: "nat \<Rightarrow> 'z kern \<Rightarrow> 'z kern option" where
  "pd_activate pd k = do {
     phys \<leftarrow> vtop (if pd = 0 then INIT_PAGE_DIR k else pd);
     Some (k \<lparr> cr3 := phys \<rparr>)
   }"

definition tss_update :: "'z kern \<Rightarrow> 'z kern option" where
  "tss_update k =
     (if TSS_PTR k \<noteq> 0
      then do { top \<leftarrow> add_usize (running_thread k) PGSIZE; Some (k \<lparr> esp0 := top \<rparr>) }
      else Some k)"

definition activate :: "'z kern \<Rightarrow> 'z kern option" where
  "activate k = do {
     k \<leftarrow> pd_activate (pagedir (thr (running_thread k) k)) k;
     tss_update k
   }"

definition schedule_tail :: "nat \<Rightarrow> 'z kern \<Rightarrow> 'z kern option" where
  "schedule_tail prev k = do {
     let k = set_thr (running_thread k) (\<lambda>th. th \<lparr> status := Running \<rparr>) k;
     k \<leftarrow> activate k;
     if prev \<noteq> 0 \<and> status (thr prev k) = Dying \<and> prev \<noteq> INITIAL_THREAD k
     then do { p \<leftarrow> free_page prev (pal k); Some (k \<lparr> pal := p \<rparr>) }
     else Some k
   }"

definition schedule :: "'z kern \<Rightarrow> 'z kern option" where
  "schedule k = do {
     let c = running_thread k;
     (nxt, k) \<leftarrow> next_thread_to_run k;
     assert (intr_get_level k = Off);
     assert (status (thr c k) \<noteq> Running);
     check_thread nxt k;
     let k = k \<lparr> THREAD_TICKS := 0 \<rparr>;
     if c \<noteq> nxt then schedule_tail c (k \<lparr> cur := nxt \<rparr>) else schedule_tail 0 k
   }"

text \<open>\<open>yield_current\<close> up to the switch; the old interrupt level, which the thread restores when it is
  resumed, is the first result.\<close>

definition yield_current :: "'z kern \<Rightarrow> (intr_level \<times> 'z kern) option" where
  "yield_current k = do {
     let (old, k) = intr_disable k;
     let c = running_thread k;
     ready \<leftarrow> READY_LIST k;
     let k = (if c \<noteq> IDLE_THREAD k
              then (set_thr c (\<lambda>th. th \<lparr> status := Ready \<rparr>) k) \<lparr> READY_LIST := Some (ready @ [c]) \<rparr>
              else set_thr c (\<lambda>th. th \<lparr> status := Ready \<rparr>) k);
     k \<leftarrow> schedule k;
     Some (old, k)
   }"

text \<open>\<open>unblock\<close>; the first result is \<open>Some\<close> level if the caller was preempted, with the level it will
  restore when it is resumed, and \<open>None\<close> if it still runs.\<close>

definition unblock :: "nat \<Rightarrow> 'z kern \<Rightarrow> (intr_level option \<times> 'z kern) option" where
  "unblock t k = do {
     let (old_level, k) = intr_disable k;
     assert (status (thr t k) = Blocked);
     let k = set_thr t (\<lambda>th. th \<lparr> status := Ready \<rparr>) k;
     ready \<leftarrow> READY_LIST k;
     let k = k \<lparr> READY_LIST := Some (ready @ [t]) \<rparr>;
     if \<not> intr_context k \<and> priority (thr t k) > priority (thr (running_thread k) k)
     then do {
       let (_, k) = intr_set_level old_level k;
       (old, k) \<leftarrow> yield_current k;
       Some (Some old, k)
     }
     else let (_, k) = intr_set_level old_level k in Some (None, k)
   }"

definition block :: "'z kern \<Rightarrow> 'z kern option" where
  "block k = do {
     assert (intr_get_level k = Off);
     schedule (set_thr (running_thread k) (\<lambda>th. th \<lparr> status := Blocked \<rparr>) k)
   }"

definition exit :: "'z kern \<Rightarrow> 'z kern option" where
  "exit k = do {
     let (_, k) = intr_disable k;
     let c = running_thread k;
     all \<leftarrow> ALL_LIST k;
     let k = k \<lparr> ALL_LIST := Some (filter (\<lambda>t. t \<noteq> c) all) \<rparr>;
     schedule (set_thr c (\<lambda>th. th \<lparr> status := Dying \<rparr>) k)
   }"

definition tick :: "'z kern \<Rightarrow> 'z kern option" where
  "tick k = do {
     n \<leftarrow> add_usize (THREAD_TICKS k) 1;
     let k = k \<lparr> THREAD_TICKS := n \<rparr>;
     if n \<ge> TIME_SLICE then Some (intr_yield_on_return k) else Some k
   }"

subsection \<open>Creating threads\<close>

text \<open>The initial stack, from low to high addresses: \<open>SwitchThreadsFrame\<close>, \<open>SwitchEntryFrame\<close>,
  \<open>KernelThreadFrame\<close>. The addresses of \<open>switch_entry\<close> and \<open>kernel_thread\<close> are link-time constants.\<close>

definition initial_frames :: "nat \<Rightarrow> nat \<Rightarrow> nat \<Rightarrow> nat \<Rightarrow> nat list" where
  "initial_frames switch_entry kernel_thread function aux =
     [0, 0, 0, 0, switch_entry, 0, 0] @ [kernel_thread] @ [0, function, aux]"

definition zero_thread :: thread where
  "zero_thread = \<lparr> tid = 0, status = Running, t_name = replicate 16 0, stack = 0, frames = [], priority = 0,
     original_priority = 0, pagedir = 0, fd_table = 0, waiting_on_lock = 0, cwd_sector = 0, brk = 0,
     parent_tid = 0, killed = False, pgid = 0, sig_pending = 0, sig_ignore = 0, magic = 0 \<rparr>"

definition thread_create :: "nat \<Rightarrow> nat \<Rightarrow> byte list \<Rightarrow> int \<Rightarrow> nat \<Rightarrow> nat \<Rightarrow> 'z kern
    \<Rightarrow> (int \<times> intr_level option \<times> 'z kern) option" where
  "thread_create switch_entry kernel_thread name pri function aux k = do {
     (page, p) \<leftarrow> get_page {ZERO} (pal k);
     let k = k \<lparr> pal := p \<rparr>;
     if page = 0 then Some (TID_ERROR, None, k)
     else do {
       let k = set_thr page (\<lambda>_. zero_thread) k;
       let k = init_thread page name pri k;
       (n, k) \<leftarrow> allocate_tid k;
       let fs = initial_frames switch_entry kernel_thread function aux;
       let k = set_thr page (\<lambda>th. th \<lparr> tid := n, frames := fs, stack := page + PGSIZE - 4 * length fs \<rparr>) k;
       all \<leftarrow> ALL_LIST k;
       let k = k \<lparr> ALL_LIST := Some (all @ [page]) \<rparr>;
       (preempted, k) \<leftarrow> unblock page k;
       Some (n, preempted, k)
     }
   }"

text \<open>\<open>current_name\<close>: the bytes up to the first zero.\<close>

definition current_name :: "'z kern \<Rightarrow> byte list" where
  "current_name k = takeWhile (\<lambda>b. b \<noteq> 0) (t_name (thr (running_thread k) k))"

subsection \<open>Priorities and donation\<close>

definition get_priority :: "'z kern \<Rightarrow> int" where
  "get_priority k = priority (thr (running_thread k) k)"

definition yield_if_not_highest :: "'z kern \<Rightarrow> (intr_level option \<times> 'z kern) option" where
  "yield_if_not_highest k = do {
     ready \<leftarrow> READY_LIST k;
     if \<exists>t \<in> set ready. priority (thr t k) > get_priority k
     then do { (old, k) \<leftarrow> yield_current k; Some (Some old, k) }
     else Some (None, k)
   }"

definition set_priority :: "int \<Rightarrow> 'z kern \<Rightarrow> (intr_level option \<times> 'z kern) option" where
  "set_priority new_priority k = yield_if_not_highest
     (set_thr (running_thread k) (\<lambda>th. th \<lparr> priority := new_priority, original_priority := new_priority \<rparr>) k)"

text \<open>The donation loop; \<open>holder_of\<close> is \<open>Lock::holder_raw\<close>, \<open>n\<close> the iterations left.\<close>

primrec donate_loop :: "(nat \<Rightarrow> nat) \<Rightarrow> nat \<Rightarrow> nat \<Rightarrow> int \<Rightarrow> 'z kern \<Rightarrow> 'z kern" where
  "donate_loop holder_of 0 target pri k = k"
| "donate_loop holder_of (Suc n) target pri k =
     (if target = 0 then k
      else if pri > priority (thr target k)
      then let k = set_thr target (\<lambda>th. th \<lparr> priority := pri \<rparr>) k;
               lock = waiting_on_lock (thr target k)
           in if lock \<noteq> 0 then donate_loop holder_of n (holder_of lock) pri k else k
      else k)"

definition donate_priority :: "(nat \<Rightarrow> nat) \<Rightarrow> nat \<Rightarrow> int \<Rightarrow> 'z kern \<Rightarrow> 'z kern" where
  "donate_priority holder_of holder pri k = donate_loop holder_of 8 holder pri k"

definition restore_priority :: "'z kern \<Rightarrow> 'z kern" where
  "restore_priority k = set_thr (running_thread k) (\<lambda>th. th \<lparr> priority := original_priority th \<rparr>) k"

subsection \<open>Signals and process groups\<close>

definition SIGINT :: nat where "SIGINT = 2"
definition SIGQUIT :: nat where "SIGQUIT = 3"
definition SIGKILL :: nat where "SIGKILL = 9"
definition SIGPIPE :: nat where "SIGPIPE = 13"
definition SIGCHLD :: nat where "SIGCHLD = 17"

definition deliver_signal :: "nat \<Rightarrow> nat \<Rightarrow> 'z kern \<Rightarrow> 'z kern" where
  "deliver_signal t sig k =
     (let mask = push_bit sig (1 :: 32 word)
      in if sig = SIGKILL then set_thr t (\<lambda>th. th \<lparr> killed := True \<rparr>) k
         else if sig_ignore (thr t k) AND mask \<noteq> 0 then k
         else if sig = SIGCHLD then k
         else set_thr t (\<lambda>th. th \<lparr> killed := True \<rparr>) k)"

definition send_signal :: "int \<Rightarrow> nat \<Rightarrow> 'z kern \<Rightarrow> (bool \<times> 'z kern) option" where
  "send_signal n sig k =
     (if sig = 0 \<or> sig > 31 then Some (False, k)
      else do {
        all \<leftarrow> ALL_LIST k;
        case List.find (\<lambda>t. tid (thr t k) = n \<and> pagedir (thr t k) \<noteq> 0) all of
          Some t \<Rightarrow> Some (True, deliver_signal t sig k)
        | None \<Rightarrow> Some (False, k)
      })"

definition send_signal_pgid :: "int \<Rightarrow> nat \<Rightarrow> 'z kern \<Rightarrow> 'z kern option" where
  "send_signal_pgid pg sig k =
     (if sig = 0 \<or> sig > 31 then Some k
      else do {
        all \<leftarrow> ALL_LIST k;
        Some (fold (\<lambda>t k. if pagedir (thr t k) \<noteq> 0 \<and> pgid (thr t k) = pg then deliver_signal t sig k else k) all k)
      })"

definition kill_thread :: "int \<Rightarrow> 'z kern \<Rightarrow> (bool \<times> 'z kern) option" where
  "kill_thread n k = send_signal n SIGKILL k"

text \<open>The loop of \<open>foreground_pgid\<close> over the threads, with its three variables.\<close>

fun fg_loop :: "'z kern \<Rightarrow> nat list \<Rightarrow> int \<times> int \<times> int \<Rightarrow> int \<times> int \<times> int" where
  "fg_loop k [] acc = acc"
| "fg_loop k (t # ts) (fg, max_tid, init_tid) =
     (let th = thr t k
      in if pagedir th \<noteq> 0
         then let init_tid = (if parent_tid th = 0 then tid th else init_tid)
              in if tid th > max_tid \<and> tid th \<noteq> init_tid then fg_loop k ts (pgid th, tid th, init_tid)
                 else fg_loop k ts (fg, max_tid, init_tid)
         else fg_loop k ts (fg, max_tid, init_tid))"

definition foreground_pgid :: "'z kern \<Rightarrow> int option" where
  "foreground_pgid k = do {
     all \<leftarrow> ALL_LIST k;
     let (fg, _, _) = fg_loop k all (-1, -1, -1);
     Some (if fg < 0 then 0 else fg)
   }"

definition kill_foreground :: "'z kern \<Rightarrow> 'z kern option" where
  "kill_foreground k = do {
     pg \<leftarrow> foreground_pgid k;
     if pg > 0 then send_signal_pgid pg SIGINT k else Some k
   }"

definition set_pgid :: "int \<Rightarrow> int \<Rightarrow> 'z kern \<Rightarrow> (bool \<times> 'z kern) option" where
  "set_pgid n pg k = do {
     all \<leftarrow> ALL_LIST k;
     case List.find (\<lambda>t. tid (thr t k) = n) all of
       Some t \<Rightarrow> Some (True, set_thr t (\<lambda>th. th \<lparr> pgid := (if pg = 0 then n else pg) \<rparr>) k)
     | None \<Rightarrow> Some (False, k)
   }"

definition get_pgid :: "int \<Rightarrow> 'z kern \<Rightarrow> int option" where
  "get_pgid n k = do {
     all \<leftarrow> ALL_LIST k;
     Some (case List.find (\<lambda>t. tid (thr t k) = n) all of Some t \<Rightarrow> pgid (thr t k) | None \<Rightarrow> -1)
   }"

definition get_pagedir_by_tid :: "int \<Rightarrow> 'z kern \<Rightarrow> nat option" where
  "get_pagedir_by_tid n k = do {
     all \<leftarrow> ALL_LIST k;
     Some (case List.find (\<lambda>t. tid (thr t k) = n) all of Some t \<Rightarrow> pagedir (thr t k) | None \<Rightarrow> 0)
   }"

definition set_thread_parent_info :: "int \<Rightarrow> int \<Rightarrow> int \<Rightarrow> 32 word \<Rightarrow> 'z kern \<Rightarrow> 'z kern option" where
  "set_thread_parent_info child_tid ptid pg ignore k = do {
     all \<leftarrow> ALL_LIST k;
     Some (case List.find (\<lambda>t. tid (thr t k) = child_tid) all of
         Some t \<Rightarrow> set_thr t (\<lambda>th. th \<lparr> parent_tid := ptid, pgid := pg, sig_ignore := ignore \<rparr>) k
       | None \<Rightarrow> k)
   }"

end
