(* ===== verification/ThreadProps.thy ===== *)
theory ThreadProps
  imports Thread
begin

section \<open>Correctness of the scheduler\<close>

text \<open>
  The invariant of the scheduler and that every operation keeps it, the choice of the next thread,
  priority donation, and signals.
\<close>

named_theorems sched_simps \<open>fields of the kernel state after an update\<close>

lemma thr_set_thr [sched_simps, simp]: "thr t (set_thr t' f k) = (if t = t' then f (thr t' k) else thr t k)"
  by (simp add: thr_def set_thr_def)

lemma set_thr_fields [sched_simps, simp]:
  "READY_LIST (set_thr t f k) = READY_LIST k" "ALL_LIST (set_thr t f k) = ALL_LIST k"
  "IDLE_THREAD (set_thr t f k) = IDLE_THREAD k" "INITIAL_THREAD (set_thr t f k) = INITIAL_THREAD k"
  "cur (set_thr t f k) = cur k" "intr_level (set_thr t f k) = intr_level k" "pal (set_thr t f k) = pal k"
  "IN_EXTERNAL_INTR (set_thr t f k) = IN_EXTERNAL_INTR k" "INIT_PAGE_DIR (set_thr t f k) = INIT_PAGE_DIR k"
  "TSS_PTR (set_thr t f k) = TSS_PTR k" "NEXT_TID (set_thr t f k) = NEXT_TID k"
  "THREAD_TICKS (set_thr t f k) = THREAD_TICKS k" "YIELD_ON_RETURN (set_thr t f k) = YIELD_ON_RETURN k"
  by (simp_all add: set_thr_def)

lemma thr_update [sched_simps, simp]:
  "thr t (k \<lparr> READY_LIST := r \<rparr>) = thr t k" "thr t (k \<lparr> ALL_LIST := a \<rparr>) = thr t k" "thr t (k \<lparr> cur := c \<rparr>) = thr t k"
  "thr t (k \<lparr> intr_level := l \<rparr>) = thr t k" "thr t (k \<lparr> THREAD_TICKS := n \<rparr>) = thr t k"
  "thr t (k \<lparr> cr3 := p \<rparr>) = thr t k" "thr t (k \<lparr> esp0 := p \<rparr>) = thr t k" "thr t (k \<lparr> pal := pp \<rparr>) = thr t k"
  "thr t (k \<lparr> NEXT_TID := i \<rparr>) = thr t k" "thr t (k \<lparr> YIELD_ON_RETURN := y \<rparr>) = thr t k"
  "thr t (k \<lparr> INITIAL_THREAD := c \<rparr>) = thr t k" "thr t (k \<lparr> IDLE_THREAD := c \<rparr>) = thr t k"
  by (simp_all add: thr_def)

lemma set_level_eq: "intr_set_level l k = (intr_level k, k \<lparr> intr_level := l \<rparr>)"
  by (cases l) (simp_all add: intr_set_level_def intr_disable_def intr_enable_def intr_get_level_def)

lemmas level_defs = intr_disable_def intr_enable_def set_level_eq intr_get_level_def running_thread_def
  intr_context_def intr_yield_on_return_def

subsection \<open>The invariant\<close>

definition thread_ok :: "nat \<Rightarrow> thread \<Rightarrow> bool" where
  "thread_ok t th \<longleftrightarrow> t \<noteq> 0 \<and> t + PGSIZE < 2 ^ 32 \<and> magic th = THREAD_MAGIC
     \<and> (pagedir th = 0 \<or> PHYS_BASE \<le> pagedir th)"

text \<open>The part that also holds in the middle of a switch, when the running thread has given up the CPU.\<close>

definition sched_wf :: "'z kern \<Rightarrow> bool" where
  "sched_wf k \<longleftrightarrow> (\<exists>ready all. READY_LIST k = Some ready \<and> ALL_LIST k = Some all
     \<and> distinct ready \<and> set ready \<subseteq> set all \<and> (\<forall>t \<in> set ready. status (thr t k) = Ready)
     \<and> (\<forall>t \<in> set all. thread_ok t (thr t k)) \<and> (\<forall>t \<in> set all. t \<noteq> cur k \<longrightarrow> status (thr t k) \<noteq> Running)
     \<and> (\<forall>t \<in> set all. status (thr t k) = Ready \<and> t \<noteq> IDLE_THREAD k \<longrightarrow> t \<in> set ready)
     \<and> IDLE_THREAD k \<in> set all) \<and> PHYS_BASE \<le> INIT_PAGE_DIR k"

definition sched_inv :: "'z kern \<Rightarrow> bool" where
  "sched_inv k \<longleftrightarrow> sched_wf k \<and> cur k \<in> set (the (ALL_LIST k)) \<and> status (thr (cur k) k) = Running"

subsection \<open>Choosing the next thread\<close>

text \<open>\<open>i\<close> is the first position of the list with the highest priority.\<close>

definition first_highest :: "'z kern \<Rightarrow> nat list \<Rightarrow> nat \<Rightarrow> bool" where
  "first_highest k ts i \<longleftrightarrow> (\<forall>j < length ts. priority (thr (ts ! j) k) \<le> priority (thr (ts ! i) k))
     \<and> (\<forall>j < i. priority (thr (ts ! j) k) < priority (thr (ts ! i) k))"

text \<open>The priorities are above \<open>i32::MIN\<close>, the start value of the search.\<close>

definition above_min :: "'z kern \<Rightarrow> nat list \<Rightarrow> bool" where
  "above_min k ts \<longleftrightarrow> (\<forall>t \<in> set ts. - (2 ^ 31) < priority (thr t k))"

lemma next_thread_spec:
  assumes "READY_LIST k = Some ready"
  shows "\<exists>nxt ready'. next_thread_to_run k = Some (nxt, k \<lparr> READY_LIST := Some ready' \<rparr>)
    \<and> (if ready = [] then nxt = IDLE_THREAD k \<and> ready' = []
       else \<exists>i < length ready. nxt = ready ! i \<and> ready' = remove_at i ready
         \<and> (above_min k ready \<longrightarrow> first_highest k ready i))"
proof (cases "ready = []")
  case True
  moreover have "k = k \<lparr> READY_LIST := Some [] \<rparr>" if "READY_LIST k = Some []" using that by simp
  ultimately show ?thesis using assms by (intro exI [of _ "IDLE_THREAD k"] exI [of _ "[]"]) (simp add: next_thread_to_run_def)
next
  case False
  let ?i = "best_index (\<lambda>t. priority (thr t k)) ready"
  have "next_thread_to_run k = Some (ready ! ?i, k \<lparr> READY_LIST := Some (remove_at ?i ready) \<rparr>)"
    using False assms by (simp add: next_thread_to_run_def Let_def)
  moreover have "above_min k ready \<longrightarrow> first_highest k ready ?i"
    using best_index_spec [OF False, of "\<lambda>t. priority (thr t k)"] by (simp add: first_highest_def above_min_def)
  ultimately show ?thesis using False best_index_bound [OF False, of "\<lambda>t. priority (thr t k)"]
    unfolding if_not_P [OF False] by blast
qed

text \<open>A context switch.\<close>

lemma activate_ok:
  assumes "thread_ok (cur k) (thr (cur k) k)" and "PHYS_BASE \<le> INIT_PAGE_DIR k"
  shows "\<exists>c e. activate k = Some (k \<lparr> cr3 := c, esp0 := e \<rparr>)"
proof -
  let ?pd = "if pagedir (thr (cur k) k) = 0 then INIT_PAGE_DIR k else pagedir (thr (cur k) k)"
  have "vtop ?pd = Some (?pd - PHYS_BASE)" using assms by (auto simp: thread_ok_def vtop_def sub_usize_def is_kernel_vaddr_def)
  then have "activate k = Some (k \<lparr> cr3 := ?pd - PHYS_BASE, esp0 := (if TSS_PTR k = 0 then esp0 k else cur k + PGSIZE) \<rparr>)"
    using assms(1) by (simp add: activate_def pd_activate_def tss_update_def running_thread_def add_usize_def thread_ok_def)
  then show ?thesis by blast
qed


lemma schedule_tail_ok:
  assumes "thread_ok (cur k) (thr (cur k) k)" and "PHYS_BASE \<le> INIT_PAGE_DIR k"
    and "prev \<noteq> 0 \<Longrightarrow> prev \<noteq> cur k \<Longrightarrow> status (thr prev k) = Dying \<Longrightarrow> prev = INITIAL_THREAD k \<or> free_page prev (pal k) \<noteq> None"
  shows "\<exists>c e p. schedule_tail prev k = Some ((set_thr (cur k) (\<lambda>th. th \<lparr> status := Running \<rparr>) k) \<lparr> cr3 := c, esp0 := e, pal := p \<rparr>)"
proof -
  let ?k = "set_thr (cur k) (\<lambda>th. th \<lparr> status := Running \<rparr>) k"
  have "thread_ok (cur ?k) (thr (cur ?k) ?k)" "PHYS_BASE \<le> INIT_PAGE_DIR ?k" using assms(1,2) by (simp_all add: thread_ok_def)
  from activate_ok [OF this] obtain c e where a: "activate ?k = Some (?k \<lparr> cr3 := c, esp0 := e \<rparr>)" by blast
  have same: "?k \<lparr> cr3 := c, esp0 := e \<rparr> = ?k \<lparr> cr3 := c, esp0 := e, pal := pal k \<rparr>" by simp
  show ?thesis
  proof (cases "prev \<noteq> 0 \<and> prev \<noteq> cur k \<and> status (thr prev k) = Dying \<and> prev \<noteq> INITIAL_THREAD k")
    case True
    with assms(3) obtain p where "free_page prev (pal k) = Some p" by auto
    with a True show ?thesis by (auto simp: schedule_tail_def running_thread_def)
  next
    case False
    then have "schedule_tail prev k = Some (?k \<lparr> cr3 := c, esp0 := e \<rparr>)"
      using a by (auto simp: schedule_tail_def running_thread_def)
    then show ?thesis using same by metis
  qed
qed

text \<open>What a switch does: some thread \<open>nxt\<close> runs, with its status and the CPU state changed only; it is the
  first of the ready threads of highest priority, or the idle thread if none is ready.\<close>

definition switched :: "'z kern \<Rightarrow> 'z kern \<Rightarrow> bool" where
  "switched k k' \<longleftrightarrow> intr_level k' = Off \<and> ALL_LIST k' = ALL_LIST k \<and> IDLE_THREAD k' = IDLE_THREAD k
     \<and> IN_EXTERNAL_INTR k' = IN_EXTERNAL_INTR k \<and> NEXT_TID k' = NEXT_TID k
     \<and> (\<forall>t. thr t k' = (if t = cur k' then (thr t k) \<lparr> status := Running \<rparr> else thr t k))
     \<and> (\<exists>ready. READY_LIST k = Some ready \<and>
         (if ready = [] then cur k' = IDLE_THREAD k \<and> READY_LIST k' = Some []
          else \<exists>i < length ready. cur k' = ready ! i \<and> READY_LIST k' = Some (remove_at i ready)
            \<and> (above_min k ready \<longrightarrow> first_highest k ready i)))"

lemma schedule_switched:
  assumes wf: "sched_wf k" and off: "intr_level k = Off" and st: "status (thr (cur k) k) \<noteq> Running"
    and dy: "status (thr (cur k) k) = Dying \<Longrightarrow> cur k \<notin> set (the (ALL_LIST k))
      \<and> (cur k = INITIAL_THREAD k \<or> free_page (cur k) (pal k) \<noteq> None)"
  shows "\<exists>k'. schedule k = Some k' \<and> switched k k' \<and> INIT_PAGE_DIR k' = INIT_PAGE_DIR k"
proof -
  from wf obtain ready all where w: "READY_LIST k = Some ready" "ALL_LIST k = Some all" "set ready \<subseteq> set all"
    "\<forall>t \<in> set all. thread_ok t (thr t k)" "IDLE_THREAD k \<in> set all" "PHYS_BASE \<le> INIT_PAGE_DIR k"
    by (auto simp: sched_wf_def)
  from next_thread_spec [OF w(1)] obtain nxt ready' where
    n: "next_thread_to_run k = Some (nxt, k \<lparr> READY_LIST := Some ready' \<rparr>)"
      "if ready = [] then nxt = IDLE_THREAD k \<and> ready' = []
       else \<exists>i < length ready. nxt = ready ! i \<and> ready' = remove_at i ready
         \<and> (above_min k ready \<longrightarrow> first_highest k ready i)" by blast
  have "nxt = IDLE_THREAD k \<or> nxt \<in> set ready" using n(2) nth_mem by (metis (full_types))
  then have nx: "nxt \<in> set all" using w(3,5) by auto
  then have ok: "thread_ok nxt (thr nxt k)" using w(4) by blast
  let ?k = "k \<lparr> READY_LIST := Some ready', THREAD_TICKS := 0, cur := nxt \<rparr>"
  have a: "thread_ok (cur ?k) (thr (cur ?k) ?k)" "PHYS_BASE \<le> INIT_PAGE_DIR ?k" using ok w(6) by simp_all
  have next_ok: "check_thread nxt (k \<lparr> READY_LIST := Some ready' \<rparr>) = Some ()"
    using ok by (simp add: check_thread_def thread_ok_def)
  define prev where "prev = (if cur k = nxt then 0 else cur k)"
  have "schedule k = schedule_tail prev ?k"
    using n(1) off st next_ok by (auto simp: schedule_def prev_def level_defs Let_def)
  moreover have "prev \<noteq> 0 \<Longrightarrow> prev \<noteq> cur ?k \<Longrightarrow> status (thr prev ?k) = Dying
      \<Longrightarrow> prev = INITIAL_THREAD ?k \<or> free_page prev (pal ?k) \<noteq> None"
    using dy by (auto simp: prev_def split: if_splits)
  ultimately have "\<exists>k'. schedule k = Some k' \<and> (\<exists>c e p. k' = (set_thr nxt (\<lambda>th. th \<lparr> status := Running \<rparr>) ?k) \<lparr> cr3 := c, esp0 := e, pal := p \<rparr>)"
    using schedule_tail_ok [OF a, of prev] by auto
  then obtain k' c e p where k': "schedule k = Some k'"
    "k' = (set_thr nxt (\<lambda>th. th \<lparr> status := Running \<rparr>) ?k) \<lparr> cr3 := c, esp0 := e, pal := p \<rparr>" by blast
  with w(1) off n(2) have "switched k k'" by (simp add: switched_def cong: if_cong)
  then show ?thesis using k' by auto
qed


lemma sched_wfE:
  assumes "sched_wf k"
  obtains ready all where "READY_LIST k = Some ready" "ALL_LIST k = Some all" "distinct ready" "set ready \<subseteq> set all"
    "\<forall>t \<in> set ready. status (thr t k) = Ready" "\<forall>t \<in> set all. thread_ok t (thr t k)"
    "\<forall>t \<in> set all. t \<noteq> cur k \<longrightarrow> status (thr t k) \<noteq> Running"
    "\<forall>t \<in> set all. status (thr t k) = Ready \<and> t \<noteq> IDLE_THREAD k \<longrightarrow> t \<in> set ready"
    "IDLE_THREAD k \<in> set all" "PHYS_BASE \<le> INIT_PAGE_DIR k"
  using assms unfolding sched_wf_def by (elim conjE exE) (rule that)

lemma sched_wfI:
  "READY_LIST k = Some ready \<Longrightarrow> ALL_LIST k = Some all \<Longrightarrow> distinct ready \<Longrightarrow> set ready \<subseteq> set all
    \<Longrightarrow> \<forall>t \<in> set ready. status (thr t k) = Ready \<Longrightarrow> \<forall>t \<in> set all. thread_ok t (thr t k)
    \<Longrightarrow> \<forall>t \<in> set all. t \<noteq> cur k \<longrightarrow> status (thr t k) \<noteq> Running
    \<Longrightarrow> \<forall>t \<in> set all. status (thr t k) = Ready \<and> t \<noteq> IDLE_THREAD k \<longrightarrow> t \<in> set ready
    \<Longrightarrow> IDLE_THREAD k \<in> set all \<Longrightarrow> PHYS_BASE \<le> INIT_PAGE_DIR k \<Longrightarrow> sched_wf k"
  unfolding sched_wf_def by (intro conjI exI [of _ ready] exI [of _ all])

lemma thread_ok_status [simp]: "thread_ok t (th \<lparr> status := s \<rparr>) = thread_ok t th"
  by (simp add: thread_ok_def)

lemma switched_inv:
  assumes wf: "sched_wf k" and st: "status (thr (cur k) k) \<noteq> Running"
    and sw: "switched k k'" "INIT_PAGE_DIR k' = INIT_PAGE_DIR k"
  shows "sched_inv k'"
proof -
  from wf obtain ready all where w: "READY_LIST k = Some ready" "ALL_LIST k = Some all" "distinct ready" "set ready \<subseteq> set all"
    "\<forall>t \<in> set ready. status (thr t k) = Ready" "\<forall>t \<in> set all. thread_ok t (thr t k)"
    "\<forall>t \<in> set all. t \<noteq> cur k \<longrightarrow> status (thr t k) \<noteq> Running"
    "\<forall>t \<in> set all. status (thr t k) = Ready \<and> t \<noteq> IDLE_THREAD k \<longrightarrow> t \<in> set ready"
    "IDLE_THREAD k \<in> set all" "PHYS_BASE \<le> INIT_PAGE_DIR k" by (rule sched_wfE)
  obtain ready' where r': "READY_LIST k' = Some ready'" "distinct ready'" "set ready' = set ready - {cur k'}" "cur k' \<in> set all"
  proof (cases "ready = []")
    case True
    with sw(1) w(1,9) have "READY_LIST k' = Some []" "cur k' \<in> set all" by (auto simp: switched_def)
    with True that show thesis by simp
  next
    case False
    with sw(1) w(1) obtain i where i: "i < length ready" "cur k' = ready ! i" "READY_LIST k' = Some (remove_at i ready)"
      by (auto simp: switched_def)
    have "cur k' \<in> set all" using i(1,2) w(4) nth_mem by auto
    with that [OF i(3)] w(3) set_remove_at [OF i(1) w(3)] i(2) show thesis by simp
  qed
  have th: "\<forall>t. thr t k' = (if t = cur k' then (thr t k) \<lparr> status := Running \<rparr> else thr t k)" "ALL_LIST k' = Some all"
    "IDLE_THREAD k' = IDLE_THREAD k" using sw(1) w(2) by (auto simp: switched_def)
  have "\<forall>t \<in> set all. status (thr t k) \<noteq> Running" using w(7) st by auto
  then have run: "\<forall>t \<in> set all. t \<noteq> cur k' \<longrightarrow> status (thr t k') \<noteq> Running" using th(1) by simp
  have rdy: "\<forall>t \<in> set ready'. status (thr t k') = Ready" using th(1) r'(3) w(5) by simp
  have tok: "\<forall>t \<in> set all. thread_ok t (thr t k')" using th(1) w(6) by simp
  have keep: "\<forall>t \<in> set all. status (thr t k') = Ready \<and> t \<noteq> IDLE_THREAD k' \<longrightarrow> t \<in> set ready'"
    using th(1,3) r'(3) w(8) by simp
  have "set ready' \<subseteq> set all" using r'(3) w(4) by auto
  then have "sched_wf k'"
    using r'(1,2) th(2,3) run rdy tok keep w(9,10) sw(2) by (intro sched_wfI [of k' ready' all]) simp_all
  moreover have "status (thr (cur k') k') = Running" using th(1) by simp
  ultimately show ?thesis using r'(4) th(2) by (simp add: sched_inv_def)
qed

lemma schedule_inv:
  assumes "sched_wf k" and "intr_level k = Off" and "status (thr (cur k) k) \<noteq> Running"
    and "status (thr (cur k) k) = Dying \<Longrightarrow> cur k \<notin> set (the (ALL_LIST k))
      \<and> (cur k = INITIAL_THREAD k \<or> free_page (cur k) (pal k) \<noteq> None)"
  shows "\<exists>k'. schedule k = Some k' \<and> switched k k' \<and> sched_inv k'"
  using schedule_switched [OF assms] switched_inv [OF assms(1,3)] by blast

text \<open>The state in which \<open>yield_current\<close> calls \<open>schedule\<close>.\<close>

definition yielding :: "'z kern \<Rightarrow> 'z kern" where
  "yielding k = (set_thr (cur k) (\<lambda>th. th \<lparr> status := Ready \<rparr>) (k \<lparr> intr_level := Off \<rparr>))
     \<lparr> READY_LIST := Some (the (READY_LIST k) @ (if cur k = IDLE_THREAD k then [] else [cur k])) \<rparr>"

lemma yield_ok:
  assumes inv: "sched_inv k"
  shows "\<exists>k'. yield_current k = Some (intr_level k, k') \<and> switched (yielding k) k' \<and> sched_inv k'"
proof -
  from inv have wf: "sched_wf k" and cur: "cur k \<in> set (the (ALL_LIST k))" "status (thr (cur k) k) = Running"
    by (auto simp: sched_inv_def)
  from wf obtain ready all where w: "READY_LIST k = Some ready" "ALL_LIST k = Some all" "distinct ready" "set ready \<subseteq> set all"
    "\<forall>t \<in> set ready. status (thr t k) = Ready" "\<forall>t \<in> set all. thread_ok t (thr t k)"
    "\<forall>t \<in> set all. t \<noteq> cur k \<longrightarrow> status (thr t k) \<noteq> Running"
    "\<forall>t \<in> set all. status (thr t k) = Ready \<and> t \<noteq> IDLE_THREAD k \<longrightarrow> t \<in> set ready"
    "IDLE_THREAD k \<in> set all" "PHYS_BASE \<le> INIT_PAGE_DIR k" by (rule sched_wfE)
  have nr: "cur k \<notin> set ready" using cur(2) w(5) by auto
  let ?r = "ready @ (if cur k = IDLE_THREAD k then [] else [cur k])"
  have y: "READY_LIST (yielding k) = Some ?r" "ALL_LIST (yielding k) = Some all" "cur (yielding k) = cur k"
    "IDLE_THREAD (yielding k) = IDLE_THREAD k" "INIT_PAGE_DIR (yielding k) = INIT_PAGE_DIR k"
    "thr t (yielding k) = (if t = cur k then (thr t k) \<lparr> status := Ready \<rparr> else thr t k)" for t
    using w(1,2) by (simp_all add: yielding_def)
  have "sched_wf (yielding k)"
  proof (rule sched_wfI [OF y(1,2)])
    show "distinct ?r" "set ?r \<subseteq> set all" using w(2-4) nr cur by auto
    show "\<forall>t \<in> set ?r. status (thr t (yielding k)) = Ready" using w(5) by (simp add: y)
    show "\<forall>t \<in> set all. thread_ok t (thr t (yielding k))" using w(6) by (simp add: y)
    show "\<forall>t \<in> set all. t \<noteq> cur (yielding k) \<longrightarrow> status (thr t (yielding k)) \<noteq> Running" using w(7) by (simp add: y)
    show "\<forall>t \<in> set all. status (thr t (yielding k)) = Ready \<and> t \<noteq> IDLE_THREAD (yielding k) \<longrightarrow> t \<in> set ?r"
      using w(8) by (simp add: y)
  qed (use w(9,10) in \<open>simp_all add: y\<close>)
  from schedule_inv [OF this] obtain k' where
    k': "schedule (yielding k) = Some k'" "switched (yielding k) k'" "sched_inv k'" by (auto simp: yielding_def)
  have eq: "yield_current k = do { k' \<leftarrow> schedule (yielding k); Some (intr_level k, k') }"
  proof (cases "cur k = IDLE_THREAD k")
    case True
    have "yielding k = set_thr (cur k) (\<lambda>th. th \<lparr> status := Ready \<rparr>) (k \<lparr> intr_level := Off \<rparr>)"
      using True w(1) by (simp add: yielding_def set_thr_def)
    with True w(1) show ?thesis by (simp add: yield_current_def level_defs Let_def)
  next
    case False
    with w(1) show ?thesis by (simp add: yield_current_def yielding_def level_defs Let_def)
  qed
  show ?thesis unfolding eq k'(1) using k'(2,3) by simp
qed

text \<open>The running thread gives up the CPU without becoming ready.\<close>

lemma stop_wf:
  assumes "sched_wf k" and "status (thr (cur k) k) = Running" and "s \<noteq> Ready"
  shows "sched_wf (set_thr (cur k) (\<lambda>th. th \<lparr> status := s \<rparr>) k)"
proof -
  from assms(1) obtain ready all where w: "READY_LIST k = Some ready" "ALL_LIST k = Some all" "distinct ready" "set ready \<subseteq> set all"
    "\<forall>t \<in> set ready. status (thr t k) = Ready" "\<forall>t \<in> set all. thread_ok t (thr t k)"
    "\<forall>t \<in> set all. t \<noteq> cur k \<longrightarrow> status (thr t k) \<noteq> Running"
    "\<forall>t \<in> set all. status (thr t k) = Ready \<and> t \<noteq> IDLE_THREAD k \<longrightarrow> t \<in> set ready"
    "IDLE_THREAD k \<in> set all" "PHYS_BASE \<le> INIT_PAGE_DIR k" by (rule sched_wfE)
  show ?thesis
  proof (rule sched_wfI [of _ ready all])
    show "\<forall>t \<in> set ready. status (thr t (set_thr (cur k) (\<lambda>th. th \<lparr> status := s \<rparr>) k)) = Ready"
      using w(5) assms(2) by auto
  qed (use w assms(3) in simp_all)
qed

lemma block_ok:
  assumes inv: "sched_inv k" and off: "intr_level k = Off"
  shows "\<exists>k'. block k = Some k' \<and> switched (set_thr (cur k) (\<lambda>th. th \<lparr> status := Blocked \<rparr>) k) k' \<and> sched_inv k'"
proof -
  let ?k = "set_thr (cur k) (\<lambda>th. th \<lparr> status := Blocked \<rparr>) k"
  from inv have wf: "sched_wf k" and run: "status (thr (cur k) k) = Running" by (auto simp: sched_inv_def)
  from stop_wf [OF wf run, of Blocked] have "sched_wf ?k" by simp
  from schedule_inv [OF this] off show ?thesis by (auto simp: block_def level_defs)
qed

lemma exit_ok:
  assumes inv: "sched_inv k" and "cur k \<noteq> IDLE_THREAD k"
    and "cur k = INITIAL_THREAD k \<or> free_page (cur k) (pal k) \<noteq> None"
  shows "\<exists>k'. exit k = Some k' \<and> sched_inv k' \<and> cur k' \<noteq> cur k
    \<and> ALL_LIST k' = Some (filter (\<lambda>t. t \<noteq> cur k) (the (ALL_LIST k)))"
proof -
  let ?k = "set_thr (cur k) (\<lambda>th. th \<lparr> status := Dying \<rparr>)
    (k \<lparr> intr_level := Off, ALL_LIST := Some (filter (\<lambda>t. t \<noteq> cur k) (the (ALL_LIST k))) \<rparr>)"
  from inv have wf: "sched_wf k" and run: "status (thr (cur k) k) = Running" by (auto simp: sched_inv_def)
  from wf obtain ready all where w: "READY_LIST k = Some ready" "ALL_LIST k = Some all" "distinct ready" "set ready \<subseteq> set all"
    "\<forall>t \<in> set ready. status (thr t k) = Ready" "\<forall>t \<in> set all. thread_ok t (thr t k)"
    "\<forall>t \<in> set all. t \<noteq> cur k \<longrightarrow> status (thr t k) \<noteq> Running"
    "\<forall>t \<in> set all. status (thr t k) = Ready \<and> t \<noteq> IDLE_THREAD k \<longrightarrow> t \<in> set ready"
    "IDLE_THREAD k \<in> set all" "PHYS_BASE \<le> INIT_PAGE_DIR k" by (rule sched_wfE)
  have nr: "cur k \<notin> set ready" using run w(5) by auto
  have "sched_wf ?k"
  proof (rule sched_wfI [of _ ready "filter (\<lambda>t. t \<noteq> cur k) all"])
    show "set ready \<subseteq> set (filter (\<lambda>t. t \<noteq> cur k) all)" using w(4) nr by auto
    show "\<forall>t \<in> set ready. status (thr t ?k) = Ready" using w(5) nr by auto
    show "\<forall>t \<in> set (filter (\<lambda>t. t \<noteq> cur k) all). thread_ok t (thr t ?k)" using w(6) by simp
    show "\<forall>t \<in> set (filter (\<lambda>t. t \<noteq> cur k) all). t \<noteq> cur ?k \<longrightarrow> status (thr t ?k) \<noteq> Running" using w(7) by simp
    show "\<forall>t \<in> set (filter (\<lambda>t. t \<noteq> cur k) all). status (thr t ?k) = Ready \<and> t \<noteq> IDLE_THREAD ?k \<longrightarrow> t \<in> set ready"
      using w(8) by simp
  qed (use w(1-3,9,10) assms(2) in simp_all)
  moreover have "intr_level ?k = Off" "status (thr (cur ?k) ?k) \<noteq> Running" by simp_all
  moreover have "cur ?k \<notin> set (the (ALL_LIST ?k)) \<and> (cur ?k = INITIAL_THREAD ?k \<or> free_page (cur ?k) (pal ?k) \<noteq> None)"
    using assms(3) by simp
  ultimately obtain k' where k': "schedule ?k = Some k'" "switched ?k k'" "sched_inv k'"
    using schedule_inv [of ?k] by blast
  have "exit k = schedule ?k" using w(2) by (simp add: exit_def level_defs Let_def)
  moreover have all': "ALL_LIST k' = Some (filter (\<lambda>t. t \<noteq> cur k) (the (ALL_LIST k)))"
    using k'(2) unfolding switched_def by simp
  moreover have "cur k' \<noteq> cur k" using k'(3) unfolding sched_inv_def all' by simp
  ultimately show ?thesis using k'(1,3) by (intro exI [of _ k']) simp
qed

text \<open>The state after \<open>unblock\<close> made a thread ready.\<close>

definition readied :: "nat \<Rightarrow> 'z kern \<Rightarrow> 'z kern" where
  "readied t k = (set_thr t (\<lambda>th. th \<lparr> status := Ready \<rparr>) k) \<lparr> READY_LIST := Some (the (READY_LIST k) @ [t]) \<rparr>"

lemma readied_inv:
  assumes "sched_inv k" and "t \<in> set (the (ALL_LIST k))" and "status (thr t k) = Blocked"
  shows "sched_inv (readied t k)"
proof -
  from assms(1) have wf: "sched_wf k" and run: "status (thr (cur k) k) = Running" "cur k \<in> set (the (ALL_LIST k))"
    by (auto simp: sched_inv_def)
  from wf obtain ready all where w: "READY_LIST k = Some ready" "ALL_LIST k = Some all" "distinct ready" "set ready \<subseteq> set all"
    "\<forall>t \<in> set ready. status (thr t k) = Ready" "\<forall>t \<in> set all. thread_ok t (thr t k)"
    "\<forall>t \<in> set all. t \<noteq> cur k \<longrightarrow> status (thr t k) \<noteq> Running"
    "\<forall>t \<in> set all. status (thr t k) = Ready \<and> t \<noteq> IDLE_THREAD k \<longrightarrow> t \<in> set ready"
    "IDLE_THREAD k \<in> set all" "PHYS_BASE \<le> INIT_PAGE_DIR k" by (rule sched_wfE)
  have ne: "t \<noteq> cur k" "t \<notin> set ready" using assms(3) run w(5) by auto
  have "sched_wf (readied t k)"
    by (rule sched_wfI [of _ "ready @ [t]" all]) (use w ne assms(2) in \<open>simp_all add: readied_def\<close>)
  then show ?thesis using run ne by (simp add: sched_inv_def readied_def)
qed

lemma unblock_ok:
  assumes inv: "sched_inv k" and t: "t \<in> set (the (ALL_LIST k))" "status (thr t k) = Blocked"
  shows "\<exists>p k'. unblock t k = Some (p, k') \<and> sched_inv k'
    \<and> (if \<not> IN_EXTERNAL_INTR k \<and> priority (thr t k) > priority (thr (cur k) k)
       then p = Some (intr_level k) \<and> switched (yielding (readied t k)) k' else p = None \<and> k' = readied t k)"
proof -
  note r = readied_inv [OF assms]
  obtain ready where ready: "READY_LIST k = Some ready" using inv unfolding sched_inv_def sched_wf_def by blast
  have ne: "t \<noteq> cur k" using inv t(2) by (auto simp: sched_inv_def)
  let ?k = "(set_thr t (\<lambda>th. th \<lparr> status := Ready \<rparr>) (k \<lparr> intr_level := Off \<rparr>)) \<lparr> READY_LIST := Some (ready @ [t]) \<rparr>"
  have lv: "?k \<lparr> intr_level := intr_level k \<rparr> = readied t k" using ready by (simp add: readied_def set_thr_def)
  have eq: "unblock t k = (if \<not> IN_EXTERNAL_INTR k \<and> priority (thr t k) > priority (thr (cur k) k)
      then do { (old, k') \<leftarrow> yield_current (readied t k); Some (Some old, k') } else Some (None, readied t k))"
    using ready t(2) ne by (simp add: unblock_def level_defs Let_def flip: lv)
  obtain k' where k': "yield_current (readied t k) = Some (intr_level k, k')"
    "switched (yielding (readied t k)) k'" "sched_inv k'" using yield_ok [OF r] by (auto simp: readied_def)
  show ?thesis unfolding eq k'(1) using k'(2,3) r by simp
qed


text \<open>Changes that touch neither the lists nor the status, the magic number or the page directory of a
  thread keep the invariant.\<close>

definition same_sched :: "'z kern \<Rightarrow> 'z kern \<Rightarrow> bool" where
  "same_sched k k' \<longleftrightarrow> READY_LIST k' = READY_LIST k \<and> ALL_LIST k' = ALL_LIST k \<and> cur k' = cur k
     \<and> IDLE_THREAD k' = IDLE_THREAD k \<and> INIT_PAGE_DIR k' = INIT_PAGE_DIR k
     \<and> (\<forall>t. status (thr t k') = status (thr t k) \<and> magic (thr t k') = magic (thr t k) \<and> pagedir (thr t k') = pagedir (thr t k))"

lemma same_sched_inv: "same_sched k k' \<Longrightarrow> sched_inv k \<Longrightarrow> sched_inv k'"
  unfolding same_sched_def sched_inv_def sched_wf_def thread_ok_def by (elim conjE) (simp only: simp_thms)

lemma same_sched_refl: "same_sched k k"
  by (simp add: same_sched_def)

lemma same_sched_trans: "same_sched k k1 \<Longrightarrow> same_sched k1 k2 \<Longrightarrow> same_sched k k2"
  by (simp add: same_sched_def)

lemma same_sched_set:
  "(\<And>th. status (f th) = status th \<and> magic (f th) = magic th \<and> pagedir (f th) = pagedir th) \<Longrightarrow> same_sched k (set_thr t f k)"
  by (simp add: same_sched_def)

lemma same_sched_donate: "same_sched k (donate_loop h n t p k)"
proof (induction n arbitrary: t k)
  case (Suc n)
  let ?k = "set_thr t (\<lambda>th. th \<lparr> priority := p \<rparr>) k"
  have "same_sched k ?k" by (rule same_sched_set) simp
  from same_sched_trans [OF this Suc.IH] this show ?case
    by (simp add: Let_def same_sched_refl)
qed (simp add: same_sched_refl)

lemma same_sched_deliver: "same_sched k (deliver_signal t sig k)"
  by (simp add: deliver_signal_def Let_def same_sched_set same_sched_refl)

lemma same_sched_pgid:
  "same_sched k (fold (\<lambda>t k. if pagedir (thr t k) \<noteq> 0 \<and> pgid (thr t k) = pg then deliver_signal t sig k else k) ts k)"
proof (induction ts arbitrary: k)
  case (Cons t ts)
  have "same_sched k (if pagedir (thr t k) \<noteq> 0 \<and> pgid (thr t k) = pg then deliver_signal t sig k else k)"
    by (simp add: same_sched_deliver same_sched_refl)
  from same_sched_trans [OF this Cons.IH] show ?case by simp
qed (simp add: same_sched_refl)

subsection \<open>Creating a thread\<close>

lemma create_ok:
  assumes inv: "sched_inv k" and page: "get_page {ZERO} (pal k) = Some (page, p)" "page \<noteq> 0"
      "page \<notin> set (the (ALL_LIST k))" "page + PGSIZE < 2 ^ 32"
    and n: "NEXT_TID k < 2 ^ 31 - 1" "- (2 ^ 31) \<le> NEXT_TID k"
  shows "\<exists>pre k'. thread_create se kt name pri fn aux k = Some (NEXT_TID k, pre, k') \<and> sched_inv k'
    \<and> ALL_LIST k' = Some (the (ALL_LIST k) @ [page]) \<and> NEXT_TID k' = NEXT_TID k + 1
    \<and> tid (thr page k') = NEXT_TID k \<and> pgid (thr page k') = 0 \<and> priority (thr page k') = pri
    \<and> frames (thr page k') = initial_frames se kt fn aux \<and> stack (thr page k') = page + PGSIZE - 44"
proof -
  from inv have wf: "sched_wf k" and run: "status (thr (cur k) k) = Running" "cur k \<in> set (the (ALL_LIST k))"
    by (auto simp: sched_inv_def)
  from wf obtain ready all where w: "READY_LIST k = Some ready" "ALL_LIST k = Some all" "distinct ready" "set ready \<subseteq> set all"
    "\<forall>t \<in> set ready. status (thr t k) = Ready" "\<forall>t \<in> set all. thread_ok t (thr t k)"
    "\<forall>t \<in> set all. t \<noteq> cur k \<longrightarrow> status (thr t k) \<noteq> Running"
    "\<forall>t \<in> set all. status (thr t k) = Ready \<and> t \<noteq> IDLE_THREAD k \<longrightarrow> t \<in> set ready"
    "IDLE_THREAD k \<in> set all" "PHYS_BASE \<le> INIT_PAGE_DIR k" by (rule sched_wfE)
  define fs where "fs = initial_frames se kt fn aux"
  define th where "th = (let len = min (length name) 15 in zero_thread \<lparr> status := Blocked,
           t_name := (take len name @ drop len (t_name zero_thread))[len := 0],
           stack := page + PGSIZE - 4 * length fs, priority := pri, original_priority := pri, pagedir := 0, fd_table := 0,
           waiting_on_lock := 0, cwd_sector := 1, brk := 0, parent_tid := 0, killed := False,
           pgid := 0, sig_pending := 0, sig_ignore := 0, magic := THREAD_MAGIC, tid := NEXT_TID k, frames := fs \<rparr>)"
  let ?k = "k \<lparr> pal := p, threads := (threads k)(page := th), NEXT_TID := NEXT_TID k + 1, ALL_LIST := Some (all @ [page]) \<rparr>"
  have th: "status th = Blocked" "magic th = THREAD_MAGIC" "pagedir th = 0" "tid th = NEXT_TID k" "pgid th = 0"
    "priority th = pri" "frames th = fs" "stack th = page + PGSIZE - 44"
    by (simp_all add: th_def Let_def fs_def initial_frames_def)
  have t': "thr t ?k = (if t = page then th else thr t k)" for t by (simp add: thr_def)
  have fresh: "page \<notin> set all" "page \<noteq> cur k" "page \<notin> set ready" using page(3) w(2,4) run(2) by auto
  have "sched_wf ?k"
  proof (rule sched_wfI [of _ ready "all @ [page]"])
    show "\<forall>t \<in> set ready. status (thr t ?k) = Ready" unfolding t' using w(5) fresh(3) by auto
    show "\<forall>t \<in> set (all @ [page]). thread_ok t (thr t ?k)"
      unfolding t' using w(6) fresh(1) th page(2,4) by (auto simp: thread_ok_def)
    show "\<forall>t \<in> set (all @ [page]). t \<noteq> cur ?k \<longrightarrow> status (thr t ?k) \<noteq> Running" unfolding t' using w(7) th(1) by auto
    show "\<forall>t \<in> set (all @ [page]). status (thr t ?k) = Ready \<and> t \<noteq> IDLE_THREAD ?k \<longrightarrow> t \<in> set ready"
      unfolding t' using w(8) th(1) by auto
  qed (use w in auto)
  then have inv': "sched_inv ?k" using run w(2) fresh(2) by (simp add: sched_inv_def thr_def)
  have "status (thr page ?k) = Blocked" unfolding t' by (simp add: th(1))
  from unblock_ok [OF inv' _ this] obtain pre k' where
    u: "unblock page ?k = Some (pre, k')" "sched_inv k'" "if \<not> IN_EXTERNAL_INTR ?k \<and> priority (thr page ?k) > priority (thr (cur ?k) ?k)
       then pre = Some (intr_level ?k) \<and> switched (yielding (readied page ?k)) k' else pre = None \<and> k' = readied page ?k" by auto
  have "NEXT_TID k' = NEXT_TID k + 1 \<and> ALL_LIST k' = Some (all @ [page])
      \<and> (\<exists>s. thr page k' = th \<lparr> status := s \<rparr>)"
  proof (cases "\<not> IN_EXTERNAL_INTR ?k \<and> priority (thr page ?k) > priority (thr (cur ?k) ?k)")
    case True
    then have "switched (yielding (readied page ?k)) k'" using u(3) by (simp only: if_True simp_thms)
    moreover have "thr page (yielding (readied page ?k)) = th \<lparr> status := Ready \<rparr>"
      using fresh(2) by (simp add: yielding_def readied_def thr_def set_thr_def)
    moreover have "NEXT_TID (yielding (readied page ?k)) = NEXT_TID k + 1" "ALL_LIST (yielding (readied page ?k)) = Some (all @ [page])"
      by (simp_all add: yielding_def readied_def)
    ultimately show ?thesis unfolding switched_def by auto
  next
    case False
    then have "k' = readied page ?k" using u(3) by (simp only: if_False simp_thms)
    then show ?thesis by (auto simp: readied_def thr_def set_thr_def)
  qed
  moreover have "thread_create se kt name pri fn aux k = Some (NEXT_TID k, pre, k')"
  proof -
    have "?k = (set_thr page (\<lambda>th. th \<lparr> tid := NEXT_TID k, frames := fs, stack := page + PGSIZE - 4 * length fs \<rparr>)
        ((init_thread page name pri (set_thr page (\<lambda>_. zero_thread) (k \<lparr> pal := p \<rparr>))) \<lparr> NEXT_TID := NEXT_TID k + 1 \<rparr>))
        \<lparr> ALL_LIST := Some (all @ [page]) \<rparr>"
      by (simp add: init_thread_def set_thr_def th_def Let_def zero_thread_def)
    with u(1) page(1,2) n w(2) show ?thesis
      by (simp add: thread_create_def allocate_tid_def add_i32_def chk_i32_def in_i32_def Let_def init_thread_def fs_def [symmetric])
  qed
  ultimately show ?thesis using u(2) w(2) th by (auto simp: fs_def)
qed


section \<open>The scheduler keeps its invariant\<close>

text \<open>One operation of the thread layer. \<open>create\<close> and \<open>exit\<close> name what the page allocator does: it hands out a
  page that is no thread yet, and takes back the page of the thread that ends.\<close>

inductive sched_step :: "'z kern \<Rightarrow> 'z kern \<Rightarrow> bool" where
  step_yield: "yield_current k = Some (l, k') \<Longrightarrow> sched_step k k'"
| step_block: "intr_level k = Off \<Longrightarrow> block k = Some k' \<Longrightarrow> sched_step k k'"
| step_unblock: "t \<in> set (the (ALL_LIST k)) \<Longrightarrow> status (thr t k) = Blocked \<Longrightarrow> unblock t k = Some (p, k') \<Longrightarrow> sched_step k k'"
| step_exit: "cur k \<noteq> IDLE_THREAD k \<Longrightarrow> cur k = INITIAL_THREAD k \<or> free_page (cur k) (pal k) \<noteq> None
    \<Longrightarrow> exit k = Some k' \<Longrightarrow> sched_step k k'"
| step_create: "get_page {ZERO} (pal k) = Some (page, p) \<Longrightarrow> page \<noteq> 0 \<Longrightarrow> page \<notin> set (the (ALL_LIST k))
    \<Longrightarrow> page + PGSIZE < 2 ^ 32 \<Longrightarrow> NEXT_TID k < 2 ^ 31 - 1 \<Longrightarrow> - (2 ^ 31) \<le> NEXT_TID k
    \<Longrightarrow> thread_create se kt name pri fn aux k = Some (n, pre, k') \<Longrightarrow> sched_step k k'"
| step_tick: "tick k = Some k' \<Longrightarrow> sched_step k k'"
| step_set_priority: "set_priority pri k = Some (p, k') \<Longrightarrow> sched_step k k'"
| step_donate: "sched_step k (donate_priority h t pri k)"
| step_restore: "sched_step k (restore_priority k)"
| step_signal: "send_signal n sig k = Some (b, k') \<Longrightarrow> sched_step k k'"
| step_signal_pgid: "send_signal_pgid pg sig k = Some k' \<Longrightarrow> sched_step k k'"
| step_level: "intr_set_level l k = (l', k') \<Longrightarrow> sched_step k k'"

inductive_cases sched_stepE: "sched_step k k'"

lemma same_sched_tick: "tick k = Some k' \<Longrightarrow> same_sched k k'"
  by (auto simp: tick_def same_sched_def Let_def intr_yield_on_return_def split: option.splits if_splits bind_splits)

lemma same_sched_level: "intr_set_level l k = (l', k') \<Longrightarrow> same_sched k k'"
  by (auto simp: level_defs same_sched_def split: intr_level.splits)

lemma same_sched_signal: "send_signal n sig k = Some (b, k') \<Longrightarrow> same_sched k k'"
  by (auto simp: send_signal_def same_sched_refl same_sched_deliver split: option.splits if_splits bind_splits)

lemma same_sched_signal_pgid: "send_signal_pgid pg sig k = Some k' \<Longrightarrow> same_sched k k'"
  by (auto simp: send_signal_pgid_def same_sched_refl same_sched_pgid [simplified] split: option.splits if_splits bind_splits)

lemma same_sched_restore: "same_sched k (restore_priority k)"
  by (simp add: restore_priority_def same_sched_set)

lemma set_priority_inv:
  assumes "sched_inv k" and "set_priority pri k = Some (p, k')" shows "sched_inv k'"
proof -
  let ?k = "set_thr (cur k) (\<lambda>th. th \<lparr> priority := pri, original_priority := pri \<rparr>) k"
  have k: "sched_inv ?k" using same_sched_inv [OF same_sched_set assms(1)] by simp
  have "p = None \<and> k' = ?k \<or> (\<exists>l. yield_current ?k = Some (l, k'))"
    using assms(2) by (auto simp: set_priority_def yield_if_not_highest_def running_thread_def Let_def
      split: option.splits if_splits bind_splits)
  with yield_ok [OF k] k show ?thesis by auto
qed

lemma sched_step_inv: "sched_step k k' \<Longrightarrow> sched_inv k \<Longrightarrow> sched_inv k'"
proof (induction rule: sched_step.induct)
  case (step_yield k l k')
  with yield_ok show ?case by fastforce
next
  case (step_block k k')
  with block_ok show ?case by fastforce
next
  case (step_unblock t k p k')
  from unblock_ok [OF step_unblock.prems step_unblock.hyps(1,2)] step_unblock.hyps(3) show ?case by auto
next
  case (step_exit k k')
  with exit_ok show ?case by fastforce
next
  case (step_create k page p se kt name pri fn aux n pre k')
  from create_ok [OF step_create.prems step_create.hyps(1-6)] step_create.hyps(7) show ?case by (metis option.inject prod.inject)
next
  case (step_set_priority pri k p k')
  then show ?case using set_priority_inv by blast
next
  case (step_donate k h t pri)
  then show ?case unfolding donate_priority_def by (rule same_sched_inv [OF same_sched_donate])
qed (blast intro: same_sched_inv same_sched_tick same_sched_level same_sched_signal same_sched_signal_pgid
    same_sched_restore)+


text \<open>The shape of the list of candidates when the running thread yields.\<close>

definition candidates :: "'z kern \<Rightarrow> nat list" where
  "candidates k = the (READY_LIST k) @ (if cur k = IDLE_THREAD k then [] else [cur k])"

lemma yielding_priority: "priority (thr t (yielding k)) = priority (thr t k)"
  by (simp add: yielding_def thr_def set_thr_def)

lemma yielding_choice:
  "first_highest (yielding k) ts i \<longleftrightarrow> first_highest k ts i" "above_min (yielding k) ts \<longleftrightarrow> above_min k ts"
  by (simp_all add: first_highest_def above_min_def yielding_priority)

subsection \<open>Priority donation\<close>

text \<open>Every thread of the chain waits on a lock that the next one holds; the last one waits on none.\<close>

fun wait_chain :: "(nat \<Rightarrow> nat) \<Rightarrow> 'z kern \<Rightarrow> nat list \<Rightarrow> bool" where
  "wait_chain h k [] \<longleftrightarrow> True"
| "wait_chain h k [t] \<longleftrightarrow> waiting_on_lock (thr t k) = 0"
| "wait_chain h k (t # u # ts) \<longleftrightarrow> waiting_on_lock (thr t k) \<noteq> 0 \<and> h (waiting_on_lock (thr t k)) = u \<and> wait_chain h k (u # ts)"

lemma wait_chain_set_priority: "wait_chain h (set_thr t (\<lambda>th. th \<lparr> priority := p \<rparr>) k) ts = wait_chain h k ts"
  by (induction h k ts rule: wait_chain.induct) (simp_all add: thr_def set_thr_def)

lemma donate_chain:
  "ts \<noteq> [] \<Longrightarrow> length ts \<le> n \<Longrightarrow> distinct ts \<Longrightarrow> 0 \<notin> set ts \<Longrightarrow> wait_chain h k ts
    \<Longrightarrow> \<forall>t \<in> set ts. priority (thr t k) < p
    \<Longrightarrow> thr t (donate_loop h n (hd ts) p k) = (if t \<in> set ts then (thr t k) \<lparr> priority := p \<rparr> else thr t k)"
proof (induction ts arbitrary: n k)
  case (Cons u ts)
  then obtain m where n: "n = Suc m" by (cases n) auto
  let ?k = "set_thr u (\<lambda>th. th \<lparr> priority := p \<rparr>) k"
  have u: "u \<noteq> 0" "priority (thr u k) < p" using Cons.prems by auto
  have w: "waiting_on_lock (thr u ?k) = waiting_on_lock (thr u k)" by (simp add: thr_def set_thr_def)
  show ?case
  proof (cases ts)
    case Nil
    with Cons.prems u n show ?thesis by (simp add: thr_def set_thr_def)
  next
    case ts: (Cons v vs)
    have c: "wait_chain h ?k ts" "waiting_on_lock (thr u k) \<noteq> 0" "h (waiting_on_lock (thr u k)) = hd ts"
      using Cons.prems(5) unfolding ts by (simp_all add: wait_chain_set_priority)
    have "\<forall>t \<in> set ts. priority (thr t ?k) < p" using Cons.prems(3,6) by auto
    with Cons.IH [of m ?k] Cons.prems(2-4) n ts c(1)
    have "thr t (donate_loop h m (hd ts) p ?k) = (if t \<in> set ts then (thr t ?k) \<lparr> priority := p \<rparr> else thr t ?k)"
      by simp
    moreover have "donate_loop h n (hd (u # ts)) p k = donate_loop h m (hd ts) p ?k" using u w c(2,3) by (simp add: n Let_def)
    ultimately show ?thesis using Cons.prems(3) by auto
  qed
qed simp

subsection \<open>Signals\<close>

text \<open>The signal ends the thread: \<open>SIGKILL\<close> always, another one unless it is ignored or \<open>SIGCHLD\<close>.\<close>

definition fatal :: "nat \<Rightarrow> thread \<Rightarrow> bool" where
  "fatal sig th \<longleftrightarrow> sig = SIGKILL \<or> \<not> bit (sig_ignore th) sig \<and> sig \<noteq> SIGCHLD"

lemma and_mask_bit: "n < 32 \<Longrightarrow> (w :: 32 word) AND push_bit n 1 \<noteq> 0 \<longleftrightarrow> bit w n"
  by (simp add: and_exp_eq_0_iff_not_bit flip: push_bit_eq_mult)

lemma deliver_signal_thr:
  "sig < 32 \<Longrightarrow> thr t (deliver_signal u sig k)
     = (if t = u then (thr t k) \<lparr> killed := killed (thr t k) \<or> fatal sig (thr t k) \<rparr> else thr t k)"
  using and_mask_bit [of sig "sig_ignore (thr u k)"]
  by (auto simp: deliver_signal_def fatal_def Let_def thr_def set_thr_def)

lemma fold_deliver_thr:
  "sig < 32 \<Longrightarrow> thr t (fold (\<lambda>t k. if pagedir (thr t k) \<noteq> 0 \<and> pgid (thr t k) = pg then deliver_signal t sig k else k) ts k)
     = (if t \<in> set ts \<and> pagedir (thr t k) \<noteq> 0 \<and> pgid (thr t k) = pg
        then (thr t k) \<lparr> killed := killed (thr t k) \<or> fatal sig (thr t k) \<rparr> else thr t k)"
proof (induction ts arbitrary: k)
  case (Cons u ts)
  let ?k = "if pagedir (thr u k) \<noteq> 0 \<and> pgid (thr u k) = pg then deliver_signal u sig k else k"
  have k: "thr t ?k = (if t = u \<and> pagedir (thr t k) \<noteq> 0 \<and> pgid (thr t k) = pg
      then (thr t k) \<lparr> killed := killed (thr t k) \<or> fatal sig (thr t k) \<rparr> else thr t k)"
    by (auto simp: deliver_signal_thr [OF Cons.prems])
  have "thr t (fold (\<lambda>t k. if pagedir (thr t k) \<noteq> 0 \<and> pgid (thr t k) = pg then deliver_signal t sig k else k) ts ?k)
     = (if t \<in> set ts \<and> pagedir (thr t ?k) \<noteq> 0 \<and> pgid (thr t ?k) = pg
        then (thr t ?k) \<lparr> killed := killed (thr t ?k) \<or> fatal sig (thr t ?k) \<rparr> else thr t ?k)"
    by (rule Cons.IH [OF Cons.prems])
  also have "\<dots> = (if t \<in> set (u # ts) \<and> pagedir (thr t k) \<noteq> 0 \<and> pgid (thr t k) = pg
        then (thr t k) \<lparr> killed := killed (thr t k) \<or> fatal sig (thr t k) \<rparr> else thr t k)"
    unfolding k by (auto simp: fatal_def)
  finally show ?case by simp
qed simp


section \<open>Properties\<close>

text \<open>A small kernel state: the initial thread runs at priority 31, the idle thread is at
  \<open>0xC0102000\<close>, two threads of priority 40 are ready, and a fifth is blocked.\<close>

definition sample_threads :: "nat \<Rightarrow> thread" where
  "sample_threads t =
     (let th = zero_thread \<lparr> magic := THREAD_MAGIC \<rparr>
      in if t = 0xC0101000 then th \<lparr> tid := 1, status := Running, priority := 31, original_priority := 31, pagedir := 0xC0109000, pgid := 7 \<rparr>
         else if t = 0xC0102000 then th \<lparr> tid := 2, status := Blocked \<rparr>
         else if t = 0xC0103000 then th \<lparr> tid := 3, status := Ready, priority := 40, original_priority := 40, waiting_on_lock := 8 \<rparr>
         else if t = 0xC0104000 then th \<lparr> tid := 4, status := Ready, priority := 40, original_priority := 40 \<rparr>
         else th \<lparr> tid := 5, status := Blocked, priority := 50, original_priority := 50 \<rparr>)"

definition sample_kernel :: kernel where
  "sample_kernel = \<lparr> pal = sample_palloc, threads = sample_threads, READY_LIST = Some [0xC0103000, 0xC0104000],
     ALL_LIST = Some [0xC0101000, 0xC0102000, 0xC0103000, 0xC0104000, 0xC0105000], IDLE_THREAD = 0xC0102000,
     INITIAL_THREAD = 0xC0101000, THREAD_TICKS = 0, NEXT_TID = 6, cur = 0xC0101000, intr_level = On,
     YIELD_ON_RETURN = False, IN_EXTERNAL_INTR = False, INIT_PAGE_DIR = 0xC0100000, cr3 = 0, TSS_PTR = 0, esp0 = 0 \<rparr>"

lemma sample_kernel_inv: "sched_inv sample_kernel"
  by (simp add: sched_inv_def sched_wf_def thread_ok_def sample_kernel_def sample_threads_def thr_def zero_thread_def
      PHYS_BASE_def PGSIZE_def Let_def)

lemma sample_get_page: "\<exists>i p. get_page {ZERO} sample_palloc = Some (0xC0200000 + i * PGSIZE, p) \<and> i < 8"
proof -
  have "run_at (used sample_palloc False) False 3 1"
    by (simp add: run_at_Suc used_def the_pool_def sample_palloc_def array_bit_def)
  moreover have "npages sample_palloc False = 8" by (simp add: npages_def the_pool_def sample_palloc_def)
  ultimately have "\<not> first_fit (used sample_palloc False) (npages sample_palloc False) False 1 0 None"
    using first_fit_noneD [OF _ le0] by fastforce
  with get_multiple_spec [OF sample_palloc_ok, of 1 False "{ZERO}"] \<open>npages sample_palloc False = 8\<close> show ?thesis
    by (auto simp: get_page_def first_fit_def the_pool_def sample_palloc_def)
qed

text \<open>C5: Whatever sequence of thread operations runs (yield, block, unblock, exit, create, timer tick, priority changes,
  donation, signals, switching interrupts on and off), the scheduler keeps its invariant: exactly the current thread is
  \<open>Running\<close>, the ready list holds without repetition exactly the \<open>Ready\<close> threads other than idle, every listed
  thread is on the list of all threads and its page carries the magic number.\<close>

theorem scheduler_invariant:
  assumes "sched_inv k" and "sched_step\<^sup>*\<^sup>* k k'"
  shows "sched_inv k'"
  using assms(2,1) by (induction rule: rtranclp_induct) (auto intro: sched_step_inv)

theorem scheduler_invariant_witness:
  "sched_inv (sample_kernel \<lparr> THREAD_TICKS := 1, intr_level := Off \<rparr>)"
proof (rule scheduler_invariant [OF sample_kernel_inv])
  have "sched_step sample_kernel (sample_kernel \<lparr> THREAD_TICKS := 1 \<rparr>)"
    by (rule step_tick) (simp add: tick_def sample_kernel_def arith_defs TIME_SLICE_def Let_def)
  moreover have "sched_step (sample_kernel \<lparr> THREAD_TICKS := 1 \<rparr>) (sample_kernel \<lparr> THREAD_TICKS := 1, intr_level := Off \<rparr>)"
    by (rule step_level [of Off _ On]) (simp add: level_defs sample_kernel_def)
  ultimately show "sched_step\<^sup>*\<^sup>* sample_kernel (sample_kernel \<lparr> THREAD_TICKS := 1, intr_level := Off \<rparr>)" by simp
qed

text \<open>C23: \<open>yield_current\<close> never panics in a state that satisfies the scheduler's invariant, returns the interrupt level
  to restore, and runs the first thread of the highest priority among the ready ones and the one that yields (which
  queues behind the others); with no candidate the idle thread runs.\<close>

theorem yield_runs_highest:
  assumes "sched_inv k" and "above_min k (candidates k)"
  shows "\<exists>k'. yield_current k = Some (intr_level k, k') \<and> sched_inv k'
     \<and> (if candidates k = [] then cur k' = IDLE_THREAD k
        else \<exists>i < length (candidates k). first_highest k (candidates k) i \<and> cur k' = candidates k ! i
               \<and> READY_LIST k' = Some (remove_at i (candidates k)))"
proof -
  from yield_ok [OF assms(1)] obtain k' where k': "yield_current k = Some (intr_level k, k')"
    "switched (yielding k) k'" "sched_inv k'" by blast
  have c: "READY_LIST (yielding k) = Some (candidates k)" by (simp add: yielding_def candidates_def)
  have "IDLE_THREAD (yielding k) = IDLE_THREAD k" by (simp add: yielding_def)
  with k'(2) assms(2) have "if candidates k = [] then cur k' = IDLE_THREAD k
        else \<exists>i < length (candidates k). first_highest k (candidates k) i \<and> cur k' = candidates k ! i
               \<and> READY_LIST k' = Some (remove_at i (candidates k))"
    unfolding switched_def c by (auto simp: yielding_choice)
  with k' show ?thesis by blast
qed

theorem yield_runs_highest_witness:
  "\<exists>k'. yield_current sample_kernel = Some (intr_level sample_kernel, k') \<and> sched_inv k'
     \<and> (if candidates sample_kernel = [] then cur k' = IDLE_THREAD sample_kernel
        else \<exists>i < length (candidates sample_kernel). first_highest sample_kernel (candidates sample_kernel) i
               \<and> cur k' = candidates sample_kernel ! i \<and> READY_LIST k' = Some (remove_at i (candidates sample_kernel)))"
  by (rule yield_runs_highest [OF sample_kernel_inv])
    (simp add: above_min_def candidates_def sample_kernel_def sample_threads_def thr_def zero_thread_def Let_def)



text \<open>C26: Donation reaches every thread of a chain of at most eight lock holders whose priorities are lower than the
  donated one, each waiting on a lock that the next holds, and changes nothing else.\<close>

theorem donate_priority_chain:
  assumes "ts \<noteq> []" and "length ts \<le> 8" and "distinct ts" and "0 \<notin> set ts"
    and "wait_chain holder_of k ts" and "\<forall>t \<in> set ts. priority (thr t k) < p"
  shows "thr t (donate_priority holder_of (hd ts) p k)
    = (if t \<in> set ts then (thr t k) \<lparr> priority := p \<rparr> else thr t k)"
  unfolding donate_priority_def by (rule donate_chain [OF assms])

theorem donate_priority_chain_witness:
  "thr 0xC0101000 (donate_priority (\<lambda>_. 0xC0101000) (hd [0xC0103000, 0xC0101000]) 50
        (sample_kernel :: kernel))
    = (if (0xC0101000 :: nat) \<in> set [0xC0103000, 0xC0101000] then (thr 0xC0101000 sample_kernel) \<lparr> priority := 50 \<rparr>
       else thr 0xC0101000 sample_kernel)"
  by (rule donate_priority_chain)
    (simp_all add: sample_kernel_def sample_threads_def thr_def zero_thread_def Let_def)

text \<open>A signal to a process group marks exactly the user processes of the group as killed, \<open>SIGKILL\<close> even when
  ignored, any other signal unless it is ignored or \<open>SIGCHLD\<close>, and changes no other thread and no other field.\<close>

theorem send_signal_pgid_correct:
  assumes "ALL_LIST k = Some all" and "0 < sig" and "sig \<le> 31"
  shows "\<exists>k'. send_signal_pgid pg sig k = Some k'
     \<and> (\<forall>t. thr t k' = (if t \<in> set all \<and> pagedir (thr t k) \<noteq> 0 \<and> pgid (thr t k) = pg
          then (thr t k) \<lparr> killed := killed (thr t k) \<or> fatal sig (thr t k) \<rparr> else thr t k))"
proof -
  have "sig < 32" using assms(3) by simp
  from fold_deliver_thr [OF this, of _ pg all k] assms show ?thesis by (simp add: send_signal_pgid_def)
qed

theorem send_signal_pgid_correct_witness:
  "\<exists>k'. send_signal_pgid 7 2 sample_kernel = Some k'
     \<and> (\<forall>t. thr t k' = (if t \<in> set [0xC0101000, 0xC0102000, 0xC0103000, 0xC0104000, 0xC0105000]
            \<and> pagedir (thr t sample_kernel) \<noteq> 0 \<and> pgid (thr t sample_kernel) = 7
          then (thr t sample_kernel) \<lparr> killed := killed (thr t sample_kernel) \<or> fatal 2 (thr t sample_kernel) \<rparr>
          else thr t sample_kernel))"
  by (rule send_signal_pgid_correct) (simp_all add: sample_kernel_def)

end
