(* ===== verification/Ring.thy ===== *)
theory Ring
  imports Prelude
begin

section \<open>Ring buffers and byte streams\<close>

text \<open>
  What the kernel pipe and the console input buffer share: a fixed array addressed by counters that only grow,
  read modulo the size. \<open>ring\<close> is the list of the elements between two counters. The locale \<open>stream_queue\<close> is the
  contract of both with their clients; \<open>stream\<close> says that whatever is put in comes out in order, nothing lost and
  nothing twice.
\<close>

definition ring :: "nat \<Rightarrow> 'a list \<Rightarrow> nat \<Rightarrow> nat \<Rightarrow> 'a list" where
  "ring N b r w = map (\<lambda>i. b ! (i mod N)) [r..<w]"

lemma ring_empty [simp]: "ring N b r r = []"
  by (simp add: ring_def)

lemma length_ring [simp]: "length (ring N b r w) = w - r"
  by (simp add: ring_def)

lemma mod_ring_neq:
  assumes "i < w" and "w < i + N" shows "i mod N \<noteq> w mod (N :: nat)"
proof
  assume "i mod N = w mod N"
  then have "N dvd w - i" using mod_eq_dvd_iff_nat [of i w N] assms(1) by simp
  with assms show False by (auto dest: dvd_imp_le)
qed

lemma ring_put:
  assumes "length b = N" and "r \<le> w" and "w < r + N"
  shows "ring N (b[w mod N := x]) r (Suc w) = ring N b r w @ [x]"
proof -
  have "0 < N" using assms by auto
  have "b[w mod N := x] ! (i mod N) = b ! (i mod N)" if "i \<in> set [r..<w]" for i
    using mod_ring_neq [of i w N] that assms by auto
  then show ?thesis using assms \<open>0 < N\<close> by (simp add: ring_def)
qed

lemma ring_drop: "ring N b (r + n) w = drop n (ring N b r w)"
  by (simp add: ring_def drop_map add.commute)

lemma ring_nth: "i < w - r \<Longrightarrow> ring N b r w ! i = b ! ((r + i) mod N)"
  by (simp add: ring_def)

lemma ring_split: "r \<le> m \<Longrightarrow> m \<le> w \<Longrightarrow> ring N b r w = ring N b r m @ ring N b m w"
  using upt_add_eq_append [of r m "w - m"] by (simp add: ring_def)

lemma ring_take: "n \<le> w - r \<Longrightarrow> take n (ring N b r w) = ring N b r (r + n)"
  by (cases "n = 0") (simp_all add: ring_def take_map)

text \<open>The batch copy into the ring, element by element.\<close>

lemma ring_fill:
  assumes "length b = N" and "r \<le> w" and "w + n \<le> r + N" and "a + n \<le> length d"
    and "w + n < 2 ^ 32" and "a + n < 2 ^ 32"
  shows "\<exists>b'. for_range 0 n (\<lambda>i b. do { j \<leftarrow> add_usize w i; s \<leftarrow> add_usize a i; x \<leftarrow> idx d s; upd b (j mod N) x }) b = Some b'
    \<and> length b' = N \<and> ring N b' r (w + n) = ring N b r w @ take n (drop a d)"
proof -
  let ?P = "\<lambda>i b'. length b' = N \<and> ring N b' r (w + i) = ring N b r w @ take i (drop a d)"
  have start: "?P 0 b" using assms by simp
  have "\<exists>b'. for_range 0 n (\<lambda>i b. do { j \<leftarrow> add_usize w i; s \<leftarrow> add_usize a i; x \<leftarrow> idx d s; upd b (j mod N) x }) b = Some b' \<and> ?P (0 + n) b'"
  proof (rule for_range_rule [where P = ?P, OF start])
    fix i s assume i: "i < 0 + n" and s: "?P i s"
    have "0 < N" using assms i by auto
    moreover have "ring N (s[(w + i) mod N := d ! (a + i)]) r (Suc (w + i)) = ring N s r (w + i) @ [d ! (a + i)]"
      using s i assms by (intro ring_put) auto
    moreover have "take (Suc i) (drop a d) = take i (drop a d) @ [d ! (a + i)]"
      using i assms by (simp add: take_Suc_conv_app_nth)
    ultimately show "\<exists>s'. do { j \<leftarrow> add_usize w i; v \<leftarrow> add_usize a i; x \<leftarrow> idx d v; upd s (j mod N) x } = Some s' \<and> ?P (Suc i) s'"
      using s i assms by (simp add: add_usize_def idx_def upd_def)
  qed
  then show ?thesis by simp
qed

section \<open>The contract of a byte queue\<close>

text \<open>A client's requests: put some bytes, get at most so many.\<close>

datatype request = Put "byte list" | Get nat

text \<open>The requests in order, collecting what was accepted and what was delivered.\<close>

fun queue_run :: "(byte list \<Rightarrow> 's \<Rightarrow> (nat \<times> 's) option) \<Rightarrow> (nat \<Rightarrow> 's \<Rightarrow> (byte list \<times> 's) option)
    \<Rightarrow> request list \<Rightarrow> 's \<Rightarrow> (byte list \<times> byte list \<times> 's) option" where
  "queue_run put get [] s = Some ([], [], s)"
| "queue_run put get (Put xs # rs) s = do {
     (n, s) \<leftarrow> put xs s;
     (ins, outs, s) \<leftarrow> queue_run put get rs s;
     Some (take n xs @ ins, outs, s)
   }"
| "queue_run put get (Get m # rs) s = do {
     (ys, s) \<leftarrow> get m s;
     (ins, outs, s) \<leftarrow> queue_run put get rs s;
     Some (ins, ys @ outs, s)
   }"

locale stream_queue =
  fixes ok :: "'s \<Rightarrow> bool" and contents :: "'s \<Rightarrow> byte list"
    and put :: "byte list \<Rightarrow> 's \<Rightarrow> (nat \<times> 's) option" and get :: "nat \<Rightarrow> 's \<Rightarrow> (byte list \<times> 's) option"
  assumes put_law: "ok s \<Longrightarrow> put xs s = Some (n, s') \<Longrightarrow> ok s' \<and> n \<le> length xs \<and> contents s' = contents s @ take n xs"
    and get_law: "ok s \<Longrightarrow> get m s = Some (ys, s') \<Longrightarrow> ok s' \<and> length ys \<le> m \<and> contents s = ys @ contents s'"
begin

lemma stream:
  "ok s \<Longrightarrow> queue_run put get rs s = Some (ins, outs, s')
    \<Longrightarrow> ok s' \<and> contents s @ ins = outs @ contents s'"
proof (induction rs arbitrary: s ins outs)
  case (Cons q rs)
  show ?case
  proof (cases q)
    case (Put xs)
    with Cons.prems(2) obtain n s1 ins1 where 1: "put xs s = Some (n, s1)" "queue_run put get rs s1 = Some (ins1, outs, s')"
      "ins = take n xs @ ins1" by (auto split: Option.bind_splits)
    from put_law [OF Cons.prems(1) 1(1)] Cons.IH [OF _ 1(2)] 1(3) show ?thesis by auto
  next
    case (Get m)
    with Cons.prems(2) obtain ys s1 outs1 where 1: "get m s = Some (ys, s1)" "queue_run put get rs s1 = Some (ins, outs1, s')"
      "outs = ys @ outs1" by (auto split: Option.bind_splits)
    from get_law [OF Cons.prems(1) 1(1)] Cons.IH [OF _ 1(2)] 1(3) show ?thesis by auto
  qed
qed auto

end

end
