(* ===== verification/Pipe.thy ===== *)
theory Pipe
  imports Ring
begin

section \<open>Pipes: pipe.rs\<close>

text \<open>
  The pipe without its lock and condition variables: every operation holds the lock from its first to its last
  statement except while it waits, so it is one function of the pipe. \<open>write\<close> and \<open>read\<close> run up to their next
  \<open>Condvar::wait\<close>; the result says where they stop, and a woken writer goes on with \<open>pipe_write_loop\<close> at the count it had.
  Which condition variables an operation signals is read off its result (\<open>signals\<close>).
\<close>

definition PIPE_SIZE :: nat where
  "PIPE_SIZE = 512"

record pipe =
  buf :: "byte list"
  nread :: nat
  nwrite :: nat
  read_open :: bool
  write_open :: bool
  read_refcnt :: nat
  write_refcnt :: nat

definition pipe_new :: pipe where
  "pipe_new = \<lparr> buf = replicate PIPE_SIZE 0, nread = 0, nwrite = 0, read_open = True, write_open = True,
     read_refcnt = 1, write_refcnt = 1 \<rparr>"

datatype condvar = not_empty | not_full

datatype write_result = Wrote nat | Blocked_full nat | Broken nat

datatype read_result = Read "byte list" | Blocked_empty | Eof

text \<open>The loop of \<open>write\<close> with \<open>written\<close> bytes already copied.\<close>

function pipe_write_loop :: "byte list \<Rightarrow> nat \<Rightarrow> pipe \<Rightarrow> (write_result \<times> pipe) option" where
  "pipe_write_loop data written p =
     (if written < length data
      then do {
        full \<leftarrow> add_usize (nread p) PIPE_SIZE;
        if nwrite p = full
        then Some (if read_open p then Blocked_full written else Broken written, p)
        else do {
          held \<leftarrow> sub_usize (nwrite p) (nread p);
          space \<leftarrow> sub_usize PIPE_SIZE held;
          let n = min (length data - written) space;
          b \<leftarrow> for_range 0 n (\<lambda>i b. do { j \<leftarrow> add_usize (nwrite p) i; s \<leftarrow> add_usize written i;
                 x \<leftarrow> idx data s; upd b (j mod PIPE_SIZE) x }) (buf p);
          nw \<leftarrow> add_usize (nwrite p) n;
          written' \<leftarrow> add_usize written n;
          pipe_write_loop data written' (p \<lparr> buf := b, nwrite := nw \<rparr>)
        }
      }
      else Some (Wrote written, p))"
  by pat_completeness auto
termination
  by (relation "measure (\<lambda>(data, written, p). length data - written)")
    (auto simp: arith_defs PIPE_SIZE_def min_def split: if_splits)

definition pipe_write :: "byte list \<Rightarrow> pipe \<Rightarrow> (write_result \<times> pipe) option" where
  "pipe_write data p = pipe_write_loop data 0 p"

text \<open>What \<open>write\<close> returns, and whether it sends the caller \<open>SIGPIPE\<close>; \<open>Blocked_full\<close> does not return yet.\<close>

fun write_return :: "write_result \<Rightarrow> int option" where
  "write_return (Wrote n) = Some (as_i32 (int n))"
| "write_return (Broken n) = Some (if n > 0 then as_i32 (int n) else -1)"
| "write_return (Blocked_full n) = None"

definition raises_sigpipe :: "write_result \<Rightarrow> bool" where
  "raises_sigpipe r = (r = Broken 0)"

fun write_signals :: "write_result \<Rightarrow> condvar list" where
  "write_signals (Wrote n) = [not_empty]"
| "write_signals (Blocked_full n) = [not_empty]"
| "write_signals (Broken n) = []"

definition pipe_read :: "nat \<Rightarrow> pipe \<Rightarrow> (read_result \<times> pipe) option" where
  "pipe_read len p =
     (if nread p = nwrite p then Some (if write_open p then Blocked_empty else Eof, p)
      else do {
        available \<leftarrow> sub_usize (nwrite p) (nread p);
        let n = min len available;
        out \<leftarrow> for_range 0 n (\<lambda>i out. do { j \<leftarrow> add_usize (nread p) i; x \<leftarrow> idx (buf p) (j mod PIPE_SIZE); Some (out @ [x]) }) [];
        nr \<leftarrow> add_usize (nread p) n;
        Some (Read out, p \<lparr> nread := nr \<rparr>)
      })"

fun read_return :: "read_result \<Rightarrow> int option" where
  "read_return (Read xs) = Some (as_i32 (int (length xs)))"
| "read_return Eof = Some 0"
| "read_return Blocked_empty = None"

fun read_signals :: "read_result \<Rightarrow> condvar list" where
  "read_signals (Read xs) = [not_full]"
| "read_signals Eof = []"
| "read_signals Blocked_empty = []"

definition ref_read :: "pipe \<Rightarrow> pipe option" where
  "ref_read p = do { n \<leftarrow> add_usize (read_refcnt p) 1; Some (p \<lparr> read_refcnt := n \<rparr>) }"

definition ref_write :: "pipe \<Rightarrow> pipe option" where
  "ref_write p = do { n \<leftarrow> add_usize (write_refcnt p) 1; Some (p \<lparr> write_refcnt := n \<rparr>) }"

definition close_read :: "pipe \<Rightarrow> (bool \<times> condvar list \<times> pipe) option" where
  "close_read p = do {
     n \<leftarrow> sub_usize (read_refcnt p) 1;
     let p = p \<lparr> read_refcnt := n \<rparr>;
     let (sigs, p) = (if n = 0 then ([not_full], p \<lparr> read_open := False \<rparr>) else ([], p));
     Some (\<not> read_open p \<and> \<not> write_open p, sigs, p)
   }"

definition close_write :: "pipe \<Rightarrow> (bool \<times> condvar list \<times> pipe) option" where
  "close_write p = do {
     n \<leftarrow> sub_usize (write_refcnt p) 1;
     let p = p \<lparr> write_refcnt := n \<rparr>;
     let (sigs, p) = (if n = 0 then ([not_empty], p \<lparr> write_open := False \<rparr>) else ([], p));
     Some (\<not> read_open p \<and> \<not> write_open p, sigs, p)
   }"

subsection \<open>The registry\<close>

record pipes =
  PIPES :: "(nat \<rightharpoonup> pipe) option"
  NEXT_PIPE_ID :: nat

definition pipes_init :: "pipes \<Rightarrow> pipes" where
  "pipes_init g = g \<lparr> PIPES := Some Map.empty \<rparr>"

definition create_pipe :: "pipes \<Rightarrow> (nat \<times> pipes) option" where
  "create_pipe g = do {
     let n = NEXT_PIPE_ID g;
     n' \<leftarrow> add_usize n 1;
     m \<leftarrow> PIPES g;
     Some (n, g \<lparr> NEXT_PIPE_ID := n', PIPES := Some (m(n \<mapsto> pipe_new)) \<rparr>)
   }"

definition get_pipe :: "nat \<Rightarrow> pipes \<Rightarrow> pipe option option" where
  "get_pipe n g = do { m \<leftarrow> PIPES g; Some (m n) }"

definition destroy_pipe :: "nat \<Rightarrow> pipes \<Rightarrow> pipes option" where
  "destroy_pipe n g = do { m \<leftarrow> PIPES g; Some (g \<lparr> PIPES := Some (m(n := None)) \<rparr>) }"

section \<open>Correctness\<close>

definition pipe_ok :: "pipe \<Rightarrow> bool" where
  "pipe_ok p \<longleftrightarrow> length (buf p) = PIPE_SIZE \<and> nread p \<le> nwrite p \<and> nwrite p \<le> nread p + PIPE_SIZE
     \<and> (read_open p \<longleftrightarrow> 0 < read_refcnt p) \<and> (write_open p \<longleftrightarrow> 0 < write_refcnt p)"

definition held :: "pipe \<Rightarrow> byte list" where
  "held p = ring PIPE_SIZE (buf p) (nread p) (nwrite p)"

lemma length_held: "length (held p) = nwrite p - nread p"
  by (simp add: held_def)

lemma pipe_new_ok: "pipe_ok pipe_new" "held pipe_new = []"
  by (simp_all add: pipe_ok_def pipe_new_def held_def)

text \<open>The number of bytes an operation has taken over.\<close>

fun taken :: "write_result \<Rightarrow> nat" where
  "taken (Wrote n) = n"
| "taken (Blocked_full n) = n"
| "taken (Broken n) = n"

declare pipe_write_loop.simps [simp del]

lemma write_stop: "\<not> written < length data \<Longrightarrow> pipe_write_loop data written p = Some (Wrote written, p)"
  by (simp add: pipe_write_loop.simps)

lemma write_full:
  "written < length data \<Longrightarrow> nwrite p = nread p + PIPE_SIZE \<Longrightarrow> nread p + PIPE_SIZE < 2 ^ 32
    \<Longrightarrow> pipe_write_loop data written p = Some (if read_open p then Blocked_full written else Broken written, p)"
  by (subst pipe_write_loop.simps) (simp add: add_usize_def)

lemma write_chunk:
  assumes "pipe_ok p" and "written < length data" and "length data < 2 ^ 32" and "nwrite p \<noteq> nread p + PIPE_SIZE"
    and "nread p + PIPE_SIZE < 2 ^ 32"
  defines "n \<equiv> min (length data - written) (PIPE_SIZE - length (held p))"
  shows "\<exists>b. pipe_write_loop data written p = pipe_write_loop data (written + n) (p \<lparr> buf := b, nwrite := nwrite p + n \<rparr>)
    \<and> pipe_ok (p \<lparr> buf := b, nwrite := nwrite p + n \<rparr>)
    \<and> held (p \<lparr> buf := b, nwrite := nwrite p + n \<rparr>) = held p @ take n (drop written data)"
proof -
  have n: "nwrite p + n \<le> nread p + PIPE_SIZE" "written + n \<le> length data"
    using assms by (auto simp: n_def length_held pipe_ok_def)
  have "nwrite p + n < 2 ^ 32" "written + n < 2 ^ 32" using n assms(3,5) by simp_all
  with n assms(1) obtain b where b: "for_range 0 n (\<lambda>i b. do { j \<leftarrow> add_usize (nwrite p) i; s \<leftarrow> add_usize written i;
                 x \<leftarrow> idx data s; upd b (j mod PIPE_SIZE) x }) (buf p) = Some b"
    "length b = PIPE_SIZE" "ring PIPE_SIZE b (nread p) (nwrite p + n) = held p @ take n (drop written data)"
    using ring_fill [of "buf p" PIPE_SIZE "nread p" "nwrite p" n written data] unfolding pipe_ok_def held_def by blast
  moreover have "pipe_write_loop data written p = pipe_write_loop data (written + n) (p \<lparr> buf := b, nwrite := nwrite p + n \<rparr>)"
  proof -
    have "min (length data - written) (PIPE_SIZE - (nwrite p - nread p)) = n" by (simp add: n_def length_held)
    moreover have "nwrite p - nread p \<le> PIPE_SIZE" "nread p \<le> nwrite p" "nwrite p + n < 2 ^ 32" "written + n < 2 ^ 32"
      using assms(1-5) n by (auto simp: pipe_ok_def)
    ultimately show ?thesis using assms(2,4,5) b(1)
      by (subst pipe_write_loop.simps) (simp add: add_usize_def [of _ PIPE_SIZE] add_usize_def [of _ n] sub_usize_def)
  qed
  ultimately show ?thesis using assms(1) n(1) by (intro exI [of _ b]) (simp add: pipe_ok_def held_def)
qed


text \<open>The loop never panics while the counters stay below the width of \<open>usize\<close>; it copies in order.\<close>

definition outcome :: "byte list \<Rightarrow> nat \<Rightarrow> pipe \<Rightarrow> write_result" where
  "outcome data written p =
     (let space = PIPE_SIZE - length (held p)
      in if length data - written \<le> space then Wrote (length data)
         else if read_open p then Blocked_full (written + space) else Broken (written + space))"

lemma taken_outcome:
  "written \<le> length data \<Longrightarrow> taken (outcome data written p) = written + min (length data - written) (PIPE_SIZE - length (held p))"
  by (simp add: outcome_def Let_def)

lemma pipe_loop_spec:
  assumes "pipe_ok p" and "written \<le> length data" and "length data < 2 ^ 32"
    and "nread p + PIPE_SIZE < 2 ^ 32"
  shows "\<exists>p'. pipe_write_loop data written p = Some (outcome data written p, p') \<and> pipe_ok p'
    \<and> held p' = held p @ take (taken (outcome data written p) - written) (drop written data)
    \<and> p' = p \<lparr> buf := buf p', nwrite := nwrite p' \<rparr>"
  using assms
proof (induction "length data - written" arbitrary: written p rule: less_induct)
  case less
  consider "\<not> written < length data" | "written < length data" "nwrite p = nread p + PIPE_SIZE"
    | "written < length data" "nwrite p \<noteq> nread p + PIPE_SIZE" by blast
  then show ?case
  proof cases
    case 1
    with less.prems show ?thesis by (simp add: write_stop outcome_def Let_def)
  next
    case 2
    with less.prems write_full [OF 2] show ?thesis by (simp add: length_held outcome_def Let_def)
  next
    case 3
    define n where "n = min (length data - written) (PIPE_SIZE - length (held p))"
    from write_chunk [OF less.prems(1) 3(1) less.prems(3) 3(2) less.prems(4), folded n_def] obtain b where
      b: "pipe_write_loop data written p = pipe_write_loop data (written + n) (p \<lparr> buf := b, nwrite := nwrite p + n \<rparr>)"
         "pipe_ok (p \<lparr> buf := b, nwrite := nwrite p + n \<rparr>)"
         "held (p \<lparr> buf := b, nwrite := nwrite p + n \<rparr>) = held p @ take n (drop written data)" by blast
    let ?q = "p \<lparr> buf := b, nwrite := nwrite p + n \<rparr>"
    have hp: "length (held p) < PIPE_SIZE" using 3(2) less.prems(1) by (auto simp: length_held pipe_ok_def)
    with 3(1) have n: "0 < n" "written + n \<le> length data" "n \<le> PIPE_SIZE - length (held p)" by (auto simp: n_def)
    have lq: "length (held ?q) = length (held p) + n" using n unfolding b(3) by simp
    have o: "outcome data (written + n) ?q = outcome data written p"
      unfolding outcome_def lq using n hp by (auto simp: Let_def)
    have "length data - (written + n) < length data - written" using 3(1) n by simp
    from less.hyps [OF this b(2) n(2) less.prems(3)] less.prems(4) obtain p' where
      r: "pipe_write_loop data (written + n) ?q = Some (outcome data written p, p')" "pipe_ok p'"
        "held p' = held ?q @ take (taken (outcome data written p) - (written + n)) (drop (written + n) data)"
        "p' = p \<lparr> buf := buf p', nwrite := nwrite p' \<rparr>"
      unfolding o by auto
    let ?t = "taken (outcome data written p)"
    have "written + n \<le> ?t" using taken_outcome [OF less.prems(2), of p] n_def by simp
    then have "n + (?t - (written + n)) = ?t - written" by simp
    moreover have "take n (drop written data) @ take (?t - (written + n)) (drop (written + n) data)
        = take (n + (?t - (written + n))) (drop written data)" by (simp add: take_add add.commute)
    ultimately have "held p' = held p @ take (?t - written) (drop written data)" unfolding r(3) b(3) by simp
    with b(1) r(1,2,4) show ?thesis by auto
  qed
qed


lemma read_fill:
  assumes "length b = N" and "0 < N" and "r + n < 2 ^ 32"
  shows "for_range 0 n (\<lambda>i out. do { j \<leftarrow> add_usize r i; x \<leftarrow> idx b (j mod N); Some (out @ [x]) }) []
    = Some (ring N b r (r + n))"
proof -
  let ?P = "\<lambda>i out. out = ring N b r (r + i)"
  have start: "?P 0 []" by simp
  have "\<exists>out. for_range 0 n (\<lambda>i out. do { j \<leftarrow> add_usize r i; x \<leftarrow> idx b (j mod N); Some (out @ [x]) }) [] = Some out \<and> ?P (0 + n) out"
    by (rule for_range_rule [where P = ?P, OF start]) (use assms in \<open>auto simp: add_usize_def idx_def ring_def\<close>)
  then show ?thesis by simp
qed

lemma pipe_read_spec:
  assumes "pipe_ok p" and "nwrite p < 2 ^ 32"
  shows "pipe_read len p = Some (if held p = [] then (if write_open p then Blocked_empty else Eof, p)
      else (Read (take len (held p)), p \<lparr> nread := nread p + min len (length (held p)) \<rparr>))"
proof (cases "nread p = nwrite p")
  case True
  then show ?thesis by (simp add: pipe_read_def held_def)
next
  case False
  let ?n = "min len (nwrite p - nread p)"
  have lt: "nread p < nwrite p" using False assms(1) by (simp add: pipe_ok_def)
  then have "nread p + ?n < 2 ^ 32" using assms(2) by simp
  moreover have "length (buf p) = PIPE_SIZE" using assms(1) by (simp add: pipe_ok_def)
  ultimately have "for_range 0 ?n (\<lambda>i out. do { j \<leftarrow> add_usize (nread p) i; x \<leftarrow> idx (buf p) (j mod PIPE_SIZE); Some (out @ [x]) }) []
      = Some (ring PIPE_SIZE (buf p) (nread p) (nread p + ?n))"
    by (intro read_fill) (simp_all add: PIPE_SIZE_def)
  moreover have "ring PIPE_SIZE (buf p) (nread p) (nread p + ?n) = take len (held p)"
    using ring_take [of ?n "nwrite p" "nread p" PIPE_SIZE "buf p", symmetric] length_held [of p]
    by (cases "len \<le> nwrite p - nread p") (simp_all add: held_def)
  moreover have "held p \<noteq> []" using lt by (simp add: held_def ring_def)
  ultimately show ?thesis using False lt \<open>nread p + ?n < 2 ^ 32\<close>
    by (simp add: pipe_read_def sub_usize_def add_usize_def [of _ ?n] length_held)
qed

lemma held_read:
  assumes "pipe_ok p"
  shows "pipe_ok (p \<lparr> nread := nread p + min len (length (held p)) \<rparr>)"
    "held (p \<lparr> nread := nread p + min len (length (held p)) \<rparr>) = drop len (held p)"
proof -
  show "pipe_ok (p \<lparr> nread := nread p + min len (length (held p)) \<rparr>)" using assms by (auto simp: pipe_ok_def length_held)
  show "held (p \<lparr> nread := nread p + min len (length (held p)) \<rparr>) = drop len (held p)"
    by (cases "len \<le> nwrite p - nread p") (simp_all add: held_def ring_drop)
qed

text \<open>The pipe as a byte queue for its clients, as long as the counters stay in range.\<close>

definition in_range :: "pipe \<Rightarrow> bool" where
  "in_range p \<longleftrightarrow> nwrite p + PIPE_SIZE < 2 ^ 32"

definition pipe_put :: "byte list \<Rightarrow> pipe \<Rightarrow> (nat \<times> pipe) option" where
  "pipe_put xs p = (if length xs < 2 ^ 32 \<and> in_range p then do { (r, p) \<leftarrow> pipe_write xs p; Some (taken r, p) } else None)"

definition pipe_get :: "nat \<Rightarrow> pipe \<Rightarrow> (byte list \<times> pipe) option" where
  "pipe_get n p = (if in_range p then do { (r, p) \<leftarrow> pipe_read n p; Some (case r of Read xs \<Rightarrow> xs | _ \<Rightarrow> [], p) } else None)"

lemma pipe_put_law:
  assumes "pipe_ok p" and "pipe_put xs p = Some (n, p')"
  shows "pipe_ok p' \<and> n \<le> length xs \<and> held p' = held p @ take n xs"
proof -
  have g: "length xs < 2 ^ 32" "in_range p" using assms(2) by (auto simp: pipe_put_def split: if_splits)
  then have "nread p + PIPE_SIZE < 2 ^ 32" using assms(1) by (simp add: pipe_ok_def in_range_def)
  from pipe_loop_spec [OF assms(1) le0 g(1) this] obtain q where
    "pipe_write_loop xs 0 p = Some (outcome xs 0 p, q)" "pipe_ok q" "held q = held p @ take (taken (outcome xs 0 p)) xs" by auto
  with assms(2) g taken_outcome [of 0 xs p] show ?thesis by (auto simp: pipe_put_def pipe_write_def)
qed

lemma pipe_get_law:
  assumes "pipe_ok p" and "pipe_get m p = Some (ys, p')"
  shows "pipe_ok p' \<and> length ys \<le> m \<and> held p = ys @ held p'"
proof -
  have g: "in_range p" using assms(2) by (auto simp: pipe_get_def split: if_splits)
  then have "nwrite p < 2 ^ 32" by (simp add: in_range_def)
  from pipe_read_spec [OF assms(1) this, of m] held_read [OF assms(1), of m] assms g show ?thesis
    by (auto simp: pipe_get_def split: if_splits)
qed

interpretation pipe_queue: stream_queue pipe_ok held pipe_put pipe_get
  by unfold_locales (use pipe_put_law pipe_get_law in blast)+


section \<open>Properties\<close>

text \<open>C18: A pipe is a byte stream. Over any sequence of writes and reads (each up to the point where it returns or
  blocks), the bytes delivered followed by the bytes still held are exactly the bytes held at first followed by the bytes
  the writes took over, in order, and the ring stays well formed.\<close>

theorem pipe_stream:
  assumes "pipe_ok p" and "queue_run pipe_put pipe_get rs p = Some (ins, outs, p')"
  shows "pipe_ok p' \<and> held p @ ins = outs @ held p'"
  by (rule pipe_queue.stream [OF assms])

lemma sample_pipe_run:
  "\<exists>p'. queue_run pipe_put pipe_get [Put [1, 2, 3], Get 2] pipe_new = Some ([1, 2, 3], [1, 2], p')"
proof -
  have "nread pipe_new + PIPE_SIZE < 2 ^ 32" by (simp add: pipe_new_def PIPE_SIZE_def)
  from pipe_loop_spec [OF pipe_new_ok(1) le0 _ this, of "[1, 2, 3]"] obtain q where
    q: "pipe_write_loop [1, 2, 3] 0 pipe_new = Some (Wrote 3, q)" "pipe_ok q" "held q = [1, 2, 3]" "q = pipe_new \<lparr> buf := buf q, nwrite := nwrite q \<rparr>"
    by (auto simp: outcome_def pipe_new_ok(2) Let_def PIPE_SIZE_def)
  have "nread q = 0" using q(4) by (metis pipe.select_convs(2) pipe.update_convs(1,3) pipe_new_def pipe.surjective)
  then have "nwrite q = 3" using length_held [of q] q(3) by simp
  with q pipe_read_spec [OF q(2), of 2] show ?thesis
    by (simp add: pipe_put_def pipe_get_def pipe_write_def in_range_def PIPE_SIZE_def pipe_new_def)
qed

theorem pipe_stream_witness:
  "\<exists>p'. pipe_ok p' \<and> held pipe_new @ [1, 2, 3] = [1, 2] @ held p'"
  using sample_pipe_run pipe_stream [OF pipe_new_ok(1)] by blast

text \<open>A write takes over as many bytes as there is room for: everything fits and \<open>write\<close> returns the length, or the
  pipe is full and the writer blocks, or the read end is closed and the write ends. A closed read end is noticed only
  when the pipe is full: a write that fits succeeds although nobody can read it any more.\<close>

theorem pipe_write_outcome:
  assumes "pipe_ok p" and "length data < 2 ^ 31" and "nread p + PIPE_SIZE < 2 ^ 32"
  shows "\<exists>r p'. pipe_write data p = Some (r, p') \<and> pipe_ok p' \<and> held p' = held p @ take (taken r) data
     \<and> (if length data + length (held p) \<le> PIPE_SIZE then write_return r = Some (int (length data)) \<and> \<not> raises_sigpipe r
        else length (held p') = PIPE_SIZE
          \<and> write_return r = (if read_open p then None else if length (held p) = PIPE_SIZE then Some (- 1) else Some (int (taken r)))
          \<and> (raises_sigpipe r \<longleftrightarrow> \<not> read_open p \<and> length (held p) = PIPE_SIZE))"
proof -
  have "length data < 2 ^ 32" using assms(2) by simp
  from pipe_loop_spec [OF assms(1) le0 this assms(3)] obtain p' where
    p': "pipe_write_loop data 0 p = Some (outcome data 0 p, p')" "pipe_ok p'" "held p' = held p @ take (taken (outcome data 0 p)) data" by auto
  have h: "length (held p) \<le> PIPE_SIZE" using assms(1) by (auto simp: length_held pipe_ok_def)
  have "PIPE_SIZE < 2 ^ 31" by (simp add: PIPE_SIZE_def)
  with p' h assms(2) show ?thesis
    by (intro exI [of _ "outcome data 0 p"] exI [of _ p'])
      (auto simp: pipe_write_def outcome_def raises_sigpipe_def Let_def in_i32_def)
qed

theorem pipe_write_outcome_witness:
  "\<exists>r p'. pipe_write [7] (pipe_new \<lparr> read_open := False, read_refcnt := 0 \<rparr>) = Some (r, p') \<and> pipe_ok p'
     \<and> held p' = held (pipe_new \<lparr> read_open := False, read_refcnt := 0 \<rparr>) @ take (taken r) [7]
     \<and> (write_return r = Some 1 \<and> \<not> raises_sigpipe r)"
  using pipe_write_outcome [of "pipe_new \<lparr> read_open := False, read_refcnt := 0 \<rparr>" "[7]"]
  by (simp add: pipe_ok_def pipe_new_def PIPE_SIZE_def held_def)

end
