(* ===== verification/Input.thy ===== *)
theory Input
  imports Ring ThreadProps
begin

section \<open>Console input with line editing: devices/input.rs\<close>

text \<open>
  The input buffer with its three counters. \<open>putc\<close> runs in the keyboard or serial interrupt; \<open>Ctrl-C\<close> and \<open>Ctrl-\\\<close>
  signal the foreground process group, so it also takes the kernel state. What it prints is the list of echoes. \<open>getc\<close>
  is one round of its loop: a byte, the end because the process was killed, or a yield before the next round.
  The buffer refines a pair of lists, the committed bytes and the line being edited.
\<close>

definition BUF_SIZE :: nat where "BUF_SIZE = 128"
definition CTRL_C :: byte where "CTRL_C = 0x03"
definition CTRL_D :: byte where "CTRL_D = 0x04"
definition CTRL_U :: byte where "CTRL_U = 0x15"
definition CTRL_Z :: byte where "CTRL_Z = 0x1A"
definition CTRL_BACKSLASH :: byte where "CTRL_BACKSLASH = 0x1C"
definition BACKSPACE :: byte where "BACKSPACE = 0x08"
definition DEL :: byte where "DEL = 0x7F"

text \<open>The fields \<open>buf\<close>, \<open>r\<close>, \<open>w\<close>, \<open>e\<close> and \<open>raw\<close> of \<open>InputBuffer\<close>.\<close>

record input =
  in_buf :: "byte list"
  in_r :: nat
  in_w :: nat
  in_e :: nat
  in_raw :: bool

definition INPUT :: input where
  "INPUT = \<lparr> in_buf = replicate BUF_SIZE 0, in_r = 0, in_w = 0, in_e = 0, in_raw = False \<rparr>"

definition set_raw :: "bool \<Rightarrow> input \<Rightarrow> bool \<times> input" where
  "set_raw b s = (in_raw s, s \<lparr> in_raw := b \<rparr>)"

definition is_raw :: "input \<Rightarrow> bool" where
  "is_raw s = in_raw s"

definition wrapping_sub :: "nat \<Rightarrow> nat \<Rightarrow> nat" where
  "wrapping_sub a b = nat ((int a - int b) mod 2 ^ 32)"

datatype echo = Echo string | Echo_char byte | Echo_backspace

definition putc_raw :: "byte \<Rightarrow> input \<Rightarrow> input option" where
  "putc_raw c s =
     (if wrapping_sub (in_e s) (in_r s) < BUF_SIZE
      then do {
        b \<leftarrow> upd (in_buf s) (in_e s mod BUF_SIZE) c;
        e \<leftarrow> add_usize (in_e s) 1;
        Some (s \<lparr> in_buf := b, in_e := e, in_w := (if in_raw s then e else in_w s) \<rparr>)
      }
      else Some s)"

text \<open>The loop of \<open>Ctrl-U\<close>; the number of erased bytes is the number of backspaces echoed.\<close>

function kill_line :: "input \<Rightarrow> nat \<Rightarrow> (nat \<times> input) option" where
  "kill_line s n =
     (if in_e s \<noteq> in_w s
      then do {
        i \<leftarrow> sub_usize (in_e s) 1;
        c \<leftarrow> idx (in_buf s) (i mod BUF_SIZE);
        if c \<noteq> 10 then kill_line (s \<lparr> in_e := i \<rparr>) (n + 1) else Some (n, s)
      }
      else Some (n, s))"
  by pat_completeness auto
termination
  by (relation "measure (\<lambda>(s, n). in_e s)") (auto simp: sub_usize_def split: if_splits)

definition signal_foreground :: "nat \<Rightarrow> 'z kern \<Rightarrow> 'z kern option" where
  "signal_foreground sig k = do {
     pg \<leftarrow> foreground_pgid k;
     if pg > 0 then send_signal_pgid pg sig k else Some k
   }"

definition putc :: "byte \<Rightarrow> 'z kern \<Rightarrow> input \<Rightarrow> (echo list \<times> 'z kern \<times> input) option" where
  "putc c k s =
     (if in_raw s
      then if wrapping_sub (in_e s) (in_r s) < BUF_SIZE
           then do {
             b \<leftarrow> upd (in_buf s) (in_e s mod BUF_SIZE) c;
             e \<leftarrow> add_usize (in_e s) 1;
             Some ([], k, s \<lparr> in_buf := b, in_e := e, in_w := e \<rparr>)
           }
           else Some ([], k, s)
      else if c = CTRL_C then do {
        k \<leftarrow> signal_foreground SIGINT k;
        Some ([Echo [CHR ''^'', CHR ''C'', CHR 0x0A]], k, s \<lparr> in_e := in_w s \<rparr>)
      }
      else if c = CTRL_BACKSLASH then do {
        k \<leftarrow> signal_foreground SIGQUIT k;
        Some ([Echo [CHR ''^'', CHR 0x5C, CHR 0x0A]], k, s \<lparr> in_e := in_w s \<rparr>)
      }
      else if c = CTRL_Z then Some ([Echo [CHR ''^'', CHR ''Z'', CHR 0x0A]], k, s)
      else if c = CTRL_U then do { (n, s) \<leftarrow> kill_line s 0; Some (replicate n Echo_backspace, k, s) }
      else if c = BACKSPACE \<or> c = DEL then
        (if in_e s \<noteq> in_w s then do { e \<leftarrow> sub_usize (in_e s) 1; Some ([Echo_backspace], k, s \<lparr> in_e := e \<rparr>) }
         else Some ([], k, s))
      else if c \<noteq> 0 \<and> wrapping_sub (in_e s) (in_r s) < BUF_SIZE then do {
        let c = (if c = 13 then 10 else c);
        b \<leftarrow> upd (in_buf s) (in_e s mod BUF_SIZE) c;
        e \<leftarrow> add_usize (in_e s) 1;
        let s = s \<lparr> in_buf := b, in_e := e \<rparr>;
        full \<leftarrow> (if c = 10 \<or> c = CTRL_D then Some True else do { m \<leftarrow> add_usize (in_r s) BUF_SIZE; Some (e = m) });
        Some ([if c = CTRL_D then Echo ''^D'' else Echo_char c], k, if full then s \<lparr> in_w := e \<rparr> else s)
      }
      else Some ([], k, s))"

datatype getc_round = Got byte | Killed_waiting | Yields

definition getc :: "'z kern \<Rightarrow> input \<Rightarrow> (getc_round \<times> input) option" where
  "getc k s =
     (if in_r s \<noteq> in_w s
      then do {
        c \<leftarrow> idx (in_buf s) (in_r s mod BUF_SIZE);
        n \<leftarrow> add_usize (in_r s) 1;
        Some (Got c, s \<lparr> in_r := n \<rparr>)
      }
      else Some (if killed (thr (running_thread k) k) then Killed_waiting else Yields, s))"

definition input_full :: "input \<Rightarrow> bool" where
  "input_full s \<longleftrightarrow> wrapping_sub (in_e s) (in_r s) \<ge> BUF_SIZE"

definition has_data :: "input \<Rightarrow> bool" where
  "has_data s \<longleftrightarrow> in_r s \<noteq> in_w s"

section \<open>Correctness\<close>

definition input_ok :: "input \<Rightarrow> bool" where
  "input_ok s \<longleftrightarrow> length (in_buf s) = BUF_SIZE \<and> in_r s \<le> in_w s \<and> in_w s \<le> in_e s \<and> in_e s \<le> in_r s + BUF_SIZE
     \<and> in_r s + BUF_SIZE < 2 ^ 32"

definition committed :: "input \<Rightarrow> byte list" where
  "committed s = ring BUF_SIZE (in_buf s) (in_r s) (in_w s)"

definition editing :: "input \<Rightarrow> byte list" where
  "editing s = ring BUF_SIZE (in_buf s) (in_w s) (in_e s)"

text \<open>What a byte does to the committed bytes and the line being edited.\<close>

definition edit :: "byte \<Rightarrow> byte list \<times> byte list \<Rightarrow> byte list \<times> byte list" where
  "edit c = (\<lambda>(com, line).
     if c = CTRL_C \<or> c = CTRL_BACKSLASH then (com, [])
     else if c = CTRL_Z then (com, line)
     else if c = CTRL_U then (com, rev (dropWhile (\<lambda>x. x \<noteq> 10) (rev line)))
     else if c = BACKSPACE \<or> c = DEL then (com, butlast line)
     else if c \<noteq> 0 \<and> length com + length line < BUF_SIZE
     then let c = (if c = 13 then 10 else c)
          in if c = 10 \<or> c = CTRL_D \<or> length com + length line + 1 = BUF_SIZE then (com @ line @ [c], [])
             else (com, line @ [c])
     else (com, line))"

lemma input_space:
  "input_ok s \<Longrightarrow> wrapping_sub (in_e s) (in_r s) = in_e s - in_r s"
  by (simp add: input_ok_def wrapping_sub_def mod_pos_pos_trivial nat_diff_distrib BUF_SIZE_def of_nat_diff)

lemma in_ring_lengths:
  "length (committed s) = in_w s - in_r s" "length (editing s) = in_e s - in_w s"
  by (simp_all add: committed_def editing_def)

lemma whole_ring: "input_ok s \<Longrightarrow> ring BUF_SIZE (in_buf s) (in_r s) (in_e s) = committed s @ editing s"
  unfolding committed_def editing_def by (rule ring_split) (simp_all add: input_ok_def)

text \<open>Storing a byte at the edit position.\<close>

lemma store_byte:
  fixes c :: byte
  assumes "input_ok s" and "in_e s < in_r s + BUF_SIZE"
  defines "b \<equiv> (in_buf s)[in_e s mod BUF_SIZE := c]"
  shows "upd (in_buf s) (in_e s mod BUF_SIZE) c = Some b" "add_usize (in_e s) 1 = Some (in_e s + 1)"
    "ring BUF_SIZE b (in_r s) (in_w s) = committed s" "ring BUF_SIZE b (in_w s) (in_e s + 1) = editing s @ [c]"
    "ring BUF_SIZE b (in_r s) (in_e s + 1) = committed s @ editing s @ [c]" "length b = BUF_SIZE"
proof -
  have n: "length (in_buf s) = BUF_SIZE" "in_r s \<le> in_w s" "in_w s \<le> in_e s" "in_r s + BUF_SIZE < 2 ^ 32" "0 < BUF_SIZE"
    using assms(1) by (auto simp: input_ok_def BUF_SIZE_def)
  show "upd (in_buf s) (in_e s mod BUF_SIZE) c = Some b" using n by (simp add: upd_def b_def)
  show "add_usize (in_e s) 1 = Some (in_e s + 1)" using n assms(2) by (simp add: add_usize_def)
  show "length b = BUF_SIZE" using n by (simp add: b_def)
  show all: "ring BUF_SIZE b (in_r s) (in_e s + 1) = committed s @ editing s @ [c]"
    using ring_put [OF n(1) _ assms(2)] n whole_ring [OF assms(1)] by (simp add: b_def)
  show ed: "ring BUF_SIZE b (in_w s) (in_e s + 1) = editing s @ [c]"
    using ring_put [OF n(1) n(3)] n assms(2) by (simp add: b_def editing_def)
  have "ring BUF_SIZE b (in_r s) (in_e s + 1) = ring BUF_SIZE b (in_r s) (in_w s) @ ring BUF_SIZE b (in_w s) (in_e s + 1)"
    using n by (intro ring_split) auto
  with all ed show "ring BUF_SIZE b (in_r s) (in_w s) = committed s" by simp
qed


lemma stored_ok:
  assumes "input_ok s" and "in_e s < in_r s + BUF_SIZE" and "length b = BUF_SIZE"
  shows "input_ok (s \<lparr> in_buf := b, in_e := in_e s + 1 \<rparr>)" "input_ok (s \<lparr> in_buf := b, in_e := in_e s + 1, in_w := in_e s + 1 \<rparr>)"
  using assms by (auto simp: input_ok_def)

text \<open>Erasing at the end of the edited line.\<close>

lemma editing_shrink: "in_w s \<le> i \<Longrightarrow> i \<le> in_e s \<Longrightarrow> editing (s \<lparr> in_e := i \<rparr>) = take (i - in_w s) (editing s)"
  using ring_take [of "i - in_w s" "in_e s" "in_w s" BUF_SIZE "in_buf s"] by (simp add: editing_def)

lemma editing_last:
  "input_ok s \<Longrightarrow> in_w s < in_e s \<Longrightarrow> editing s = editing (s \<lparr> in_e := in_e s - 1 \<rparr>) @ [in_buf s ! ((in_e s - 1) mod BUF_SIZE)]"
  using upt_Suc_append [of "in_w s" "in_e s - 1"] by (simp add: editing_def ring_def)

declare kill_line.simps [simp del]

lemma kill_line_spec:
  "input_ok s \<Longrightarrow> \<exists>i. kill_line s n = Some (n + (in_e s - i), s \<lparr> in_e := i \<rparr>) \<and> input_ok (s \<lparr> in_e := i \<rparr>)
     \<and> editing (s \<lparr> in_e := i \<rparr>) = rev (dropWhile (\<lambda>x. x \<noteq> 10) (rev (editing s)))"
proof (induction "in_e s" arbitrary: s n rule: less_induct)
  case less
  show ?case
  proof (cases "in_e s = in_w s")
    case True
    then have "kill_line s n = Some (n, s)" by (subst kill_line.simps) simp
    moreover have "editing s = []" using True by (simp add: editing_def)
    ultimately show ?thesis using less.prems by (intro exI [of _ "in_e s"]) simp
  next
    case False
    then have lt: "in_w s < in_e s" "0 < in_e s" using less.prems by (auto simp: input_ok_def)
    let ?i = "in_e s - 1" and ?c = "in_buf s ! ((in_e s - 1) mod BUF_SIZE)"
    let ?s = "s \<lparr> in_e := ?i \<rparr>"
    have ix: "idx (in_buf s) (?i mod BUF_SIZE) = Some ?c" using less.prems by (simp add: input_ok_def idx_def BUF_SIZE_def)
    have ed: "editing s = editing ?s @ [?c]" by (rule editing_last [OF less.prems lt(1)])
    show ?thesis
    proof (cases "?c = 10")
      case True
      have "rev (dropWhile (\<lambda>x. x \<noteq> 10) (rev (editing s))) = editing s" unfolding ed using True by simp
      moreover have "kill_line s n = Some (n, s)" using False lt ix True by (subst kill_line.simps) (simp add: sub_usize_def)
      ultimately show ?thesis using less.prems by (intro exI [of _ "in_e s"]) simp
    next
      case c: False
      have ok: "input_ok ?s" using less.prems lt by (auto simp: input_ok_def)
      have "in_e ?s < in_e s" using lt by simp
      from less.hyps [OF this ok, of "n + 1"] obtain i where
        i: "kill_line ?s (n + 1) = Some (n + 1 + (?i - i), ?s \<lparr> in_e := i \<rparr>)" "input_ok (?s \<lparr> in_e := i \<rparr>)"
        "editing (?s \<lparr> in_e := i \<rparr>) = rev (dropWhile (\<lambda>x. x \<noteq> 10) (rev (editing ?s)))" by auto
      have "kill_line s n = kill_line ?s (n + 1)" using False lt ix c by (subst kill_line.simps) (simp add: sub_usize_def)
      moreover have "i \<le> ?i"
      proof -
        have "length (editing (?s \<lparr> in_e := i \<rparr>)) \<le> length (editing ?s)" unfolding i(3) using length_dropWhile_le [of _ "rev (editing ?s)"] by simp
        then show ?thesis using i(2) lt by (auto simp: in_ring_lengths input_ok_def)
      qed
      moreover have "rev (dropWhile (\<lambda>x. x \<noteq> 10) (rev (editing s))) = rev (dropWhile (\<lambda>x. x \<noteq> 10) (rev (editing ?s)))"
        unfolding ed using c by simp
      ultimately show ?thesis using i lt by (intro exI [of _ i]) simp
    qed
  qed
qed


lemma edit_append:
  "c \<notin> {CTRL_C, CTRL_BACKSLASH, CTRL_Z, CTRL_U, BACKSPACE, DEL} \<Longrightarrow> edit c (com, line)
    = (if c \<noteq> 0 \<and> length com + length line < BUF_SIZE
       then let c = (if c = 13 then 10 else c)
            in if c = 10 \<or> c = CTRL_D \<or> length com + length line + 1 = BUF_SIZE then (com @ line @ [c], [])
               else (com, line @ [c])
       else (com, line))"
  by (simp add: edit_def)

lemma putc_append:
  assumes ok: "input_ok s" and raw: "\<not> in_raw s" and c: "c \<notin> {CTRL_C, CTRL_BACKSLASH, CTRL_Z, CTRL_U, BACKSPACE, DEL}"
  shows "\<exists>out s'. putc c k s = Some (out, k, s') \<and> input_ok s' \<and> (committed s', editing s') = edit c (committed s, editing s)"
proof (cases "c \<noteq> 0 \<and> in_e s < in_r s + BUF_SIZE")
  case False
  have "wrapping_sub (in_e s) (in_r s) < BUF_SIZE \<longleftrightarrow> in_e s < in_r s + BUF_SIZE"
    "length (committed s) + length (editing s) < BUF_SIZE \<longleftrightarrow> in_e s < in_r s + BUF_SIZE"
    using ok by (auto simp: input_space [OF ok] in_ring_lengths input_ok_def BUF_SIZE_def)
  then show ?thesis using False ok raw c by (auto simp: putc_def edit_append)
next
  case True
  define d where "d = (if c = 13 then 10 else c)"
  define b where "b = (in_buf s)[in_e s mod BUF_SIZE := d]"
  note st = store_byte(1) [OF ok, of d, folded b_def] store_byte(2) [OF ok] store_byte(3-6) [OF ok, of d, folded b_def]
    stored_ok [OF ok, of b]
  have sp: "wrapping_sub (in_e s) (in_r s) < BUF_SIZE" "length (committed s) + length (editing s) < BUF_SIZE"
    "length (committed s) + length (editing s) + 1 = BUF_SIZE \<longleftrightarrow> in_e s + 1 = in_r s + BUF_SIZE"
    "add_usize (in_r s) BUF_SIZE = Some (in_r s + BUF_SIZE)"
    using True ok by (auto simp: input_space [OF ok] in_ring_lengths input_ok_def BUF_SIZE_def add_usize_def)
  let ?s = "s \<lparr> in_buf := b, in_e := in_e s + 1 \<rparr>"
  let ?full = "d = 10 \<or> d = CTRL_D \<or> in_e s + 1 = in_r s + BUF_SIZE"
  have "putc c k s = Some ([if d = CTRL_D then Echo ''^D'' else Echo_char d], k, if ?full then ?s \<lparr> in_w := in_e s + 1 \<rparr> else ?s)"
    using True raw c sp st(1,2) by (simp add: putc_def d_def [symmetric] Let_def)
  moreover have "edit c (committed s, editing s)
      = (if ?full then (committed s @ editing s @ [d], []) else (committed s, editing s @ [d]))"
    using True c sp(2,3) by (simp add: edit_append d_def [symmetric])
  moreover have "committed ?s = committed s" "editing ?s = editing s @ [d]"
    "committed (?s \<lparr> in_w := in_e s + 1 \<rparr>) = committed s @ editing s @ [d]" "editing (?s \<lparr> in_w := in_e s + 1 \<rparr>) = []"
    using st(3-5) True by (simp_all add: committed_def editing_def)
  ultimately show ?thesis using st(6-8) True by simp
qed

lemma putc_erase:
  assumes ok: "input_ok s" and raw: "\<not> in_raw s" and c: "c = BACKSPACE \<or> c = DEL"
  shows "\<exists>out s'. putc c k s = Some (out, k, s') \<and> input_ok s' \<and> (committed s', editing s') = edit c (committed s, editing s)"
proof -
  have c': "c \<noteq> CTRL_C" "c \<noteq> CTRL_BACKSLASH" "c \<noteq> CTRL_Z" "c \<noteq> CTRL_U"
    using c by (auto simp: BACKSPACE_def DEL_def CTRL_C_def CTRL_BACKSLASH_def CTRL_Z_def CTRL_U_def)
  show ?thesis
  proof (cases "in_e s = in_w s")
    case True
    then show ?thesis using ok raw c c' by (simp add: putc_def edit_def editing_def)
  next
    case False
    then have lt: "in_w s < in_e s" using ok by (simp add: input_ok_def)
    from editing_last [OF ok lt] have "editing (s \<lparr> in_e := in_e s - 1 \<rparr>) = butlast (editing s)" by (metis butlast_snoc)
    moreover have "input_ok (s \<lparr> in_e := in_e s - 1 \<rparr>)" using ok lt by (auto simp: input_ok_def)
    ultimately show ?thesis using False lt raw c c' by (simp add: putc_def edit_def sub_usize_def committed_def)
  qed
qed

lemma signal_foreground_ok: "ALL_LIST k = Some all \<Longrightarrow> \<exists>k'. signal_foreground sig k = Some k'"
  by (auto simp: signal_foreground_def foreground_pgid_def send_signal_pgid_def Let_def split: prod.splits)

subsection \<open>Raw mode is a byte stream\<close>

text \<open>Bytes that arrive in raw mode, the ones for which there is no room dropped, and bytes taken by \<open>getc\<close>.\<close>

definition raw_ok :: "input \<Rightarrow> bool" where
  "raw_ok s \<longleftrightarrow> input_ok s \<and> in_raw s \<and> in_w s = in_e s"

primrec raw_put :: "byte list \<Rightarrow> input \<Rightarrow> (nat \<times> input) option" where
  "raw_put [] s = Some (0, s)"
| "raw_put (x # xs) s =
     (if input_full s then Some (0, s) else do { s \<leftarrow> putc_raw x s; (n, s) \<leftarrow> raw_put xs s; Some (n + 1, s) })"

primrec raw_get :: "'z kern \<Rightarrow> nat \<Rightarrow> input \<Rightarrow> (byte list \<times> input) option" where
  "raw_get k 0 s = Some ([], s)"
| "raw_get k (Suc n) s =
     (if has_data s \<and> in_r s + 1 + BUF_SIZE < 2 ^ 32
      then do {
        (g, s) \<leftarrow> getc k s;
        (xs, s) \<leftarrow> raw_get k n s;
        Some (case g of Got c \<Rightarrow> c # xs | _ \<Rightarrow> xs, s)
      }
      else Some ([], s))"

lemma putc_raw_law:
  assumes "raw_ok s" and "\<not> input_full s"
  shows "\<exists>s'. putc_raw c s = Some s' \<and> raw_ok s' \<and> committed s' = committed s @ [c]"
proof -
  have ok: "input_ok s" using assms by (simp add: raw_ok_def)
  have lt: "in_e s < in_r s + BUF_SIZE" using assms by (auto simp: input_full_def raw_ok_def input_space input_ok_def)
  note st = store_byte(1) [OF ok lt, of c] store_byte(2) [OF ok lt] store_byte(5,6) [OF ok lt, of c]
  have "wrapping_sub (in_e s) (in_r s) < BUF_SIZE" using assms(2) by (simp add: input_full_def)
  moreover have "editing s = []" using assms(1) by (simp add: raw_ok_def editing_def)
  ultimately show ?thesis using assms(1) st lt by (auto simp: putc_raw_def raw_ok_def input_ok_def committed_def)
qed

lemma getc_law:
  assumes "raw_ok s" and "has_data s" and "in_r s + 1 + BUF_SIZE < 2 ^ 32"
  shows "\<exists>c s'. getc k s = Some (Got c, s') \<and> raw_ok s' \<and> committed s = c # committed s'"
proof -
  have lt: "in_r s < in_w s" using assms(1,2) by (auto simp: has_data_def raw_ok_def input_ok_def)
  then have "committed s = in_buf s ! (in_r s mod BUF_SIZE) # committed (s \<lparr> in_r := in_r s + 1 \<rparr>)"
    by (simp add: committed_def ring_def upt_conv_Cons)
  moreover have "raw_ok (s \<lparr> in_r := in_r s + 1 \<rparr>)" using assms lt by (auto simp: raw_ok_def input_ok_def)
  moreover have "in_r s mod BUF_SIZE < length (in_buf s)" using assms(1) by (simp add: raw_ok_def input_ok_def BUF_SIZE_def)
  ultimately show ?thesis using assms(2,3) by (auto simp: getc_def has_data_def idx_def add_usize_def)
qed

lemma raw_put_law:
  "raw_ok s \<Longrightarrow> raw_put xs s = Some (n, s') \<Longrightarrow> raw_ok s' \<and> n \<le> length xs \<and> committed s' = committed s @ take n xs"
proof (induction xs arbitrary: s n)
  case (Cons x xs)
  show ?case
  proof (cases "input_full s")
    case False
    from putc_raw_law [OF Cons.prems(1) False, of x] obtain s1 where
      s1: "putc_raw x s = Some s1" "raw_ok s1" "committed s1 = committed s @ [x]" by blast
    with Cons.prems(2) False obtain m where "raw_put xs s1 = Some (m, s')" "n = m + 1" by (auto split: Option.bind_splits)
    with Cons.IH [OF s1(2)] s1(3) show ?thesis by auto
  qed (use Cons.prems in auto)
qed auto

lemma raw_get_law:
  "raw_ok s \<Longrightarrow> raw_get k m s = Some (ys, s') \<Longrightarrow> raw_ok s' \<and> length ys \<le> m \<and> committed s = ys @ committed s'"
proof (induction m arbitrary: s ys)
  case (Suc m)
  show ?case
  proof (cases "has_data s \<and> in_r s + 1 + BUF_SIZE < 2 ^ 32")
    case True
    with getc_law [OF Suc.prems(1), of k] obtain c s1 where
      s1: "getc k s = Some (Got c, s1)" "raw_ok s1" "committed s = c # committed s1" by blast
    with Suc.prems(2) True obtain xs where "raw_get k m s1 = Some (xs, s')" "ys = c # xs" by (auto split: Option.bind_splits)
    with Suc.IH [OF s1(2)] s1(3) show ?thesis by auto
  qed (use Suc.prems in auto)
qed auto

interpretation raw_queue: stream_queue raw_ok committed raw_put "raw_get k" for k
  by unfold_locales (use raw_put_law raw_get_law in blast)+

section \<open>Properties\<close>

text \<open>In raw mode the console input is a byte stream: over any sequence of arriving bytes and calls of \<open>getc\<close>, the bytes
  delivered and the bytes still buffered are the bytes buffered at first and the bytes accepted, in order.\<close>

theorem raw_stream:
  assumes "raw_ok s" and "queue_run raw_put (raw_get k) rs s = Some (ins, outs, s')"
  shows "raw_ok s' \<and> committed s @ ins = outs @ committed s'"
  by (rule raw_queue.stream [OF assms])

lemma raw_sample_ok: "raw_ok (INPUT \<lparr> in_raw := True \<rparr>)"
  by (simp add: raw_ok_def INPUT_def input_ok_def BUF_SIZE_def)

lemma raw_sample_run:
  "\<exists>s'. queue_run raw_put (raw_get sample_kernel) [Put [65], Get 1] (INPUT \<lparr> in_raw := True \<rparr>) = Some ([65], [65], s')"
proof -
  have "\<not> input_full (INPUT \<lparr> in_raw := True \<rparr>)" by (simp add: input_full_def wrapping_sub_def INPUT_def BUF_SIZE_def)
  moreover have "putc_raw 65 (INPUT \<lparr> in_raw := True \<rparr>) = Some (INPUT \<lparr> in_raw := True, in_buf := (replicate BUF_SIZE 0)[0 := 65], in_e := 1, in_w := 1 \<rparr>)"
    by (simp add: putc_raw_def wrapping_sub_def INPUT_def upd_def BUF_SIZE_def add_usize_def)
  ultimately show ?thesis
    by (simp add: has_data_def getc_def INPUT_def idx_def BUF_SIZE_def add_usize_def)
qed

theorem raw_stream_witness:
  "\<exists>s'. raw_ok s' \<and> committed (INPUT \<lparr> in_raw := True \<rparr>) @ [65] = [65] @ committed s'"
  using raw_sample_run raw_stream [OF raw_sample_ok] by blast

text \<open>The kernel state after \<open>putc\<close> in cooked mode: only the two interrupt keys change it.\<close>

definition key_signal :: "byte \<Rightarrow> 'z kern \<Rightarrow> 'z kern option" where
  "key_signal c k = (if c = CTRL_C then signal_foreground SIGINT k
     else if c = CTRL_BACKSLASH then signal_foreground SIGQUIT k else Some k)"

text \<open>C27: In cooked mode every byte, in every state of the buffer, is handled without a panic and acts as the line editor
  should: backspace removes the last byte of the line and never a committed one, \<open>Ctrl-U\<close> the line, \<open>Ctrl-C\<close> and
  \<open>Ctrl-\\\<close> the line with a signal to the foreground group, return commits the line, a full buffer commits it as it is,
  and bytes that do not fit are dropped.\<close>

theorem putc_refines_edit:
  assumes "input_ok s" and "\<not> in_raw s" and "ALL_LIST k = Some all"
  shows "\<exists>out k' s'. putc c k s = Some (out, k', s') \<and> key_signal c k = Some k' \<and> input_ok s'
    \<and> (committed s', editing s') = edit c (committed s, editing s)"
proof -
  consider "c = CTRL_C" | "c = CTRL_BACKSLASH" | "c = CTRL_Z" | "c = CTRL_U" | "c = BACKSPACE \<or> c = DEL"
    | "c \<notin> {CTRL_C, CTRL_BACKSLASH, CTRL_Z, CTRL_U, BACKSPACE, DEL}" by blast
  then show ?thesis
  proof cases
    case 1
    from signal_foreground_ok [OF assms(3)] obtain k' where "signal_foreground SIGINT k = Some k'" by blast
    with 1 assms show ?thesis by (auto simp: putc_def key_signal_def edit_def input_ok_def committed_def editing_def)
  next
    case 2
    from signal_foreground_ok [OF assms(3)] obtain k' where "signal_foreground SIGQUIT k = Some k'" by blast
    with 2 assms show ?thesis
      by (auto simp: putc_def key_signal_def edit_def input_ok_def committed_def editing_def CTRL_BACKSLASH_def CTRL_C_def)
  next
    case 3
    with assms show ?thesis by (simp add: putc_def key_signal_def edit_def CTRL_Z_def CTRL_C_def CTRL_BACKSLASH_def)
  next
    case 4
    have c: "CTRL_U \<noteq> CTRL_C" "CTRL_U \<noteq> CTRL_BACKSLASH" "CTRL_U \<noteq> CTRL_Z"
      by (simp_all add: CTRL_U_def CTRL_C_def CTRL_BACKSLASH_def CTRL_Z_def)
    from kill_line_spec [OF assms(1), of 0] obtain i where
      "kill_line s 0 = Some (0 + (in_e s - i), s \<lparr> in_e := i \<rparr>)" "input_ok (s \<lparr> in_e := i \<rparr>)"
      "editing (s \<lparr> in_e := i \<rparr>) = rev (dropWhile (\<lambda>x. x \<noteq> 10) (rev (editing s)))" by blast
    with 4 c assms(2) show ?thesis by (simp add: putc_def key_signal_def edit_def committed_def)
  next
    case 5
    then have "key_signal c k = Some k" by (auto simp: key_signal_def BACKSPACE_def DEL_def CTRL_C_def CTRL_BACKSLASH_def)
    with putc_erase [OF assms(1,2) 5, of k] show ?thesis by auto
  next
    case 6
    then have "key_signal c k = Some k" by (simp add: key_signal_def)
    with putc_append [OF assms(1,2) 6, of k] show ?thesis by auto
  qed
qed


definition sample_input :: input where
  "sample_input = INPUT \<lparr> in_buf := (replicate BUF_SIZE 0)[0 := 104, 1 := 105], in_e := 2 \<rparr>"

theorem putc_refines_edit_witness:
  "\<exists>out k' s'. putc 13 sample_kernel sample_input = Some (out, k', s') \<and> key_signal 13 sample_kernel = Some k' \<and> input_ok s'
    \<and> (committed s', editing s') = edit 13 (committed sample_input, editing sample_input)"
  by (rule putc_refines_edit)
    (simp_all add: sample_input_def INPUT_def input_ok_def BUF_SIZE_def sample_kernel_def)

end
