(* ===== verification/Sync.thy ===== *)
theory Sync
  imports ThreadProps
begin

section \<open>Semaphores, locks and condition variables: sync\<close>

text \<open>
  The primitives block in the middle, so what a thread still has to do is part of the state: \<open>code\<close> is its kernel
  stack as a list of instructions, an operation of \<open>sync\<close> or the rest of one. \<open>run_current\<close> executes the first
  instruction of the running thread; an operation that switches threads leaves the rest of itself on the list of
  the thread that called it. \<open>sync_step\<close> adds preemption while interrupts are on.
\<close>

record semaphore =
  sem_value :: nat
  sem_waiters :: "nat list"

definition semaphore_new :: "nat \<Rightarrow> semaphore" where
  "semaphore_new v = \<lparr> sem_value = v, sem_waiters = [] \<rparr>"

record lock =
  holder :: nat
  sema :: semaphore

definition lock_new :: lock where
  "lock_new = \<lparr> holder = 0, sema = semaphore_new 1 \<rparr>"

text \<open>A semaphore on its own, or the one inside the lock at an address.\<close>

datatype sema_ref = Sem nat | Lock_sem nat

datatype instr =
    Down sema_ref | Down_loop sema_ref intr_level
  | Up sema_ref | Up_rest sema_ref intr_level
  | Set_level intr_level
  | Acquire nat | Acquired nat | Try_acquire nat | Try_acquired nat | Release nat
  | Wait nat nat | Signal nat nat | Broadcast nat nat | Broadcast_loop nat

text \<open>A condition variable is its queue of semaphores; \<open>next_sema\<close> is the address the next \<open>Box::new\<close> returns.\<close>

record sync_state = kernel +
  semas :: "nat \<Rightarrow> semaphore"
  locks :: "nat \<Rightarrow> lock"
  condvars :: "nat \<Rightarrow> nat list"
  next_sema :: nat
  code :: "nat \<Rightarrow> instr list"

definition get_sema :: "sema_ref \<Rightarrow> sync_state \<Rightarrow> semaphore" where
  "get_sema s k = (case s of Sem a \<Rightarrow> semas k a | Lock_sem l \<Rightarrow> sema (locks k l))"

definition put_sema :: "sema_ref \<Rightarrow> semaphore \<Rightarrow> sync_state \<Rightarrow> sync_state" where
  "put_sema s v k = (case s of Sem a \<Rightarrow> k \<lparr> semas := (semas k)(a := v) \<rparr>
     | Lock_sem l \<Rightarrow> k \<lparr> locks := (locks k)(l := (locks k l) \<lparr> sema := v \<rparr>) \<rparr>)"

definition put_holder :: "nat \<Rightarrow> nat \<Rightarrow> sync_state \<Rightarrow> sync_state" where
  "put_holder l t k = k \<lparr> locks := (locks k)(l := (locks k l) \<lparr> holder := t \<rparr>) \<rparr>"

subsection \<open>sync/semaphore.rs\<close>

definition sema_down :: "sema_ref \<Rightarrow> sync_state \<Rightarrow> instr list \<times> sync_state" where
  "sema_down s k = (let (old, k) = intr_disable k in ([Down_loop s old], k))"

definition sema_down_loop :: "sema_ref \<Rightarrow> intr_level \<Rightarrow> sync_state \<Rightarrow> (instr list \<times> sync_state) option" where
  "sema_down_loop s old k =
     (let v = get_sema s k
      in if sem_value v = 0
         then do {
           k \<leftarrow> block (put_sema s (v \<lparr> sem_waiters := sem_waiters v @ [running_thread k] \<rparr>) k);
           Some ([Down_loop s old], k)
         }
         else do {
           n \<leftarrow> sub_usize (sem_value v) 1;
           let (_, k) = intr_set_level old (put_sema s (v \<lparr> sem_value := n \<rparr>) k);
           Some ([], k)
         })"

definition sema_try_down :: "sema_ref \<Rightarrow> sync_state \<Rightarrow> (bool \<times> sync_state) option" where
  "sema_try_down s k = do {
     let (old, k) = intr_disable k;
     let v = get_sema s k;
     (b, k) \<leftarrow> (if sem_value v > 0
               then do { n \<leftarrow> sub_usize (sem_value v) 1; Some (True, put_sema s (v \<lparr> sem_value := n \<rparr>) k) }
               else Some (False, k));
     let (_, k) = intr_set_level old k;
     Some (b, k)
   }"

text \<open>\<open>up\<close> up to and including the wake-up; the increment is left, after the return from a switch.\<close>

definition sema_up :: "sema_ref \<Rightarrow> sync_state \<Rightarrow> (instr list \<times> sync_state) option" where
  "sema_up s k = do {
     let (old, k) = intr_disable k;
     let v = get_sema s k;
     if sem_waiters v \<noteq> []
     then do {
       let i = best_index (\<lambda>t. priority (thr t k)) (sem_waiters v);
       let k = put_sema s (v \<lparr> sem_waiters := remove_at i (sem_waiters v) \<rparr>) k;
       (switched, k) \<leftarrow> unblock (sem_waiters v ! i) k;
       Some ((case switched of None \<Rightarrow> [] | Some l \<Rightarrow> [Set_level l]) @ [Up_rest s old], k)
     }
     else Some ([Up_rest s old], k)
   }"

definition sema_up_rest :: "sema_ref \<Rightarrow> intr_level \<Rightarrow> sync_state \<Rightarrow> sync_state option" where
  "sema_up_rest s old k = do {
     let v = get_sema s k;
     n \<leftarrow> add_usize (sem_value v) 1;
     let (_, k) = intr_set_level old (put_sema s (v \<lparr> sem_value := n \<rparr>) k);
     Some k
   }"

subsection \<open>sync/lock.rs\<close>

definition held_by_current_thread :: "nat \<Rightarrow> sync_state \<Rightarrow> bool" where
  "held_by_current_thread l k \<longleftrightarrow> holder (locks k l) = running_thread k"

definition holder_raw :: "sync_state \<Rightarrow> nat \<Rightarrow> nat" where
  "holder_raw k l = holder (locks k l)"

definition acquire_lock :: "nat \<Rightarrow> sync_state \<Rightarrow> (instr list \<times> sync_state) option" where
  "acquire_lock l k = do {
     assert (\<not> held_by_current_thread l k);
     let (old, k) = intr_disable k;
     let k = (if holder (locks k l) \<noteq> 0
              then let my_pri = get_priority k;
                       k = set_thr (running_thread k) (\<lambda>th. th \<lparr> waiting_on_lock := l \<rparr>) k
                   in donate_priority (holder_raw k) (holder (locks k l)) my_pri k
              else k);
     let (_, k) = intr_set_level old k;
     Some ([Down (Lock_sem l), Acquired l], k)
   }"

definition lock_acquired :: "nat \<Rightarrow> sync_state \<Rightarrow> sync_state" where
  "lock_acquired l k =
     put_holder l (running_thread k) (set_thr (running_thread k) (\<lambda>th. th \<lparr> waiting_on_lock := 0 \<rparr>) k)"

definition lock_try_acquire :: "nat \<Rightarrow> sync_state \<Rightarrow> (instr list \<times> sync_state) option" where
  "lock_try_acquire l k = do {
     (b, k) \<leftarrow> sema_try_down (Lock_sem l) k;
     Some (if b then [Try_acquired l] else [], k)
   }"

definition release_lock :: "nat \<Rightarrow> sync_state \<Rightarrow> (instr list \<times> sync_state) option" where
  "release_lock l k = do {
     assert (held_by_current_thread l k);
     Some ([Up (Lock_sem l)], put_holder l 0 (restore_priority k))
   }"

subsection \<open>sync/condvar.rs\<close>

definition cond_wait :: "nat \<Rightarrow> nat \<Rightarrow> sync_state \<Rightarrow> (instr list \<times> sync_state) option" where
  "cond_wait c l k = do {
     assert (held_by_current_thread l k);
     let w = next_sema k;
     let k = k \<lparr> next_sema := w + 1, semas := (semas k)(w := semaphore_new 0), condvars := (condvars k)(c := condvars k c @ [w]) \<rparr>;
     Some ([Release l, Down (Sem w), Acquire l], k)
   }"

text \<open>The search of \<open>signal\<close>: the first waiter in front of its semaphore with the highest priority.\<close>

fun signal_loop :: "sync_state \<Rightarrow> nat list \<Rightarrow> nat \<Rightarrow> nat \<times> int \<Rightarrow> nat" where
  "signal_loop k [] i (best_idx, best_pri) = best_idx"
| "signal_loop k (s # ss) i (best_idx, best_pri) =
     signal_loop k ss (i + 1)
       (case sem_waiters (semas k s) of
          t # _ \<Rightarrow> if priority (thr t k) > best_pri then (i, priority (thr t k)) else (best_idx, best_pri)
        | [] \<Rightarrow> (best_idx, best_pri))"

definition cond_signal :: "nat \<Rightarrow> nat \<Rightarrow> sync_state \<Rightarrow> (instr list \<times> sync_state) option" where
  "cond_signal c l k = do {
     assert (held_by_current_thread l k);
     let ws = condvars k c;
     if ws = [] then Some ([], k)
     else do {
       let i = (if length ws = 1 then 0 else signal_loop k ws 0 (0, - (2 ^ 31)));
       w \<leftarrow> idx ws i;
       Some ([Up (Sem w)], k \<lparr> condvars := (condvars k)(c := remove_at i ws) \<rparr>)
     }
   }"

definition cond_broadcast :: "nat \<Rightarrow> nat \<Rightarrow> sync_state \<Rightarrow> (instr list \<times> sync_state) option" where
  "cond_broadcast c l k = do {
     assert (held_by_current_thread l k);
     Some ([Broadcast_loop c], k)
   }"

definition broadcast_loop :: "nat \<Rightarrow> sync_state \<Rightarrow> instr list \<times> sync_state" where
  "broadcast_loop c k =
     (case condvars k c of
        [] \<Rightarrow> ([], k)
      | w # ws \<Rightarrow> ([Up (Sem w), Broadcast_loop c], k \<lparr> condvars := (condvars k)(c := ws) \<rparr>))"

subsection \<open>Execution\<close>

fun exec :: "instr \<Rightarrow> sync_state \<Rightarrow> (instr list \<times> sync_state) option" where
  "exec (Down s) k = Some (sema_down s k)"
| "exec (Down_loop s old) k = sema_down_loop s old k"
| "exec (Up s) k = sema_up s k"
| "exec (Up_rest s old) k = do { k \<leftarrow> sema_up_rest s old k; Some ([], k) }"
| "exec (Set_level l) k = Some ([], snd (intr_set_level l k))"
| "exec (Acquire l) k = acquire_lock l k"
| "exec (Acquired l) k = Some ([], lock_acquired l k)"
| "exec (Try_acquire l) k = lock_try_acquire l k"
| "exec (Try_acquired l) k = Some ([], put_holder l (running_thread k) k)"
| "exec (Release l) k = release_lock l k"
| "exec (Wait c l) k = cond_wait c l k"
| "exec (Signal c l) k = cond_signal c l k"
| "exec (Broadcast c l) k = cond_broadcast c l k"
| "exec (Broadcast_loop c) k = Some (broadcast_loop c k)"

definition run_current :: "sync_state \<Rightarrow> sync_state option" where
  "run_current k =
     (case code k (cur k) of
        [] \<Rightarrow> None
      | i # rest \<Rightarrow> do {
          (more, k') \<leftarrow> exec i k;
          Some (k' \<lparr> code := (code k)(cur k := more @ rest) \<rparr>)
        })"

definition preempt :: "sync_state \<Rightarrow> sync_state option" where
  "preempt k = do {
     assert (intr_level k = On);
     (old, k') \<leftarrow> yield_current k;
     Some (k' \<lparr> code := (code k)(cur k := Set_level old # code k (cur k)) \<rparr>)
   }"

inductive sync_step :: "sync_state \<Rightarrow> sync_state \<Rightarrow> bool" where
  step_run: "run_current k = Some k' \<Longrightarrow> sync_step k k'"
| step_preempt: "preempt k = Some k' \<Longrightarrow> sync_step k k'"

primrec run_steps :: "nat \<Rightarrow> sync_state \<Rightarrow> sync_state option" where
  "run_steps 0 k = Some k"
| "run_steps (Suc n) k = do { k \<leftarrow> run_current k; run_steps n k }"

end
