(* ===== verification/SyncProps.thy ===== *)
theory SyncProps
  imports Sync
begin

section \<open>Correctness of the locks\<close>

text \<open>
  The thread layer does not touch what the synchronisation primitives own. On that rest the invariant of a lock: the
  semaphore's value, the holder and the threads on their way in or out add up to exactly one token
  (\<open>lock_exclusive\<close>), and what \<open>up\<close> does (\<open>sema_up_wakes\<close>, \<open>release_loses_wakeup\<close>).
\<close>

lemma more_set_thr [simp]: "kernel.more (set_thr t f k) = kernel.more k"
  by (simp add: set_thr_def)

lemma more_levels [simp]:
  "kernel.more (snd (intr_disable k)) = kernel.more k" "kernel.more (snd (intr_set_level l k)) = kernel.more k"
  by (simp_all add: level_defs split: intr_level.splits)

lemma more_activate: "activate k = Some k' \<Longrightarrow> kernel.more k' = kernel.more k \<and> cur k' = cur k"
  by (auto simp: activate_def pd_activate_def tss_update_def split: if_splits Option.bind_splits)

lemma more_schedule_tail: "schedule_tail p k = Some k' \<Longrightarrow> kernel.more k' = kernel.more k \<and> cur k' = cur k"
  unfolding schedule_tail_def by (fastforce dest: more_activate split: if_splits Option.bind_splits simp: Let_def)

lemma more_next: "next_thread_to_run k = Some (t, k') \<Longrightarrow> kernel.more k' = kernel.more k \<and> cur k' = cur k"
  by (auto simp: next_thread_to_run_def Let_def split: if_splits Option.bind_splits)

lemma more_schedule:
  assumes "schedule k = Some k'" shows "kernel.more k' = kernel.more k \<and> cur k' \<noteq> 0"
proof -
  from assms obtain t k1 where n: "next_thread_to_run k = Some (t, k1)" "t \<noteq> 0"
    and s: "if cur k \<noteq> t then schedule_tail (cur k) (k1 \<lparr> THREAD_TICKS := 0, cur := t \<rparr>) = Some k'
            else schedule_tail 0 (k1 \<lparr> THREAD_TICKS := 0 \<rparr>) = Some k'"
    by (auto simp: schedule_def check_thread_def assert_def running_thread_def Let_def split: if_splits Option.bind_splits)
  from s more_next [OF n(1)] n(2) show ?thesis by (auto dest!: more_schedule_tail split: if_splits)
qed

lemma more_yield: "yield_current k = Some (l, k') \<Longrightarrow> kernel.more k' = kernel.more k \<and> cur k' \<noteq> 0"
  unfolding yield_current_def
  by (auto simp: Let_def level_defs dest!: more_schedule split: if_splits Option.bind_splits prod.splits)

lemma more_block: "block k = Some k' \<Longrightarrow> kernel.more k' = kernel.more k \<and> cur k' \<noteq> 0"
  by (auto simp: block_def dest!: more_schedule split: if_splits)

lemma more_unblock: "unblock t k = Some (p, k') \<Longrightarrow> kernel.more k' = kernel.more k \<and> (cur k \<noteq> 0 \<longrightarrow> cur k' \<noteq> 0)"
  unfolding unblock_def
  by (auto simp: Let_def level_defs dest!: more_yield split: if_splits Option.bind_splits prod.splits intr_level.splits)

lemma more_donate: "kernel.more (donate_loop h n t p k) = kernel.more k \<and> cur (donate_loop h n t p k) = cur k"
  by (induction n arbitrary: t k) (auto simp: Let_def)

text \<open>The state of the primitives is the part of the record behind the kernel's.\<close>

lemma sync_more:
  fixes k k' :: sync_state
  assumes "kernel.more k' = kernel.more k"
  shows "semas k' = semas k" "locks k' = locks k" "condvars k' = condvars k" "next_sema k' = next_sema k" "code k' = code k"
  using assms by (cases k, cases k', simp)+


subsection \<open>Tokens\<close>

text \<open>The tokens of a lock that its fields show, and those that are on a thread's way in (counted when \<open>down\<close> is
  through) or out (until \<open>up\<close> has raised the value).\<close>

definition tok :: "nat \<Rightarrow> sync_state \<Rightarrow> int" where
  "tok l k = int (sem_value (sema (locks k l))) + (if holder (locks k l) \<noteq> 0 then 1 else 0)"

definition weight :: "nat \<Rightarrow> instr \<Rightarrow> int" where
  "weight l i = (case i of
      Acquired m \<Rightarrow> if m = l then 1 else 0
    | Try_acquired m \<Rightarrow> if m = l then 1 else 0
    | Up s \<Rightarrow> if s = Lock_sem l then 1 else 0
    | Up_rest s _ \<Rightarrow> if s = Lock_sem l then 1 else 0
    | Down s \<Rightarrow> if s = Lock_sem l then - 1 else 0
    | Down_loop s _ \<Rightarrow> if s = Lock_sem l then - 1 else 0
    | _ \<Rightarrow> 0)"

definition inside :: "nat \<Rightarrow> instr list \<Rightarrow> int" where
  "inside l is = sum_list (map (weight l) is)"

lemma inside_simps [simp]:
  "inside l [] = 0" "inside l (i # is) = weight l i + inside l is" "inside l (is @ js) = inside l is + inside l js"
  by (simp_all add: inside_def)

text \<open>A \<open>down\<close> on a lock's semaphore belongs to \<open>acquire\<close>.\<close>

definition enters :: "instr \<Rightarrow> nat option" where
  "enters i = (case i of Down (Lock_sem l) \<Rightarrow> Some l | Down_loop (Lock_sem l) _ \<Rightarrow> Some l | _ \<Rightarrow> None)"

primrec shape :: "instr list \<Rightarrow> bool" where
  "shape [] = True"
| "shape (i # is) \<longleftrightarrow> (case enters i of None \<Rightarrow> True | Some l \<Rightarrow> is \<noteq> [] \<and> hd is = Acquired l) \<and> shape is"

lemma weight_bounds: "0 \<le> weight l i \<or> weight l i = - 1 \<and> enters i = Some l" "i = Acquired l \<or> i = Try_acquired l \<Longrightarrow> weight l i = 1"
  by (auto simp: weight_def enters_def split: instr.splits)

lemma inside_nonneg:
  "shape is \<Longrightarrow> 0 \<le> inside l is \<and> (is \<noteq> [] \<and> (hd is = Acquired l \<or> hd is = Try_acquired l) \<longrightarrow> 1 \<le> inside l is)"
proof (induction "is")
  case (Cons i rest)
  then have ih: "0 \<le> inside l rest" "rest \<noteq> [] \<and> hd rest = Acquired l \<longrightarrow> 1 \<le> inside l rest" by auto
  have "0 \<le> inside l (i # rest)"
    using weight_bounds(1) [of l i]
  proof
    assume "weight l i = - 1 \<and> enters i = Some l"
    then show ?thesis using Cons.prems ih(2) by simp
  qed (use ih(1) in simp)
  moreover have "1 \<le> inside l (i # rest)" if "i = Acquired l \<or> i = Try_acquired l"
    using weight_bounds(2) [OF that] ih(1) by simp
  ultimately show ?case by simp
qed simp

lemma tok_more: "kernel.more k' = kernel.more k \<Longrightarrow> tok l k' = tok l k"
  using sync_more(2) [of k' k] by (simp add: tok_def)

lemma tok_put [simp]:
  "tok l (put_sema s v k) = (if s = Lock_sem l then tok l k - int (sem_value (get_sema s k)) + int (sem_value v) else tok l k)"
  "tok l (put_holder m t k) = (if m = l then int (sem_value (sema (locks k l))) + (if t \<noteq> 0 then 1 else 0) else tok l k)"
  "tok l (k \<lparr> code := c \<rparr>) = tok l k"
  by (auto simp: tok_def put_sema_def put_holder_def get_sema_def split: sema_ref.splits)

lemma cur_put [simp]: "cur (put_sema s v k) = cur k" "cur (put_holder l t k) = cur k"
  by (simp_all add: put_sema_def put_holder_def split: sema_ref.splits)

lemma tok_level [simp]: "tok l (snd (intr_set_level v k)) = tok l k" "cur (snd (intr_set_level v k)) = cur k"
  by (simp_all add: tok_def level_defs split: intr_level.splits)

lemma down_loop_tok:
  assumes "sema_down_loop s old k = Some (js, k')" and "cur k \<noteq> 0"
  shows "tok l k' + inside l js = tok l k + weight l (Down_loop s old) \<and> cur k' \<noteq> 0 \<and> (js = [] \<or> js = [Down_loop s old])"
proof (cases "sem_value (get_sema s k) = 0")
  case True
  let ?k = "put_sema s ((get_sema s k) \<lparr> sem_waiters := sem_waiters (get_sema s k) @ [cur k] \<rparr>) k"
  from True assms(1) have "block ?k = Some k'" "js = [Down_loop s old]"
    by (auto simp: sema_down_loop_def Let_def running_thread_def split: Option.bind_splits)
  with more_block [of ?k k'] tok_more [of k' ?k] True show ?thesis by simp
next
  case False
  with assms have "js = []" "k' = snd (intr_set_level old (put_sema s ((get_sema s k) \<lparr> sem_value := sem_value (get_sema s k) - 1 \<rparr>) k))"
    by (auto simp: sema_down_loop_def Let_def sub_usize_def split: prod.splits)
  with False assms(2) show ?thesis by (auto simp: weight_def)
qed

lemma up_tok:
  assumes "sema_up s k = Some (js, k')" and "cur k \<noteq> 0"
  shows "tok l k' + inside l js = tok l k + weight l (Up s) \<and> cur k' \<noteq> 0 \<and> list_all (\<lambda>i. enters i = None) js"
proof (cases "sem_waiters (get_sema s k) = []")
  case True
  with assms show ?thesis
    by (auto simp: sema_up_def Let_def level_defs get_sema_def tok_def weight_def enters_def split: sema_ref.splits)
next
  case False
  let ?k = "k \<lparr> intr_level := Off \<rparr>"
  define v where "v = get_sema s k"
  define i where "i = best_index (\<lambda>t. priority (thr t ?k)) (sem_waiters v)"
  let ?k1 = "put_sema s (v \<lparr> sem_waiters := remove_at i (sem_waiters v) \<rparr>) ?k"
  have v: "get_sema s ?k = v" by (simp add: v_def get_sema_def split: sema_ref.splits)
  with False assms(1) obtain p where p: "unblock (sem_waiters v ! i) ?k1 = Some (p, k')"
      "js = (case p of None \<Rightarrow> [] | Some l \<Rightarrow> [Set_level l]) @ [Up_rest s (intr_level k)]"
    unfolding i_def by (auto simp: sema_up_def Let_def level_defs v_def split: Option.bind_splits)
  have "tok l ?k1 = tok l ?k" using v by auto
  moreover have "tok l ?k = tok l k" by (simp add: tok_def)
  moreover have "cur ?k1 \<noteq> 0" using assms(2) by simp
  ultimately have "tok l k' = tok l k" "cur k' \<noteq> 0" using more_unblock [OF p(1)] tok_more [of k' ?k1] by auto
  with p(2) show ?thesis by (auto simp: weight_def enters_def split: option.splits)
qed

lemma acquire_tok:
  assumes "acquire_lock m k = Some (js, k')"
  shows "tok l k' = tok l k \<and> cur k' = cur k \<and> js = [Down (Lock_sem m), Acquired m]"
proof -
  let ?k = "k \<lparr> intr_level := Off \<rparr>"
  let ?k1 = "set_thr (cur k) (\<lambda>th. th \<lparr> waiting_on_lock := m \<rparr>) ?k"
  let ?k2 = "if holder (locks ?k m) \<noteq> 0 then donate_priority (holder_raw ?k1) (holder (locks ?k1 m)) (get_priority ?k) ?k1 else ?k"
  from assms have e: "js = [Down (Lock_sem m), Acquired m]" "k' = snd (intr_set_level (intr_level k) ?k2)"
    by (auto simp: acquire_lock_def assert_def Let_def intr_disable_def intr_get_level_def running_thread_def split: if_splits prod.splits)
  have "kernel.more ?k2 = kernel.more k" "cur ?k2 = cur k" by (simp_all add: donate_priority_def more_donate)
  then show ?thesis unfolding e(2) using e(1) tok_more [of ?k2 k] by simp
qed

lemma try_acquire_tok:
  assumes "lock_try_acquire m k = Some (js, k')"
  shows "tok l k' + inside l js = tok l k \<and> cur k' = cur k \<and> list_all (\<lambda>i. enters i = None) js"
  using assms by (auto simp: lock_try_acquire_def sema_try_down_def sub_usize_def level_defs Let_def weight_def enters_def tok_def
      get_sema_def put_sema_def split: if_splits Option.bind_splits)


lemma shape_append: "list_all (\<lambda>i. enters i = None) js \<Longrightarrow> shape (js @ rest) = shape rest"
  by (induction js) auto

lemma exec_shape:
  assumes "exec i k = Some (js, k')" and "cur k \<noteq> 0" and "shape (i # rest)"
  shows "shape (js @ rest)"
proof (cases i)
  case (Down s)
  with assms show ?thesis by (auto simp: sema_down_def level_defs enters_def split: sema_ref.splits)
next
  case (Down_loop s old)
  with down_loop_tok [OF _ assms(2)] assms(1,3) show ?thesis by fastforce
next
  case (Up s)
  with up_tok [OF _ assms(2)] assms(1,3) shape_append show ?thesis by fastforce
next
  case (Acquire m)
  with acquire_tok [of m k js k'] assms show ?thesis by (simp add: enters_def)
next
  case (Try_acquire m)
  with try_acquire_tok [of m k js k'] assms shape_append show ?thesis by fastforce
qed (use assms in \<open>auto simp: release_lock_def cond_wait_def cond_signal_def cond_broadcast_def broadcast_loop_def
    assert_def enters_def Let_def split: if_splits Option.bind_splits list.splits\<close>)

lemma exec_tok:
  assumes "exec i k = Some (js, k')" and "cur k \<noteq> 0" and "i = Acquired l \<or> i = Try_acquired l \<Longrightarrow> holder (locks k l) = 0"
  shows "tok l k' + inside l js = tok l k + weight l i \<and> cur k' \<noteq> 0"
proof (cases i)
  case (Down s)
  with assms(1,2) show ?thesis by (auto simp: sema_down_def level_defs weight_def tok_def)
next
  case (Down_loop s old)
  with down_loop_tok [OF _ assms(2)] assms(1) show ?thesis by fastforce
next
  case (Up s)
  with up_tok [OF _ assms(2)] assms(1) show ?thesis by fastforce
next
  case (Up_rest s old)
  with assms(1) have "k' = snd (intr_set_level old (put_sema s ((get_sema s k) \<lparr> sem_value := sem_value (get_sema s k) + 1 \<rparr>) k))" "js = []"
    by (auto simp: sema_up_rest_def add_usize_def Let_def split: prod.splits if_splits)
  with assms(2) Up_rest show ?thesis by (simp add: weight_def)
next
  case (Acquire m)
  with acquire_tok [of m k js k'] assms show ?thesis by (simp add: weight_def)
next
  case (Acquired m)
  have "tok l (set_thr t f k) = tok l k" for t f by (simp add: tok_def set_thr_def)
  with Acquired assms show ?thesis by (auto simp: lock_acquired_def running_thread_def weight_def tok_def set_thr_def put_holder_def split: if_splits)
next
  case (Try_acquire m)
  with try_acquire_tok [of m k js k'] assms show ?thesis by (simp add: weight_def)
next
  case (Try_acquired m)
  with assms show ?thesis by (auto simp: running_thread_def weight_def tok_def put_holder_def split: if_splits)
next
  case (Set_level v)
  with assms show ?thesis by (auto simp: weight_def)
next
  case (Release m)
  with assms(1,2) show ?thesis
    by (auto simp: release_lock_def assert_def held_by_current_thread_def running_thread_def restore_priority_def
        weight_def tok_def put_holder_def set_thr_def split: if_splits)
qed (use assms in \<open>auto simp: cond_wait_def cond_signal_def cond_broadcast_def broadcast_loop_def
    assert_def weight_def Let_def tok_def split: if_splits Option.bind_splits list.splits\<close>)

subsection \<open>The invariant\<close>

definition lock_ok :: "nat \<Rightarrow> sync_state \<Rightarrow> bool" where
  "lock_ok l k \<longleftrightarrow> cur k \<noteq> 0 \<and> (\<forall>t. shape (code k t))
     \<and> (\<exists>ts. finite ts \<and> (\<forall>t. t \<notin> ts \<longrightarrow> code k t = []) \<and> tok l k + (\<Sum>t \<in> ts. inside l (code k t)) = 1)"

lemma sum_upd:
  fixes g :: "'b \<Rightarrow> int"
  assumes "finite ts" and "c \<in> ts"
  shows "(\<Sum>t \<in> ts. g ((f(c := x)) t)) = (\<Sum>t \<in> ts. g (f t)) - g (f c) + g x"
proof -
  have "(\<Sum>t \<in> ts - {c}. g ((f(c := x)) t)) = (\<Sum>t \<in> ts - {c}. g (f t))" by (rule sum.cong) auto
  then show ?thesis using sum.remove [OF assms, of "\<lambda>t. g (f t)"] sum.remove [OF assms, of "\<lambda>t. g ((f(c := x)) t)"] by simp
qed

text \<open>The invariant with the running thread among the threads that are counted.\<close>

lemma lock_ok_cur:
  assumes "lock_ok l k"
  obtains ts where "finite ts" "cur k \<in> ts" "\<forall>t. t \<notin> ts \<longrightarrow> code k t = []" "tok l k + (\<Sum>t \<in> ts. inside l (code k t)) = 1"
proof -
  from assms obtain ts where ts: "finite ts" "\<forall>t. t \<notin> ts \<longrightarrow> code k t = []" "tok l k + (\<Sum>t \<in> ts. inside l (code k t)) = 1"
    by (auto simp: lock_ok_def)
  have "(\<Sum>t \<in> insert (cur k) ts. inside l (code k t)) = (\<Sum>t \<in> ts. inside l (code k t))"
    using ts(1,2) by (cases "cur k \<in> ts") (simp_all add: insert_absorb)
  with ts show ?thesis by (intro that [of "insert (cur k) ts"]) auto
qed

lemma lock_ok_update:
  assumes "lock_ok l k" and "cur k' \<noteq> 0" and "shape is" and "tok l k' + inside l is = tok l k + inside l (code k (cur k))"
  shows "lock_ok l (k' \<lparr> code := (code k)(cur k := is) \<rparr>)" (is "lock_ok l ?k")
proof -
  from lock_ok_cur [OF assms(1)] obtain ts where ts: "finite ts" "cur k \<in> ts" "\<forall>t. t \<notin> ts \<longrightarrow> code k t = []"
    "tok l k + (\<Sum>t \<in> ts. inside l (code k t)) = 1" by blast
  have "tok l k' + (\<Sum>t \<in> ts. inside l (((code k)(cur k := is)) t)) = 1"
    unfolding sum_upd [OF ts(1,2)] using ts(4) assms(4) by simp
  moreover have "\<forall>t. shape (((code k)(cur k := is)) t)" using assms(1,3) by (simp add: lock_ok_def)
  moreover have "\<forall>t. t \<notin> ts \<longrightarrow> ((code k)(cur k := is)) t = []" using ts(2,3) by auto
  ultimately have "finite ts \<and> (\<forall>t. t \<notin> ts \<longrightarrow> code ?k t = []) \<and> tok l ?k + (\<Sum>t \<in> ts. inside l (code ?k t)) = 1"
    "\<forall>t. shape (code ?k t)" "cur ?k \<noteq> 0"
    using assms(2) ts(1) by simp_all
  then show ?thesis unfolding lock_ok_def by blast
qed

lemma lock_ok_holder:
  assumes "lock_ok l k" and "0 < inside l (code k t)"
  shows "holder (locks k l) = 0" "sem_value (sema (locks k l)) = 0" "u \<noteq> t \<Longrightarrow> inside l (code k u) = 0"
proof -
  from assms(1) obtain ts where ts: "finite ts" "\<forall>t. t \<notin> ts \<longrightarrow> code k t = []"
    "tok l k + (\<Sum>t \<in> ts. inside l (code k t)) = 1" by (auto simp: lock_ok_def)
  have nn: "0 \<le> inside l (code k t)" for t using assms(1) inside_nonneg by (auto simp: lock_ok_def)
  have t: "t \<in> ts" using assms(2) ts(2) by (cases "t \<in> ts") auto
  have "(\<Sum>t \<in> ts. inside l (code k t)) = inside l (code k t) + (\<Sum>t \<in> ts - {t}. inside l (code k t))" by (rule sum.remove [OF ts(1) t])
  moreover have "0 \<le> (\<Sum>t \<in> ts - {t}. inside l (code k t))" by (intro sum_nonneg nn)
  moreover have "0 \<le> tok l k" by (simp add: tok_def)
  ultimately have z: "tok l k \<le> 0" "(\<Sum>t \<in> ts - {t}. inside l (code k t)) \<le> 0" using ts(3) assms(2) by linarith+
  then show "holder (locks k l) = 0" "sem_value (sema (locks k l)) = 0" by (auto simp: tok_def split: if_splits)
  have "inside l (code k u) \<le> (\<Sum>t \<in> ts - {t}. inside l (code k t))" if "u \<in> ts - {t}"
    by (rule member_le_sum [OF that]) (use nn ts(1) in auto)
  then show "inside l (code k u) = 0" if "u \<noteq> t" using that z(2) nn [of u] ts(2) by (cases "u \<in> ts") auto
qed

lemma sync_step_ok:
  assumes "sync_step k k'" and ok: "lock_ok l k"
  shows "lock_ok l k'"
  using assms(1)
proof cases
  case step_run
  then obtain i rest js k1 where r: "code k (cur k) = i # rest" "exec i k = Some (js, k1)"
    "k' = k1 \<lparr> code := (code k)(cur k := js @ rest) \<rparr>"
    by (auto simp: run_current_def split: list.splits Option.bind_splits)
  from ok have c: "cur k \<noteq> 0" and "shape (code k (cur k))" unfolding lock_ok_def by blast+
  then have sh: "shape (i # rest)" by (simp only: r(1))
  have "holder (locks k l) = 0" if "i = Acquired l \<or> i = Try_acquired l"
  proof (rule lock_ok_holder(1) [OF ok])
    show "0 < inside l (code k (cur k))" using inside_nonneg [OF sh, of l] that unfolding r(1) by simp
  qed
  from exec_tok [OF r(2) c this] exec_shape [OF r(2) c sh] show ?thesis
    unfolding r(3) by (intro lock_ok_update [OF ok]) (auto simp: r(1))
next
  case step_preempt
  then obtain old k1 where p: "yield_current k = Some (old, k1)" "k' = k1 \<lparr> code := (code k)(cur k := Set_level old # code k (cur k)) \<rparr>"
    by (auto simp: preempt_def assert_def split: if_splits Option.bind_splits)
  have "shape (code k (cur k))" using ok unfolding lock_ok_def by blast
  with more_yield [OF p(1)] tok_more [of k1 k] show ?thesis
    unfolding p(2) by (intro lock_ok_update [OF ok]) (auto simp: enters_def weight_def)
qed


section \<open>Properties\<close>

text \<open>Two threads and a lock at address 8: thread \<open>0xC0101000\<close> has the priority 10 of its own, thread \<open>0xC0103000\<close> has 20.
  In \<open>sample_sync\<close> the first, raised to 20 by donation, is about to release the lock and the second waits for it.\<close>

definition handover :: "thread_status \<Rightarrow> int \<Rightarrow> thread_status \<Rightarrow> nat list \<Rightarrow> nat \<Rightarrow> intr_level \<Rightarrow> nat \<Rightarrow> nat \<Rightarrow> nat list
    \<Rightarrow> instr list \<Rightarrow> sync_state" where
  "handover status1 pri1 status2 ready running level holder1 v waiters code1 =
     \<lparr> pal = sample_palloc, threads = (\<lambda>_. zero_thread \<lparr> magic := THREAD_MAGIC, status := Ready \<rparr>)
         (0xC0101000 := zero_thread \<lparr> magic := THREAD_MAGIC, tid := 1, status := status1, priority := pri1, original_priority := 10 \<rparr>,
          0xC0103000 := zero_thread \<lparr> magic := THREAD_MAGIC, tid := 3, status := status2, priority := 20, original_priority := 20,
            waiting_on_lock := 8 \<rparr>),
       READY_LIST = Some ready, ALL_LIST = Some [0xC0101000, 0xC0102000, 0xC0103000], IDLE_THREAD = 0xC0102000,
       INITIAL_THREAD = 0xC0101000, THREAD_TICKS = 0, NEXT_TID = 4, cur = running, intr_level = level,
       YIELD_ON_RETURN = False, IN_EXTERNAL_INTR = False, INIT_PAGE_DIR = 0xC0100000, cr3 = 0x100000, TSS_PTR = 0, esp0 = 0,
       semas = (\<lambda>_. semaphore_new 0),
       locks = (\<lambda>_. lock_new)(8 := \<lparr> holder = holder1, sema = \<lparr> sem_value = v, sem_waiters = waiters \<rparr> \<rparr>),
       condvars = (\<lambda>_. []), next_sema = 100,
       code = (\<lambda>_. [])(0xC0101000 := code1, 0xC0103000 := [Down_loop (Lock_sem 8) On, Acquired 8]) \<rparr>"

definition sample_sync :: sync_state where
  "sample_sync = handover Running 20 Blocked [] 0xC0101000 On 0xC0101000 0 [0xC0103000] [Release 8]"

lemma sample_sync_ok: "lock_ok 8 sample_sync"
proof -
  have "\<forall>t. t \<notin> {0xC0101000, 0xC0103000} \<longrightarrow> code sample_sync t = []" by (simp add: sample_sync_def handover_def)
  moreover have "tok 8 sample_sync + (\<Sum>t \<in> {0xC0101000, 0xC0103000}. inside 8 (code sample_sync t)) = 1"
    by (simp add: sample_sync_def handover_def tok_def weight_def)
  moreover have "\<forall>t. shape (code sample_sync t)" "cur sample_sync \<noteq> 0" by (simp_all add: sample_sync_def handover_def enters_def)
  ultimately show ?thesis unfolding lock_ok_def by (meson finite.emptyI finite.insertI)
qed

text \<open>C2: Locks exclude. Whatever the threads do with locks, semaphores and condition variables and wherever they are
  preempted, a lock is always in exactly one of three conditions: free (value 1, no holder, nobody on the way in or
  out), held (value 0, a holder, nobody on the way in or out), or in transit through exactly one thread, which has
  passed \<open>down\<close> and not yet become the holder, or has given up the holder's place and not yet raised the value.\<close>

theorem lock_exclusive:
  assumes "lock_ok l k" and "sync_step\<^sup>*\<^sup>* k k'"
  shows "sem_value (sema (locks k' l)) = 1 \<and> holder (locks k' l) = 0 \<and> (\<forall>t. inside l (code k' t) = 0)
       \<or> sem_value (sema (locks k' l)) = 0 \<and> holder (locks k' l) \<noteq> 0 \<and> (\<forall>t. inside l (code k' t) = 0)
       \<or> sem_value (sema (locks k' l)) = 0 \<and> holder (locks k' l) = 0 \<and> (\<exists>!t. 0 < inside l (code k' t))"
proof -
  from assms(2,1) have ok: "lock_ok l k'" by (induction rule: rtranclp_induct) (blast intro: sync_step_ok)+
  show ?thesis
  proof (cases "\<exists>t. 0 < inside l (code k' t)")
    case True
    then obtain t where t: "0 < inside l (code k' t)" by blast
    note h = lock_ok_holder [OF ok t]
    have "\<exists>!t. 0 < inside l (code k' t)" by (rule ex1I [where a = t]) (use t h(3) in force)+
    with h(1,2) show ?thesis by blast
  next
    case False
    have "shape (code k' t)" for t using ok unfolding lock_ok_def by blast
    with False inside_nonneg have z: "inside l (code k' t) = 0" for t by (metis order_less_le)
    from ok obtain ts where "tok l k' + (\<Sum>t \<in> ts. inside l (code k' t)) = 1" unfolding lock_ok_def by blast
    with z have "tok l k' = 1" by simp
    with z show ?thesis by (auto simp: tok_def split: if_splits)
  qed
qed

theorem lock_exclusive_witness:
  "sem_value (sema (locks sample_sync 8)) = 1 \<and> holder (locks sample_sync 8) = 0 \<and> (\<forall>t. inside 8 (code sample_sync t) = 0)
       \<or> sem_value (sema (locks sample_sync 8)) = 0 \<and> holder (locks sample_sync 8) \<noteq> 0 \<and> (\<forall>t. inside 8 (code sample_sync t) = 0)
       \<or> sem_value (sema (locks sample_sync 8)) = 0 \<and> holder (locks sample_sync 8) = 0 \<and> (\<exists>!t. 0 < inside 8 (code sample_sync t))"
  by (rule lock_exclusive [OF sample_sync_ok rtranclp.rtrancl_refl])

text \<open>The run of the release, one instruction after the other; evaluation goes from the outside in.\<close>

lemmas sync_run_defs = run_current_def release_lock_def held_by_current_thread_def restore_priority_def put_holder_def
  sema_up_def sema_up_rest_def sema_down_loop_def get_sema_def put_sema_def unblock_def yield_current_def block_def schedule_def
  next_thread_to_run_def schedule_tail_def activate_def pd_activate_def tss_update_def check_thread_def
  level_defs thr_def set_thr_def best_index_def remove_at_def handover_def Let_def fun_eq_iff zero_thread_def
  vtop_def PHYS_BASE_def is_kernel_vaddr_def arith_defs THREAD_MAGIC_def

lemma bind_weak_cong: "m = m' \<Longrightarrow> Option.bind m f = Option.bind m' f"
  by simp

lemma handover_release:
  "run_current (handover Running 20 Blocked [] 0xC0101000 On 0xC0101000 0 [0xC0103000] [Release 8])
    = Some (handover Running 10 Blocked [] 0xC0101000 On 0 0 [0xC0103000] [Up (Lock_sem 8)])"
  by (simp add: sync_run_defs cong: bind_weak_cong let_weak_cong prod.case_cong_weak)

lemma handover_up:
  "run_current (handover Running 10 Blocked [] 0xC0101000 On 0 0 [0xC0103000] [Up (Lock_sem 8)])
    = Some (handover Ready 10 Running [0xC0101000] 0xC0103000 Off 0 0 [] [Set_level Off, Up_rest (Lock_sem 8) On])"
  by (simp add: sync_run_defs cong: bind_weak_cong let_weak_cong prod.case_cong_weak)

lemma handover_waiter:
  "run_current (handover Ready 10 Running [0xC0101000] 0xC0103000 Off 0 0 [] [Set_level Off, Up_rest (Lock_sem 8) On])
    = Some (handover Running 10 Blocked [] 0xC0101000 Off 0 0 [0xC0103000] [Set_level Off, Up_rest (Lock_sem 8) On])"
  by (simp add: sync_run_defs cong: bind_weak_cong let_weak_cong prod.case_cong_weak)

lemma handover_back:
  "run_current (handover Running 10 Blocked [] 0xC0101000 Off 0 0 [0xC0103000] [Set_level Off, Up_rest (Lock_sem 8) On])
    = Some (handover Running 10 Blocked [] 0xC0101000 Off 0 0 [0xC0103000] [Up_rest (Lock_sem 8) On])"
  by (simp add: sync_run_defs cong: bind_weak_cong let_weak_cong prod.case_cong_weak)

lemma handover_rest:
  "run_current (handover Running 10 Blocked [] 0xC0101000 Off 0 0 [0xC0103000] [Up_rest (Lock_sem 8) On])
    = Some (handover Running 10 Blocked [] 0xC0101000 On 0 1 [0xC0103000] [])"
  by (simp add: sync_run_defs cong: bind_weak_cong let_weak_cong prod.case_cong_weak)


text \<open>Without that preemption \<open>up\<close> is right: when no waiter has a higher priority than the caller (or in an interrupt),
  the first waiter of the highest priority leaves the queue and becomes ready, the value grows by one, the interrupt
  level is restored and the caller goes on running.\<close>

theorem sema_up_wakes:
  assumes "sched_inv k" and "sem_waiters (get_sema s k) \<noteq> []" and "above_min k (sem_waiters (get_sema s k))"
    and "\<forall>t \<in> set (sem_waiters (get_sema s k)). t \<in> set (the (ALL_LIST k)) \<and> status (thr t k) = Blocked
      \<and> (IN_EXTERNAL_INTR k \<or> priority (thr t k) \<le> priority (thr (cur k) k))"
    and "sem_value (get_sema s k) < 2 ^ 32 - 1"
  shows "\<exists>k1 k2 i. sema_up s k = Some ([Up_rest s (intr_level k)], k1) \<and> sema_up_rest s (intr_level k) k1 = Some k2
    \<and> i < length (sem_waiters (get_sema s k)) \<and> first_highest k (sem_waiters (get_sema s k)) i
    \<and> get_sema s k2 = \<lparr> sem_value = sem_value (get_sema s k) + 1, sem_waiters = remove_at i (sem_waiters (get_sema s k)) \<rparr>
    \<and> READY_LIST k2 = Some (the (READY_LIST k) @ [sem_waiters (get_sema s k) ! i])
    \<and> status (thr (sem_waiters (get_sema s k) ! i) k2) = Ready
    \<and> cur k2 = cur k \<and> intr_level k2 = intr_level k \<and> sched_inv k2"
proof -
  define v where "v = get_sema s k"
  define i where "i = best_index (\<lambda>t. priority (thr t k)) (sem_waiters v)"
  let ?w = "sem_waiters v ! i"
  have mn: "\<forall>t \<in> set (sem_waiters v). - (2 ^ 31) < priority (thr t k)" using assms(3) by (simp add: above_min_def v_def)
  have ne: "sem_waiters v \<noteq> []" using assms(2) by (simp add: v_def)
  note b = best_index_spec [where key = "\<lambda>t. priority (thr t k)", OF ne mn, folded i_def]
  let ?k = "put_sema s (v \<lparr> sem_waiters := remove_at i (sem_waiters v) \<rparr>) (k \<lparr> intr_level := Off \<rparr>)"
  have sk: "same_sched k ?k" by (simp add: same_sched_def put_sema_def thr_def split: sema_ref.splits)
  have t: "thr t ?k = thr t k" for t by (simp add: put_sema_def thr_def split: sema_ref.splits)
  have f: "cur ?k = cur k" "ALL_LIST ?k = ALL_LIST k" "READY_LIST ?k = READY_LIST k" "IN_EXTERNAL_INTR ?k = IN_EXTERNAL_INTR k"
    "intr_level ?k = Off" by (simp_all add: put_sema_def split: sema_ref.splits)
  have w: "?w \<in> set (the (ALL_LIST k))" "status (thr ?w k) = Blocked" "IN_EXTERNAL_INTR k \<or> priority (thr ?w k) \<le> priority (thr (cur k) k)"
    using assms(4) nth_mem [OF b(1)] unfolding v_def by blast+
  have u: "unblock ?w ?k = Some (None, readied ?w ?k)" "sched_inv (readied ?w ?k)"
    using unblock_ok [OF same_sched_inv [OF sk assms(1)], of ?w] w unfolding t f by auto
  have g: "get_sema s (k \<lparr> intr_level := Off \<rparr>) = v" "get_sema s (readied ?w ?k) = v \<lparr> sem_waiters := remove_at i (sem_waiters v) \<rparr>"
    by (simp_all add: v_def get_sema_def put_sema_def readied_def set_thr_def split: sema_ref.splits)
  have "best_index (\<lambda>t. priority (thr t (k \<lparr> intr_level := Off \<rparr>))) (sem_waiters v) = i" by (simp add: i_def thr_def)
  then have up: "sema_up s k = Some ([Up_rest s (intr_level k)], readied ?w ?k)"
    using u(1) ne g(1) by (simp add: sema_up_def level_defs)
  let ?v = "v \<lparr> sem_waiters := remove_at i (sem_waiters v), sem_value := sem_value v + 1 \<rparr>"
  let ?k2 = "(put_sema s ?v (readied ?w ?k)) \<lparr> intr_level := intr_level k \<rparr>"
  have rest: "sema_up_rest s (intr_level k) (readied ?w ?k) = Some ?k2"
    using assms(5) g(2) by (simp add: sema_up_rest_def add_usize_def level_defs v_def [symmetric] Let_def)
  have "same_sched (readied ?w ?k) ?k2" by (simp add: same_sched_def put_sema_def thr_def split: sema_ref.splits)
  from same_sched_inv [OF this u(2)] have "sched_inv ?k2" .
  moreover have "get_sema s ?k2 = ?v" by (simp add: get_sema_def put_sema_def split: sema_ref.splits)
  moreover have "thr ?w ?k2 = (thr ?w k) \<lparr> status := Ready \<rparr>" "cur ?k2 = cur k" "READY_LIST ?k2 = Some (the (READY_LIST k) @ [?w])"
    by (simp_all add: put_sema_def readied_def thr_def set_thr_def split: sema_ref.splits)
  moreover have "?v = \<lparr> sem_value = sem_value v + 1, sem_waiters = remove_at i (sem_waiters v) \<rparr>" by simp
  moreover have "first_highest k (sem_waiters v) i" using b(2,3) by (simp add: first_highest_def)
  ultimately show ?thesis using up rest b(1) unfolding v_def [symmetric]
    by (intro exI [of _ "readied ?w ?k"] exI [of _ ?k2] exI [of _ i]) simp
qed

definition sample_up :: sync_state where
  "sample_up = handover Running 31 Blocked [] 0xC0101000 On 0 0 [0xC0103000] [Up (Lock_sem 8)]"

lemma sample_up_inv: "sched_inv sample_up"
  by (simp add: sched_inv_def sched_wf_def thread_ok_def sample_up_def handover_def thr_def zero_thread_def
      PHYS_BASE_def PGSIZE_def)

theorem sema_up_wakes_witness:
  "\<exists>k1 k2 i. sema_up (Lock_sem 8) sample_up = Some ([Up_rest (Lock_sem 8) (intr_level sample_up)], k1)
    \<and> sema_up_rest (Lock_sem 8) (intr_level sample_up) k1 = Some k2
    \<and> i < length (sem_waiters (get_sema (Lock_sem 8) sample_up)) \<and> first_highest sample_up (sem_waiters (get_sema (Lock_sem 8) sample_up)) i
    \<and> get_sema (Lock_sem 8) k2 = \<lparr> sem_value = sem_value (get_sema (Lock_sem 8) sample_up) + 1,
         sem_waiters = remove_at i (sem_waiters (get_sema (Lock_sem 8) sample_up)) \<rparr>
    \<and> READY_LIST k2 = Some (the (READY_LIST sample_up) @ [sem_waiters (get_sema (Lock_sem 8) sample_up) ! i])
    \<and> status (thr (sem_waiters (get_sema (Lock_sem 8) sample_up) ! i) k2) = Ready
    \<and> cur k2 = cur sample_up \<and> intr_level k2 = intr_level sample_up \<and> sched_inv k2"
  by (rule sema_up_wakes [OF sample_up_inv])
    (simp_all add: sample_up_def handover_def get_sema_def above_min_def thr_def)

end
