(* ===== verification/Timer.thy ===== *)
theory Timer
  imports ThreadProps
begin

section \<open>The timer: devices/timer.rs\<close>

text \<open>
  The tick counter, the sorted list of sleeping threads and the calibration of the busy-wait loop. Whether a number of
  iterations takes longer than a tick is a property of the machine, the parameter \<open>too_many_loops\<close> of \<open>calibrate\<close>.
  \<open>wake_sleeping_threads\<close> runs in the timer interrupt, where \<open>unblock\<close> does not switch.
\<close>

definition TIMER_FREQ :: nat where
  "TIMER_FREQ = 100"

record sleep_entry =
  wakeup_tick :: int
  sleeper :: nat

record timer = kernel +
  TICKS :: int
  SLEEP_LIST :: "sleep_entry list option"
  LOOPS_PER_TICK :: nat

definition add_i64 :: "int \<Rightarrow> int \<Rightarrow> int option" where
  [arith_defs]: "add_i64 a b = (if - (2 ^ 63) \<le> a + b \<and> a + b < 2 ^ 63 then Some (a + b) else None)"

definition init_sleep_list :: "timer \<Rightarrow> timer" where
  "init_sleep_list k = k \<lparr> SLEEP_LIST := Some [] \<rparr>"

definition ticks :: "timer \<Rightarrow> int" where
  "ticks k = TICKS k"

definition elapsed :: "int \<Rightarrow> timer \<Rightarrow> int option" where
  "elapsed before k = add_i64 (ticks k) (- before)"

text \<open>\<open>position\<close> and \<open>insert\<close>: behind every entry that wakes up no later.\<close>

definition insert_sorted :: "sleep_entry \<Rightarrow> sleep_entry list \<Rightarrow> sleep_entry list" where
  "insert_sorted e es = takeWhile (\<lambda>x. \<not> wakeup_tick x > wakeup_tick e) es @ e # dropWhile (\<lambda>x. \<not> wakeup_tick x > wakeup_tick e) es"

text \<open>\<open>timer_sleep\<close> up to the switch; the first result is the interrupt level to restore, \<open>None\<close> if it does not sleep.\<close>

definition timer_sleep :: "int \<Rightarrow> timer \<Rightarrow> (intr_level option \<times> timer) option" where
  "timer_sleep ticks_to_sleep k =
     (if ticks_to_sleep \<le> 0 then Some (None, k)
      else do {
        wakeup \<leftarrow> add_i64 (ticks k) ticks_to_sleep;
        let (old, k) = intr_disable k;
        let t = running_thread k;
        let k = (case SLEEP_LIST k of None \<Rightarrow> k
                 | Some es \<Rightarrow> k \<lparr> SLEEP_LIST := Some (insert_sorted \<lparr> wakeup_tick = wakeup, sleeper = t \<rparr> es) \<rparr>);
        k \<leftarrow> block k;
        Some (Some old, k)
      })"

fun wake_loop :: "int \<Rightarrow> sleep_entry list \<Rightarrow> timer \<Rightarrow> timer option" where
  "wake_loop now [] k = Some k"
| "wake_loop now (e # es) k =
     (if wakeup_tick e > now then Some k
      else do {
        (_, k) \<leftarrow> unblock (sleeper e) (k \<lparr> SLEEP_LIST := Some es \<rparr>);
        wake_loop now es k
      })"

definition wake_sleeping_threads :: "timer \<Rightarrow> timer option" where
  "wake_sleeping_threads k = (case SLEEP_LIST k of None \<Rightarrow> Some k | Some es \<Rightarrow> wake_loop (TICKS k) es k)"

definition timer_interrupt :: "timer \<Rightarrow> timer option" where
  "timer_interrupt k = do {
     n \<leftarrow> add_i64 (TICKS k) 1;
     k \<leftarrow> wake_sleeping_threads (k \<lparr> TICKS := n \<rparr>);
     tick k
   }"

text \<open>The bytes written to the PIT: command, low and high byte of the divisor.\<close>

definition pit_divisor :: nat where
  "pit_divisor = (1193180 + TIMER_FREQ div 2) div TIMER_FREQ"

definition pit_writes :: "(nat \<times> nat) list" where
  "pit_writes = [(0x43, 0x34), (0x40, pit_divisor mod 256), (0x40, pit_divisor div 256 mod 256)]"

subsection \<open>Calibration\<close>

text \<open>Loops that end only if the machine's answers allow it; \<open>loops_per_tick << 1\<close> drops the highest bit.\<close>

partial_function (option) double_loop :: "(nat \<Rightarrow> bool) \<Rightarrow> nat \<Rightarrow> nat option" where
  "double_loop too_many_loops n =
     (if too_many_loops (n * 2 mod 2 ^ 32) then Some n else double_loop too_many_loops (n * 2 mod 2 ^ 32))"

partial_function (option) refine_loop :: "(nat \<Rightarrow> bool) \<Rightarrow> nat \<Rightarrow> nat \<Rightarrow> nat \<Rightarrow> nat option" where
  "refine_loop too_many_loops high_bit test_bit n =
     (if test_bit \<noteq> high_bit div 2 ^ 10
      then refine_loop too_many_loops high_bit (test_bit div 2) (if too_many_loops (n OR test_bit) then n else n OR test_bit)
      else Some n)"

definition calibrate :: "(nat \<Rightarrow> bool) \<Rightarrow> timer \<Rightarrow> timer option" where
  "calibrate too_many_loops k = do {
     assert (intr_get_level k = On);
     high \<leftarrow> double_loop too_many_loops (2 ^ 10);
     n \<leftarrow> refine_loop too_many_loops high (high div 2) high;
     Some (k \<lparr> LOOPS_PER_TICK := n \<rparr>)
   }"

section \<open>Correctness of the calibration\<close>

lemma or_low_bit: "(m * 2 ^ Suc j) OR 2 ^ j = m * 2 ^ Suc j + (2 ^ j :: nat)"
proof -
  have "\<not> bit (push_bit (Suc j) m) j" unfolding bit_push_bit_iff by simp
  then have "(m * 2 ^ Suc j) AND 2 ^ j = (0 :: nat)" unfolding push_bit_eq_mult and_exp_eq_0_iff_not_bit .
  then show ?thesis by (simp add: disjunctive_add_eq_or [symmetric])
qed

text \<open>The machine takes longer than a tick exactly for more than \<open>T\<close> iterations.\<close>

lemma double_loop_spec:
  assumes "\<forall>n < 2 ^ 32. too_many n \<longleftrightarrow> T < n" and "2 ^ h \<le> T" and "T < 2 ^ Suc h" and "h \<le> 30"
  shows "j \<le> h \<Longrightarrow> double_loop too_many (2 ^ j) = Some (2 ^ h)"
proof (induction "h - j" arbitrary: j)
  case 0
  have "(2 :: nat) ^ Suc h < 2 ^ 32" by (rule power_strict_increasing) (use assms(4) in auto)
  with 0 assms show ?case by (subst double_loop.simps) simp
next
  case (Suc d)
  have "(2 :: nat) ^ Suc j < 2 ^ 32" by (rule power_strict_increasing) (use Suc assms(4) in auto)
  moreover have "(2 :: nat) ^ Suc j \<le> 2 ^ h" by (rule power_increasing) (use Suc in auto)
  ultimately have "\<not> too_many (2 ^ Suc j)" "2 ^ j * 2 mod 2 ^ 32 = (2 :: nat) ^ Suc j" using assms(1,2) by (auto simp: mult.commute)
  then have "double_loop too_many (2 ^ j) = double_loop too_many (2 ^ Suc j)" by (subst double_loop.simps) (simp only: if_False)
  moreover have "d = h - Suc j" "Suc j \<le> h" using Suc by auto
  ultimately show ?case using Suc.hyps(1) [of "Suc j"] by (simp only:)
qed

lemma refine_loop_spec:
  assumes "\<forall>n < 2 ^ 32. too_many n \<longleftrightarrow> T < n" and "T < 2 ^ 31" and "10 \<le> h" and "h \<le> 30"
  shows "h \<le> j + 10 \<Longrightarrow> j < h \<Longrightarrow> m * 2 ^ Suc j \<le> T \<Longrightarrow> T < m * 2 ^ Suc j + 2 ^ Suc j
    \<Longrightarrow> \<exists>r. refine_loop too_many (2 ^ h) (2 ^ j) (m * 2 ^ Suc j) = Some r \<and> r \<le> T \<and> T < r + 2 ^ (h - 9)"
proof (induction "j + 10 - h" arbitrary: j m)
  case 0
  then have j: "j = h - 10" "Suc j = h - 9" using assms(3) by auto
  have "(2 :: nat) ^ h div 2 ^ 10 = 2 ^ j" using assms(3) by (simp add: j power_diff)
  then have "refine_loop too_many (2 ^ h) (2 ^ j) (m * 2 ^ Suc j) = Some (m * 2 ^ Suc j)" by (subst refine_loop.simps) simp
  with 0 j(2) show ?case by simp
next
  case (Suc d)
  define n where "n = m * 2 ^ Suc j"
  obtain i where i: "j = Suc i" using Suc assms(3) by (cases j) auto
  have ne: "(2 :: nat) ^ j \<noteq> 2 ^ h div 2 ^ 10"
  proof -
    have "(2 :: nat) ^ h div 2 ^ 10 = 2 ^ (h - 10)" using assms(3) by (simp add: power_diff)
    moreover have "j \<noteq> h - 10" using Suc.hyps(2) assms(3) by linarith
    ultimately show ?thesis by simp
  qed
  have o: "n OR 2 ^ j = n + 2 ^ j" by (simp only: n_def or_low_bit)
  let ?n = "if too_many (n OR 2 ^ j) then n else n OR 2 ^ j"
  have step: "refine_loop too_many (2 ^ h) (2 ^ j) n = refine_loop too_many (2 ^ h) (2 ^ i) ?n"
    using ne by (subst refine_loop.simps) (simp add: i)
  have "(2 :: nat) ^ j \<le> 2 ^ 30" using Suc.prems(2) assms(4) by (intro power_increasing) auto
  moreover have "n \<le> T" using Suc.prems(3) by (simp only: n_def)
  ultimately have "n + 2 ^ j < 2 ^ 32" using assms(2) by simp
  then have tm: "too_many (n + 2 ^ j) \<longleftrightarrow> T < n + 2 ^ j" using assms(1) by blast
  have p: "(2 :: nat) ^ Suc j = 2 ^ j + 2 ^ j" by simp
  have n: "?n = (if T < n + 2 ^ j then 2 * m else 2 * m + 1) * 2 ^ Suc i" unfolding o tm by (simp add: n_def i algebra_simps)
  define m' where "m' = (if T < n + 2 ^ j then 2 * m else 2 * m + 1)"
  have "m' * 2 ^ Suc i \<le> T" "T < m' * 2 ^ Suc i + 2 ^ Suc i"
    using Suc.prems(3,4) n p unfolding m'_def [symmetric] n_def [symmetric] o tm by (auto simp: i split: if_splits)
  moreover have "d = i + 10 - h" "h \<le> i + 10" "i < h" using Suc.hyps(2) Suc.prems(2) i by auto
  ultimately show ?case using Suc.hyps(1) [of i m'] unfolding n_def [symmetric] step n m'_def [symmetric] by blast
qed


section \<open>Correctness of the sleep queue\<close>

definition due :: "int \<Rightarrow> sleep_entry \<Rightarrow> bool" where
  "due now e \<longleftrightarrow> wakeup_tick e \<le> now"

text \<open>The list is sorted, and its entries are distinct blocked threads.\<close>

definition sleep_ok :: "timer \<Rightarrow> sleep_entry list \<Rightarrow> bool" where
  "sleep_ok k es \<longleftrightarrow> sorted (map wakeup_tick es) \<and> distinct (map sleeper es)
     \<and> (\<forall>e \<in> set es. sleeper e \<in> set (the (ALL_LIST k)) \<and> status (thr (sleeper e) k) = Blocked)"

lemma sorted_due:
  "sorted (map wakeup_tick es) \<Longrightarrow> takeWhile (due now) es = filter (due now) es \<and> dropWhile (due now) es = filter (\<lambda>e. \<not> due now e) es"
proof (induction es)
  case (Cons e es)
  have "\<forall>x \<in> set es. \<not> due now x" if "\<not> due now e" using that Cons.prems by (force simp: due_def)
  then have "filter (due now) es = [] \<and> filter (\<lambda>e. \<not> due now e) es = es" if "\<not> due now e" using that by (simp add: filter_empty_conv filter_id_conv)
  with Cons show ?case by auto
qed simp

lemma sorted_insert: "sorted (map wakeup_tick es) \<Longrightarrow> sorted (map wakeup_tick (insert_sorted e es))"
  by (induction es) (auto simp: insert_sorted_def not_less dest: set_takeWhileD set_dropWhileD)

lemma readied_fields:
  fixes k :: timer
  shows "IN_EXTERNAL_INTR (readied t k) = IN_EXTERNAL_INTR k" "ALL_LIST (readied t k) = ALL_LIST k" "TICKS (readied t k) = TICKS k"
    "SLEEP_LIST (readied t k) = SLEEP_LIST k" "cur (readied t k) = cur k" "YIELD_ON_RETURN (readied t k) = YIELD_ON_RETURN k" "THREAD_TICKS (readied t k) = THREAD_TICKS k"
    "READY_LIST (readied t k) = Some (the (READY_LIST k) @ [t])"
  by (simp_all add: readied_def set_thr_def)

lemma readied_thr: "thr u (readied t k) = (if u = t then (thr t k) \<lparr> status := Ready \<rparr> else thr u k)"
  by (simp add: readied_def thr_def set_thr_def)

lemma wake_loop_spec:
  assumes "sched_inv k" and "IN_EXTERNAL_INTR k" and "sleep_ok k es" and "SLEEP_LIST k = Some es"
  shows "\<exists>k'. wake_loop now es k = Some k' \<and> sched_inv k' \<and> TICKS k' = TICKS k \<and> cur k' = cur k \<and> THREAD_TICKS k' = THREAD_TICKS k
    \<and> YIELD_ON_RETURN k' = YIELD_ON_RETURN k \<and> SLEEP_LIST k' = Some (filter (\<lambda>e. \<not> due now e) es) \<and> sleep_ok k' (filter (\<lambda>e. \<not> due now e) es)
    \<and> the (READY_LIST k') = the (READY_LIST k) @ map sleeper (filter (due now) es)
    \<and> (\<forall>t. thr t k' = (if t \<in> sleeper ` set (filter (due now) es) then (thr t k) \<lparr> status := Ready \<rparr> else thr t k))"
  using assms
proof (induction es arbitrary: k)
  case Nil
  then show ?case by (simp add: sleep_ok_def)
next
  case (Cons e es)
  have sorted: "sorted (map wakeup_tick (e # es))" using Cons.prems(3) by (simp add: sleep_ok_def)
  show ?case
  proof (cases "due now e")
    case False
    then have f: "filter (due now) (e # es) = []" "filter (\<lambda>e. \<not> due now e) (e # es) = e # es"
      using sorted_due [OF sorted, of now] by simp_all
    have "wake_loop now (e # es) k = Some k" using False by (simp add: due_def)
    then show ?thesis unfolding f using Cons.prems by simp
  next
    case True
    let ?k = "k \<lparr> SLEEP_LIST := Some es \<rparr>" and ?t = "sleeper e"
    have "same_sched k ?k" by (simp add: same_sched_def thr_def)
    from same_sched_inv [OF this Cons.prems(1)] have inv: "sched_inv ?k" .
    have t: "?t \<in> set (the (ALL_LIST ?k))" "status (thr ?t ?k) = Blocked" using Cons.prems(3) by (simp_all add: sleep_ok_def thr_def)
    from unblock_ok [OF inv t] Cons.prems(2) have u: "unblock ?t ?k = Some (None, readied ?t ?k)" "sched_inv (readied ?t ?k)" by auto
    have th: "thr u (readied ?t ?k) = (if u = ?t then (thr ?t k) \<lparr> status := Ready \<rparr> else thr u k)" for u
      unfolding readied_thr by (simp add: thr_def)
    have ns: "?t \<notin> sleeper ` set es" using Cons.prems(3) by (auto simp: sleep_ok_def)
    then have "\<forall>x \<in> set es. sleeper x \<noteq> ?t" by (metis image_eqI)
    then have ok: "sleep_ok (readied ?t ?k) es" using Cons.prems(3) unfolding sleep_ok_def th readied_fields by auto
    have "IN_EXTERNAL_INTR (readied ?t ?k)" "SLEEP_LIST (readied ?t ?k) = Some es" using Cons.prems(2) by (simp_all add: readied_fields)
    from Cons.IH [OF u(2) this(1) ok this(2)] obtain k' where
      k': "wake_loop now es (readied ?t ?k) = Some k'" "sched_inv k'" "TICKS k' = TICKS k" "cur k' = cur k" "THREAD_TICKS k' = THREAD_TICKS k"
        "YIELD_ON_RETURN k' = YIELD_ON_RETURN k" "SLEEP_LIST k' = Some (filter (\<lambda>e. \<not> due now e) es)" "sleep_ok k' (filter (\<lambda>e. \<not> due now e) es)"
        "the (READY_LIST k') = the (READY_LIST k) @ [?t] @ map sleeper (filter (due now) es)"
        "\<forall>t. thr t k' = (if t \<in> sleeper ` set (filter (due now) es) then (thr t (readied ?t ?k)) \<lparr> status := Ready \<rparr> else thr t (readied ?t ?k))"
      by (auto simp: readied_fields)
    have "\<forall>t. thr t k' = (if t \<in> sleeper ` set (filter (due now) (e # es)) then (thr t k) \<lparr> status := Ready \<rparr> else thr t k)"
      using k'(10) True ns unfolding th by auto
    moreover have "wake_loop now (e # es) k = Some k'" using k'(1) u(1) True by (simp add: due_def)
    ultimately show ?thesis using k'(2-9) True by auto
  qed
qed

section \<open>Properties\<close>

text \<open>C25: The timer interrupt counts the tick and wakes exactly the sleepers whose time has come, in the order of their
  wake-up ticks: they become ready and leave the list, nobody else changes, the list stays sorted, and the scheduler's
  invariant is kept.\<close>

theorem timer_interrupt_wakes:
  assumes "sched_inv k" and "IN_EXTERNAL_INTR k" and "SLEEP_LIST k = Some es" and "sleep_ok k es"
    and "- (2 ^ 63) \<le> TICKS k" and "TICKS k < 2 ^ 63 - 1" and "THREAD_TICKS k < 2 ^ 32 - 1"
  shows "\<exists>k'. timer_interrupt k = Some k' \<and> sched_inv k' \<and> TICKS k' = TICKS k + 1
    \<and> SLEEP_LIST k' = Some (filter (\<lambda>e. \<not> due (TICKS k + 1) e) es) \<and> sleep_ok k' (filter (\<lambda>e. \<not> due (TICKS k + 1) e) es)
    \<and> the (READY_LIST k') = the (READY_LIST k) @ map sleeper (filter (due (TICKS k + 1)) es)
    \<and> (\<forall>t. thr t k' = (if t \<in> sleeper ` set (filter (due (TICKS k + 1)) es) then (thr t k) \<lparr> status := Ready \<rparr> else thr t k))
    \<and> (YIELD_ON_RETURN k' \<longleftrightarrow> YIELD_ON_RETURN k \<or> TIME_SLICE \<le> THREAD_TICKS k + 1)"
proof -
  let ?now = "TICKS k + 1" and ?k = "k \<lparr> TICKS := TICKS k + 1 \<rparr>"
  have "same_sched k ?k" by (simp add: same_sched_def thr_def)
  from same_sched_inv [OF this assms(1)] have inv: "sched_inv ?k" .
  have "sleep_ok ?k es" using assms(4) by (simp add: sleep_ok_def thr_def)
  from wake_loop_spec [OF inv _ this, of ?now] assms(2,3) obtain k1 where
    k1: "wake_loop ?now es ?k = Some k1" "sched_inv k1" "TICKS k1 = ?now" "THREAD_TICKS k1 = THREAD_TICKS k" "YIELD_ON_RETURN k1 = YIELD_ON_RETURN k"
      "SLEEP_LIST k1 = Some (filter (\<lambda>e. \<not> due ?now e) es)" "sleep_ok k1 (filter (\<lambda>e. \<not> due ?now e) es)"
      "the (READY_LIST k1) = the (READY_LIST k) @ map sleeper (filter (due ?now) es)"
      "\<forall>t. thr t k1 = (if t \<in> sleeper ` set (filter (due ?now) es) then (thr t k) \<lparr> status := Ready \<rparr> else thr t k)"
    by (auto simp: thr_def)
  define k' where "k' = k1 \<lparr> THREAD_TICKS := THREAD_TICKS k + 1, YIELD_ON_RETURN := (YIELD_ON_RETURN k \<or> TIME_SLICE \<le> THREAD_TICKS k + 1) \<rparr>"
  have "tick k1 = Some k'"
    using assms(7) k1(4,5) by (cases k1) (simp add: tick_def add_usize_def intr_yield_on_return_def k'_def Let_def)
  then have "timer_interrupt k = Some k'"
    using k1(1) assms(3,5,6) by (simp add: timer_interrupt_def add_i64_def wake_sleeping_threads_def)
  moreover have "same_sched k1 k'" by (simp add: same_sched_def k'_def thr_def)
  then have "sched_inv k'" using same_sched_inv k1(2) by blast
  moreover have "sleep_ok k' (filter (\<lambda>e. \<not> due ?now e) es)" using k1(7) by (simp add: sleep_ok_def k'_def thr_def)
  moreover have "thr t k' = thr t k1" for t by (simp add: k'_def thr_def)
  ultimately show ?thesis using k1(3,6,8,9) by (simp add: k'_def)
qed

definition sample_timer :: timer where
  "sample_timer = \<lparr> pal = sample_palloc, threads = sample_threads, READY_LIST = Some [0xC0103000, 0xC0104000],
     ALL_LIST = Some [0xC0101000, 0xC0102000, 0xC0103000, 0xC0104000, 0xC0105000], IDLE_THREAD = 0xC0102000,
     INITIAL_THREAD = 0xC0101000, THREAD_TICKS = 0, NEXT_TID = 6, cur = 0xC0101000, intr_level = Off,
     YIELD_ON_RETURN = False, IN_EXTERNAL_INTR = True, INIT_PAGE_DIR = 0xC0100000, cr3 = 0, TSS_PTR = 0, esp0 = 0,
     TICKS = 41, SLEEP_LIST = Some [\<lparr> wakeup_tick = 42, sleeper = 0xC0105000 \<rparr>], LOOPS_PER_TICK = 0 \<rparr>"

theorem timer_interrupt_wakes_witness:
  "\<exists>k'. timer_interrupt sample_timer = Some k' \<and> sched_inv k' \<and> TICKS k' = 42 \<and> SLEEP_LIST k' = Some []
    \<and> status (thr 0xC0105000 k') = Ready"
proof -
  have "sched_inv sample_timer"
    by (simp add: sched_inv_def sched_wf_def thread_ok_def sample_timer_def sample_threads_def thr_def zero_thread_def
        PHYS_BASE_def PGSIZE_def Let_def)
  moreover have "sleep_ok sample_timer [\<lparr> wakeup_tick = 42, sleeper = 0xC0105000 \<rparr>]"
    by (simp add: sleep_ok_def sample_timer_def sample_threads_def thr_def zero_thread_def Let_def)
  ultimately have "\<exists>k'. timer_interrupt sample_timer = Some k' \<and> sched_inv k' \<and> TICKS k' = TICKS sample_timer + 1
    \<and> SLEEP_LIST k' = Some (filter (\<lambda>e. \<not> due (TICKS sample_timer + 1) e) [\<lparr> wakeup_tick = 42, sleeper = 0xC0105000 \<rparr>])
    \<and> (\<forall>t. thr t k' = (if t \<in> sleeper ` set (filter (due (TICKS sample_timer + 1)) [\<lparr> wakeup_tick = 42, sleeper = 0xC0105000 \<rparr>])
          then (thr t sample_timer) \<lparr> status := Ready \<rparr> else thr t sample_timer))"
    using timer_interrupt_wakes [of sample_timer "[\<lparr> wakeup_tick = 42, sleeper = 0xC0105000 \<rparr>]"]
    by (auto simp: sample_timer_def)
  then show ?thesis by (auto simp: sample_timer_def due_def)
qed



end
