(* ===== verification/Swap.thy ===== *)
theory Swap
  imports Vaddr Block
begin

section \<open>The swap area: vm/swap.rs\<close>

text \<open>
  Slots of eight sectors on the device with the role \<open>Swap\<close>, with one flag per slot. Memory is a function from kernel
  addresses to bytes; \<open>swap_out\<close> copies a page to a slot and \<open>swap_in\<close> copies it back and frees the slot.
\<close>

definition SECTORS_PER_PAGE :: nat where
  "SECTORS_PER_PAGE = PGSIZE div BLOCK_SECTOR_SIZE"

record 'm swap =
  SWAP_BITMAP :: "bool list option"
  SWAP_SLOT_COUNT :: nat
  disks :: "'m registry"

definition swap_init :: "'m swap \<Rightarrow> (bool \<times> 'm swap) option" where
  "swap_init s = do {
     dev \<leftarrow> get_role Swap (disks s);
     case dev of
       Some i \<Rightarrow> let slot_count = dev_size (devices (disks s) ! i) div SECTORS_PER_PAGE
                 in Some (True, s \<lparr> SWAP_SLOT_COUNT := slot_count, SWAP_BITMAP := Some (replicate slot_count False) \<rparr>)
     | None \<Rightarrow> Some (False, s \<lparr> SWAP_BITMAP := Some [] \<rparr>)
   }"

text \<open>The first free slot.\<close>

definition alloc_slot :: "'m swap \<Rightarrow> nat option \<times> 'm swap" where
  "alloc_slot s = (case SWAP_BITMAP s of
      None \<Rightarrow> (None, s)
    | Some bm \<Rightarrow> (case List.find (\<lambda>i. \<not> bm ! i) [0..<length bm] of
          Some i \<Rightarrow> (Some i, s \<lparr> SWAP_BITMAP := Some (bm[i := True]) \<rparr>)
        | None \<Rightarrow> (None, s)))"

definition free_slot :: "nat \<Rightarrow> 'm swap \<Rightarrow> 'm swap" where
  "free_slot slot s = (case SWAP_BITMAP s of
      None \<Rightarrow> s
    | Some bm \<Rightarrow> if slot < length bm then s \<lparr> SWAP_BITMAP := Some (bm[slot := False]) \<rparr> else s)"

definition free_slot_public :: "nat \<Rightarrow> 'm swap \<Rightarrow> 'm swap" where
  "free_slot_public slot s = free_slot slot s"

text \<open>\<open>copy_nonoverlapping\<close> between memory and a sector buffer.\<close>

definition read_mem :: "nat \<Rightarrow> nat \<Rightarrow> (nat \<Rightarrow> byte) \<Rightarrow> byte list" where
  "read_mem a n m = map (\<lambda>j. m (a + j)) [0..<n]"

definition write_mem :: "nat \<Rightarrow> byte list \<Rightarrow> (nat \<Rightarrow> byte) \<Rightarrow> nat \<Rightarrow> byte" where
  "write_mem a bs m = (\<lambda>x. if a \<le> x \<and> x < a + length bs then bs ! (x - a) else m x)"

definition swap_out :: "(nat \<Rightarrow> byte) \<Rightarrow> nat \<Rightarrow> 'm swap \<Rightarrow> (nat option \<times> 'm swap) option" where
  "swap_out m kpage s =
     (case alloc_slot s of
        (None, s) \<Rightarrow> Some (None, s)
      | (Some slot, s) \<Rightarrow> do {
          dev \<leftarrow> get_role Swap (disks s);
          case dev of
            None \<Rightarrow> Some (None, s)
          | Some _ \<Rightarrow> do {
              base \<leftarrow> mul_usize slot SECTORS_PER_PAGE;
              ds \<leftarrow> for_range 0 SECTORS_PER_PAGE (\<lambda>i ds. do {
                offset \<leftarrow> mul_usize i BLOCK_SECTOR_SIZE;
                sec \<leftarrow> add_usize base i;
                role_write Swap sec (read_mem (kpage + offset) BLOCK_SECTOR_SIZE m) ds
              }) (disks s);
              Some (Some slot, s \<lparr> disks := ds \<rparr>)
            }
        })"

definition swap_in :: "nat \<Rightarrow> nat \<Rightarrow> (nat \<Rightarrow> byte) \<Rightarrow> 'm swap \<Rightarrow> ((nat \<Rightarrow> byte) \<times> 'm swap) option" where
  "swap_in slot kpage m s = do {
     dev \<leftarrow> get_role Swap (disks s);
     case dev of
       None \<Rightarrow> None
     | Some _ \<Rightarrow> do {
         base \<leftarrow> mul_usize slot SECTORS_PER_PAGE;
         (m, ds) \<leftarrow> for_range 0 SECTORS_PER_PAGE (\<lambda>i (m, ds). do {
           offset \<leftarrow> mul_usize i BLOCK_SECTOR_SIZE;
           sec \<leftarrow> add_usize base i;
           (d, ds) \<leftarrow> role_read Swap sec sector_buf ds;
           Some (write_mem (kpage + offset) d m, ds)
         }) (m, disks s);
         Some (m, free_slot slot (s \<lparr> disks := ds \<rparr>))
       }
   }"

section \<open>Correctness\<close>

lemma SECTORS_PER_PAGE_eq: "SECTORS_PER_PAGE = 8"
  by (simp add: SECTORS_PER_PAGE_def PGSIZE_def BLOCK_SECTOR_SIZE_def)

text \<open>Every slot of the bitmap lies on the device, and sector numbers fit.\<close>

definition swap_ok :: "'m swap \<Rightarrow> bool" where
  "swap_ok s \<longleftrightarrow> role_ok Swap (disks s) \<and> (\<exists>bm. SWAP_BITMAP s = Some bm \<and> length bm * 8 \<le> role_cap Swap (disks s)
     \<and> length bm * 8 < 2 ^ 32)"

definition slot_used :: "'m swap \<Rightarrow> nat \<Rightarrow> bool" where
  "slot_used s i \<longleftrightarrow> i < length (the (SWAP_BITMAP s)) \<and> the (SWAP_BITMAP s) ! i"

definition slot_data :: "'m swap \<Rightarrow> nat \<Rightarrow> byte list" where
  "slot_data s i = concat (map (role_disk Swap (disks s)) [8 * i..<8 * i + 8])"

lemma read_mem_Suc: "read_mem a (m + n) mem = read_mem a m mem @ read_mem (a + m) n mem"
  unfolding read_mem_def by (rule nth_equalityI) (auto simp: nth_append)

lemma length_read_mem [simp]: "length (read_mem a n m) = n"
  by (simp add: read_mem_def)

lemma read_write_same: "read_mem a (length bs) (write_mem a bs m) = bs"
  by (rule nth_equalityI) (simp_all add: read_mem_def write_mem_def)

lemma read_write_other: "b + n \<le> a \<or> a + length bs \<le> b \<Longrightarrow> read_mem b n (write_mem a bs m) = read_mem b n m"
  by (auto simp: read_mem_def write_mem_def)

lemma read_mem_page: "read_mem a 4096 m = concat (map (\<lambda>i. read_mem (a + i * 512) 512 m) [0..<8])"
proof -
  have "read_mem a (n * 512) m = concat (map (\<lambda>i. read_mem (a + i * 512) 512 m) [0..<n])" for n
  proof (induction n)
    case (Suc n)
    have "read_mem a (Suc n * 512) m = read_mem a (n * 512 + 512) m" by (simp add: add.commute)
    then show ?case using Suc by (simp add: read_mem_Suc)
  qed (simp add: read_mem_def)
  from this [of 8] show ?thesis by simp
qed

lemma alloc_slot_spec:
  assumes "swap_ok s"
  shows "alloc_slot s = (None, s) \<and> (\<forall>i < length (the (SWAP_BITMAP s)). slot_used s i)
    \<or> (\<exists>i. alloc_slot s = (Some i, s \<lparr> SWAP_BITMAP := Some ((the (SWAP_BITMAP s))[i := True]) \<rparr>) \<and> i < length (the (SWAP_BITMAP s))
         \<and> \<not> slot_used s i \<and> (\<forall>j < i. slot_used s j))"
proof -
  from assms obtain bm where bm: "SWAP_BITMAP s = Some bm" by (auto simp: swap_ok_def)
  show ?thesis
  proof (cases "List.find (\<lambda>i. \<not> bm ! i) [0..<length bm]")
    case None
    then have "\<forall>i < length bm. bm ! i" by (auto simp: find_None_iff)
    with None show ?thesis by (simp add: alloc_slot_def bm slot_used_def)
  next
    case (Some i)
    then have "i < length bm" "\<not> bm ! i" "\<forall>j < i. bm ! j" by (auto simp: find_Some_iff)
    then show ?thesis using Some by (auto simp: alloc_slot_def bm slot_used_def)
  qed
qed

lemma write_slot:
  assumes "role_ok Swap ds" and "8 * slot + 8 \<le> role_cap Swap ds" and "8 * slot + 8 < 2 ^ 32"
  shows "\<exists>ds'. for_range 0 8 (\<lambda>i ds. do { offset \<leftarrow> mul_usize i 512; sec \<leftarrow> add_usize (8 * slot) i;
             role_write Swap sec (read_mem (kpage + offset) 512 m) ds }) ds = Some ds'
    \<and> role_ok Swap ds' \<and> role_cap Swap ds' = role_cap Swap ds
    \<and> role_disk Swap ds' = (\<lambda>n. if 8 * slot \<le> n \<and> n < 8 * slot + 8 then read_mem (kpage + (n - 8 * slot) * 512) 512 m else role_disk Swap ds n)"
proof -
  let ?P = "\<lambda>i ds'. role_ok Swap ds' \<and> role_cap Swap ds' = role_cap Swap ds
    \<and> role_disk Swap ds' = (\<lambda>n. if 8 * slot \<le> n \<and> n < 8 * slot + i then read_mem (kpage + (n - 8 * slot) * 512) 512 m else role_disk Swap ds n)"
  let ?f = "\<lambda>i ds. do { offset \<leftarrow> mul_usize i 512; sec \<leftarrow> add_usize (8 * slot) i; role_write Swap sec (read_mem (kpage + offset) 512 m) ds }"
  have start: "?P 0 ds" using assms(1) by (auto simp: fun_eq_iff)
  have "\<exists>ds'. for_range 0 8 ?f ds = Some ds' \<and> ?P (0 + 8) ds'"
  proof (rule for_range_rule [where P = ?P and f = ?f, OF start])
    fix i d assume i: "i < 0 + 8" and d: "?P i d"
    have n: "8 * slot + i < role_cap Swap d" using i d assms(2) by simp
    obtain d' where d': "role_write Swap (8 * slot + i) (read_mem (kpage + i * 512) 512 m) d = Some d'" "role_ok Swap d'"
      "role_disk Swap d' = (role_disk Swap d)(8 * slot + i := read_mem (kpage + i * 512) 512 m)" "role_cap Swap d' = role_cap Swap d"
      using rd.wr_disk [of Swap d "8 * slot + i" "read_mem (kpage + i * 512) 512 m"] d n by auto
    moreover have "mul_usize i 512 = Some (i * 512)" "add_usize (8 * slot) i = Some (8 * slot + i)"
      using i assms(3) by (simp_all add: mul_usize_def add_usize_def)
    ultimately show "\<exists>d'. ?f i d = Some d' \<and> ?P (Suc i) d'" using d by (auto simp: fun_eq_iff)
  qed
  then show ?thesis by simp
qed

lemma read_slot:
  assumes "role_ok Swap ds" and "8 * slot + 8 \<le> role_cap Swap ds" and "8 * slot + 8 < 2 ^ 32"
  shows "\<exists>m' ds'. for_range 0 8 (\<lambda>i (m, ds). do { offset \<leftarrow> mul_usize i 512; sec \<leftarrow> add_usize (8 * slot) i;
             (d, ds) \<leftarrow> role_read Swap sec sector_buf ds; Some (write_mem (kpage + offset) d m, ds) }) (m, ds) = Some (m', ds')
    \<and> role_ok Swap ds' \<and> role_cap Swap ds' = role_cap Swap ds \<and> role_disk Swap ds' = role_disk Swap ds
    \<and> (\<forall>i < 8. read_mem (kpage + i * 512) 512 m' = role_disk Swap ds (8 * slot + i))
    \<and> (\<forall>x. x < kpage \<or> kpage + 4096 \<le> x \<longrightarrow> m' x = m x)"
proof -
  let ?P = "\<lambda>i (m', ds'). role_ok Swap ds' \<and> role_cap Swap ds' = role_cap Swap ds \<and> role_disk Swap ds' = role_disk Swap ds
    \<and> (\<forall>j < i. read_mem (kpage + j * 512) 512 m' = role_disk Swap ds (8 * slot + j))
    \<and> (\<forall>x. x < kpage \<or> kpage + 4096 \<le> x \<longrightarrow> m' x = m x)"
  let ?f = "\<lambda>i (m, ds). do { offset \<leftarrow> mul_usize i 512; sec \<leftarrow> add_usize (8 * slot) i;
             (d, ds) \<leftarrow> role_read Swap sec sector_buf ds; Some (write_mem (kpage + offset) d m, ds) }"
  have start: "?P 0 (m, ds)" using assms(1) by simp
  have "\<exists>r. for_range 0 8 ?f (m, ds) = Some r \<and> ?P (0 + 8) r"
  proof (rule for_range_rule [where P = ?P and f = ?f, OF start])
    fix i s assume i: "i < 0 + 8" and P: "?P i s"
    obtain m1 d where s: "s = (m1, d)" by (cases s)
    have n: "8 * slot + i < role_cap Swap d" using i P assms(2) by (simp add: s)
    obtain d' where d': "role_read Swap (8 * slot + i) sector_buf d = Some (role_disk Swap d (8 * slot + i), d')" "role_ok Swap d'"
      "role_disk Swap d' = role_disk Swap d" "role_cap Swap d' = role_cap Swap d"
      using rd.rd_disk [of Swap d "8 * slot + i" sector_buf] P n by (auto simp: s)
    let ?b = "role_disk Swap d (8 * slot + i)"
    have len: "length ?b = 512" using rd.disk_length [of Swap d "8 * slot + i"] P n by (simp add: s)
    have "read_mem (kpage + j * 512) 512 (write_mem (kpage + i * 512) ?b m1) = role_disk Swap ds (8 * slot + j)" if "j < Suc i" for j
    proof (cases "j = i")
      case True
      then show ?thesis using read_write_same [of "kpage + i * 512" ?b m1] len P by (simp add: s)
    next
      case False
      then have "j < i" using that by simp
      then have "kpage + j * 512 + 512 \<le> kpage + i * 512" by simp
      with read_write_other [of "kpage + j * 512" 512 "kpage + i * 512" ?b m1] P \<open>j < i\<close> show ?thesis by (simp add: s)
    qed
    moreover have "write_mem (kpage + i * 512) ?b m1 x = m x" if "x < kpage \<or> kpage + 4096 \<le> x" for x
      using that P i len by (auto simp: s write_mem_def)
    moreover have "mul_usize i 512 = Some (i * 512)" "add_usize (8 * slot) i = Some (8 * slot + i)"
      using i assms(3) by (simp_all add: mul_usize_def add_usize_def)
    ultimately show "\<exists>s'. ?f i s = Some s' \<and> ?P (Suc i) s'" using d' P by (auto simp: s)
  qed
  then show ?thesis by auto
qed


lemma slot_data_eq: "slot_data s i = concat (map (\<lambda>j. role_disk Swap (disks s) (8 * i + j)) [0..<8])"
proof -
  have "[8 * i..<8 * i + 8] = map (\<lambda>j. 8 * i + j) [0..<8]" by (rule nth_equalityI) auto
  then show ?thesis by (simp add: slot_data_def comp_def del: upt_conv_Cons)
qed

text \<open>A free slot is left.\<close>

definition swap_room :: "'m swap \<Rightarrow> bool" where
  "swap_room s \<longleftrightarrow> (\<exists>i < length (the (SWAP_BITMAP s)). \<not> slot_used s i)"

lemma swap_out_full: "swap_ok s \<Longrightarrow> \<not> swap_room s \<Longrightarrow> swap_out m kpage s = Some (None, s)"
  using alloc_slot_spec [of s] by (auto simp: swap_out_def swap_room_def)

text \<open>State \<open>s1\<close> is \<open>s\<close> with the page in a slot that was free.\<close>

definition saved_in :: "nat \<Rightarrow> byte list \<Rightarrow> 'm swap \<Rightarrow> 'm swap \<Rightarrow> bool" where
  "saved_in slot page s s1 \<longleftrightarrow> swap_ok s1 \<and> \<not> slot_used s slot \<and> (\<forall>j < slot. slot_used s j)
     \<and> (\<forall>i. slot_used s1 i \<longleftrightarrow> i = slot \<or> slot_used s i) \<and> slot_data s1 slot = page
     \<and> (\<forall>i. i \<noteq> slot \<longrightarrow> slot_data s1 i = slot_data s i)"

lemma swap_out_spec:
  assumes "swap_ok s" and "swap_room s"
  shows "\<exists>slot s1. swap_out m kpage s = Some (Some slot, s1) \<and> saved_in slot (read_mem kpage 4096 m) s s1"
proof -
  from assms obtain bm where bm: "SWAP_BITMAP s = Some bm" "length bm * 8 \<le> role_cap Swap (disks s)" "length bm * 8 < 2 ^ 32"
    and ok: "role_ok Swap (disks s)" by (auto simp: swap_ok_def)
  from ok obtain dv where dv: "get_role Swap (disks s) = Some (Some dv)" by (auto simp: role_ok_def)
  from assms(2) alloc_slot_spec [OF assms(1)] bm(1) obtain slot where
    sl: "alloc_slot s = (Some slot, s \<lparr> SWAP_BITMAP := Some (bm[slot := True]) \<rparr>)" "slot < length bm" "\<not> slot_used s slot" "\<forall>j < slot. slot_used s j"
    by (auto simp: swap_room_def)
  have cap: "8 * slot + 8 \<le> role_cap Swap (disks s)" "8 * slot + 8 < 2 ^ 32" using sl(2) bm(2,3) by auto
  from write_slot [OF ok cap, of kpage m] obtain ds where
    w: "for_range 0 8 (\<lambda>i ds. do { offset \<leftarrow> mul_usize i 512; sec \<leftarrow> add_usize (8 * slot) i;
             role_write Swap sec (read_mem (kpage + offset) 512 m) ds }) (disks s) = Some ds"
       "role_ok Swap ds" "role_cap Swap ds = role_cap Swap (disks s)"
       "role_disk Swap ds = (\<lambda>n. if 8 * slot \<le> n \<and> n < 8 * slot + 8 then read_mem (kpage + (n - 8 * slot) * 512) 512 m else role_disk Swap (disks s) n)"
    by blast
  define s1 where "s1 = s \<lparr> SWAP_BITMAP := Some (bm[slot := True]), disks := ds \<rparr>"
  have mul: "mul_usize slot 8 = Some (8 * slot)" using cap(2) by (simp add: mul_usize_def mult.commute)
  have out: "swap_out m kpage s = Some (Some slot, s1)"
    using w(1) by (simp add: swap_out_def sl(1) dv SECTORS_PER_PAGE_eq BLOCK_SECTOR_SIZE_def mul s1_def)
  have ok1: "swap_ok s1" using w(2,3) bm(2,3) by (simp add: swap_ok_def s1_def)
  have used1: "slot_used s1 i \<longleftrightarrow> i = slot \<or> slot_used s i" for i
    using sl(2) bm(1) by (auto simp: slot_used_def s1_def nth_list_update)
  have page: "(\<lambda>j. role_disk Swap ds (8 * slot + j)) j = read_mem (kpage + j * 512) 512 m" if "j < 8" for j
    using that by (simp add: w(4))
  have data1: "slot_data s1 slot = read_mem kpage 4096 m"
    unfolding slot_data_eq read_mem_page using page by (intro arg_cong [where f = concat] map_cong) (auto simp: s1_def)
  have other1: "slot_data s1 i = slot_data s i" if "i \<noteq> slot" for i
    unfolding slot_data_def using that by (intro arg_cong [where f = concat] map_cong) (auto simp: s1_def w(4))
  show ?thesis using out ok1 sl(3,4) used1 data1 other1 by (auto simp: saved_in_def)
qed

text \<open>Reading a slot in state \<open>s1\<close> into a frame puts the page there and frees exactly that slot.\<close>

definition restores :: "nat \<Rightarrow> nat \<Rightarrow> byte list \<Rightarrow> (nat \<Rightarrow> byte) \<Rightarrow> 'm swap \<Rightarrow> bool" where
  "restores slot frame page m2 s1 \<longleftrightarrow> (\<exists>m' s2. swap_in slot frame m2 s1 = Some (m', s2) \<and> read_mem frame 4096 m' = page
     \<and> (\<forall>x. x < frame \<or> frame + 4096 \<le> x \<longrightarrow> m' x = m2 x) \<and> swap_ok s2 \<and> (\<forall>i. slot_used s2 i \<longleftrightarrow> i \<noteq> slot \<and> slot_used s1 i)
     \<and> (\<forall>i. slot_data s2 i = slot_data s1 i))"

lemma swap_in_spec:
  assumes "swap_ok s" and "slot_used s slot"
  shows "restores slot frame (slot_data s slot) m s"
proof -
  from assms obtain bm where bm: "SWAP_BITMAP s = Some bm" "length bm * 8 \<le> role_cap Swap (disks s)" "length bm * 8 < 2 ^ 32"
    and ok: "role_ok Swap (disks s)" and sl: "slot < length bm" by (auto simp: swap_ok_def slot_used_def)
  have cap: "8 * slot + 8 \<le> role_cap Swap (disks s)" "8 * slot + 8 < 2 ^ 32" using sl bm(2,3) by auto
  from read_slot [OF ok cap, of frame m] obtain m' ds' where
    r: "for_range 0 8 (\<lambda>i (m, ds). do { offset \<leftarrow> mul_usize i 512; sec \<leftarrow> add_usize (8 * slot) i;
           (d, ds) \<leftarrow> role_read Swap sec sector_buf ds; Some (write_mem (frame + offset) d m, ds) }) (m, disks s) = Some (m', ds')"
      "role_ok Swap ds'" "role_cap Swap ds' = role_cap Swap (disks s)" "role_disk Swap ds' = role_disk Swap (disks s)"
      "\<forall>i < 8. read_mem (frame + i * 512) 512 m' = role_disk Swap (disks s) (8 * slot + i)"
      "\<forall>x. x < frame \<or> frame + 4096 \<le> x \<longrightarrow> m' x = m x" by blast
  from ok obtain dv where dv: "get_role Swap (disks s) = Some (Some dv)" by (auto simp: role_ok_def)
  define s2 where "s2 = s \<lparr> SWAP_BITMAP := Some (bm[slot := False]), disks := ds' \<rparr>"
  have mul: "mul_usize slot 8 = Some (8 * slot)" using cap(2) by (simp add: mul_usize_def mult.commute)
  have "swap_in slot frame m s = Some (m', s2)"
    using r(1) sl by (simp add: swap_in_def s2_def dv SECTORS_PER_PAGE_eq BLOCK_SECTOR_SIZE_def mul free_slot_def bm(1))
  moreover have "read_mem frame 4096 m' = slot_data s slot"
    unfolding read_mem_page slot_data_eq using r(5) by (intro arg_cong [where f = concat] map_cong) auto
  moreover have "swap_ok s2" using r(2,3) bm(2,3) by (simp add: swap_ok_def s2_def)
  moreover have "slot_used s2 i \<longleftrightarrow> i \<noteq> slot \<and> slot_used s i" for i
    using sl bm(1) by (auto simp: slot_used_def s2_def nth_list_update)
  moreover have "slot_data s2 i = slot_data s i" for i
    using r(4) by (simp add: slot_data_def s2_def)
  ultimately show ?thesis using r(6) unfolding restores_def by blast
qed

section \<open>Properties\<close>

text \<open>C9: Swapping is faithful. \<open>swap_out\<close> answers no slot exactly when all are taken; otherwise it takes the first free
  slot, stores the page there and touches no other slot. Reading the slot back into any frame restores the page byte for
  byte, changes nothing outside that frame, frees exactly that slot, and no step panics.\<close>

theorem swap_roundtrip:
  assumes "swap_ok s"
  shows "if \<not> swap_room s then swap_out m kpage s = Some (None, s)
    else \<exists>slot s1. swap_out m kpage s = Some (Some slot, s1) \<and> saved_in slot (read_mem kpage 4096 m) s s1
      \<and> (\<forall>m2 frame. restores slot frame (read_mem kpage 4096 m) m2 s1)"
proof (cases "swap_room s")
  case True
  from swap_out_spec [OF assms True, of m kpage] obtain slot s1 where
    s1: "swap_out m kpage s = Some (Some slot, s1)" "saved_in slot (read_mem kpage 4096 m) s s1" by blast
  then have "restores slot frame (read_mem kpage 4096 m) m2 s1" for m2 frame
    using swap_in_spec [of s1 slot frame m2] by (simp add: saved_in_def)
  with True s1 show ?thesis by auto
qed (simp add: swap_out_full [OF assms])

definition sample_swap :: "(sector \<Rightarrow> sector_data) swap" where
  "sample_swap = \<lparr> SWAP_BITMAP = Some [True, False], SWAP_SLOT_COUNT = 2, disks = ram_registry 16 (\<lambda>_. []) \<rparr>"

theorem swap_roundtrip_witness:
  "\<exists>slot s1. swap_out (\<lambda>x. of_nat x) 4096 sample_swap = Some (Some slot, s1)
     \<and> restores slot 8192 (read_mem 4096 4096 (\<lambda>x. of_nat x)) (\<lambda>_. 0) s1"
proof -
  have ok: "swap_ok sample_swap" by (simp add: swap_ok_def sample_swap_def)
  have n: "swap_room sample_swap"
    by (auto simp: sample_swap_def slot_used_def swap_room_def intro: exI [of _ 1])
  from swap_roundtrip [OF ok, of "\<lambda>x. of_nat x" 4096] n show ?thesis by auto
qed

end
