(* ===== verification/Spt.thy ===== *)
theory Spt
  imports BTreeMap Swap
begin

section \<open>Supplementary page tables: vm/page.rs\<close>

text \<open>
  Where the data of each page of a process lives. A table is an ordered map from page addresses to entries; a
  reference into it is the key of the entry. \<open>load_page\<close>, which needs frames, is in the theory of the frame table.
\<close>

unbundle bit_operations_syntax

datatype page_location = InMemory | InSwap nat | OnDisk | Zero

datatype page_type = Binary | File | Anonymous

record spt_entry =
  vaddr :: nat
  location :: page_location
  page_type :: page_type
  writable :: bool
  inode_sector :: nat
  file_offset :: nat
  read_bytes :: nat
  page_ofs :: nat

type_synonym spt = "(nat \<times> spt_entry) list"

definition spt_new :: spt where
  "spt_new = []"

definition spt_insert :: "spt_entry \<Rightarrow> spt \<Rightarrow> spt" where
  "spt_insert e t = bt_insert (vaddr e) e t"

definition spt_find :: "nat \<Rightarrow> spt \<Rightarrow> spt_entry option" where
  "spt_find va t = map_of t (va AND not_u32 (PGSIZE - 1))"

text \<open>\<open>find_mut\<close> and an update of the entry it finds, if there is one.\<close>

definition spt_modify :: "nat \<Rightarrow> (spt_entry \<Rightarrow> spt_entry) \<Rightarrow> spt \<Rightarrow> spt" where
  "spt_modify va f t = bt_modify (va AND not_u32 (PGSIZE - 1)) f t"

definition spt_remove :: "nat \<Rightarrow> spt \<Rightarrow> spt_entry option \<times> spt" where
  "spt_remove va t = (spt_find va t, bt_remove (va AND not_u32 (PGSIZE - 1)) t)"

definition free_entry :: "spt_entry \<Rightarrow> 'm swap \<Rightarrow> 'm swap" where
  "free_entry e s = (case location e of InSwap slot \<Rightarrow> free_slot_public slot s | _ \<Rightarrow> s)"

definition spt_destroy :: "spt \<Rightarrow> 'm swap \<Rightarrow> 'm swap" where
  "spt_destroy t s = fold (\<lambda>(_, e). free_entry e) t s"

end
