(* ===== verification/Pagedir.thy ===== *)
theory Pagedir
  imports Palloc Encoding
begin

section \<open>Page directories: userprog/pagedir.rs, mem/paging.rs\<close>

text \<open>
  Two-level page tables in the memory \<open>ram\<close> of the page allocator, addressed by kernel virtual addresses. A page
  directory is the address of its page; entries are little-endian words, read by \<open>peek32\<close> and written by \<open>poke32\<close>. The
  loads of CR3 and the TLB invalidations have no effect on this memory and are left out.
  A well-formed directory refines a function from user addresses to page table entries: \<open>pte_word\<close>, zero where
  there is no table.
\<close>

definition PTE_P :: nat where "PTE_P = 0x1"
definition PTE_W :: nat where "PTE_W = 0x2"
definition PTE_U :: nat where "PTE_U = 0x4"
definition PTE_A :: nat where "PTE_A = 0x20"
definition PTE_D :: nat where "PTE_D = 0x40"
definition PTE_ADDR :: nat where "PTE_ADDR = 0xFFFFF000"

definition peek32 :: "(nat \<Rightarrow> byte) \<Rightarrow> nat \<Rightarrow> nat" where
  "peek32 m a = bytes_u32 [m a, m (a + 1), m (a + 2), m (a + 3)]"

definition poke32 :: "nat \<Rightarrow> nat \<Rightarrow> (nat \<Rightarrow> byte) \<Rightarrow> nat \<Rightarrow> byte" where
  "poke32 a v m = (\<lambda>x. if a \<le> x \<and> x < a + 4 then u32_bytes v ! (x - a) else m x)"

definition lookup :: "nat \<Rightarrow> nat \<Rightarrow> bool \<Rightarrow> palloc \<Rightarrow> (nat \<times> palloc) option" where
  "lookup pd vaddr create p = do {
     let pde = pd + 4 * drop_bit 22 vaddr;
     let pte_idx = drop_bit 12 vaddr AND 0x3FF;
     (found, p) \<leftarrow> (if peek32 (ram p) pde = 0
       then if \<not> create then Some (False, p)
            else do {
              (pt, p) \<leftarrow> get_page {ZERO} p;
              if pt = 0 then Some (False, p)
              else do {
                phys \<leftarrow> vtop pt;
                Some (True, p \<lparr> ram := poke32 pde (((phys OR PTE_P) OR PTE_W) OR PTE_U) (ram p) \<rparr>)
              }
            }
       else Some (True, p));
     if \<not> found then Some (0, p)
     else do {
       pt \<leftarrow> ptov (peek32 (ram p) pde AND PTE_ADDR);
       Some (pt + 4 * pte_idx, p)
     }
   }"

definition set_page :: "nat \<Rightarrow> nat \<Rightarrow> nat \<Rightarrow> bool \<Rightarrow> palloc \<Rightarrow> (bool \<times> palloc) option" where
  "set_page pd upage kpage writable p = do {
     assert (upage < PHYS_BASE);
     assert (pg_ofs upage = 0);
     assert (pg_ofs kpage = 0);
     (pte_ptr, p) \<leftarrow> lookup pd upage True p;
     if pte_ptr = 0 then Some (False, p)
     else do {
       let flags = ((PTE_P OR PTE_U) OR (if writable then PTE_W else 0));
       phys \<leftarrow> vtop kpage;
       Some (True, p \<lparr> ram := poke32 pte_ptr (phys OR flags) (ram p) \<rparr>)
     }
   }"

definition pd_get_page :: "nat \<Rightarrow> nat \<Rightarrow> palloc \<Rightarrow> nat option" where
  "pd_get_page pd uaddr p = do {
     (pte_ptr, p) \<leftarrow> lookup pd uaddr False p;
     if pte_ptr = 0 then Some 0
     else let pte = peek32 (ram p) pte_ptr
          in if pte AND PTE_P = 0 then Some 0
             else do { page \<leftarrow> ptov (pte AND PTE_ADDR); add_usize page (pg_ofs uaddr) }
   }"

definition clear_page :: "nat \<Rightarrow> nat \<Rightarrow> palloc \<Rightarrow> palloc option" where
  "clear_page pd upage p = do {
     (pte_ptr, p) \<leftarrow> lookup pd upage False p;
     Some (if pte_ptr \<noteq> 0 then p \<lparr> ram := poke32 pte_ptr 0 (ram p) \<rparr> else p)
   }"

definition is_accessed :: "nat \<Rightarrow> nat \<Rightarrow> palloc \<Rightarrow> bool option" where
  "is_accessed pd upage p = do {
     (pte_ptr, p) \<leftarrow> lookup pd upage False p;
     Some (pte_ptr \<noteq> 0 \<and> peek32 (ram p) pte_ptr AND PTE_A \<noteq> 0)
   }"

definition set_accessed :: "nat \<Rightarrow> nat \<Rightarrow> bool \<Rightarrow> palloc \<Rightarrow> palloc option" where
  "set_accessed pd upage val p = do {
     (pte_ptr, p) \<leftarrow> lookup pd upage False p;
     Some (if pte_ptr = 0 then p
           else p \<lparr> ram := poke32 pte_ptr
             (if val then peek32 (ram p) pte_ptr OR PTE_A else peek32 (ram p) pte_ptr AND not_u32 PTE_A) (ram p) \<rparr>)
   }"

definition is_dirty :: "nat \<Rightarrow> nat \<Rightarrow> palloc \<Rightarrow> bool option" where
  "is_dirty pd upage p = do {
     (pte_ptr, p) \<leftarrow> lookup pd upage False p;
     Some (pte_ptr \<noteq> 0 \<and> peek32 (ram p) pte_ptr AND PTE_D \<noteq> 0)
   }"

text \<open>\<open>create\<close>: a copy of the kernel's directory.\<close>

definition pd_create :: "nat \<Rightarrow> palloc \<Rightarrow> (nat \<times> palloc) option" where
  "pd_create init_pd p = do {
     (pd, p) \<leftarrow> get_page {ZERO} p;
     if pd = 0 then Some (0, p)
     else Some (pd, p \<lparr> ram := (\<lambda>x. if pd \<le> x \<and> x < pd + 4 * 1024 then ram p (init_pd + (x - pd)) else ram p x) \<rparr>)
   }"

text \<open>\<open>paging::init\<close>: the kernel's own directory, mapping every page of the RAM; \<open>text\<close> are the linker symbols around
  the kernel's code. The loop carries the directory's memory and the current table.\<close>

definition paging_init :: "nat \<Rightarrow> nat \<Rightarrow> nat \<Rightarrow> palloc \<Rightarrow> (nat \<times> palloc) option" where
  "paging_init ram_pages text_start text_end p = do {
     (pd, p) \<leftarrow> get_page {ASSERT, ZERO} p;
     (pt, p) \<leftarrow> for_range 0 ram_pages (\<lambda>page (pt, p). do {
       paddr \<leftarrow> mul_usize page PGSIZE;
       vaddr \<leftarrow> ptov paddr;
       let pde = pd + 4 * drop_bit 22 vaddr;
       let pte_idx = drop_bit 12 vaddr AND 0x3FF;
       (pt, p) \<leftarrow> (if peek32 (ram p) pde = 0
         then do {
           (pt, p) \<leftarrow> get_page {ASSERT, ZERO} p;
           phys \<leftarrow> vtop pt;
           Some (pt, p \<lparr> ram := poke32 pde (((phys OR PTE_P) OR PTE_W) OR PTE_U) (ram p) \<rparr>)
         }
         else Some (pt, p));
       let writable = (\<not> (vaddr \<ge> text_start \<and> vaddr < text_end));
       let flags = (PTE_P OR (if writable then PTE_W else 0));
       Some (pt, p \<lparr> ram := poke32 (pt + 4 * pte_idx) (paddr OR flags) (ram p) \<rparr>)
     }) (0, p);
     Some (pd, p)
   }"

end
