(* ===== verification/Frame.thy ===== *)
theory Frame
  imports Spt Thread Pagedir Inode
begin

section \<open>The frame table: vm/frame.rs, and load_page of vm/page.rs\<close>

text \<open>
  The frames of the user pool with their owners, eviction by the clock algorithm, and the loading of a page on demand.
  The state extends the kernel's with the statics of vm/frame.rs, the registry of supplementary page tables of
  userprog/process.rs, the swap area and the file system; the last two share one registry of block devices, the
  file system's, which \<open>get_swap\<close> and \<open>put_swap\<close> pass to the swap operations.
  A pointer to a supplementary page table, owned by the registry, is its entry there, \<open>None\<close> the null pointer.
\<close>

record frame_entry =
  kpage :: nat
  upage :: nat
  owner_tid :: int
  pinned :: bool

record 'm vm = kernel +
  FRAME_TABLE :: "frame_entry list option"
  KPAGE_INDEX :: "(nat \<rightharpoonup> nat) option"
  CLOCK_HAND :: nat
  SWAP_MAP :: "(int \<times> nat \<rightharpoonup> nat) option"
  SPT_TABLE :: "(int \<rightharpoonup> spt) option"
  swap_st :: "'m swap"
  fsys :: "'m fs"

type_synonym ('m, 'z) vmk = "('m, 'z) vm_scheme"

definition get_swap :: "('m, 'z) vmk \<Rightarrow> 'm swap" where
  "get_swap k = (swap_st k) \<lparr> disks := reg (fs_bio (fsys k)) \<rparr>"

definition put_swap :: "'m swap \<Rightarrow> ('m, 'z) vmk \<Rightarrow> ('m, 'z) vmk" where
  "put_swap s k = k \<lparr> swap_st := s, fsys := (fsys k) \<lparr> fs_bio := (fs_bio (fsys k)) \<lparr> reg := disks s \<rparr> \<rparr> \<rparr>"

definition set_ram :: "(nat \<Rightarrow> byte) \<Rightarrow> ('m, 'z) vmk \<Rightarrow> ('m, 'z) vmk" where
  "set_ram m k = k \<lparr> pal := (pal k) \<lparr> ram := m \<rparr> \<rparr>"

definition frame_init :: "('m, 'z) vmk \<Rightarrow> ('m, 'z) vmk" where
  "frame_init k = k \<lparr> FRAME_TABLE := Some [], KPAGE_INDEX := Some Map.empty, SWAP_MAP := Some Map.empty \<rparr>"

subsection \<open>The registry of supplementary page tables: userprog/process.rs\<close>

definition set_spt :: "int \<Rightarrow> spt \<Rightarrow> ('m, 'z) vmk \<Rightarrow> ('m, 'z) vmk option" where
  "set_spt n t k = do { table \<leftarrow> SPT_TABLE k; Some (k \<lparr> SPT_TABLE := Some (table(n \<mapsto> t)) \<rparr>) }"

definition get_spt :: "int \<Rightarrow> ('m, 'z) vmk \<Rightarrow> spt option option" where
  "get_spt n k = do { table \<leftarrow> SPT_TABLE k; Some (table n) }"

definition remove_spt :: "int \<Rightarrow> ('m, 'z) vmk \<Rightarrow> (spt option \<times> ('m, 'z) vmk) option" where
  "remove_spt n k = do { table \<leftarrow> SPT_TABLE k; Some (table n, k \<lparr> SPT_TABLE := Some (table(n := None)) \<rparr>) }"

text \<open>An assignment to the location of the entry for a page, through a pointer to the table.\<close>

definition set_location :: "int \<Rightarrow> nat \<Rightarrow> (spt_entry \<Rightarrow> page_location) \<Rightarrow> ('m, 'z) vmk \<Rightarrow> ('m, 'z) vmk" where
  "set_location n va f k = k \<lparr> SPT_TABLE := map_option (\<lambda>table. table(n := map_option
     (spt_modify va (\<lambda>e. e \<lparr> location := f e \<rparr>)) (table n))) (SPT_TABLE k) \<rparr>"

subsection \<open>Registering and freeing frames\<close>

definition register_frame :: "nat \<Rightarrow> nat \<Rightarrow> int \<Rightarrow> ('m, 'z) vmk \<Rightarrow> ('m, 'z) vmk" where
  "register_frame kp up n k = (case FRAME_TABLE k of
      None \<Rightarrow> k
    | Some ft \<Rightarrow> k \<lparr> FRAME_TABLE := Some (ft @ [\<lparr> kpage = kp, upage = up, owner_tid = n, pinned = False \<rparr>]),
        KPAGE_INDEX := map_option (\<lambda>m. m(kp \<mapsto> length ft)) (KPAGE_INDEX k) \<rparr>)"

text \<open>\<open>Vec::swap_remove\<close>: the last element takes the place of the removed one.\<close>

definition swap_remove :: "nat \<Rightarrow> 'a list \<Rightarrow> 'a list option" where
  "swap_remove i xs = (if i < length xs then Some (butlast (xs[i := last xs])) else None)"

definition unregister :: "nat \<Rightarrow> ('m, 'z) vmk \<Rightarrow> ('m, 'z) vmk option" where
  "unregister kp k = (case (FRAME_TABLE k, KPAGE_INDEX k) of
      (Some ft, Some m) \<Rightarrow> (case m kp of
          Some i \<Rightarrow> do {
            ft \<leftarrow> swap_remove i ft;
            let m = m(kp := None);
            let m = (if i < length ft then m(kpage (ft ! i) \<mapsto> i) else m);
            Some (k \<lparr> FRAME_TABLE := Some ft, KPAGE_INDEX := Some m \<rparr>)
          }
        | None \<Rightarrow> Some k)
    | _ \<Rightarrow> Some k)"

definition free_frame :: "nat \<Rightarrow> ('m, 'z) vmk \<Rightarrow> ('m, 'z) vmk option" where
  "free_frame kp k = do {
     k \<leftarrow> unregister kp k;
     p \<leftarrow> free_page kp (pal k);
     Some (k \<lparr> pal := p \<rparr>)
   }"

text \<open>The first entry of a thread and page.\<close>

fun set_pinned :: "bool \<Rightarrow> int \<Rightarrow> nat \<Rightarrow> frame_entry list \<Rightarrow> frame_entry list" where
  "set_pinned b n up [] = []"
| "set_pinned b n up (e # es) =
     (if owner_tid e = n \<and> upage e = up then e \<lparr> pinned := b \<rparr> # es else e # set_pinned b n up es)"

definition pin_upage :: "int \<Rightarrow> nat \<Rightarrow> ('m, 'z) vmk \<Rightarrow> ('m, 'z) vmk" where
  "pin_upage n up k = k \<lparr> FRAME_TABLE := map_option (set_pinned True n up) (FRAME_TABLE k) \<rparr>"

definition unpin_upage :: "int \<Rightarrow> nat \<Rightarrow> ('m, 'z) vmk \<Rightarrow> ('m, 'z) vmk" where
  "unpin_upage n up k = k \<lparr> FRAME_TABLE := map_option (set_pinned False n up) (FRAME_TABLE k) \<rparr>"

definition fix_owner_tid :: "int \<Rightarrow> int \<Rightarrow> ('m, 'z) vmk \<Rightarrow> ('m, 'z) vmk" where
  "fix_owner_tid placeholder real_tid k = k \<lparr> FRAME_TABLE := map_option
     (map (\<lambda>e. if owner_tid e = placeholder then e \<lparr> owner_tid := real_tid \<rparr> else e)) (FRAME_TABLE k) \<rparr>"

definition get_swap_slot :: "int \<Rightarrow> nat \<Rightarrow> ('m, 'z) vmk \<Rightarrow> nat option" where
  "get_swap_slot n up k = (case SWAP_MAP k of None \<Rightarrow> None | Some m \<Rightarrow> m (n, up))"

definition remove_swap_entry :: "int \<Rightarrow> nat \<Rightarrow> ('m, 'z) vmk \<Rightarrow> ('m, 'z) vmk" where
  "remove_swap_entry n up k = k \<lparr> SWAP_MAP := map_option (\<lambda>m. m((n, up) := None)) (SWAP_MAP k) \<rparr>"

subsection \<open>Eviction\<close>

text \<open>Whether a page must be written to swap, and where a page that is dropped will be read from.\<close>

definition needs_swap :: "(page_type \<times> nat) option \<Rightarrow> bool \<Rightarrow> bool" where
  "needs_swap ty dirty = (case ty of
      Some (Binary, rb) \<Rightarrow> if \<not> dirty \<and> rb > 0 then False else dirty
    | _ \<Rightarrow> dirty)"

definition clean_location :: "spt_entry \<Rightarrow> page_location" where
  "clean_location e = (case page_type e of
      Binary \<Rightarrow> if read_bytes e > 0 then OnDisk else Zero
    | Anonymous \<Rightarrow> Zero
    | _ \<Rightarrow> Zero)"

text \<open>Saving the page of a victim; \<open>False\<close> if the swap area is full.\<close>

definition save_page :: "frame_entry \<Rightarrow> bool \<Rightarrow> ('m, 'z) vmk \<Rightarrow> (bool \<times> ('m, 'z) vmk) option" where
  "save_page e dirty k = do {
     owner_spt \<leftarrow> get_spt (owner_tid e) k;
     let ty = (case owner_spt of None \<Rightarrow> None
               | Some t \<Rightarrow> map_option (\<lambda>s. (page_type s, read_bytes s)) (spt_find (upage e) t));
     if needs_swap ty dirty
     then do {
       (r, s) \<leftarrow> swap_out (ram (pal k)) (kpage e) (get_swap k);
       let k = put_swap s k;
       case r of
         None \<Rightarrow> Some (False, k)
       | Some slot \<Rightarrow> Some (True,
           if owner_spt \<noteq> None then set_location (owner_tid e) (upage e) (\<lambda>_. InSwap slot) k
           else k \<lparr> SWAP_MAP := map_option (\<lambda>m. m((owner_tid e, upage e) \<mapsto> slot)) (SWAP_MAP k) \<rparr>)
     }
     else Some (True, if owner_spt \<noteq> None then set_location (owner_tid e) (upage e) clean_location k else k)
   }"

text \<open>The indices of the entries from position \<open>i\<close> on.\<close>

fun reindex :: "nat \<Rightarrow> frame_entry list \<Rightarrow> (nat \<rightharpoonup> nat) \<Rightarrow> (nat \<rightharpoonup> nat)" where
  "reindex i [] m = m"
| "reindex i (e # es) m = reindex (Suc i) es (m(kpage e \<mapsto> i))"

definition drop_frame :: "nat \<Rightarrow> frame_entry list \<Rightarrow> ('m, 'z) vmk \<Rightarrow> ('m, 'z) vmk" where
  "drop_frame hand ft k =
     (let ft' = remove_at hand ft
      in k \<lparr> FRAME_TABLE := Some ft',
           KPAGE_INDEX := map_option (\<lambda>m. reindex hand (drop hand ft') (m(kpage (ft ! hand) := None))) (KPAGE_INDEX k),
           CLOCK_HAND := (if CLOCK_HAND k > 0 then CLOCK_HAND k - 1 else CLOCK_HAND k) \<rparr>)"

text \<open>One round of the loop: the frame under the hand is passed over, or evicted and returned.\<close>

definition evict_try :: "frame_entry list \<Rightarrow> ('m, 'z) vmk \<Rightarrow> (nat option \<times> ('m, 'z) vmk) option" where
  "evict_try ft k = do {
     let hand = CLOCK_HAND k mod length ft;
     let k = k \<lparr> CLOCK_HAND := (CLOCK_HAND k + 1) mod 2 ^ 32 \<rparr>;
     e \<leftarrow> idx ft hand;
     if pinned e then Some (None, k)
     else do {
       pd \<leftarrow> get_pagedir_by_tid (owner_tid e) k;
       if pd = 0 then Some (None, k)
       else do {
         acc \<leftarrow> is_accessed pd (upage e) (pal k);
         if acc
         then do { p \<leftarrow> set_accessed pd (upage e) False (pal k); Some (None, k \<lparr> pal := p \<rparr>) }
         else do {
           dirty \<leftarrow> is_dirty pd (upage e) (pal k);
           (saved, k) \<leftarrow> save_page e dirty k;
           if \<not> saved then Some (None, k)
           else do {
             p \<leftarrow> clear_page pd (upage e) (pal k);
             Some (Some (kpage e), drop_frame hand ft (k \<lparr> pal := p \<rparr>))
           }
         }
       }
     }
   }"

primrec evict_loop :: "nat \<Rightarrow> frame_entry list \<Rightarrow> ('m, 'z) vmk \<Rightarrow> (nat option \<times> ('m, 'z) vmk) option" where
  "evict_loop 0 ft k = Some (None, k)"
| "evict_loop (Suc n) ft k = do {
     (r, k) \<leftarrow> evict_try ft k;
     if r \<noteq> None then Some (r, k) else evict_loop n ft k
   }"

definition evict_frame :: "('m, 'z) vmk \<Rightarrow> (nat option \<times> ('m, 'z) vmk) option" where
  "evict_frame k = (case FRAME_TABLE k of
      None \<Rightarrow> Some (None, k)
    | Some ft \<Rightarrow> if ft = [] then Some (None, k)
        else do { n \<leftarrow> mul_usize 2 (length ft); evict_loop n ft k })"

definition alloc_frame :: "nat \<Rightarrow> int \<Rightarrow> ('m, 'z) vmk \<Rightarrow> (nat \<times> ('m, 'z) vmk) option" where
  "alloc_frame up n k = do {
     (kp, p) \<leftarrow> get_page {USER, ZERO} (pal k);
     let k = k \<lparr> pal := p \<rparr>;
     if kp \<noteq> 0 then Some (kp, register_frame kp up n k)
     else do {
       (r, k) \<leftarrow> evict_frame k;
       case r of
         Some kp \<Rightarrow> Some (kp, register_frame kp up n (set_ram (zero_range kp PGSIZE (ram (pal k))) k))
       | None \<Rightarrow> Some (0, k)
     }
   }"

subsection \<open>Loading a page on demand\<close>

text \<open>The common end of the three cases: map the frame, or give it back.\<close>

definition map_frame :: "nat \<Rightarrow> nat \<Rightarrow> nat \<Rightarrow> int \<Rightarrow> bool \<Rightarrow> ('m, 'z) vmk \<Rightarrow> (bool \<times> ('m, 'z) vmk) option" where
  "map_frame pd page kp n w k = do {
     (ok, p) \<leftarrow> set_page pd page kp w (pal k);
     let k = k \<lparr> pal := p \<rparr>;
     if ok then Some (True, set_location n page (\<lambda>_. InMemory) k)
     else do { k \<leftarrow> free_frame kp k; Some (False, k) }
   }"

definition load_from_disk :: "spt_entry \<Rightarrow> nat \<Rightarrow> ('m, 'z) vmk \<Rightarrow> ('m, 'z) vmk option" where
  "load_from_disk e kp k = do {
     let k = set_ram (zero_range kp PGSIZE (ram (pal k))) k;
     if read_bytes e > 0
     then do {
       let dst = kp + page_ofs e;
       (n, b, s) \<leftarrow> read_at (inode_sector e) (read_mem dst (read_bytes e) (ram (pal k)))
         (as_i32 (int (read_bytes e))) (as_i32 (int (file_offset e))) (fsys k);
       Some (set_ram (write_mem dst b (ram (pal k))) (k \<lparr> fsys := s \<rparr>))
     }
     else Some k
   }"

text \<open>\<open>load_page\<close> of the entry \<open>e\<close> of thread \<open>n\<close> for \<open>page\<close>.\<close>

definition load_page :: "spt_entry \<Rightarrow> nat \<Rightarrow> nat \<Rightarrow> int \<Rightarrow> ('m, 'z) vmk \<Rightarrow> (bool \<times> ('m, 'z) vmk) option" where
  "load_page e pd page n k = (case location e of
      OnDisk \<Rightarrow> do {
        (kp, k) \<leftarrow> alloc_frame page n k;
        if kp = 0 then Some (False, k)
        else do { k \<leftarrow> load_from_disk e kp k; map_frame pd page kp n (writable e) k }
      }
    | InSwap slot \<Rightarrow> do {
        (kp, k) \<leftarrow> alloc_frame page n k;
        if kp = 0 then Some (False, k)
        else do {
          (m, s) \<leftarrow> swap_in slot kp (ram (pal k)) (get_swap k);
          map_frame pd page kp n (writable e) (set_ram m (put_swap s k))
        }
      }
    | Zero \<Rightarrow> do {
        (kp, k) \<leftarrow> alloc_frame page n k;
        if kp = 0 then Some (False, k) else map_frame pd page kp n (writable e) k
      }
    | InMemory \<Rightarrow> Some (True, k))"

subsection \<open>Destroying a page directory: userprog/pagedir.rs\<close>

definition destroy_entry :: "nat \<Rightarrow> nat \<Rightarrow> ('m, 'z) vmk \<Rightarrow> ('m, 'z) vmk option" where
  "destroy_entry pt j k = do {
     let pte = peek32 (ram (pal k)) (pt + 4 * j);
     if pte AND PTE_P \<noteq> 0
     then do { page \<leftarrow> ptov (pte AND PTE_ADDR); free_frame page k }
     else Some k
   }"

definition destroy_table :: "nat \<Rightarrow> nat \<Rightarrow> ('m, 'z) vmk \<Rightarrow> ('m, 'z) vmk option" where
  "destroy_table pd i k = do {
     let pde = peek32 (ram (pal k)) (pd + 4 * i);
     if pde AND PTE_P \<noteq> 0
     then do {
       pt \<leftarrow> ptov (pde AND PTE_ADDR);
       k \<leftarrow> for_range 0 1024 (destroy_entry pt) k;
       p \<leftarrow> free_page pt (pal k);
       Some (k \<lparr> pal := p \<rparr>)
     }
     else Some k
   }"

definition pd_destroy :: "nat \<Rightarrow> ('m, 'z) vmk \<Rightarrow> ('m, 'z) vmk option" where
  "pd_destroy pd k =
     (if pd = 0 then Some k
      else do {
        k \<leftarrow> for_range 0 (drop_bit 22 PHYS_BASE) (destroy_table pd) k;
        p \<leftarrow> free_page pd (pal k);
        Some (k \<lparr> pal := p \<rparr>)
      })"

end
