(* ===== verification/PagedirProps.thy ===== *)
theory PagedirProps
  imports Pagedir
begin

text \<open>
  The refinement of a page directory to a function from user addresses to entries: words in memory, the invariant
  \<open>pd_ok\<close> of a directory with its tables, the effect of a new table and of a new entry, and \<open>set_page\<close> as an update
  seen through \<open>pd_get_page\<close>, \<open>is_accessed\<close> and \<open>is_dirty\<close>.
\<close>

section \<open>Memory words\<close>

lemma peek32_bound: "peek32 m a < 2 ^ 32"
  unfolding peek32_def by (rule bytes_u32_bound)

lemma peek_poke_same: "v < 2 ^ 32 \<Longrightarrow> peek32 (poke32 a v m) a = v"
proof -
  assume v: "v < 2 ^ 32"
  have "[poke32 a v m a, poke32 a v m (a + 1), poke32 a v m (a + 2), poke32 a v m (a + 3)] = u32_bytes v"
    by (simp add: poke32_def u32_bytes_def)
  with v show ?thesis by (simp add: peek32_def)
qed

lemma peek_poke_other: "4 dvd a \<Longrightarrow> 4 dvd b \<Longrightarrow> a \<noteq> b \<Longrightarrow> peek32 (poke32 a v m) b = peek32 m b"
proof -
  assume "4 dvd a" "4 dvd b" "a \<noteq> b"
  then have "a + 4 \<le> b \<or> b + 4 \<le> a" by (auto elim!: dvdE)
  then show ?thesis by (auto simp: peek32_def poke32_def)
qed

lemma peek_zero: "s \<le> a \<Longrightarrow> a + 4 \<le> s + n \<Longrightarrow> peek32 (zero_range s n m) a = 0"
  by (simp add: peek32_def zero_range_def bytes_u32_def)

lemma peek_zero_other: "a + 4 \<le> s \<or> s + n \<le> a \<Longrightarrow> peek32 (zero_range s n m) a = peek32 m a"
  by (auto simp: peek32_def zero_range_def)

lemma or_flags: "f < 2 ^ k \<Longrightarrow> (q * 2 ^ k) OR f = q * 2 ^ k + (f :: nat)"
proof -
  assume f: "f < 2 ^ k"
  then have "take_bit k f = f" by (simp add: take_bit_nat_eq_self_iff)
  then have "f = f AND mask k" by (simp add: take_bit_eq_mask)
  then have "(q * 2 ^ k) AND f = (push_bit k q AND mask k) AND f" by (metis and.assoc and.commute push_bit_eq_mult)
  also have "push_bit k q AND mask k = 0" by (rule bit_eqI) (auto simp: bit_simps)
  finally show ?thesis by (simp add: disjunctive_add_eq_or [symmetric])
qed

lemma pte_addr: "x < 2 ^ 32 \<Longrightarrow> x AND PTE_ADDR = x div 4096 * 4096"
proof -
  have "PTE_ADDR = not_u32 (2 ^ 12 - 1)" by (simp add: PTE_ADDR_def not_u32_def)
  then show "x < 2 ^ 32 \<Longrightarrow> x AND PTE_ADDR = x div 4096 * 4096" using and_not_mask [of x 12] by simp
qed

lemma pte_index: "drop_bit 12 a AND 0x3FF = a div 4096 mod (1024 :: nat)"
proof -
  have "drop_bit 12 a AND mask 10 = take_bit 10 (drop_bit 12 a)" by (simp add: take_bit_eq_mask)
  then show ?thesis by (simp add: take_bit_eq_mod drop_bit_eq_div mask_eq_exp_minus_1)
qed


section \<open>Well-formed directories\<close>

definition table :: "nat \<Rightarrow> nat" where
  "table pde = pde div 4096 * 4096 + PHYS_BASE"

definition pde_of :: "nat \<Rightarrow> (nat \<Rightarrow> byte) \<Rightarrow> nat \<Rightarrow> nat" where
  "pde_of pd m d = peek32 m (pd + 4 * d)"

text \<open>The page table entry of a user address, zero if it has no table.\<close>

definition pte_word :: "nat \<Rightarrow> (nat \<Rightarrow> byte) \<Rightarrow> nat \<Rightarrow> nat" where
  "pte_word pd m va = (let e = pde_of pd m (va div 2 ^ 22)
     in if e = 0 then 0 else peek32 m (table e + 4 * (va div 4096 mod 1024)))"

text \<open>A page of the kernel pool that is in use.\<close>

definition kpage_ok :: "palloc \<Rightarrow> nat \<Rightarrow> bool" where
  "kpage_ok p a \<longleftrightarrow> (\<exists>i < npages p False. a = base (kernel_pool p) + i * PGSIZE \<and> used p False i)"

text \<open>The directory and the tables of its user part are pages of the kernel pool, all different.\<close>

definition pd_ok :: "nat \<Rightarrow> palloc \<Rightarrow> bool" where
  "pd_ok pd p \<longleftrightarrow> palloc_ok p \<and> PHYS_BASE \<le> base (kernel_pool p) \<and> kpage_ok p pd
     \<and> (\<forall>d < 768. pde_of pd (ram p) d \<noteq> 0 \<longrightarrow> kpage_ok p (table (pde_of pd (ram p) d)) \<and> table (pde_of pd (ram p) d) \<noteq> pd)
     \<and> (\<forall>d < 768. \<forall>d' < 768. pde_of pd (ram p) d \<noteq> 0 \<and> pde_of pd (ram p) d' \<noteq> 0 \<and> d \<noteq> d'
          \<longrightarrow> table (pde_of pd (ram p) d) \<noteq> table (pde_of pd (ram p) d'))"

lemma kpage_facts:
  assumes "palloc_ok p" and "PHYS_BASE \<le> base (kernel_pool p)" and "kpage_ok p a"
  shows "4096 dvd a" "PHYS_BASE \<le> a" "a + 4096 < 2 ^ 32" "a + 4096 \<le> base (user_pool p)"
proof -
  from assms(3) obtain i where i: "i < npages p False" "a = base (kernel_pool p) + i * PGSIZE" by (auto simp: kpage_ok_def)
  have q: "PGSIZE dvd base (kernel_pool p)" "pool_end (kernel_pool p) < 2 ^ 32" "pool_end (kernel_pool p) \<le> base (user_pool p)"
    using assms(1) by (auto simp: palloc_ok_def pool_ok_def)
  have "Suc i * PGSIZE \<le> npages p False * PGSIZE" using i(1) by (intro mult_le_mono1) simp
  then have "a + PGSIZE \<le> pool_end (kernel_pool p)" unfolding i(2) by (simp add: pool_end_def npages_def the_pool_def)
  then show "a + 4096 < 2 ^ 32" "a + 4096 \<le> base (user_pool p)" using q by (auto simp: PGSIZE_def)
  show "4096 dvd a" unfolding i(2) using q(1) by (simp add: PGSIZE_def)
  show "PHYS_BASE \<le> a" unfolding i(2) using assms(2) by simp
qed

lemma aligned_apart:
  assumes "4096 dvd a" and "4096 dvd b" and "a \<noteq> (b :: nat)" and "i < 1024" and "j < 1024"
  shows "a + 4 * i \<noteq> b + 4 * j" "4 dvd a + 4 * i" "a + 4 * i + 4 \<le> b \<or> b + 4096 \<le> a + 4 * i"
proof -
  from assms(1,2) obtain q r where q: "a = 4096 * q" "b = 4096 * r" by (auto elim!: dvdE)
  then have "q < r \<or> r < q" using assms(3) by auto
  then have "a + 4096 \<le> b \<or> b + 4096 \<le> a" using q by auto
  then show "a + 4 * i \<noteq> b + 4 * j" "a + 4 * i + 4 \<le> b \<or> b + 4096 \<le> a + 4 * i" using assms(4,5) by linarith+
  show "4 dvd a + 4 * i" using q by simp
qed

lemma ptov_table:
  assumes "PHYS_BASE \<le> table e" and "table e + 4096 < 2 ^ 32" and "e < 2 ^ 32"
  shows "ptov (e AND PTE_ADDR) = Some (table e)"
  using assms by (simp add: pte_addr ptov_def table_def PHYS_BASE_def add_usize_def)

lemma table_new:
  assumes "4096 dvd pt" and "PHYS_BASE \<le> pt" and "pt < 2 ^ 32" and "f < 4096" and "0 < f"
  shows "vtop pt = Some (pt - PHYS_BASE)" "(pt - PHYS_BASE) OR f = pt - PHYS_BASE + f" "table (pt - PHYS_BASE + f) = pt"
    "pt - PHYS_BASE + f < 2 ^ 32"
proof -
  from assms(1) obtain q where q: "pt = 4096 * q" by (auto elim: dvdE)
  have b: "PHYS_BASE = 4096 * 786432" by (simp add: PHYS_BASE_def)
  have e: "pt - PHYS_BASE = (q - 786432) * 2 ^ 12" using q b by simp
  show "vtop pt = Some (pt - PHYS_BASE)" using assms(2) by (simp add: vtop_def is_kernel_vaddr_def sub_usize_def)
  show "(pt - PHYS_BASE) OR f = pt - PHYS_BASE + f" unfolding e by (rule or_flags) (use assms(4) in simp)
  have "(pt - PHYS_BASE + f) div 4096 = q - 786432" unfolding e using assms(4) by simp
  then show "table (pt - PHYS_BASE + f) = pt" using q b assms(2) by (simp add: table_def)
  show "pt - PHYS_BASE + f < 2 ^ 32" using assms(3,4) b by simp
qed

lemma pd_ok_ram:
  assumes "pd_ok pd p" and "\<forall>d < 768. pde_of pd m d = pde_of pd (ram p) d"
  shows "pd_ok pd (p \<lparr> ram := m \<rparr>)"
proof -
  have k: "kpage_ok (p \<lparr> ram := m \<rparr>) a = kpage_ok p a" for a by (simp add: kpage_ok_def npages_def used_def the_pool_def)
  have o: "palloc_ok (p \<lparr> ram := m \<rparr>) = palloc_ok p" by (simp add: palloc_ok_def)
  show ?thesis using assms unfolding pd_ok_def k o by simp
qed

lemma pd_okD:
  assumes "pd_ok pd p" and "d < 768"
  shows "4096 dvd pd" "PHYS_BASE \<le> pd" "pd + 4096 < 2 ^ 32"
    and "pde_of pd (ram p) d \<noteq> 0 \<Longrightarrow> 4096 dvd table (pde_of pd (ram p) d) \<and> PHYS_BASE \<le> table (pde_of pd (ram p) d)
      \<and> table (pde_of pd (ram p) d) + 4096 < 2 ^ 32 \<and> table (pde_of pd (ram p) d) \<noteq> pd
      \<and> table (pde_of pd (ram p) d) + 4096 \<le> base (user_pool p)"
  using assms kpage_facts [of p] unfolding pd_ok_def by blast+

lemma user_index: "va < PHYS_BASE \<Longrightarrow> va div 2 ^ 22 < 768" "va div 4096 mod 1024 < (1024 :: nat)"
  by (simp_all add: PHYS_BASE_def less_mult_imp_div_less)

text \<open>Writing an entry changes exactly that entry.\<close>

lemma pte_write:
  assumes ok: "pd_ok pd p" and va: "va < PHYS_BASE" and e: "pde_of pd (ram p) (va div 2 ^ 22) \<noteq> 0" and v: "v < 2 ^ 32"
  defines "a \<equiv> table (pde_of pd (ram p) (va div 2 ^ 22)) + 4 * (va div 4096 mod 1024)"
  shows "pd_ok pd (p \<lparr> ram := poke32 a v (ram p) \<rparr>)"
    "\<And>u. u < PHYS_BASE \<Longrightarrow> pte_word pd (poke32 a v (ram p)) u = (if u div 4096 = va div 4096 then v else pte_word pd (ram p) u)"
    "\<And>x. base (user_pool p) \<le> x \<Longrightarrow> poke32 a v (ram p) x = ram p x"
proof -
  let ?t = "table (pde_of pd (ram p) (va div 2 ^ 22))"
  note iv = user_index(1) [OF va] user_index(2) [of va]
  have t: "4096 dvd ?t" "?t \<noteq> pd" "?t + 4096 \<le> base (user_pool p)" "4096 dvd pd" using pd_okD [OF ok iv(1)] e by auto
  have pk: "peek32 (poke32 a v (ram p)) (pd + 4 * d) = peek32 (ram p) (pd + 4 * d)" if "d < 1024" for d
    unfolding a_def
    by (rule peek_poke_other) (use aligned_apart(1,2) [OF t(1,4,2) iv(2) that] aligned_apart(2) [OF t(4,1) t(2) [symmetric] that iv(2)] in auto)
  have pde: "pde_of pd (poke32 a v (ram p)) d = pde_of pd (ram p) d" if "d < 1024" for d
    unfolding pde_of_def by (rule pk [OF that])
  show "pd_ok pd (p \<lparr> ram := poke32 a v (ram p) \<rparr>)" by (rule pd_ok_ram [OF ok]) (use pde in simp)
  show "poke32 a v (ram p) x = ram p x" if "base (user_pool p) \<le> x" for x
  proof -
    have "a + 4 \<le> x" using t(3) that iv(2) unfolding a_def by linarith
    then show ?thesis by (simp add: poke32_def)
  qed
  show "pte_word pd (poke32 a v (ram p)) u = (if u div 4096 = va div 4096 then v else pte_word pd (ram p) u)" if u: "u < PHYS_BASE" for u
  proof (cases "pde_of pd (ram p) (u div 2 ^ 22) = 0")
    case True
    have "u div 4096 \<noteq> va div 4096"
    proof
      assume "u div 4096 = va div 4096"
      then have "u div 4096 div 1024 = va div 4096 div 1024" by simp
      then have "u div 2 ^ 22 = va div 2 ^ 22" by (simp flip: div_mult2_eq)
      with True e show False by simp
    qed
    then show ?thesis using True pde [of "u div 2 ^ 22"] user_index(1) [OF u] by (simp add: pte_word_def)
  next
    case False
    let ?u = "table (pde_of pd (ram p) (u div 2 ^ 22))"
    have tu: "4096 dvd ?u" using pd_okD [OF ok user_index(1) [OF u]] False by auto
    have same: "?u + 4 * (u div 4096 mod 1024) = a \<longleftrightarrow> u div 4096 = va div 4096"
    proof
      assume l: "?u + 4 * (u div 4096 mod 1024) = a"
      then have "?u = ?t" using aligned_apart(1) [OF tu t(1) _ user_index(2) user_index(2), of u va] unfolding a_def by blast
      moreover from this have "u div 2 ^ 22 = va div 2 ^ 22"
        using ok user_index(1) [OF u] iv(1) False e unfolding pd_ok_def by blast
      ultimately have "u div 4096 mod 1024 = va div 4096 mod 1024" "u div 4096 div 1024 = va div 4096 div 1024"
        using l by (simp_all add: a_def flip: div_mult2_eq)
      then show "u div 4096 = va div 4096" by (metis div_mult_mod_eq)
    next
      assume s: "u div 4096 = va div 4096"
      then have "u div 4096 div 1024 = va div 4096 div 1024" by simp
      then have "u div 2 ^ 22 = va div 2 ^ 22" by (simp flip: div_mult2_eq)
      with s show "?u + 4 * (u div 4096 mod 1024) = a" by (simp add: a_def)
    qed
    have al: "4 dvd a" "4 dvd ?u + 4 * (u div 4096 mod 1024)" unfolding a_def using t(1) tu by (auto elim!: dvdE)
    have "peek32 (poke32 a v (ram p)) (?u + 4 * (u div 4096 mod 1024)) = (if u div 4096 = va div 4096 then v else pte_word pd (ram p) u)"
    proof (cases "u div 4096 = va div 4096")
      case True
      with same peek_poke_same [OF v, of a "ram p"] show ?thesis by simp
    next
      case ne: False
      with same peek_poke_other [OF al] show ?thesis using False by (simp add: pte_word_def)
    qed
    then show ?thesis using False pde [of "u div 2 ^ 22"] user_index(1) [OF u] by (simp add: pte_word_def)
  qed
qed


section \<open>The operations\<close>

text \<open>The kernel pool has no free page.\<close>

definition kernel_full :: "palloc \<Rightarrow> bool" where
  "kernel_full p \<longleftrightarrow> (\<forall>i < npages p False. used p False i)"

lemma alloc_table:
  assumes ok: "palloc_ok p" and hi: "PHYS_BASE \<le> base (kernel_pool p)"
  shows "kernel_full p \<and> get_page {ZERO} p = Some (0, p) \<or> (\<exists>pt p'. get_page {ZERO} p = Some (pt, p') \<and> pt \<noteq> 0 \<and> \<not> kpage_ok p pt \<and> kpage_ok p' pt
    \<and> (\<forall>a. kpage_ok p a \<longrightarrow> kpage_ok p' a) \<and> palloc_ok p' \<and> base (kernel_pool p') = base (kernel_pool p)
    \<and> user_pool p' = user_pool p \<and> ram p' = zero_range pt 4096 (ram p))"
proof -
  from get_multiple_spec [OF ok, of 1 False "{ZERO}"] consider
      (none) "get_multiple {ZERO} 1 p = Some (0, p)" "first_fit (used p False) (npages p False) False 1 0 None"
    | (some) i p' where "get_multiple {ZERO} 1 p = Some (base (kernel_pool p) + i * PGSIZE, p')"
        "first_fit (used p False) (npages p False) False 1 0 (Some i)" "allocated p False i 1 p'"
        "ram p' = zero_range (base (kernel_pool p) + i * PGSIZE) PGSIZE (ram p)"
    by (auto simp: the_pool_def)
  then show ?thesis
  proof cases
    case none
    have "kernel_full p"
      unfolding kernel_full_def
    proof (intro allI impI)
      fix i assume "i < npages p False"
      with none(2) have "\<not> run_at (used p False) False i 1" by (simp add: first_fit_def)
      then show "used p False i" by (simp add: run_at_Suc)
    qed
    with none show ?thesis by (simp add: get_page_def)
  next
    case some
    let ?pt = "base (kernel_pool p) + i * PGSIZE"
    have i: "i < npages p False" "\<not> used p False i" using some(2) by (auto simp: first_fit_def run_at_def)
    have a: "palloc_ok p'" "used p' False = (\<lambda>j. j = i \<or> used p False j)" "npages p' False = npages p False"
      "base (kernel_pool p') = base (kernel_pool p)" "user_pool p' = user_pool p"
      using some(3) by (auto simp: allocated_def the_pool_def fun_eq_iff)
    have "?pt \<noteq> 0" using hi by (simp add: PHYS_BASE_def)
    moreover have "\<not> kpage_ok p ?pt" using i(2) by (auto simp: kpage_ok_def PGSIZE_def)
    moreover have "kpage_ok p' ?pt" using i(1) a by (auto simp: kpage_ok_def)
    moreover have "\<forall>x. kpage_ok p x \<longrightarrow> kpage_ok p' x" unfolding kpage_ok_def a by blast
    ultimately show ?thesis using some(1,4) a by (auto simp: get_page_def PGSIZE_def)
  qed
qed

lemma lookup_found:
  assumes ok: "pd_ok pd p" and va: "va < PHYS_BASE" and e: "pde_of pd (ram p) (va div 2 ^ 22) \<noteq> 0"
  shows "lookup pd va create p = Some (table (pde_of pd (ram p) (va div 2 ^ 22)) + 4 * (va div 4096 mod 1024), p)"
proof -
  have "ptov (pde_of pd (ram p) (va div 2 ^ 22) AND PTE_ADDR) = Some (table (pde_of pd (ram p) (va div 2 ^ 22)))"
    using pd_okD(4) [OF ok user_index(1) [OF va] e] peek32_bound [of "ram p"] by (intro ptov_table) (auto simp: pde_of_def)
  with e show ?thesis by (simp add: lookup_def pde_of_def drop_bit_eq_div [of 22] pte_index)
qed

lemma lookup_absent:
  "pde_of pd (ram p) (va div 2 ^ 22) = 0 \<Longrightarrow> lookup pd va False p = Some (0, p)"
  by (simp add: lookup_def pde_of_def drop_bit_eq_div)

text \<open>Adding an empty table does not change any entry.\<close>

lemma add_table:
  assumes ok: "pd_ok pd p" and d: "d < 768" and e: "pde_of pd (ram p) d = 0"
    and pt: "\<not> kpage_ok p pt" "kpage_ok p' pt" "\<forall>a. kpage_ok p a \<longrightarrow> kpage_ok p' a" "palloc_ok p'"
      "base (kernel_pool p') = base (kernel_pool p)" "user_pool p' = user_pool p" "ram p' = zero_range pt 4096 (ram p)"
  defines "m \<equiv> poke32 (pd + 4 * d) (pt - PHYS_BASE + 7) (ram p')"
  shows "pd_ok pd (p' \<lparr> ram := m \<rparr>)" "pde_of pd m d = pt - PHYS_BASE + 7" "table (pde_of pd m d) = pt"
    "\<And>u. u < PHYS_BASE \<Longrightarrow> pte_word pd m u = pte_word pd (ram p) u"
    "\<And>x. base (user_pool p) \<le> x \<Longrightarrow> m x = ram p x"
    "\<And>i. i < 768 \<Longrightarrow> pde_of pd m i = (if i = d then pt - PHYS_BASE + 7 else pde_of pd (ram p) i)"
    "\<And>x. x < pd \<or> pd + 4096 \<le> x \<Longrightarrow> x < pt \<or> pt + 4096 \<le> x \<Longrightarrow> m x = ram p x"
proof -
  have hi: "PHYS_BASE \<le> base (kernel_pool p')" and kpd: "kpage_ok p pd" using ok pt(5) by (auto simp: pd_ok_def)
  note f = kpage_facts [OF pt(4) hi pt(2)] and fd = kpage_facts [OF pt(4) hi pt(3) [rule_format, OF kpd]]
  have ne: "pd \<noteq> pt" using kpd pt(1) by blast
  have "pt < 2 ^ 32" using f(3) by simp
  note tn = table_new [OF f(1,2) this, of 7]
  have pd0: "pde_of pd (ram p') i = pde_of pd (ram p) i" if "i < 1024" for i
    unfolding pde_of_def pt(7) by (rule peek_zero_other) (use aligned_apart(3) [OF fd(1) f(1) ne that that] in auto)
  have al: "4 dvd pd + 4 * i" for i using fd(1) by (auto elim!: dvdE)
  show pd1: "pde_of pd m i = (if i = d then pt - PHYS_BASE + 7 else pde_of pd (ram p) i)" if "i < 768" for i
  proof (cases "i = d")
    case True
    then show ?thesis unfolding pde_of_def m_def using peek_poke_same [OF tn(4)] by simp
  next
    case False
    then have "pde_of pd m i = pde_of pd (ram p') i" unfolding pde_of_def m_def by (intro peek_poke_other al) simp
    with False that pd0 show ?thesis by simp
  qed
  then show new: "pde_of pd m d = pt - PHYS_BASE + 7" "table (pde_of pd m d) = pt" using d tn(3) by simp_all
  have old: "kpage_ok p (table (pde_of pd (ram p) i)) \<and> table (pde_of pd (ram p) i) \<noteq> pd" if "i < 768" "pde_of pd (ram p) i \<noteq> 0" for i
    using ok that unfolding pd_ok_def by blast
  have k: "kpage_ok (p' \<lparr> ram := m \<rparr>) a = kpage_ok p' a" for a by (simp add: kpage_ok_def npages_def used_def the_pool_def)
  show "pd_ok pd (p' \<lparr> ram := m \<rparr>)"
    unfolding pd_ok_def k
  proof (intro conjI allI impI)
    show "palloc_ok (p' \<lparr> ram := m \<rparr>)" using pt(4) by (simp add: palloc_ok_def)
    show "PHYS_BASE \<le> base (kernel_pool (p' \<lparr> ram := m \<rparr>))" using hi by simp
    show "kpage_ok p' pd" using kpd pt(3) by blast
    fix i assume i: "i < 768" and nz: "pde_of pd (ram (p' \<lparr> ram := m \<rparr>)) i \<noteq> 0"
    have c: "i = d \<or> i \<noteq> d \<and> pde_of pd (ram p) i \<noteq> 0 \<and> pde_of pd m i = pde_of pd (ram p) i" using nz pd1 [OF i] by auto
    then show "kpage_ok p' (table (pde_of pd (ram (p' \<lparr> ram := m \<rparr>)) i))" "table (pde_of pd (ram (p' \<lparr> ram := m \<rparr>)) i) \<noteq> pd"
      using new(2) pt(2,3) ne old [OF i] by auto
  next
    fix i j assume ij: "i < 768" "j < 768" and nz: "pde_of pd (ram (p' \<lparr> ram := m \<rparr>)) i \<noteq> 0 \<and> pde_of pd (ram (p' \<lparr> ram := m \<rparr>)) j \<noteq> 0 \<and> i \<noteq> j"
    have t: "table (pde_of pd m x) = (if x = d then pt else table (pde_of pd (ram p) x))" if "x < 768" for x using pd1 [OF that] tn(3) by simp
    have z: "pde_of pd (ram p) x \<noteq> 0" if "x < 768" "pde_of pd m x \<noteq> 0" "x \<noteq> d" for x using pd1 [OF that(1)] that by simp
    show "table (pde_of pd (ram (p' \<lparr> ram := m \<rparr>)) i) \<noteq> table (pde_of pd (ram (p' \<lparr> ram := m \<rparr>)) j)"
    proof (cases "i = d \<or> j = d")
      case True
      then show ?thesis using t [OF ij(1)] t [OF ij(2)] z [OF ij(1)] z [OF ij(2)] old [OF ij(1)] old [OF ij(2)] nz pt(1) by auto
    next
      case False
      then have "pde_of pd (ram p) i \<noteq> 0" "pde_of pd (ram p) j \<noteq> 0" using z ij nz by auto
      then have "table (pde_of pd (ram p) i) \<noteq> table (pde_of pd (ram p) j)" using ok ij nz unfolding pd_ok_def by blast
      then show ?thesis using t [OF ij(1)] t [OF ij(2)] False by simp
    qed
  qed
  show mo: "m x = ram p x" if "x < pd \<or> pd + 4096 \<le> x" "x < pt \<or> pt + 4096 \<le> x" for x
    using that d by (auto simp: m_def poke32_def pt(7) zero_range_def)
  show "m x = ram p x" if "base (user_pool p) \<le> x" for x using mo [of x] f(4) fd(4) that pt(6) by simp
  show "pte_word pd m u = pte_word pd (ram p) u" if u: "u < PHYS_BASE" for u
  proof (cases "u div 2 ^ 22 = d")
    case True
    have "peek32 m (pt + 4 * (u div 4096 mod 1024)) = peek32 (ram p') (pt + 4 * (u div 4096 mod 1024))"
      unfolding m_def
      by (rule peek_poke_other [OF al]) (use aligned_apart(1,2) [OF f(1) fd(1) ne [symmetric] user_index(2) [of u], of d] d in auto)
    moreover have "peek32 (ram p') (pt + 4 * (u div 4096 mod 1024)) = 0"
      unfolding pt(7) by (rule peek_zero) (use user_index(2) [of u] in auto)
    ultimately show ?thesis using True new e tn(3) by (simp add: pte_word_def)
  next
    case False
    let ?e = "pde_of pd (ram p) (u div 2 ^ 22)"
    have same: "pde_of pd m (u div 2 ^ 22) = ?e" using pd1 [OF user_index(1) [OF u]] False by simp
    have "peek32 m (table ?e + 4 * (u div 4096 mod 1024)) = peek32 (ram p) (table ?e + 4 * (u div 4096 mod 1024))" if nz: "?e \<noteq> 0"
    proof -
      have t: "4096 dvd table ?e" "table ?e \<noteq> pd" "table ?e \<noteq> pt"
        using pd_okD(4) [OF ok user_index(1) [OF u] nz] old [OF user_index(1) [OF u] nz] pt(1) by auto
      note ap = aligned_apart [OF t(1) fd(1) t(2) user_index(2) [of u], of d] aligned_apart(3) [OF t(1) f(1) t(3) user_index(2) [of u], of 0]
      have "peek32 m (table ?e + 4 * (u div 4096 mod 1024)) = peek32 (ram p') (table ?e + 4 * (u div 4096 mod 1024))"
        unfolding m_def by (rule peek_poke_other [OF al]) (use ap(1,2) d in auto)
      also have "\<dots> = peek32 (ram p) (table ?e + 4 * (u div 4096 mod 1024))" unfolding pt(7) by (rule peek_zero_other) (use ap(4) in auto)
      finally show ?thesis .
    qed
    with same show ?thesis by (simp add: pte_word_def Let_def)
  qed
qed


text \<open>With \<open>create\<close>, \<open>lookup\<close> fails without an effect or leaves a table for the address, with every entry as before.\<close>

definition same_entries :: "nat \<Rightarrow> palloc \<Rightarrow> palloc \<Rightarrow> bool" where
  "same_entries pd p p' \<longleftrightarrow> pd_ok pd p' \<and> user_pool p' = user_pool p
     \<and> (\<forall>u < PHYS_BASE. pte_word pd (ram p') u = pte_word pd (ram p) u)
     \<and> (\<forall>x \<ge> base (user_pool p). ram p' x = ram p x)"

lemma lookup_new:
  assumes ok: "pd_ok pd p" and va: "va < PHYS_BASE" and e: "pde_of pd (ram p) (va div 2 ^ 22) = 0"
    and g: "get_page {ZERO} p = Some (pt, p1)" "pt \<noteq> 0" and pt: "\<not> kpage_ok p pt" "kpage_ok p1 pt" "\<forall>a. kpage_ok p a \<longrightarrow> kpage_ok p1 a"
      "palloc_ok p1" "base (kernel_pool p1) = base (kernel_pool p)" "user_pool p1 = user_pool p" "ram p1 = zero_range pt 4096 (ram p)"
  shows "lookup pd va True p = Some (pt + 4 * (va div 4096 mod 1024),
    p1 \<lparr> ram := poke32 (pd + 4 * (va div 2 ^ 22)) (pt - PHYS_BASE + 7) (ram p1) \<rparr>)"
proof -
  let ?d = "va div 2 ^ 22"
  define m where "m = poke32 (pd + 4 * ?d) (pt - PHYS_BASE + 7) (ram p1)"
  note n = add_table [OF ok user_index(1) [OF va] e pt, folded m_def]
  have f: "4096 dvd pt" "PHYS_BASE \<le> pt" "pt + 4096 < 2 ^ 32" using kpage_facts [OF pt(4) _ pt(2)] ok pt(5) by (auto simp: pd_ok_def)
  then have v: "vtop pt = Some (pt - PHYS_BASE)" "(pt - PHYS_BASE) OR 7 = pt - PHYS_BASE + 7" using table_new [of pt 7] by auto
  have "(((pt - PHYS_BASE) OR PTE_P) OR PTE_W) OR PTE_U = pt - PHYS_BASE + 7"
    unfolding v(2) [symmetric] PTE_P_def PTE_W_def PTE_U_def by (simp add: or.assoc)
  moreover have "ptov (pde_of pd m ?d AND PTE_ADDR) = Some pt"
    using ptov_table [of "pde_of pd m ?d"] f peek32_bound unfolding n(3) by (simp add: pde_of_def)
  ultimately show ?thesis
    using e g v(1) by (simp add: lookup_def pde_of_def drop_bit_eq_div [of 22] pte_index m_def)
qed

lemma lookup_create:
  assumes ok: "pd_ok pd p" and va: "va < PHYS_BASE"
  shows "lookup pd va True p = Some (0, p) \<and> kernel_full p \<and> pde_of pd (ram p) (va div 2 ^ 22) = 0
    \<or> (\<exists>p'. lookup pd va True p = Some (table (pde_of pd (ram p') (va div 2 ^ 22)) + 4 * (va div 4096 mod 1024), p')
         \<and> pde_of pd (ram p') (va div 2 ^ 22) \<noteq> 0 \<and> same_entries pd p p')"
proof (cases "pde_of pd (ram p) (va div 2 ^ 22) = 0")
  case False
  with lookup_found [OF ok va False] ok show ?thesis by (auto simp: same_entries_def)
next
  case True
  let ?d = "va div 2 ^ 22"
  have pok: "palloc_ok p" "PHYS_BASE \<le> base (kernel_pool p)" using ok by (auto simp: pd_ok_def)
  from alloc_table [OF this] consider "get_page {ZERO} p = Some (0, p)" "kernel_full p"
    | pt p1 where "get_page {ZERO} p = Some (pt, p1)" "pt \<noteq> 0" "\<not> kpage_ok p pt" "kpage_ok p1 pt" "\<forall>a. kpage_ok p a \<longrightarrow> kpage_ok p1 a"
        "palloc_ok p1" "base (kernel_pool p1) = base (kernel_pool p)" "user_pool p1 = user_pool p" "ram p1 = zero_range pt 4096 (ram p)"
    by blast
  then show ?thesis
  proof cases
    case 1
    with True show ?thesis by (simp add: lookup_def pde_of_def drop_bit_eq_div [of 22])
  next
    case 2
    define m where "m = poke32 (pd + 4 * ?d) (pt - PHYS_BASE + 7) (ram p1)"
    note n = add_table [OF ok user_index(1) [OF va] True 2(3-9), folded m_def]
    have "pde_of pd m ?d \<noteq> 0" using n(2) by simp
    moreover have "same_entries pd p (p1 \<lparr> ram := m \<rparr>)" using n(1,4,5) 2(8) by (simp add: same_entries_def)
    ultimately show ?thesis using n(3) lookup_new [OF ok va True 2, folded m_def] by (intro disjI2 exI [of _ "p1 \<lparr> ram := m \<rparr>"]) simp
  qed
qed

text \<open>What the functions that only look at an entry see.\<close>

lemma lookup_read:
  assumes "pd_ok pd p" and "va < PHYS_BASE"
  obtains "lookup pd va False p = Some (0, p)" "pte_word pd (ram p) va = 0"
  | a where "lookup pd va False p = Some (a, p)" "a \<noteq> 0" "pte_word pd (ram p) va = peek32 (ram p) a"
      "a = table (pde_of pd (ram p) (va div 2 ^ 22)) + 4 * (va div 4096 mod 1024)" "pde_of pd (ram p) (va div 2 ^ 22) \<noteq> 0"
proof (cases "pde_of pd (ram p) (va div 2 ^ 22) = 0")
  case True
  with that(1) lookup_absent [OF True] show ?thesis by (simp add: pte_word_def)
next
  case False
  have "table (pde_of pd (ram p) (va div 2 ^ 22)) \<noteq> 0" by (simp add: table_def PHYS_BASE_def)
  with that(2) [OF lookup_found [OF assms False]] False show ?thesis by (simp add: pte_word_def)
qed

lemma lookup_entry:
  assumes "pd_ok pd p" and "va < PHYS_BASE"
  shows "\<exists>a. lookup pd va False p = Some (a, p) \<and> pte_word pd (ram p) va = (if a = 0 then 0 else peek32 (ram p) a)"
  by (rule lookup_read [OF assms]) auto

lemma pd_get_page_pte:
  assumes "pd_ok pd p" and "va < PHYS_BASE"
  shows "pd_get_page pd va p = (if pte_word pd (ram p) va AND PTE_P = 0 then Some 0
    else do { page \<leftarrow> ptov (pte_word pd (ram p) va AND PTE_ADDR); add_usize page (pg_ofs va) })"
  using lookup_entry [OF assms] by (auto simp: pd_get_page_def)

lemma is_accessed_pte:
  assumes "pd_ok pd p" and "va < PHYS_BASE" shows "is_accessed pd va p = Some (pte_word pd (ram p) va AND PTE_A \<noteq> 0)"
  using lookup_entry [OF assms] by (auto simp: is_accessed_def)

lemma is_dirty_pte:
  assumes "pd_ok pd p" and "va < PHYS_BASE" shows "is_dirty pd va p = Some (pte_word pd (ram p) va AND PTE_D \<noteq> 0)"
  using lookup_entry [OF assms] by (auto simp: is_dirty_def)

text \<open>An update of one entry of the abstract function.\<close>

definition entry_updated :: "nat \<Rightarrow> nat \<Rightarrow> nat \<Rightarrow> palloc \<Rightarrow> palloc \<Rightarrow> bool" where
  "entry_updated pd va v p p' \<longleftrightarrow> pd_ok pd p' \<and> user_pool p' = user_pool p
     \<and> (\<forall>u < PHYS_BASE. pte_word pd (ram p') u = (if u div 4096 = va div 4096 then v else pte_word pd (ram p) u))
     \<and> (\<forall>x \<ge> base (user_pool p). ram p' x = ram p x)"

lemma poke_entry:
  assumes "pd_ok pd p" and "va < PHYS_BASE" and "pde_of pd (ram p) (va div 2 ^ 22) \<noteq> 0" and "v < 2 ^ 32"
    and "a = table (pde_of pd (ram p) (va div 2 ^ 22)) + 4 * (va div 4096 mod 1024)"
  shows "entry_updated pd va v p (p \<lparr> ram := poke32 a v (ram p) \<rparr>)"
  unfolding assms(5) using pte_write [OF assms(1-4)] by (simp add: entry_updated_def)

lemma clear_page_spec:
  assumes "pd_ok pd p" and "va < PHYS_BASE"
  shows "\<exists>p'. clear_page pd va p = Some p' \<and> entry_updated pd va 0 p p'"
proof (rule lookup_read [OF assms])
  assume l: "lookup pd va False p = Some (0, p)" "pte_word pd (ram p) va = 0"
  have "pte_word pd (ram p) u = 0" if "u div 4096 = va div 4096" "u < PHYS_BASE" for u
  proof -
    have "u div 4096 div 1024 = va div 4096 div 1024" using that by simp
    then have "u div 2 ^ 22 = va div 2 ^ 22" by (simp flip: div_mult2_eq)
    with that l(2) show ?thesis by (auto simp: pte_word_def Let_def split: if_splits)
  qed
  with l assms show ?thesis by (auto simp: clear_page_def entry_updated_def)
next
  fix a assume "lookup pd va False p = Some (a, p)" "a \<noteq> 0" "pte_word pd (ram p) va = peek32 (ram p) a"
    "a = table (pde_of pd (ram p) (va div 2 ^ 22)) + 4 * (va div 4096 mod 1024)" "pde_of pd (ram p) (va div 2 ^ 22) \<noteq> 0"
  with poke_entry [OF assms, of 0 a] show ?thesis by (simp add: clear_page_def)
qed

lemma set_page_spec:
  assumes ok: "pd_ok pd p" and u: "upage < PHYS_BASE" "upage mod 4096 = 0" and k: "kpage mod 4096 = 0" "PHYS_BASE \<le> kpage" "kpage < 2 ^ 32"
  shows "set_page pd upage kpage w p = Some (False, p) \<and> kernel_full p \<and> pde_of pd (ram p) (upage div 2 ^ 22) = 0
    \<or> (\<exists>p'. set_page pd upage kpage w p = Some (True, p') \<and> entry_updated pd upage (kpage - PHYS_BASE + (if w then 7 else 5)) p p')"
proof -
  let ?f = "if w then 7 else 5 :: nat" and ?d = "upage div 2 ^ 22"
  have fl: "(PTE_P OR PTE_U) OR (if w then PTE_W else 0) = ?f" by (simp add: PTE_P_def PTE_U_def PTE_W_def)
  have kd: "4096 dvd kpage" using k(1) by (simp add: dvd_eq_mod_eq_0)
  have tn: "vtop kpage = Some (kpage - PHYS_BASE)" "(kpage - PHYS_BASE) OR ?f = kpage - PHYS_BASE + ?f" "kpage - PHYS_BASE + ?f < 2 ^ 32"
    using table_new [OF kd k(2,3), of ?f] by (auto split: if_splits)
  from lookup_create [OF ok u(1)] show ?thesis
  proof
    assume "lookup pd upage True p = Some (0, p) \<and> kernel_full p \<and> pde_of pd (ram p) (upage div 2 ^ 22) = 0"
    with u k show ?thesis by (simp add: set_page_def)
  next
    assume "\<exists>p'. lookup pd upage True p = Some (table (pde_of pd (ram p') ?d) + 4 * (upage div 4096 mod 1024), p')
         \<and> pde_of pd (ram p') ?d \<noteq> 0 \<and> same_entries pd p p'"
    then obtain p1 where p1: "lookup pd upage True p = Some (table (pde_of pd (ram p1) ?d) + 4 * (upage div 4096 mod 1024), p1)"
      "pde_of pd (ram p1) ?d \<noteq> 0" "same_entries pd p p1" by blast
    define a where "a = table (pde_of pd (ram p1) ?d) + 4 * (upage div 4096 mod 1024)"
    have "a \<noteq> 0" by (simp add: a_def table_def PHYS_BASE_def)
    with p1(1) u k tn fl have "set_page pd upage kpage w p = Some (True, p1 \<lparr> ram := poke32 a (kpage - PHYS_BASE + ?f) (ram p1) \<rparr>)"
      unfolding a_def [symmetric] by (simp add: set_page_def)
    moreover have "entry_updated pd upage (kpage - PHYS_BASE + ?f) p1 (p1 \<lparr> ram := poke32 a (kpage - PHYS_BASE + ?f) (ram p1) \<rparr>)"
      using p1(2,3) u(1) tn(3) a_def by (intro poke_entry) (auto simp: same_entries_def)
    ultimately show ?thesis using p1(3) by (auto simp: entry_updated_def same_entries_def)
  qed
qed


lemma set_accessed_spec:
  assumes "pd_ok pd p" and "va < PHYS_BASE"
  shows "\<exists>p'. set_accessed pd va False p = Some p' \<and> entry_updated pd va (pte_word pd (ram p) va AND not_u32 PTE_A) p p'"
proof (rule lookup_read [OF assms])
  assume l: "lookup pd va False p = Some (0, p)" "pte_word pd (ram p) va = 0"
  from clear_page_spec [OF assms] l show ?thesis by (simp add: set_accessed_def clear_page_def)
next
  fix a assume l: "lookup pd va False p = Some (a, p)" "a \<noteq> 0" "pte_word pd (ram p) va = peek32 (ram p) a"
    "a = table (pde_of pd (ram p) (va div 2 ^ 22)) + 4 * (va div 4096 mod 1024)" "pde_of pd (ram p) (va div 2 ^ 22) \<noteq> 0"
  let ?v = "peek32 (ram p) a AND not_u32 PTE_A"
  have "not_u32 PTE_A < 2 ^ 32" by (simp add: not_u32_def)
  then have "take_bit 32 ?v = ?v" using peek32_bound [of "ram p" a] by (simp only: take_bit_and take_bit_nat_eq_self)
  then have "?v < 2 ^ 32" by (metis take_bit_nat_less_exp)
  from poke_entry [OF assms l(5) this l(4)] l(1-3) show ?thesis by (simp add: set_accessed_def)
qed

section \<open>Properties\<close>

lemma entry_flags:
  assumes "kpage mod 4096 = 0" and "PHYS_BASE \<le> kpage" and "kpage < 2 ^ 32" and "f \<in> {5, 7}"
  shows "(kpage - PHYS_BASE + f) AND PTE_P \<noteq> 0" "(kpage - PHYS_BASE + f) AND PTE_A = 0" "(kpage - PHYS_BASE + f) AND PTE_D = 0"
    "ptov ((kpage - PHYS_BASE + f) AND PTE_ADDR) = Some kpage"
proof -
  from assms(1) obtain q where q: "kpage = 4096 * q" by (auto elim: dvdE simp: dvd_eq_mod_eq_0 [symmetric])
  have b: "PHYS_BASE = 4096 * 786432" by (simp add: PHYS_BASE_def)
  have e: "kpage - PHYS_BASE + f = (q - 786432) * 2 ^ 12 + f" using q b by simp
  have low: "(kpage - PHYS_BASE + f) AND m = f AND m" if "m < 2 ^ 12" for m
  proof -
    have "take_bit 12 (kpage - PHYS_BASE + f) = f" unfolding e using assms(4) by (auto simp: take_bit_eq_mod)
    moreover have "m = mask 12 AND m" using that by (metis and.commute take_bit_eq_mask take_bit_nat_eq_self)
    ultimately show ?thesis by (metis and.assoc take_bit_eq_mask)
  qed
  show "(kpage - PHYS_BASE + f) AND PTE_P \<noteq> 0" "(kpage - PHYS_BASE + f) AND PTE_A = 0" "(kpage - PHYS_BASE + f) AND PTE_D = 0"
    using assms(4) low [of PTE_P] low [of PTE_A] low [of PTE_D] by (auto simp: PTE_P_def PTE_A_def PTE_D_def)
  have t: "table (kpage - PHYS_BASE + f) = kpage"
    using table_new(3) [of kpage f] assms by (auto simp: dvd_eq_mod_eq_0)
  have "(kpage - PHYS_BASE + f) div 4096 * 4096 = kpage - PHYS_BASE" using t unfolding table_def by linarith
  moreover have "kpage - PHYS_BASE + f < 2 ^ 32" using assms(2-4) by (auto simp: PHYS_BASE_def)
  ultimately have "(kpage - PHYS_BASE + f) AND PTE_ADDR = kpage - PHYS_BASE" by (simp only: pte_addr)
  then show "ptov ((kpage - PHYS_BASE + f) AND PTE_ADDR) = Some kpage"
    using assms(2,3) by (simp add: ptov_def add_usize_def PHYS_BASE_def)
qed



definition sample_pd :: palloc where
  "sample_pd = sample_palloc \<lparr> ram := (\<lambda>_. 0) \<rparr>"

lemma sample_pd_ok: "pd_ok 0xC0200000 sample_pd"
proof -
  have "pde_of 0xC0200000 (ram sample_pd) d = 0" for d by (simp add: pde_of_def peek32_def sample_pd_def bytes_u32_def)
  moreover have "kpage_ok sample_pd 0xC0200000"
    unfolding kpage_ok_def
    by (rule exI [of _ 0]) (simp add: npages_def used_def the_pool_def sample_pd_def sample_palloc_def array_bit_def)
  moreover have "palloc_ok sample_pd" using sample_palloc_ok by (simp add: sample_pd_def palloc_ok_def)
  moreover have "PHYS_BASE \<le> base (kernel_pool sample_pd)" by (simp add: sample_pd_def sample_palloc_def PHYS_BASE_def)
  ultimately show ?thesis by (simp add: pd_ok_def)
qed


end
