(* ===== verification/AddrSpaces.thy ===== *)
theory AddrSpaces
  imports PagedirProps
begin

section \<open>Several address spaces\<close>

text \<open>
  The page directories of all processes live in one memory. If their pages are disjoint, an operation on one of them leaves the
  entries of every other one as they are: \<open>dirs_updated\<close> says that exactly one entry of one directory changes.
\<close>

definition pd_pages :: "nat \<Rightarrow> (nat \<Rightarrow> byte) \<Rightarrow> nat set" where
  "pd_pages pd m = insert pd {table (pde_of pd m d) | d. d < 768 \<and> pde_of pd m d \<noteq> 0}"

definition dirs_ok :: "nat set \<Rightarrow> palloc \<Rightarrow> bool" where
  "dirs_ok D p \<longleftrightarrow> (\<forall>pd \<in> D. pd_ok pd p)
     \<and> (\<forall>pd \<in> D. \<forall>pd' \<in> D. pd \<noteq> pd' \<longrightarrow> pd_pages pd (ram p) \<inter> pd_pages pd' (ram p) = {})"

lemma dirs_okD: "dirs_ok D p \<Longrightarrow> pd \<in> D \<Longrightarrow> pd_ok pd p"
  by (simp add: dirs_ok_def)

lemma pd_pages_aligned:
  assumes "pd_ok pd p" and "t \<in> pd_pages pd (ram p)"
  shows "4096 dvd t" "PHYS_BASE \<le> t" "t + 4096 \<le> base (user_pool p)"
proof -
  have k: "palloc_ok p" "PHYS_BASE \<le> base (kernel_pool p)" "kpage_ok p t" using assms by (auto simp: pd_ok_def pd_pages_def)
  show "4096 dvd t" "PHYS_BASE \<le> t" "t + 4096 \<le> base (user_pool p)" using kpage_facts [OF k] by auto
qed

lemma entry_page: "pde_of pd m (va div 2 ^ 22) \<noteq> 0 \<Longrightarrow> va < PHYS_BASE \<Longrightarrow> table (pde_of pd m (va div 2 ^ 22)) \<in> pd_pages pd m"
  using user_index(1) [of va] by (auto simp: pd_pages_def)

text \<open>A write into a page of one directory is invisible to another one.\<close>

lemma poke_apart:
  assumes "4096 dvd t" and "4096 dvd t'" and "t \<noteq> t'" and "i < 1024" and "j < 1024"
  shows "peek32 (poke32 (t + 4 * i) v m) (t' + 4 * j) = peek32 m (t' + 4 * j)"
  by (rule peek_poke_other) (use aligned_apart [OF assms] aligned_apart(2) [OF assms(2,1) assms(3) [symmetric] assms(5,4)] in auto)

lemma poke_other_dir:
  assumes ok: "dirs_ok D p" and D: "pd \<in> D" "pd' \<in> D" "pd \<noteq> pd'" and t: "t \<in> pd_pages pd (ram p)" and i: "i < 1024"
    and m_def: "m = poke32 (t + 4 * i) v (ram p)"
  shows "\<And>d. d < 768 \<Longrightarrow> pde_of pd' m d = pde_of pd' (ram p) d" "\<And>u. u < PHYS_BASE \<Longrightarrow> pte_word pd' m u = pte_word pd' (ram p) u"
    "pd_ok pd' (p \<lparr> ram := m \<rparr>)" "pd_pages pd' m = pd_pages pd' (ram p)"
proof -
  note ok' = dirs_okD [OF ok D(2)] and al = pd_pages_aligned(1) [OF dirs_okD [OF ok D(1)] t]
  have other: "peek32 m (t' + 4 * j) = peek32 (ram p) (t' + 4 * j)" if "t' \<in> pd_pages pd' (ram p)" "j < 1024" for t' j
  proof -
    have "t \<noteq> t'" using ok D t that(1) unfolding dirs_ok_def by blast
    then show ?thesis unfolding m_def by (rule poke_apart [OF al pd_pages_aligned(1) [OF ok' that(1)] _ i that(2)])
  qed
  show pde: "pde_of pd' m d = pde_of pd' (ram p) d" if "d < 768" for d
    unfolding pde_of_def using other [of pd' d] that by (simp add: pd_pages_def)
  show "pte_word pd' m u = pte_word pd' (ram p) u" if "u < PHYS_BASE" for u
    using pde [OF user_index(1) [OF that]] other [OF entry_page user_index(2) [of u]] that by (simp add: pte_word_def Let_def)
  show "pd_ok pd' (p \<lparr> ram := m \<rparr>)" by (rule pd_ok_ram [OF ok']) (use pde in simp)
  show "pd_pages pd' m = pd_pages pd' (ram p)" unfolding pd_pages_def using pde by metis
qed

text \<open>Exactly one entry changes, and no page of the user pool.\<close>

definition dirs_updated :: "nat set \<Rightarrow> nat \<Rightarrow> nat \<Rightarrow> nat \<Rightarrow> palloc \<Rightarrow> palloc \<Rightarrow> bool" where
  "dirs_updated D pd va v p p' \<longleftrightarrow> dirs_ok D p' \<and> p' = p \<lparr> ram := ram p' \<rparr>
     \<and> (\<forall>pd' \<in> D. \<forall>u < PHYS_BASE. pte_word pd' (ram p') u
          = (if pd' = pd \<and> u div 4096 = va div 4096 then v else pte_word pd' (ram p) u))
     \<and> (\<forall>x \<ge> base (user_pool p). ram p' x = ram p x)"

lemma poke_dirs:
  assumes ok: "dirs_ok D p" and pd: "pd \<in> D" and va: "va < PHYS_BASE" and e: "pde_of pd (ram p) (va div 2 ^ 22) \<noteq> 0" and v: "v < 2 ^ 32"
    and a: "a = table (pde_of pd (ram p) (va div 2 ^ 22)) + 4 * (va div 4096 mod 1024)"
  shows "dirs_updated D pd va v p (p \<lparr> ram := poke32 a v (ram p) \<rparr>)"
proof -
  let ?m = "poke32 a v (ram p)"
  note t = entry_page [OF e va] and i = user_index(2) [of va]
  note other = poke_other_dir [OF ok pd _ _ t i, of _ ?m v, unfolded a, OF _ _ refl, folded a]
  note same = pte_write [OF dirs_okD [OF ok pd] va e v, folded a]
  have pde: "pde_of pd ?m d = pde_of pd (ram p) d" if "d < 768" for d
  proof -
    have tp: "table (pde_of pd (ram p) (va div 2 ^ 22)) \<noteq> pd"
      using dirs_okD [OF ok pd] user_index(1) [OF va] e by (auto simp: pd_ok_def)
    then show ?thesis unfolding a pde_of_def
      using poke_apart [OF pd_pages_aligned(1) [OF dirs_okD [OF ok pd] t] pd_okD(1) [OF dirs_okD [OF ok pd] that] tp i, of d v "ram p"] that
      by (simp add: pde_of_def)
  qed
  have pages: "pd_pages pd' ?m = pd_pages pd' (ram p)" if "pd' \<in> D" for pd'
    using that other(4) [of pd'] pde by (cases "pd' = pd") (auto simp: pd_pages_def, metis+)
  have "pd_ok pd' (p \<lparr> ram := ?m \<rparr>)" if "pd' \<in> D" for pd'
    using same(1) other(3) [OF that] by (cases "pd' = pd") auto
  then have "dirs_ok D (p \<lparr> ram := ?m \<rparr>)" using ok pages unfolding dirs_ok_def by simp
  moreover have "pte_word pd' ?m u = (if pd' = pd \<and> u div 4096 = va div 4096 then v else pte_word pd' (ram p) u)"
    if "pd' \<in> D" "u < PHYS_BASE" for pd' u
    using same(2) [OF that(2)] other(2) [OF that(1) _ that(2)] by (cases "pd' = pd") auto
  ultimately show ?thesis using same(3) by (simp add: dirs_updated_def)
qed

lemma no_entry:
  assumes "pte_word pd m va = 0" and "pde_of pd m (va div 2 ^ 22) = 0" and "u div 4096 = va div 4096"
  shows "pte_word pd m u = 0"
proof -
  have "u div 4096 div 1024 = va div 4096 div 1024" using assms(3) by simp
  then have "u div 2 ^ 22 = va div 2 ^ 22" by (simp flip: div_mult2_eq)
  with assms(2) show ?thesis by (simp add: pte_word_def)
qed

lemma unchanged_dirs:
  assumes "dirs_ok D p" and "\<And>u. u div 4096 = va div 4096 \<Longrightarrow> pte_word pd (ram p) u = v"
  shows "dirs_updated D pd va v p p"
  using assms by (simp add: dirs_updated_def)

lemma clear_page_dirs:
  assumes ok: "dirs_ok D p" and pd: "pd \<in> D" and va: "va < PHYS_BASE"
  shows "\<exists>p'. clear_page pd va p = Some p' \<and> dirs_updated D pd va 0 p p'"
proof (cases "pde_of pd (ram p) (va div 2 ^ 22) = 0")
  case True
  then have "pte_word pd (ram p) va = 0" by (simp add: pte_word_def)
  with lookup_absent [OF True] unchanged_dirs [OF ok no_entry [OF this True]] show ?thesis by (simp add: clear_page_def)
next
  case False
  have "table (pde_of pd (ram p) (va div 2 ^ 22)) \<noteq> 0" by (simp add: table_def PHYS_BASE_def)
  with poke_dirs [OF ok pd va False, of 0] lookup_found [OF dirs_okD [OF ok pd] va False] show ?thesis
    by (simp add: clear_page_def)
qed

lemma and_bound: "x < 2 ^ n \<Longrightarrow> x AND (y :: nat) < 2 ^ n"
  by (metis take_bit_and take_bit_nat_eq_self take_bit_nat_less_exp and.assoc take_bit_eq_mask and.commute)

lemma set_accessed_dirs:
  assumes ok: "dirs_ok D p" and pd: "pd \<in> D" and va: "va < PHYS_BASE"
  shows "\<exists>p'. set_accessed pd va False p = Some p' \<and> dirs_updated D pd va (pte_word pd (ram p) va AND not_u32 PTE_A) p p'"
proof (cases "pde_of pd (ram p) (va div 2 ^ 22) = 0")
  case True
  then have "pte_word pd (ram p) va = 0" by (simp add: pte_word_def)
  with lookup_absent [OF True] unchanged_dirs [OF ok no_entry [OF this True]] show ?thesis by (simp add: set_accessed_def)
next
  case False
  let ?a = "table (pde_of pd (ram p) (va div 2 ^ 22)) + 4 * (va div 4096 mod 1024)"
  have "table (pde_of pd (ram p) (va div 2 ^ 22)) \<noteq> 0" "pte_word pd (ram p) va = peek32 (ram p) ?a" using False by (simp_all add: table_def PHYS_BASE_def pte_word_def)
  moreover from and_bound [OF peek32_bound] have "peek32 (ram p) ?a AND not_u32 PTE_A < 2 ^ 32" .
  ultimately show ?thesis
    using poke_dirs [OF ok pd va False _ refl, of "peek32 (ram p) ?a AND not_u32 PTE_A"] lookup_found [OF dirs_okD [OF ok pd] va False]
    by (simp add: set_accessed_def)
qed

end
