(* ===== verification/FrameProps.thy ===== *)
theory FrameProps
  imports Frame AddrSpaces
begin

section \<open>The frame table keeps its index\<close>

text \<open>
  \<open>KPAGE_INDEX\<close> is the inverse of the frame table: the invariant \<open>frames_ok\<close>, kept by every operation on frames. The
  pages of the table are pages in use of the user pool, no page appears twice.
\<close>

definition upage_ok :: "palloc \<Rightarrow> nat \<Rightarrow> bool" where
  "upage_ok p a \<longleftrightarrow> (\<exists>i < npages p True. a = base (user_pool p) + i * PGSIZE \<and> used p True i)"

definition index_ok :: "frame_entry list \<Rightarrow> (nat \<rightharpoonup> nat) \<Rightarrow> bool" where
  "index_ok ft m \<longleftrightarrow> (\<forall>kp i. m kp = Some i \<longleftrightarrow> i < length ft \<and> kpage (ft ! i) = kp)"

definition frames_ok :: "('m, 'z) vmk \<Rightarrow> bool" where
  "frames_ok k \<longleftrightarrow> palloc_ok (pal k) \<and> (\<exists>ft m. FRAME_TABLE k = Some ft \<and> KPAGE_INDEX k = Some m \<and> index_ok ft m
     \<and> (\<forall>e \<in> set ft. upage_ok (pal k) (kpage e)))"

definition registered :: "nat \<Rightarrow> ('m, 'z) vmk \<Rightarrow> bool" where
  "registered kp k \<longleftrightarrow> (\<exists>ft. FRAME_TABLE k = Some ft \<and> kp \<in> kpage ` set ft)"

lemma index_ok_get: "index_ok ft m \<Longrightarrow> i < length ft \<Longrightarrow> m (kpage (ft ! i)) = Some i"
  unfolding index_ok_def by blast

lemma index_ok_inj:
  assumes "index_ok ft m" and "a < length ft" and "b < length ft" and "kpage (ft ! a) = kpage (ft ! b)"
  shows "a = b"
  using index_ok_get [OF assms(1,2)] index_ok_get [OF assms(1,3)] unfolding assms(4) by simp

lemma index_ok_distinct:
  assumes "index_ok ft m" shows "distinct (map kpage ft)"
  unfolding distinct_conv_nth
proof (intro allI impI)
  fix a b assume ab: "a < length (map kpage ft)" "b < length (map kpage ft)" "a \<noteq> b"
  then show "map kpage ft ! a \<noteq> map kpage ft ! b" using index_ok_inj [OF assms, of a b] by auto
qed

lemma index_ok_none:
  assumes "index_ok ft m" shows "m kp = None \<longleftrightarrow> kp \<notin> kpage ` set ft"
proof -
  have "m kp = None \<longleftrightarrow> (\<forall>i. m kp \<noteq> Some i)" by (cases "m kp") auto
  also have "\<dots> \<longleftrightarrow> (\<forall>i < length ft. kpage (ft ! i) \<noteq> kp)" using assms unfolding index_ok_def by simp
  also have "\<dots> \<longleftrightarrow> kp \<notin> kpage ` set ft" unfolding set_conv_nth by blast
  finally show ?thesis .
qed

lemma index_ok_append: "index_ok ft m \<Longrightarrow> kpage e \<notin> kpage ` set ft \<Longrightarrow> index_ok (ft @ [e]) (m(kpage e \<mapsto> length ft))"
  unfolding index_ok_def by (auto simp: nth_append less_Suc_eq) (metis imageI nth_mem)

text \<open>\<open>swap_remove\<close> keeps the other entries and moves at most the last.\<close>

lemma swap_remove_nth:
  assumes "i < length xs" and "j < length xs - 1"
  shows "butlast (xs[i := last xs]) ! j = (if j = i then last xs else xs ! j)"
  using assms by (simp add: nth_butlast)

lemma swap_remove_set:
  assumes "i < length xs" and "distinct (map f xs)"
  shows "f ` set (butlast (xs[i := last xs])) = f ` set xs - {f (xs ! i)}"
proof (intro equalityI subsetI)
  have inj: "a = b" if "a < length xs" "b < length xs" "f (xs ! a) = f (xs ! b)" for a b
    using assms(2) that nth_eq_iff_index_eq [of "map f xs" a b] by simp
  have l: "last xs = xs ! (length xs - 1)" using assms(1) by (intro last_conv_nth) auto
  fix y assume "y \<in> f ` set (butlast (xs[i := last xs]))"
  then obtain j where j: "j < length xs - 1" "y = f (if j = i then last xs else xs ! j)"
    using swap_remove_nth [OF assms(1)] by (auto simp: in_set_conv_nth)
  define j' where "j' = (if j = i then length xs - 1 else j)"
  have "y = f (xs ! j')" "j' < length xs" "j' \<noteq> i" using l j assms(1) by (auto simp: j'_def)
  then show "y \<in> f ` set xs - {f (xs ! i)}" using inj [of j' i] assms(1) by auto
next
  have l: "last xs = xs ! (length xs - 1)" using assms(1) by (intro last_conv_nth) auto
  fix y assume "y \<in> f ` set xs - {f (xs ! i)}"
  then obtain j where j: "j < length xs" "y = f (xs ! j)" "j \<noteq> i" by (auto simp: in_set_conv_nth) blast
  then have "butlast (xs[i := last xs]) ! (if j = length xs - 1 then i else j) = xs ! j"
    using swap_remove_nth [OF assms(1), of "if j = length xs - 1 then i else j"] l assms(1) by auto
  moreover have "(if j = length xs - 1 then i else j) < length (butlast (xs[i := last xs]))" using j(1,3) assms(1) by auto
  ultimately show "y \<in> f ` set (butlast (xs[i := last xs]))" using j(2) by (metis imageI nth_mem)
qed

lemma index_ok_swap_remove:
  assumes ok: "index_ok ft m" and i: "i < length ft"
  defines "ft' \<equiv> butlast (ft[i := last ft])"
  shows "index_ok ft' (if i < length ft' then (m(kpage (ft ! i) := None))(kpage (ft' ! i) \<mapsto> i) else m(kpage (ft ! i) := None))"
proof -
  have l: "last ft = ft ! (length ft - 1)" using i by (intro last_conv_nth) auto
  have len: "length ft' = length ft - 1" by (simp add: ft'_def)
  have nth: "ft' ! j = (if j = i then ft ! (length ft - 1) else ft ! j)" if "j < length ft - 1" for j
    using swap_remove_nth [OF i that] l by (simp add: ft'_def)
  have len0: "length ft - Suc 0 < length ft" "\<And>j. j < length ft - Suc 0 \<Longrightarrow> j < length ft" using i by simp_all
  note inj = index_ok_inj [OF ok]
  have m: "m kp = Some j \<longleftrightarrow> j < length ft \<and> kpage (ft ! j) = kp" for kp j using ok by (simp add: index_ok_def)
  show ?thesis
  proof (cases "i < length ft - 1")
    case True
    have "((m(kpage (ft ! i) := None))(kpage (ft' ! i) \<mapsto> i)) kp = Some j \<longleftrightarrow> j < length ft' \<and> kpage (ft' ! j) = kp" for kp j
    proof -
      consider "kp = kpage (ft ! (length ft - 1))" | "kp = kpage (ft ! i)" "kp \<noteq> kpage (ft ! (length ft - 1))"
        | "kp \<noteq> kpage (ft ! i)" "kp \<noteq> kpage (ft ! (length ft - 1))" by blast
      then show ?thesis
      proof cases
        case 1
        with True nth [of i] nth [of j] inj [of j "length ft - 1"] i show ?thesis by (cases "j = i") (auto simp: len len0)
      next
        case 2
        with True nth [of i] nth [of j] inj [of j i] show ?thesis by (cases "j = i") (auto simp: len len0)
      next
        case 3
        then have "j \<noteq> length ft - 1" if "kpage (ft ! j) = kp" using that by auto
        with 3 True nth [of i] nth [of j] m [of kp j] show ?thesis by (cases "j = i") (auto simp: len len0)
      qed
    qed
    with True show ?thesis by (simp add: index_ok_def len)
  next
    case False
    then have e: "i = length ft - 1" using i by simp
    have "(m(kpage (ft ! i) := None)) kp = Some j \<longleftrightarrow> j < length ft' \<and> kpage (ft' ! j) = kp" for kp j
    proof (cases "kp = kpage (ft ! i)")
      case True
      with e nth [of j] inj [of j i] show ?thesis by (auto simp: len len0)
    next
      case False
      then have "j \<noteq> i" if "kpage (ft ! j) = kp" using that by auto
      then have "j < length ft \<longleftrightarrow> j < length ft'" if "kpage (ft ! j) = kp" using that e i by (auto simp: len)
      with False e nth [of j] m [of kp j] show ?thesis by (auto simp: len)
    qed
    with False show ?thesis by (simp add: index_ok_def len)
  qed
qed

lemma reindex_get: "reindex i es m kp = (if kp \<in> kpage ` set es then reindex i es m kp else m kp)"
  by (induction es arbitrary: i m) auto

lemma reindex_nth: "distinct (map kpage es) \<Longrightarrow> j < length es \<Longrightarrow> reindex i es m (kpage (es ! j)) = Some (i + j)"
proof (induction es arbitrary: i m j)
  case (Cons e es)
  then show ?case using reindex_get [of "Suc i" es "m(kpage e \<mapsto> i)" "kpage e"] by (cases j) auto
qed simp

lemma reindex_other: "kp \<notin> kpage ` set es \<Longrightarrow> reindex i es m kp = m kp"
  by (subst reindex_get) simp

lemma index_okI:
  assumes "distinct (map kpage ft)" and "\<And>i. i < length ft \<Longrightarrow> m (kpage (ft ! i)) = Some i"
    and "\<And>kp. kp \<notin> kpage ` set ft \<Longrightarrow> m kp = None"
  shows "index_ok ft m"
  unfolding index_ok_def
proof (intro allI iffI)
  fix kp i assume l: "m kp = Some i"
  then have "kp \<in> kpage ` set ft" using assms(3) [of kp] by (cases "kp \<in> kpage ` set ft") auto
  then obtain j where j: "j < length ft" "kp = kpage (ft ! j)" by (auto simp: in_set_conv_nth)
  then have "j = i" using assms(2) [OF j(1)] l by simp
  then show "i < length ft \<and> kpage (ft ! i) = kp" using j by simp
next
  fix kp i assume "i < length ft \<and> kpage (ft ! i) = kp"
  then show "m kp = Some i" using assms(2) by blast
qed

lemma index_ok_remove_at:
  assumes ok: "index_ok ft m" and h: "h < length ft"
  shows "index_ok (remove_at h ft) (reindex h (drop h (remove_at h ft)) (m(kpage (ft ! h) := None)))"
proof (rule index_okI)
  let ?d = "drop (Suc h) ft" and ?m = "m(kpage (ft ! h) := None)"
  have dr: "drop h (remove_at h ft) = ?d" using h by (simp add: remove_at_def)
  have dist: "distinct (map kpage ft)" by (rule index_ok_distinct [OF ok])
  then have dd: "distinct (map kpage ?d)" by (metis distinct_drop drop_map)
  have "map kpage (remove_at h ft) = remove_at h (map kpage ft)" by (simp add: remove_at_def take_map drop_map)
  then show "distinct (map kpage (remove_at h ft))" using dist by simp
  have far: "kpage (ft ! i) \<notin> kpage ` set ?d" if "i < Suc h" for i
  proof
    assume "kpage (ft ! i) \<in> kpage ` set ?d"
    then obtain j where j: "j < length ft - Suc h" "kpage (ft ! i) = kpage (ft ! (Suc h + j))" by (auto simp: in_set_conv_nth)
    have "i = Suc h + j" by (rule index_ok_inj [OF ok _ _ j(2)]) (use j(1) h that in linarith)+
    with that show False by simp
  qed
  show "reindex h (drop h (remove_at h ft)) ?m (kpage (remove_at h ft ! i)) = Some i" if "i < length (remove_at h ft)" for i
  proof (cases "i < h")
    case True
    have "kpage (ft ! i) \<noteq> kpage (ft ! h)" using index_ok_inj [OF ok _ h, of i] True h by auto
    then show ?thesis using True far [of i] index_ok_get [OF ok, of i] h by (simp add: dr reindex_other remove_at_def nth_append)
  next
    case False
    then have "remove_at h ft ! i = ?d ! (i - h)" using h by (simp add: remove_at_def nth_append)
    moreover have "i - h < length ?d" using that False h by simp
    ultimately show ?thesis using reindex_nth [OF dd, of "i - h" h ?m] False by (simp add: dr)
  qed
  show "reindex h (drop h (remove_at h ft)) ?m kp = None" if "kp \<notin> kpage ` set (remove_at h ft)" for kp
  proof -
    have "kp \<notin> kpage ` set ?d" "kp \<notin> kpage ` set (take h ft)" using that by (auto simp: remove_at_def)
    moreover have "kpage ` set ft = kpage ` set (take h ft) \<union> {kpage (ft ! h)} \<union> kpage ` set ?d"
      by (subst remove_at_split [OF h]) auto
    ultimately show ?thesis using index_ok_none [OF ok, of kp] by (auto simp: dr reindex_other)
  qed
qed

subsection \<open>Every operation keeps the invariant\<close>

lemma upage_ok_ram [simp]: "upage_ok (p \<lparr> ram := m \<rparr>) a = upage_ok p a"
  by (simp add: upage_ok_def npages_def used_def)

lemma frames_okE:
  assumes "frames_ok k"
  obtains ft m where "palloc_ok (pal k)" "FRAME_TABLE k = Some ft" "KPAGE_INDEX k = Some m" "index_ok ft m"
    "\<forall>e \<in> set ft. upage_ok (pal k) (kpage e)"
  using assms unfolding frames_ok_def by blast

text \<open>The part of the state the invariant is about.\<close>

definition same_frames :: "('m, 'z) vmk \<Rightarrow> ('m, 'z) vmk \<Rightarrow> bool" where
  "same_frames k k' \<longleftrightarrow> FRAME_TABLE k' = FRAME_TABLE k \<and> KPAGE_INDEX k' = KPAGE_INDEX k \<and> palloc_ok (pal k')
     \<and> user_pool (pal k') = user_pool (pal k)"

lemma upage_ok_user: "user_pool p' = user_pool p \<Longrightarrow> upage_ok p' a = upage_ok p a"
  by (simp add: upage_ok_def npages_def used_def the_pool_def)

lemma same_frames_ok: "frames_ok k \<Longrightarrow> same_frames k k' \<Longrightarrow> frames_ok k'"
  unfolding frames_ok_def same_frames_def using upage_ok_user [of "pal k'" "pal k"] by auto

lemma same_frames_refl: "frames_ok k \<Longrightarrow> same_frames k k"
  by (simp add: same_frames_def frames_ok_def)

lemma same_frames_trans: "same_frames k k1 \<Longrightarrow> same_frames k1 k2 \<Longrightarrow> same_frames k k2"
  by (simp add: same_frames_def)

lemma same_frames_registered: "same_frames k k' \<Longrightarrow> registered kp k' = registered kp k"
  by (simp add: same_frames_def registered_def)

lemma register_frame_ok:
  assumes "frames_ok k" and "upage_ok (pal k) kp" and "\<not> registered kp k"
  shows "frames_ok (register_frame kp up n k)" "registered kp (register_frame kp up n k)"
proof -
  from assms(1) obtain ft m where k: "palloc_ok (pal k)" "FRAME_TABLE k = Some ft" "KPAGE_INDEX k = Some m" "index_ok ft m"
    "\<forall>e \<in> set ft. upage_ok (pal k) (kpage e)" by (rule frames_okE)
  let ?e = "\<lparr> kpage = kp, upage = up, owner_tid = n, pinned = False \<rparr>"
  have "kpage ?e \<notin> kpage ` set ft" using assms(3) k(2) by (simp add: registered_def)
  from index_ok_append [OF k(4) this] show "frames_ok (register_frame kp up n k)"
    using k assms(2) by (simp add: frames_ok_def register_frame_def)
  show "registered kp (register_frame kp up n k)" using k by (simp add: registered_def register_frame_def)
qed

lemma unregister_ok:
  assumes "frames_ok k" and "registered kp k"
  shows "\<exists>k'. unregister kp k = Some k' \<and> frames_ok k' \<and> \<not> registered kp k' \<and> pal k' = pal k \<and> upage_ok (pal k) kp"
proof -
  from assms(1) obtain ft m where k: "palloc_ok (pal k)" "FRAME_TABLE k = Some ft" "KPAGE_INDEX k = Some m" "index_ok ft m"
    "\<forall>e \<in> set ft. upage_ok (pal k) (kpage e)" by (rule frames_okE)
  from assms(2) k(2) have reg: "kp \<in> kpage ` set ft" by (simp add: registered_def)
  then have "m kp \<noteq> None" using index_ok_none [OF k(4)] by blast
  then obtain i where i: "m kp = Some i" by blast
  then have l: "i < length ft" "kpage (ft ! i) = kp" using k(4) unfolding index_ok_def by blast+
  let ?ft = "butlast (ft[i := last ft])"
  define m' where "m' = (if i < length ?ft then (m(kp := None))(kpage (?ft ! i) \<mapsto> i) else m(kp := None))"
  have ix: "index_ok ?ft m'" using index_ok_swap_remove [OF k(4) l(1)] unfolding m'_def l(2) .
  have st: "kpage ` set ?ft = kpage ` set ft - {kp}" using swap_remove_set [OF l(1) index_ok_distinct [OF k(4)]] l(2) by simp
  have un: "unregister kp k = Some (k \<lparr> FRAME_TABLE := Some ?ft, KPAGE_INDEX := Some m' \<rparr>)"
    using l(1) by (simp add: unregister_def k(2,3) i swap_remove_def m'_def Let_def)
  have "upage_ok (pal k) (kpage e)" if "e \<in> set ?ft" for e
  proof -
    have "kpage e \<in> kpage ` set ft" using that st by blast
    with k(5) show ?thesis by auto
  qed
  then have "frames_ok (k \<lparr> FRAME_TABLE := Some ?ft, KPAGE_INDEX := Some m' \<rparr>)" using k(1) ix by (simp add: frames_ok_def)
  with un st reg k(5) show ?thesis by (auto simp: registered_def)
qed

lemma free_page_user:
  assumes ok: "palloc_ok p" and a: "upage_ok p kp"
  shows "\<exists>p'. free_page kp p = Some p' \<and> palloc_ok p' \<and> (\<forall>b. upage_ok p' b \<longleftrightarrow> upage_ok p b \<and> b \<noteq> kp)"
proof -
  from a obtain i where i: "i < npages p True" "kp = base (user_pool p) + i * PGSIZE" by (auto simp: upage_ok_def)
  then have "i + 1 \<le> npages p True" by simp
  from free_multiple_eq [OF ok _ this] obtain bm where bm: "set_multiple (pool_bitmap (the_pool True p)) i 1 False = Some bm"
    "free_multiple kp 1 p = Some (put_pool True (the_pool True p \<lparr> pool_bitmap := bm \<rparr>) p)" by (auto simp: i(2) the_pool_def)
  have q: "pool_ok (the_pool True p)" by (rule palloc_ok_pool [OF ok])
  have b: "bitmap_ok (pool_bitmap (the_pool True p))" "bit_cnt (pool_bitmap (the_pool True p)) < 2 ^ 32" "i + 1 \<le> bit_cnt (pool_bitmap (the_pool True p))"
    using q pool_ok_cnt [OF q] i(1) by (simp_all add: pool_ok_def npages_def)
  from set_multiple_view [OF b(1,3,2), of False] bm(1) have v: "bitmap_ok bm" "bit_cnt bm = bit_cnt (pool_bitmap (the_pool True p))"
    "bitmap_view bm = (\<lambda>j. if i \<le> j \<and> j < i + 1 then False else used p True j)" by (simp_all add: used_def)
  let ?p = "put_pool True (the_pool True p \<lparr> pool_bitmap := bm \<rparr>) p"
  have "palloc_ok ?p" by (rule palloc_ok_put_bitmap [OF ok v(1,2)])
  moreover have "used ?p True = (\<lambda>j. j \<noteq> i \<and> used p True j)" by (auto simp: used_def [of ?p] v(3) fun_eq_iff)
  then have "upage_ok ?p b \<longleftrightarrow> upage_ok p b \<and> b \<noteq> kp" for b
    unfolding upage_ok_def i(2) by (auto simp: npages_def v(2) PGSIZE_def put_pool_def the_pool_def)
  ultimately show ?thesis using bm(2) by (simp add: free_page_def)
qed

lemma free_frame_ok:
  assumes "frames_ok k" and "registered kp k"
  shows "\<exists>k'. free_frame kp k = Some k' \<and> frames_ok k'"
proof -
  from unregister_ok [OF assms] obtain k1 where k1: "unregister kp k = Some k1" "frames_ok k1" "\<not> registered kp k1"
    "pal k1 = pal k" "upage_ok (pal k) kp" by blast
  from k1(2) obtain ft m where k: "palloc_ok (pal k1)" "FRAME_TABLE k1 = Some ft" "KPAGE_INDEX k1 = Some m" "index_ok ft m"
    "\<forall>e \<in> set ft. upage_ok (pal k1) (kpage e)" by (rule frames_okE)
  from free_page_user [OF k(1), of kp] k1(4,5) obtain p' where p': "free_page kp (pal k1) = Some p'" "palloc_ok p'"
    "\<forall>b. upage_ok p' b \<longleftrightarrow> upage_ok (pal k1) b \<and> b \<noteq> kp" by auto
  have "frames_ok (k1 \<lparr> pal := p' \<rparr>)"
    using k p'(2,3) k1(3) by (auto simp: frames_ok_def registered_def)
  with k1(1) p'(1) show ?thesis by (simp add: free_frame_def)
qed

text \<open>Reading operations on page tables change no memory, the others only memory.\<close>

lemma lookup_reads: "lookup pd va False p = Some (a, p') \<Longrightarrow> p' = p"
  by (auto simp: lookup_def Let_def split: if_splits Option.bind_splits)

lemma clear_page_pools: "clear_page pd va p = Some p' \<Longrightarrow> p' = p \<lparr> ram := ram p' \<rparr>"
  by (auto simp: clear_page_def dest!: lookup_reads split: Option.bind_splits)

lemma set_accessed_pools: "set_accessed pd va b p = Some p' \<Longrightarrow> p' = p \<lparr> ram := ram p' \<rparr>"
  by (auto simp: set_accessed_def dest!: lookup_reads split: Option.bind_splits)

lemma set_page_pools:
  assumes ok: "palloc_ok p" and s: "set_page pd va kp w p = Some (b, p')"
  shows "palloc_ok p' \<and> user_pool p' = user_pool p"
proof -
  from s obtain a p1 where l: "lookup pd va True p = Some (a, p1)" and p': "palloc_ok p' = palloc_ok p1" "user_pool p' = user_pool p1"
    by (auto simp: set_page_def split: Option.bind_splits if_splits)
  have g: "palloc_ok q \<and> user_pool q = user_pool p" if "get_page {ZERO} p = Some (pt, q)" for pt q
    using get_multiple_spec [OF ok, of 1 False "{ZERO}"] that ok by (auto simp: get_page_def allocated_def the_pool_def)
  have "palloc_ok p1 \<and> user_pool p1 = user_pool p"
    using l ok by (auto simp: lookup_def Let_def dest!: g split: if_splits Option.bind_splits)
  with p' show ?thesis by simp
qed

lemma same_frames_pal:
  "frames_ok k \<Longrightarrow> palloc_ok p \<Longrightarrow> user_pool p = user_pool (pal k) \<Longrightarrow> same_frames k (k \<lparr> pal := p \<rparr>)"
  by (simp add: same_frames_def)

lemma same_frames_ram: "frames_ok k \<Longrightarrow> p = (pal k) \<lparr> ram := m \<rparr> \<Longrightarrow> same_frames k (k \<lparr> pal := p \<rparr>)"
  by (simp add: same_frames_def frames_ok_def)

lemma same_frames_swap: "frames_ok k \<Longrightarrow> same_frames k (put_swap s k)"
  by (simp add: same_frames_def put_swap_def frames_ok_def)

lemma same_frames_location: "frames_ok k \<Longrightarrow> same_frames k (set_location n va f k)"
  by (simp add: same_frames_def set_location_def frames_ok_def)

lemma save_page_frames:
  assumes "frames_ok k" and "save_page e dirty k = Some (r, k')"
  shows "same_frames k k'"
proof -
  have pal: "palloc_ok (pal k)" using assms(1) by (simp add: frames_ok_def)
  with assms(2) show ?thesis
    by (auto simp: save_page_def same_frames_def put_swap_def set_location_def Let_def split: Option.bind_splits if_splits option.splits)
qed

lemma drop_frame_ok:
  assumes "frames_ok k" and "FRAME_TABLE k = Some ft" and "h < length ft"
  shows "frames_ok (drop_frame h ft k)" "\<not> registered (kpage (ft ! h)) (drop_frame h ft k)" "upage_ok (pal (drop_frame h ft k)) (kpage (ft ! h))"
proof -
  from assms(1,2) obtain m where k: "palloc_ok (pal k)" "KPAGE_INDEX k = Some m" "index_ok ft m"
    "\<forall>e \<in> set ft. upage_ok (pal k) (kpage e)" by (auto elim!: frames_okE)
  have sub: "set (remove_at h ft) \<subseteq> set ft" by (rule set_remove_at_subset)
  show "frames_ok (drop_frame h ft k)"
    using k sub index_ok_remove_at [OF k(3) assms(3)] by (auto simp: frames_ok_def drop_frame_def Let_def)
  have "map kpage (remove_at h ft) = remove_at h (map kpage ft)" by (simp add: remove_at_def take_map drop_map)
  moreover have "kpage (ft ! h) \<notin> set (remove_at h (map kpage ft))"
    using set_remove_at [OF _ index_ok_distinct [OF k(3)], of h] assms(3) by simp
  ultimately have "kpage (ft ! h) \<notin> kpage ` set (remove_at h ft)" by (metis image_set)
  then show "\<not> registered (kpage (ft ! h)) (drop_frame h ft k)" by (simp add: registered_def drop_frame_def Let_def)
  show "upage_ok (pal (drop_frame h ft k)) (kpage (ft ! h))" using k(4) assms(3) by (simp add: drop_frame_def Let_def)
qed

text \<open>What eviction leaves: the table without the page it returns.\<close>

definition gives :: "nat option \<Rightarrow> ('m, 'z) vmk \<Rightarrow> bool" where
  "gives r k \<longleftrightarrow> frames_ok k \<and> (\<forall>kp. r = Some kp \<longrightarrow> upage_ok (pal k) kp \<and> \<not> registered kp k)"

lemma evict_try_frames:
  assumes ok: "frames_ok k" and ft: "FRAME_TABLE k = Some ft" "ft \<noteq> []" and t: "evict_try ft k = Some (r, k')"
  shows "gives r k' \<and> (r = None \<longrightarrow> FRAME_TABLE k' = Some ft)"
proof -
  define h where "h = CLOCK_HAND k mod length ft"
  define k1 where "k1 = k \<lparr> CLOCK_HAND := (CLOCK_HAND k + 1) mod 2 ^ 32 \<rparr>"
  have h: "h < length ft" using ft(2) by (simp add: h_def)
  have ok1: "frames_ok k1" "FRAME_TABLE k1 = Some ft" using ok ft(1) by (auto simp: frames_ok_def k1_def)
  have same: "gives None k2 \<and> FRAME_TABLE k2 = Some ft" if "same_frames k1 k2" for k2
    using same_frames_ok [OF ok1(1) that] that ok1(2) by (simp add: gives_def same_frames_def)
  have drop: "gives (Some (kpage (ft ! h))) (drop_frame h ft (k2 \<lparr> pal := p \<rparr>))"
    if s: "same_frames k1 k2" and c: "clear_page pd va (pal k2) = Some p" for k2 pd va p
  proof -
    have ok2: "frames_ok k2" by (rule same_frames_ok [OF ok1(1) s])
    then have ok3: "frames_ok (k2 \<lparr> pal := p \<rparr>)" by (rule same_frames_ok [OF _ same_frames_ram [OF ok2 clear_page_pools [OF c]]])
    have "FRAME_TABLE (k2 \<lparr> pal := p \<rparr>) = Some ft" using s ok1(2) by (simp add: same_frames_def)
    from drop_frame_ok [OF ok3 this h] show ?thesis by (simp add: gives_def)
  qed
  have acc: "same_frames k1 (k1 \<lparr> pal := p \<rparr>)" if "set_accessed pd va False (pal k1) = Some p" for pd va p
    by (rule same_frames_ram [OF ok1(1) set_accessed_pools [OF that]])
  have sv: "same_frames k1 k2" if "save_page e d k1 = Some (b, k2)" for e d b k2 by (rule save_page_frames [OF ok1(1) that])
  from t show ?thesis
    unfolding evict_try_def Let_def h_def [symmetric] k1_def [symmetric]
    using same [OF same_frames_refl [OF ok1(1)]] h
    by (auto simp: idx_def dest!: acc sv split: if_splits Option.bind_splits) (use same drop in blast)+
qed

lemma evict_loop_frames:
  assumes "frames_ok k" and "FRAME_TABLE k = Some ft" and "ft \<noteq> []" and "evict_loop n ft k = Some (r, k')"
  shows "gives r k'"
  using assms
proof (induction n arbitrary: k)
  case 0
  then show ?case by (simp add: gives_def)
next
  case (Suc n)
  from Suc.prems(4) obtain r1 k1 where t: "evict_try ft k = Some (r1, k1)" "(if r1 \<noteq> None then Some (r1, k1) else evict_loop n ft k1) = Some (r, k')"
    by (auto split: Option.bind_splits)
  note e = evict_try_frames [OF Suc.prems(1-3) t(1)]
  show ?case
  proof (cases r1)
    case None
    with t(2) e show ?thesis by (intro Suc.IH [of k1]) (auto simp: gives_def Suc.prems(3))
  next
    case (Some kp)
    with t(2) e show ?thesis by simp
  qed
qed

lemma evict_frame_frames: "frames_ok k \<Longrightarrow> evict_frame k = Some (r, k') \<Longrightarrow> gives r k'"
  using evict_loop_frames [of k _ _ r k']
  by (auto simp: evict_frame_def gives_def split: option.splits if_splits Option.bind_splits)

text \<open>An allocation registers the page it returns, filled with zeros.\<close>

lemma get_page_user:
  assumes ok: "palloc_ok p" and g: "get_page {USER, ZERO} p = Some (kp, p')"
  shows "palloc_ok p' \<and> (if kp = 0 then p' = p else upage_ok p' kp \<and> \<not> upage_ok p kp \<and> (\<forall>a. upage_ok p a \<longrightarrow> upage_ok p' a)
    \<and> ram p' = zero_range kp PGSIZE (ram p))"
proof -
  from get_multiple_spec [OF ok, of 1 True "{USER, ZERO}"] g consider
      "kp = 0" "p' = p"
    | i where "kp = base (user_pool p) + i * PGSIZE" "first_fit (used p True) (npages p True) False 1 0 (Some i)" "allocated p True i 1 p'"
        "ram p' = zero_range kp PGSIZE (ram p)"
    by (auto simp: get_page_def the_pool_def)
  then show ?thesis
  proof cases
    case (2 i)
    have i: "i < npages p True" "\<not> used p True i" using 2(2) by (auto simp: first_fit_def run_at_def)
    have a: "palloc_ok p'" "used p' True = (\<lambda>j. j = i \<or> used p True j)" "npages p' True = npages p True" "base (user_pool p') = base (user_pool p)"
      using 2(3) by (auto simp: allocated_def the_pool_def fun_eq_iff)
    have "kp \<noteq> 0" using 2(1) ok by (simp add: palloc_ok_def pool_ok_def)
    moreover have "\<not> upage_ok p kp" using i(2) by (auto simp: upage_ok_def PGSIZE_def 2(1))
    moreover have "upage_ok p' kp" using i(1) a 2(1) by (auto simp: upage_ok_def)
    moreover have "\<forall>x. upage_ok p x \<longrightarrow> upage_ok p' x" unfolding upage_ok_def a by blast
    ultimately show ?thesis using a(1) 2(4) by simp
  qed (simp add: ok)
qed

lemma set_ram_frames [simp]: "same_frames k (set_ram m k) \<longleftrightarrow> palloc_ok (pal k)" "FRAME_TABLE (set_ram m k) = FRAME_TABLE k"
  "pal (set_ram m k) = (pal k) \<lparr> ram := m \<rparr>"
  by (simp_all add: same_frames_def set_ram_def)

lemma register_frame_pal [simp]: "pal (register_frame kp up n k) = pal k"
  by (simp add: register_frame_def split: option.splits)

lemma alloc_frame_ok:
  assumes ok: "frames_ok k" and a: "alloc_frame up n k = Some (kp, k')"
  shows "frames_ok k'" "kp \<noteq> 0 \<Longrightarrow> registered kp k' \<and> (\<forall>x. kp \<le> x \<and> x < kp + PGSIZE \<longrightarrow> ram (pal k') x = 0)"
proof -
  have pal: "palloc_ok (pal k)" using ok by (simp add: frames_ok_def)
  from a obtain a1 p where g: "get_page {USER, ZERO} (pal k) = Some (a1, p)" by (auto simp: alloc_frame_def split: Option.bind_splits)
  note gp = get_page_user [OF pal g]
  have "frames_ok k' \<and> (kp \<noteq> 0 \<longrightarrow> registered kp k' \<and> (\<forall>x. kp \<le> x \<and> x < kp + PGSIZE \<longrightarrow> ram (pal k') x = 0))"
  proof (cases "a1 = 0")
    case False
    have k1: "frames_ok (k \<lparr> pal := p \<rparr>)" "\<not> registered a1 (k \<lparr> pal := p \<rparr>)"
      using ok gp False by (auto simp: frames_ok_def registered_def)
    have "kp = a1" "k' = register_frame a1 up n (k \<lparr> pal := p \<rparr>)" using a g False by (auto simp: alloc_frame_def)
    with register_frame_ok [OF k1(1) _ k1(2), of up n] gp False show ?thesis by (simp add: zero_range_def)
  next
    case True
    with a g gp obtain r k1 where e: "evict_frame k = Some (r, k1)"
      and k': "(case r of None \<Rightarrow> (0, k1) | Some b \<Rightarrow> (b, register_frame b up n (set_ram (zero_range b PGSIZE (ram (pal k1))) k1))) = (kp, k')"
      by (auto simp: alloc_frame_def split: Option.bind_splits option.splits)
    note gv = evict_frame_frames [OF ok e, unfolded gives_def]
    show ?thesis
    proof (cases r)
      case None
      with k' gv show ?thesis by auto
    next
      case (Some b)
      let ?k = "set_ram (zero_range b PGSIZE (ram (pal k1))) k1"
      have s: "same_frames k1 ?k" using gv by (simp add: frames_ok_def)
      have "frames_ok ?k" "upage_ok (pal ?k) b" "\<not> registered b ?k"
        using same_frames_ok [OF _ s] same_frames_registered [OF s] gv Some by auto
      from register_frame_ok [OF this, of up n] k' Some show ?thesis by (auto simp: zero_range_def)
    qed
  qed
  then show "frames_ok k'" "kp \<noteq> 0 \<Longrightarrow> registered kp k' \<and> (\<forall>x. kp \<le> x \<and> x < kp + PGSIZE \<longrightarrow> ram (pal k') x = 0)" by blast+
qed

lemma map_frame_ok:
  assumes ok: "frames_ok k" and r: "registered kp k" and m: "map_frame pd page kp n w k = Some (b, k')"
  shows "frames_ok k'"
proof -
  from m obtain b1 p where s: "set_page pd page kp w (pal k) = Some (b1, p)" by (auto simp: map_frame_def split: Option.bind_splits)
  have pal: "palloc_ok (pal k)" using ok by (simp add: frames_ok_def)
  have same: "same_frames k (k \<lparr> pal := p \<rparr>)" using set_page_pools [OF pal s] same_frames_pal [OF ok] by blast
  note ok1 = same_frames_ok [OF ok same]
  have r1: "registered kp (k \<lparr> pal := p \<rparr>)" using r same_frames_registered [OF same] by simp
  from m s free_frame_ok [OF ok1 r1] show ?thesis
    using same_frames_ok [OF ok1 same_frames_location [OF ok1]] by (auto simp: map_frame_def Let_def split: if_splits)
qed

lemma same_frames_swap_ram: "frames_ok k \<Longrightarrow> same_frames k (set_ram m (put_swap s k))"
  by (simp add: same_frames_def put_swap_def set_ram_def frames_ok_def)

lemma load_from_disk_frames:
  assumes "frames_ok k" and "load_from_disk e kp k = Some k'"
  shows "same_frames k k'"
  using assms by (auto simp: load_from_disk_def same_frames_def set_ram_def frames_ok_def Let_def split: Option.bind_splits if_splits)

lemma load_page_ok:
  assumes ok: "frames_ok k" and l: "load_page e pd page n k = Some (b, k')"
  shows "frames_ok k'"
proof -
  have m: "frames_ok k'" if "alloc_frame page n k = Some (kp, k1)" "kp \<noteq> 0" "same_frames k1 k2" "map_frame pd page kp n (writable e) k2 = Some (b, k')" for kp k1 k2
    using alloc_frame_ok [OF ok that(1)] that(2-4) same_frames_ok [of k1 k2] same_frames_registered [OF that(3)] map_frame_ok [of k2] by blast
  have a: "frames_ok k1" if "alloc_frame page n k = Some (kp, k1)" for kp k1 by (rule alloc_frame_ok(1) [OF ok that])
  show ?thesis
  proof (cases "location e")
    case InMemory
    with l ok show ?thesis by (simp add: load_page_def)
  next
    case (InSwap slot)
    with l a show ?thesis
      by (auto simp: load_page_def split: Option.bind_splits if_splits)
        (rule m, assumption, simp, erule same_frames_swap_ram, assumption)
  next
    case OnDisk
    with l a show ?thesis
      by (auto simp: load_page_def split: Option.bind_splits if_splits) (rule m, assumption, simp, erule (1) load_from_disk_frames, assumption)
  next
    case Zero
    with l a show ?thesis
      by (auto simp: load_page_def split: Option.bind_splits if_splits) (rule m, assumption, simp, erule same_frames_refl, assumption)
  qed
qed

section \<open>Properties\<close>

text \<open>The operations on frames, in any order; \<open>step_other\<close> is every step of the kernel that leaves the table and the user pool
  alone.\<close>

inductive frame_step :: "('m, 'z) vmk \<Rightarrow> ('m, 'z) vmk \<Rightarrow> bool" where
  step_alloc: "alloc_frame up n k = Some (kp, k') \<Longrightarrow> frame_step k k'"
| step_free: "registered kp k \<Longrightarrow> free_frame kp k = Some k' \<Longrightarrow> frame_step k k'"
| step_load: "load_page e pd page n k = Some (b, k') \<Longrightarrow> frame_step k k'"
| step_pin: "frame_step k (pin_upage n up k)"
| step_unpin: "frame_step k (unpin_upage n up k)"
| step_fix: "frame_step k (fix_owner_tid old new k)"
| step_other: "same_frames k k' \<Longrightarrow> frame_step k k'"

lemma kpages_map_ok:
  assumes "map kpage ft' = map kpage ft" shows "index_ok ft' m = index_ok ft m" "kpage ` set ft' = kpage ` set ft"
proof -
  have l: "length ft' = length ft" using map_eq_imp_length_eq [OF assms] .
  have "kpage (ft' ! i) = kpage (ft ! i)" if "i < length ft" for i using assms that l by (metis nth_map)
  then show "index_ok ft' m = index_ok ft m" unfolding index_ok_def l by auto
  show "kpage ` set ft' = kpage ` set ft" using assms by (metis image_set)
qed

lemma frames_ok_entries:
  assumes "frames_ok k" and "\<And>ft. map kpage (f ft) = map kpage ft"
  shows "frames_ok (k \<lparr> FRAME_TABLE := map_option f (FRAME_TABLE k) \<rparr>)"
proof -
  from assms(1) obtain ft m where k: "palloc_ok (pal k)" "FRAME_TABLE k = Some ft" "KPAGE_INDEX k = Some m" "index_ok ft m"
    "\<forall>e \<in> set ft. upage_ok (pal k) (kpage e)" by (rule frames_okE)
  have "upage_ok (pal k) (kpage e)" if "e \<in> set (f ft)" for e
  proof -
    have "kpage e \<in> kpage ` set ft" using that kpages_map_ok(2) [OF assms(2)] by blast
    with k(5) show ?thesis by auto
  qed
  with k show ?thesis by (simp add: frames_ok_def kpages_map_ok(1) [OF assms(2)])
qed

lemma set_pinned_kpages: "map kpage (set_pinned b n up ft) = map kpage ft"
  by (induction ft) auto

lemma frame_step_ok: "frame_step k k' \<Longrightarrow> frames_ok k \<Longrightarrow> frames_ok k'"
proof (induction rule: frame_step.induct)
  case step_free
  then show ?case using free_frame_ok by fastforce
qed (auto simp: pin_upage_def unpin_upage_def fix_owner_tid_def set_pinned_kpages comp_def
    intro: alloc_frame_ok(1) load_page_ok same_frames_ok frames_ok_entries)

lemma frame_init_ok: "palloc_ok (pal k) \<Longrightarrow> frames_ok (frame_init k)"
  by (simp add: frames_ok_def frame_init_def index_ok_def)

text \<open>C15: The index of the frame table is its inverse. From \<open>frame::init\<close> on, whatever frames are allocated (with or without an
  eviction), freed, loaded, pinned or handed to another thread, \<open>KPAGE_INDEX\<close> maps exactly the pages of the table to their
  positions, no page has two entries, every page of the table is a page in use of the user pool, and \<open>free_frame\<close> of
  any of them succeeds.\<close>

theorem frame_index_inverse:
  assumes "palloc_ok (pal k0)" and "frame_step\<^sup>*\<^sup>* (frame_init k0) k"
  shows "\<exists>ft m. FRAME_TABLE k = Some ft \<and> KPAGE_INDEX k = Some m
    \<and> (\<forall>kp i. m kp = Some i \<longleftrightarrow> i < length ft \<and> kpage (ft ! i) = kp) \<and> distinct (map kpage ft)
    \<and> (\<forall>e \<in> set ft. upage_ok (pal k) (kpage e) \<and> free_frame (kpage e) k \<noteq> None)"
proof -
  from assms(2) have ok: "frames_ok k"
    by (induction rule: rtranclp_induct) (use frame_init_ok [OF assms(1)] frame_step_ok in blast)+
  then obtain ft m where k: "palloc_ok (pal k)" "FRAME_TABLE k = Some ft" "KPAGE_INDEX k = Some m" "index_ok ft m"
    "\<forall>e \<in> set ft. upage_ok (pal k) (kpage e)" by (rule frames_okE)
  have "free_frame (kpage e) k \<noteq> None" if "e \<in> set ft" for e
    using free_frame_ok [OF ok, of "kpage e"] k(2) that by (auto simp: registered_def)
  with k index_ok_distinct [OF k(4)] show ?thesis unfolding index_ok_def by auto
qed

definition sample_vm :: "(sector \<Rightarrow> sector_data) vm" where
  "sample_vm = \<lparr> pal = sample_pd, threads = (\<lambda>t. zero_thread \<lparr> tid := 1, pagedir := 0xC0200000 \<rparr>), READY_LIST = Some [],
     ALL_LIST = Some [0xC0101000], IDLE_THREAD = 0, INITIAL_THREAD = 0xC0101000, THREAD_TICKS = 0, NEXT_TID = 2, cur = 0xC0101000,
     intr_level = On, YIELD_ON_RETURN = False, IN_EXTERNAL_INTR = False, INIT_PAGE_DIR = 0xC0100000, cr3 = 0, TSS_PTR = 0, esp0 = 0,
     FRAME_TABLE = Some [\<lparr> kpage = 0xC0300000, upage = 0x8048000, owner_tid = 1, pinned = True \<rparr>,
       \<lparr> kpage = 0xC0302000, upage = 0x8049000, owner_tid = 1, pinned = False \<rparr>],
     KPAGE_INDEX = Some [0xC0300000 \<mapsto> 0, 0xC0302000 \<mapsto> 1], CLOCK_HAND = 4, SWAP_MAP = Some Map.empty,
     SPT_TABLE = Some [1 \<mapsto> [(0x8049000, \<lparr> vaddr = 0x8049000, location = InMemory, page_type = Binary, writable = True,
       inode_sector = 9, file_offset = 0x1000, read_bytes = 4096, page_ofs = 0 \<rparr>)]],
     swap_st = sample_swap,
     fsys = \<lparr> fs_bio = \<lparr> BCACHE = None, reg = ram_registry 16 (\<lambda>_. []) \<rparr>, fs_map = sample_fmap, OPEN_INODES = None \<rparr> \<rparr>"

theorem frame_index_inverse_witness:
  "\<exists>kp k ft m. alloc_frame 0x8048000 1 (frame_init sample_vm) = Some (kp, k) \<and> FRAME_TABLE k = Some ft \<and> KPAGE_INDEX k = Some m
    \<and> ft \<noteq> [] \<and> (\<forall>a i. m a = Some i \<longleftrightarrow> i < length ft \<and> kpage (ft ! i) = a)"
proof -
  have ok: "palloc_ok sample_pd" using sample_pd_ok by (simp add: pd_ok_def)
  have "run_at (used sample_pd True) False 1 1" "npages sample_pd True = 8"
    by (simp_all add: run_at_Suc used_def the_pool_def npages_def sample_pd_def sample_palloc_def array_bit_def)
  then have "\<not> first_fit (used sample_pd True) (npages sample_pd True) False 1 0 None"
    using first_fit_noneD [OF _ le0] by fastforce
  with get_multiple_spec [OF ok, of 1 True "{USER, ZERO}"] obtain i p' where
    g: "get_page {USER, ZERO} sample_pd = Some (base (the_pool True sample_pd) + i * PGSIZE, p')" by (auto simp: get_page_def)
  have "base (the_pool True sample_pd) + i * PGSIZE \<noteq> 0" by (simp add: the_pool_def sample_pd_def sample_palloc_def)
  then obtain kp where a: "alloc_frame 0x8048000 1 (frame_init sample_vm)
      = Some (kp, register_frame kp 0x8048000 1 ((frame_init sample_vm) \<lparr> pal := p' \<rparr>))"
    using g by (auto simp: alloc_frame_def frame_init_def sample_vm_def)
  let ?k = "register_frame kp 0x8048000 1 ((frame_init sample_vm) \<lparr> pal := p' \<rparr>)"
  have st: "frame_step\<^sup>*\<^sup>* (frame_init sample_vm) ?k" using step_alloc [OF a] by (rule r_into_rtranclp)
  have ok': "palloc_ok (pal sample_vm)" using ok by (simp add: sample_vm_def)
  from frame_index_inverse [OF ok' st] obtain ft m where "FRAME_TABLE ?k = Some ft" "KPAGE_INDEX ?k = Some m"
    "\<forall>a i. m a = Some i \<longleftrightarrow> i < length ft \<and> kpage (ft ! i) = a" by blast
  moreover from this have "ft \<noteq> []" by (auto simp: register_frame_def frame_init_def)
  ultimately show ?thesis using a by blast
qed

end
