(* ===== verification/Evict.thy ===== *)
theory Evict
  imports FrameProps
begin

section \<open>Eviction is the second-chance clock\<close>

text \<open>
  \<open>evict_frame\<close> passes over the frame table with the clock hand, clears accessed bits and evicts the first frame that
  is not pinned, not accessed and can be saved. \<open>clock_pick\<close> says the same without a loop and without the page tables
  changing under it: the victim is the frame at the first distance from the hand whose accessed bit was clear to begin
  with, or that the hand reaches for the second time. Its page is in swap or can be read again from where it came.
\<close>

unbundle bit_operations_syntax

text \<open>The directory that maps a frame (zero: none), its entry there, and what the supplementary table knows about it.\<close>

definition frame_dir :: "('m, 'z) vmk \<Rightarrow> frame_entry \<Rightarrow> nat" where
  "frame_dir k e = (case get_pagedir_by_tid (owner_tid e) k of Some pd \<Rightarrow> pd | None \<Rightarrow> 0)"

definition frame_pte :: "('m, 'z) vmk \<Rightarrow> frame_entry \<Rightarrow> nat" where
  "frame_pte k e = pte_word (frame_dir k e) (ram (pal k)) (upage e)"

definition frame_type :: "('m, 'z) vmk \<Rightarrow> frame_entry \<Rightarrow> (page_type \<times> nat) option" where
  "frame_type k e = (case get_spt (owner_tid e) k of
      Some (Some t) \<Rightarrow> map_option (\<lambda>s. (page_type s, read_bytes s)) (spt_find (upage e) t)
    | _ \<Rightarrow> None)"

definition must_save :: "('m, 'z) vmk \<Rightarrow> frame_entry \<Rightarrow> bool" where
  "must_save k e \<longleftrightarrow> needs_swap (frame_type k e) (frame_pte k e AND PTE_D \<noteq> 0)"

definition evictable :: "('m, 'z) vmk \<Rightarrow> frame_entry \<Rightarrow> bool" where
  "evictable k e \<longleftrightarrow> \<not> pinned e \<and> frame_dir k e \<noteq> 0 \<and> (must_save k e \<longrightarrow> swap_room (get_swap k))"

definition clock_at :: "('m, 'z) vmk \<Rightarrow> frame_entry list \<Rightarrow> nat \<Rightarrow> frame_entry" where
  "clock_at k ft j = ft ! ((CLOCK_HAND k + j) mod length ft)"

definition clock_pick :: "('m, 'z) vmk \<Rightarrow> frame_entry list \<Rightarrow> nat \<Rightarrow> bool" where
  "clock_pick k ft j \<longleftrightarrow> evictable k (clock_at k ft j) \<and> (frame_pte k (clock_at k ft j) AND PTE_A = 0 \<or> length ft \<le> j)"

text \<open>The pages of the frames are mapped by directories that do not share memory, and no two frames by the same entry.\<close>

definition vm_ok :: "nat set \<Rightarrow> ('m, 'z) vmk \<Rightarrow> frame_entry list \<Rightarrow> bool" where
  "vm_ok D k ft \<longleftrightarrow> frames_ok k \<and> FRAME_TABLE k = Some ft \<and> ALL_LIST k \<noteq> None \<and> SPT_TABLE k \<noteq> None
     \<and> dirs_ok D (pal k) \<and> swap_ok (get_swap k)
     \<and> (\<forall>e \<in> set ft. frame_dir k e \<noteq> 0 \<longrightarrow> frame_dir k e \<in> D \<and> upage e < PHYS_BASE)
     \<and> (\<forall>i < length ft. \<forall>j < length ft. frame_dir k (ft ! i) \<noteq> 0 \<and> frame_dir k (ft ! i) = frame_dir k (ft ! j)
          \<and> upage (ft ! i) div 4096 = upage (ft ! j) div 4096 \<longrightarrow> i = j)"

text \<open>The state after some rounds without a victim: the accessed bits of the pages \<open>C\<close> are cleared.\<close>

definition bits_cleared :: "nat set \<Rightarrow> (nat \<times> nat) set \<Rightarrow> palloc \<Rightarrow> palloc \<Rightarrow> bool" where
  "bits_cleared D C p0 p \<longleftrightarrow> kernel_pool p = kernel_pool p0 \<and> user_pool p = user_pool p0 \<and> dirs_ok D p \<and> (\<forall>x \<ge> base (user_pool p0). ram p x = ram p0 x)
     \<and> (\<forall>pd \<in> D. \<forall>u < PHYS_BASE. pte_word pd (ram p) u
          = (if (pd, u div 4096) \<in> C then pte_word pd (ram p0) u AND not_u32 PTE_A else pte_word pd (ram p0) u))"

definition scanned :: "nat set \<Rightarrow> ('m, 'z) vmk \<Rightarrow> (nat \<times> nat) set \<Rightarrow> nat \<Rightarrow> ('m, 'z) vmk \<Rightarrow> bool" where
  "scanned D k C c k1 \<longleftrightarrow> (\<exists>p s. k1 = k \<lparr> pal := p, CLOCK_HAND := c, swap_st := s \<rparr> \<and> get_swap k1 = get_swap k
     \<and> bits_cleared D C (pal k) p)"

lemma scanned_start: "dirs_ok D (pal k) \<Longrightarrow> scanned D k {} (CLOCK_HAND k) k"
  unfolding scanned_def bits_cleared_def by (intro exI [of _ "pal k"] exI [of _ "swap_st k"]) simp

lemma scannedI: "k1 = k \<lparr> pal := p, CLOCK_HAND := c, swap_st := s \<rparr> \<Longrightarrow> get_swap k1 = get_swap k \<Longrightarrow> bits_cleared D C (pal k) p
    \<Longrightarrow> scanned D k C c k1"
  unfolding scanned_def by blast

lemma scannedE:
  assumes "scanned D k C c k1"
  obtains p s where "k1 = k \<lparr> pal := p, CLOCK_HAND := c, swap_st := s \<rparr>" "get_swap k1 = get_swap k" "bits_cleared D C (pal k) p"
  using assms unfolding scanned_def by blast

lemma pte_bits:
  "(w AND not_u32 PTE_A) AND PTE_A = 0" "(w AND not_u32 PTE_A) AND PTE_D = w AND PTE_D"
proof -
  have "not_u32 PTE_A AND PTE_A = 0" "not_u32 PTE_A AND PTE_D = PTE_D" by (simp_all add: not_u32_def PTE_A_def PTE_D_def)
  then show "(w AND not_u32 PTE_A) AND PTE_A = 0" "(w AND not_u32 PTE_A) AND PTE_D = w AND PTE_D" by (simp_all add: and.assoc)
qed

text \<open>What the rounds see of a frame.\<close>

lemma scanned_views:
  assumes "scanned D k C c k1"
  shows "frame_dir k1 e = frame_dir k e" "get_spt n k1 = get_spt n k" "frame_type k1 e = frame_type k e" "get_swap k1 = get_swap k"
    "get_pagedir_by_tid n k1 = get_pagedir_by_tid n k" "CLOCK_HAND k1 = c" "FRAME_TABLE k1 = FRAME_TABLE k" "SPT_TABLE k1 = SPT_TABLE k"
    "dirs_ok D (pal k1)" "SWAP_MAP k1 = SWAP_MAP k"
proof -
  from assms obtain p s where k1: "k1 = k \<lparr> pal := p, CLOCK_HAND := c, swap_st := s \<rparr>" and sw: "get_swap k1 = get_swap k"
    and "dirs_ok D p" by (rule scannedE) (simp add: bits_cleared_def)
  then show "dirs_ok D (pal k1)" "get_swap k1 = get_swap k" by simp_all
  show g: "get_pagedir_by_tid n k1 = get_pagedir_by_tid n k" "get_spt n k1 = get_spt n k" for n
    by (simp_all add: k1 get_spt_def get_pagedir_by_tid_def thr_def cong: option.case_cong)
  show "frame_dir k1 e = frame_dir k e" "frame_type k1 e = frame_type k e" "CLOCK_HAND k1 = c" "FRAME_TABLE k1 = FRAME_TABLE k"
    "SPT_TABLE k1 = SPT_TABLE k" "SWAP_MAP k1 = SWAP_MAP k"
    unfolding frame_dir_def frame_type_def g by (simp_all add: k1)
qed

lemma scanned_hand: "scanned D k C c k1 \<Longrightarrow> scanned D k C c' (k1 \<lparr> CLOCK_HAND := c' \<rparr>)"
  by (erule scannedE) (rule scannedI [where k = k], cases k, auto simp: get_swap_def)

lemma scanned_pte:
  assumes "scanned D k C c k1" and "frame_dir k e \<in> D" and "upage e < PHYS_BASE"
  shows "frame_pte k1 e = (if (frame_dir k e, upage e div 4096) \<in> C then frame_pte k e AND not_u32 PTE_A else frame_pte k e)"
proof -
  from assms(1) obtain p s where "k1 = k \<lparr> pal := p, CLOCK_HAND := c, swap_st := s \<rparr>" "bits_cleared D C (pal k) p" by (rule scannedE)
  with assms(2,3) show ?thesis unfolding frame_pte_def scanned_views(1) [OF assms(1)] by (simp add: bits_cleared_def)
qed

lemma scanned_flags:
  assumes "scanned D k C c k1" and "frame_dir k e \<in> D" and "upage e < PHYS_BASE"
  shows "is_accessed (frame_dir k e) (upage e) (pal k1) = Some (frame_pte k e AND PTE_A \<noteq> 0 \<and> (frame_dir k e, upage e div 4096) \<notin> C)"
    "is_dirty (frame_dir k e) (upage e) (pal k1) = Some (frame_pte k e AND PTE_D \<noteq> 0)"
proof -
  have ok: "pd_ok (frame_dir k e) (pal k1)" using scanned_views(9) [OF assms(1)] assms(2) by (rule dirs_okD)
  have w: "pte_word (frame_dir k e) (ram (pal k1)) (upage e) = frame_pte k1 e"
    using scanned_views(1) [OF assms(1)] by (simp add: frame_pte_def)
  show "is_accessed (frame_dir k e) (upage e) (pal k1) = Some (frame_pte k e AND PTE_A \<noteq> 0 \<and> (frame_dir k e, upage e div 4096) \<notin> C)"
    "is_dirty (frame_dir k e) (upage e) (pal k1) = Some (frame_pte k e AND PTE_D \<noteq> 0)"
    unfolding is_accessed_pte [OF ok assms(3)] is_dirty_pte [OF ok assms(3)] w scanned_pte [OF assms] by (auto simp: pte_bits)
qed

lemma dirs_updated_pools: "dirs_updated D pd va v p p' \<Longrightarrow> kernel_pool p' = kernel_pool p \<and> user_pool p' = user_pool p"
  unfolding dirs_updated_def by (metis palloc.select_convs(1,2) palloc.surjective palloc.update_convs(3))

lemma pte_word_page:
  assumes "v div 4096 = v' div 4096" shows "pte_word pd m v = pte_word pd m v'"
proof -
  have "v div 4096 div 1024 = v' div 4096 div 1024" using assms by simp
  then have "v div 2 ^ 22 = v' div 2 ^ 22" by (simp flip: div_mult2_eq)
  with assms show ?thesis by (simp add: pte_word_def Let_def)
qed

text \<open>Clearing one more accessed bit.\<close>

lemma scanned_clear:
  assumes s: "scanned D k C c k1" and d: "frame_dir k e \<in> D" and u: "upage e < PHYS_BASE" and new: "(frame_dir k e, upage e div 4096) \<notin> C"
  shows "\<exists>p. set_accessed (frame_dir k e) (upage e) False (pal k1) = Some p
    \<and> scanned D k (insert (frame_dir k e, upage e div 4096) C) c (k1 \<lparr> pal := p \<rparr>)"
proof -
  from set_accessed_dirs [OF scanned_views(9) [OF s] d u] obtain p where
    p: "set_accessed (frame_dir k e) (upage e) False (pal k1) = Some p"
       "dirs_updated D (frame_dir k e) (upage e) (pte_word (frame_dir k e) (ram (pal k1)) (upage e) AND not_u32 PTE_A) (pal k1) p" by blast
  from s obtain p1 s1 where k1: "k1 = k \<lparr> pal := p1, CLOCK_HAND := c, swap_st := s1 \<rparr>" "get_swap k1 = get_swap k"
    and b: "bits_cleared D C (pal k) p1" by (rule scannedE)
  have w: "pte_word (frame_dir k e) (ram p1) (upage e) = pte_word (frame_dir k e) (ram (pal k)) (upage e)"
    using b d u new by (simp add: bits_cleared_def)
  have up: "pte_word pd (ram p) v = (if (pd, v div 4096) \<in> insert (frame_dir k e, upage e div 4096) C
      then pte_word pd (ram (pal k)) v AND not_u32 PTE_A else pte_word pd (ram (pal k)) v)" if "pd \<in> D" "v < PHYS_BASE" for pd v
  proof (cases "pd = frame_dir k e \<and> v div 4096 = upage e div 4096")
    case True
    with that p(2) w pte_word_page [of v "upage e" pd "ram (pal k)"] show ?thesis by (simp add: dirs_updated_def k1(1))
  next
    case False
    with that p(2) b show ?thesis by (auto simp: dirs_updated_def bits_cleared_def k1(1))
  qed
  have "kernel_pool p = kernel_pool p1" "user_pool p = user_pool p1" using dirs_updated_pools [OF p(2)] by (simp_all add: k1(1))
  with up p(2) b have "bits_cleared D (insert (frame_dir k e, upage e div 4096) C) (pal k) p"
    by (simp add: dirs_updated_def bits_cleared_def k1(1))
  then have "scanned D k (insert (frame_dir k e, upage e div 4096) C) c (k1 \<lparr> pal := p \<rparr>)"
    by (rule scannedI [rotated 2]) (use k1 in \<open>cases k, auto simp: get_swap_def\<close>)+
  with p(1) show ?thesis by blast
qed

text \<open>Where the page of the victim is afterwards.\<close>

definition page_kept :: "('m, 'z) vmk \<Rightarrow> frame_entry \<Rightarrow> ('m, 'z) vmk \<Rightarrow> bool" where
  "page_kept k e k' \<longleftrightarrow> (if must_save k e
     then \<exists>slot. saved_in slot (read_mem (kpage e) 4096 (ram (pal k))) (get_swap k) (get_swap k')
       \<and> SPT_TABLE k' = SPT_TABLE (set_location (owner_tid e) (upage e) (\<lambda>_. InSwap slot) k)
       \<and> (get_spt (owner_tid e) k = Some None \<and> SWAP_MAP k \<noteq> None \<longrightarrow> get_swap_slot (owner_tid e) (upage e) k' = Some slot)
     else get_swap k' = get_swap k \<and> SPT_TABLE k' = SPT_TABLE (set_location (owner_tid e) (upage e) clean_location k))"

lemma get_put_swap [simp]: "get_swap (put_swap s k) = s"
  by (simp add: get_swap_def put_swap_def)

lemma set_location_none: "get_spt n k = Some None \<Longrightarrow> SPT_TABLE (set_location n va f k) = SPT_TABLE k"
  by (auto simp: get_spt_def set_location_def split: Option.bind_splits)

lemma set_location_swap [simp]: "get_swap (set_location n va f k) = get_swap k" "pal (set_location n va f k) = pal k"
  "FRAME_TABLE (set_location n va f k) = FRAME_TABLE k" "CLOCK_HAND (set_location n va f k) = CLOCK_HAND k"
  by (simp_all add: set_location_def get_swap_def)

lemma put_swap_fields [simp]: "pal (put_swap s k) = pal k" "FRAME_TABLE (put_swap s k) = FRAME_TABLE k" "CLOCK_HAND (put_swap s k) = CLOCK_HAND k"
  "SPT_TABLE (put_swap s k) = SPT_TABLE k" "SWAP_MAP (put_swap s k) = SWAP_MAP k"
  "SPT_TABLE (set_location n va f (put_swap s k)) = SPT_TABLE (set_location n va f k)"
  by (simp_all add: put_swap_def set_location_def)

text \<open>Saving a page: in a full swap area it changes nothing that matters, otherwise the page is kept.\<close>

lemma save_page_spec:
  assumes t: "get_spt (owner_tid e) k = Some ot" and sw: "swap_ok (get_swap k)" and m: "must_save k e = needs_swap (frame_type k e) dirty"
  shows "must_save k e \<and> \<not> swap_room (get_swap k) \<and> save_page e dirty k = Some (False, put_swap (get_swap k) k)
    \<or> (must_save k e \<longrightarrow> swap_room (get_swap k)) \<and> (\<exists>k'. save_page e dirty k = Some (True, k') \<and> page_kept k e k'
         \<and> pal k' = pal k \<and> FRAME_TABLE k' = FRAME_TABLE k \<and> CLOCK_HAND k' = CLOCK_HAND k)"
proof -
  have ty: "(case ot of None \<Rightarrow> None | Some t \<Rightarrow> map_option (\<lambda>s. (page_type s, read_bytes s)) (spt_find (upage e) t)) = frame_type k e"
    by (simp add: frame_type_def t split: option.splits)
  show ?thesis
  proof (cases "must_save k e")
    case False
    then have "save_page e dirty k = Some (True, if ot \<noteq> None then set_location (owner_tid e) (upage e) clean_location k else k)"
      using m by (simp add: save_page_def t ty Let_def)
    with False show ?thesis using set_location_none [of "owner_tid e" k] t by (auto simp: page_kept_def)
  next
    case True
    note save = save_page_def [of e dirty k, unfolded t bind.bind_lunit Let_def, unfolded ty]
    have n: "needs_swap (frame_type k e) dirty" using True m by simp
    show ?thesis
    proof (cases "swap_room (get_swap k)")
      case False
      with swap_out_full [OF sw False] True n show ?thesis by (simp add: save)
    next
      case room: True
      from swap_out_spec [OF sw room, of "ram (pal k)" "kpage e"] obtain slot s1 where
        s1: "swap_out (ram (pal k)) (kpage e) (get_swap k) = Some (Some slot, s1)"
          "saved_in slot (read_mem (kpage e) 4096 (ram (pal k))) (get_swap k) s1" by blast
      show ?thesis
      proof (cases ot)
        case None
        have "get_swap (put_swap s1 k \<lparr> SWAP_MAP := x \<rparr>) = s1" for x by (simp add: get_swap_def put_swap_def)
        with None s1 n True room t show ?thesis
          by (auto simp: save page_kept_def get_swap_slot_def set_location_none)
      next
        case (Some t')
        with s1 n True room t show ?thesis by (auto simp: save page_kept_def)
      qed
    qed
  qed
qed

text \<open>The victim is out of the table and unmapped, and apart from accessed bits nothing else changes.\<close>

definition evicted :: "nat set \<Rightarrow> ('m, 'z) vmk \<Rightarrow> frame_entry list \<Rightarrow> nat \<Rightarrow> ('m, 'z) vmk \<Rightarrow> bool" where
  "evicted D k ft h k' \<longleftrightarrow> FRAME_TABLE k' = Some (remove_at h ft) \<and> page_kept k (ft ! h) k'
     \<and> (\<forall>x \<ge> base (user_pool (pal k)). ram (pal k') x = ram (pal k) x)
     \<and> (\<forall>pd \<in> D. \<forall>u < PHYS_BASE. if pd = frame_dir k (ft ! h) \<and> u div 4096 = upage (ft ! h) div 4096
          then pte_word pd (ram (pal k')) u = 0
          else pte_word pd (ram (pal k')) u AND not_u32 PTE_A = pte_word pd (ram (pal k)) u AND not_u32 PTE_A)"

lemma scanned_put_swap:
  assumes "scanned D k C c k1" shows "scanned D k C c (put_swap (get_swap k1) k1)"
proof -
  from assms obtain p s where k1: "k1 = k \<lparr> pal := p, CLOCK_HAND := c, swap_st := s \<rparr>" "get_swap k1 = get_swap k"
    and b: "bits_cleared D C (pal k) p" by (rule scannedE)
  have "put_swap (get_swap k1) k1 = k1 \<lparr> swap_st := get_swap k1 \<rparr>" by (simp add: put_swap_def get_swap_def)
  also have "\<dots> = k \<lparr> pal := p, CLOCK_HAND := c, swap_st := get_swap k1 \<rparr>" by (simp add: k1(1))
  finally show ?thesis by (rule scannedI [OF _ _ b]) (simp add: k1(2))
qed

lemma scanned_must_save:
  assumes "scanned D k C c k1" and "frame_dir k e \<in> D" and "upage e < PHYS_BASE"
  shows "must_save k1 e = must_save k e" "must_save k e = needs_swap (frame_type k e) (frame_pte k e AND PTE_D \<noteq> 0)"
  unfolding must_save_def scanned_views(3) [OF assms(1)] scanned_pte [OF assms] by (simp_all add: pte_bits)

lemma scanned_mem:
  assumes "scanned D k C c k1"
  shows "user_pool (pal k1) = user_pool (pal k)" "x \<ge> base (user_pool (pal k)) \<Longrightarrow> ram (pal k1) x = ram (pal k) x"
  by (rule scannedE [OF assms]; simp add: bits_cleared_def)+

lemma scanned_page_kept:
  assumes s: "scanned D k C c k1" and d: "frame_dir k e \<in> D" "upage e < PHYS_BASE" and kp: "base (user_pool (pal k)) \<le> kpage e"
    and p: "page_kept k1 e k2" and k': "get_swap k' = get_swap k2" "SPT_TABLE k' = SPT_TABLE k2" "SWAP_MAP k' = SWAP_MAP k2"
  shows "page_kept k e k'"
proof -
  have r: "read_mem (kpage e) 4096 (ram (pal k1)) = read_mem (kpage e) 4096 (ram (pal k))"
    unfolding read_mem_def using scanned_mem(2) [OF s] kp by auto
  have l: "SPT_TABLE (set_location n va f k1) = SPT_TABLE (set_location n va f k)" for n va f
    using scanned_views(8) [OF s] by (simp add: set_location_def)
  have g: "get_swap_slot n va k' = get_swap_slot n va k2" for n va by (simp add: get_swap_slot_def k'(3))
  show ?thesis
    using p unfolding page_kept_def scanned_must_save(1) [OF s d] r l g k' scanned_views(2,4,10) [OF s] .
qed

lemma get_swap_pal [simp]: "get_swap (k \<lparr> pal := p \<rparr>) = get_swap k"
  by (simp add: get_swap_def)

lemma drop_frame_fields [simp]:
  "pal (drop_frame h ft k) = pal k" "get_swap (drop_frame h ft k) = get_swap k" "SPT_TABLE (drop_frame h ft k) = SPT_TABLE k"
  "SWAP_MAP (drop_frame h ft k) = SWAP_MAP k" "FRAME_TABLE (drop_frame h ft k) = Some (remove_at h ft)"
  "CLOCK_HAND (drop_frame h ft k) = CLOCK_HAND k - 1"
  by (simp_all add: drop_frame_def Let_def get_swap_def)

text \<open>The last step of a successful round.\<close>

lemma evicted_victim:
  assumes s: "scanned D k C c k1" and d: "frame_dir k (ft ! h) \<in> D" "upage (ft ! h) < PHYS_BASE"
    and kp: "base (user_pool (pal k)) \<le> kpage (ft ! h)" and k2: "page_kept k1 (ft ! h) k2" "pal k2 = pal k1"
  shows "\<exists>p. clear_page (frame_dir k (ft ! h)) (upage (ft ! h)) (pal k2) = Some p \<and> evicted D k ft h (drop_frame h ft (k2 \<lparr> pal := p \<rparr>))"
proof -
  let ?e = "ft ! h"
  have "dirs_ok D (pal k2)" using scanned_views(9) [OF s] k2(2) by simp
  from clear_page_dirs [OF this d] obtain p where
    p: "clear_page (frame_dir k ?e) (upage ?e) (pal k2) = Some p" "dirs_updated D (frame_dir k ?e) (upage ?e) 0 (pal k2) p" by blast
  let ?k = "drop_frame h ft (k2 \<lparr> pal := p \<rparr>)"
  have "page_kept k ?e ?k" by (rule scanned_page_kept [OF s d kp k2(1)]) simp_all
  moreover have "ram p x = ram (pal k) x" if "x \<ge> base (user_pool (pal k))" for x
    using p(2) scanned_mem [OF s] k2(2) that by (simp add: dirs_updated_def)
  moreover have "pte_word pd (ram p) u AND not_u32 PTE_A = pte_word pd (ram (pal k)) u AND not_u32 PTE_A"
    if "pd \<in> D" "u < PHYS_BASE" "\<not> (pd = frame_dir k ?e \<and> u div 4096 = upage ?e div 4096)" for pd u
  proof -
    from s obtain p1 s1 where "k1 = k \<lparr> pal := p1, CLOCK_HAND := c, swap_st := s1 \<rparr>" "bits_cleared D C (pal k) p1" by (rule scannedE)
    then have "pte_word pd (ram p) u \<in> {pte_word pd (ram (pal k)) u AND not_u32 PTE_A, pte_word pd (ram (pal k)) u}"
      using p(2) that k2(2) by (auto simp: dirs_updated_def bits_cleared_def)
    then show ?thesis by (auto simp: and.assoc)
  qed
  moreover have "pte_word pd (ram p) u = 0" if "pd \<in> D" "u < PHYS_BASE" "pd = frame_dir k ?e" "u div 4096 = upage ?e div 4096" for pd u
    using p(2) that by (simp add: dirs_updated_def)
  ultimately have "evicted D k ft h ?k" by (auto simp: evicted_def)
  with p(1) show ?thesis by blast
qed

lemma upage_ok_base: "upage_ok p a \<Longrightarrow> base (user_pool p) \<le> a"
  by (auto simp: upage_ok_def)

lemma vm_okD:
  assumes "vm_ok D k ft" and "h < length ft" and "frame_dir k (ft ! h) \<noteq> 0"
  shows "frame_dir k (ft ! h) \<in> D" "upage (ft ! h) < PHYS_BASE" "base (user_pool (pal k)) \<le> kpage (ft ! h)"
proof -
  have e: "ft ! h \<in> set ft" using assms(2) by simp
  with assms(1,3) show "frame_dir k (ft ! h) \<in> D" "upage (ft ! h) < PHYS_BASE" by (auto simp: vm_ok_def)
  from assms(1) e have "upage_ok (pal k) (kpage (ft ! h))" by (auto simp: vm_ok_def elim!: frames_okE)
  then show "base (user_pool (pal k)) \<le> kpage (ft ! h)" by (rule upage_ok_base)
qed

text \<open>One round with the hand at \<open>c\<close>: the frame gets its second chance, is passed over, or is evicted.\<close>

definition second_chance :: "('m, 'z) vmk \<Rightarrow> frame_entry \<Rightarrow> bool" where
  "second_chance k e \<longleftrightarrow> \<not> pinned e \<and> frame_dir k e \<noteq> 0 \<and> frame_pte k e AND PTE_A \<noteq> 0"

definition page_id :: "('m, 'z) vmk \<Rightarrow> frame_entry \<Rightarrow> nat \<times> nat" where
  "page_id k e = (frame_dir k e, upage e div 4096)"

lemma evict_round:
  assumes vm: "vm_ok D k ft" and ne: "ft \<noteq> []" and s: "scanned D k C c k1" and c: "c + 1 < 2 ^ 32" and e: "e = ft ! (c mod length ft)"
  shows "if second_chance k e \<and> page_id k e \<notin> C
      then \<exists>k2. evict_try ft k1 = Some (None, k2) \<and> scanned D k (insert (page_id k e) C) (c + 1) k2
    else if evictable k e
      then \<exists>k2. evict_try ft k1 = Some (Some (kpage e), k2) \<and> evicted D k ft (c mod length ft) k2 \<and> CLOCK_HAND k2 = c
    else \<exists>k2. evict_try ft k1 = Some (None, k2) \<and> scanned D k C (c + 1) k2"
proof -
  define h where "h = c mod length ft"
  have h: "h < length ft" using ne by (simp add: h_def)
  define k2 where "k2 = k1 \<lparr> CLOCK_HAND := c + 1 \<rparr>"
  have s2: "scanned D k C (c + 1) k2" unfolding k2_def by (rule scanned_hand [OF s])
  have hand: "CLOCK_HAND k1 mod length ft = h" "k1 \<lparr> CLOCK_HAND := (CLOCK_HAND k1 + 1) mod 2 ^ 32 \<rparr> = k2" "idx ft h = Some e"
    using scanned_views(6) [OF s] c h e by (simp_all add: h_def k2_def idx_def)
  note round = evict_try_def [of ft k1, unfolded Let_def hand bind.bind_lunit]
  show ?thesis
  proof (cases "pinned e")
    case True
    with s2 show ?thesis by (simp add: round second_chance_def evictable_def)
  next
    case np: False
    have "get_pagedir_by_tid (owner_tid e) k \<noteq> None" using vm by (auto simp: vm_ok_def get_pagedir_by_tid_def)
    then have pd: "get_pagedir_by_tid (owner_tid e) k2 = Some (frame_dir k e)"
      unfolding scanned_views(5) [OF s2] frame_dir_def by auto
    show ?thesis
    proof (cases "frame_dir k e = 0")
      case True
      with s2 np pd show ?thesis by (simp add: round second_chance_def evictable_def)
    next
      case nz: False
      note d = vm_okD [OF vm h, folded h_def e [folded h_def], OF nz]
      note fl = scanned_flags [OF s2 d(1,2)]
      obtain ot where ot: "get_spt (owner_tid e) k2 = Some ot" using vm unfolding scanned_views(2) [OF s2] by (auto simp: vm_ok_def get_spt_def)
      have sw: "swap_ok (get_swap k2)" using vm unfolding scanned_views(4) [OF s2] by (simp add: vm_ok_def)
      have ms: "must_save k2 e = needs_swap (frame_type k2 e) (frame_pte k e AND PTE_D \<noteq> 0)"
        using scanned_must_save [OF s2 d(1,2)] unfolding scanned_views(3) [OF s2] by simp
      show ?thesis
      proof (cases "second_chance k e \<and> page_id k e \<notin> C")
        case True
        from scanned_clear [OF s2 d(1,2)] True obtain p where "set_accessed (frame_dir k e) (upage e) False (pal k2) = Some p"
          "scanned D k (insert (page_id k e) C) (c + 1) (k2 \<lparr> pal := p \<rparr>)" by (auto simp: page_id_def)
        with True np nz pd fl show ?thesis by (simp add: round second_chance_def page_id_def)
      next
        case False
        with np nz have acc: "is_accessed (frame_dir k e) (upage e) (pal k2) = Some False"
          unfolding fl(1) by (auto simp: second_chance_def page_id_def)
        from save_page_spec [OF ot sw ms] show ?thesis
        proof
          assume a: "must_save k2 e \<and> \<not> swap_room (get_swap k2) \<and> save_page e (frame_pte k e AND PTE_D \<noteq> 0) k2 = Some (False, put_swap (get_swap k2) k2)"
          then have "\<not> evictable k e" using scanned_must_save(1) [OF s2 d(1,2)] scanned_views(4) [OF s2] by (simp add: evictable_def)
          with a np nz pd fl acc scanned_put_swap [OF s2] show ?thesis unfolding if_not_P [OF False] by (simp add: round)
        next
          assume a: "(must_save k2 e \<longrightarrow> swap_room (get_swap k2)) \<and> (\<exists>k'. save_page e (frame_pte k e AND PTE_D \<noteq> 0) k2 = Some (True, k')
            \<and> page_kept k2 e k' \<and> pal k' = pal k2 \<and> FRAME_TABLE k' = FRAME_TABLE k2 \<and> CLOCK_HAND k' = CLOCK_HAND k2)"
          then obtain k3 where k3: "save_page e (frame_pte k e AND PTE_D \<noteq> 0) k2 = Some (True, k3)" "page_kept k2 e k3" "pal k3 = pal k2"
            "CLOCK_HAND k3 = CLOCK_HAND k2" by blast
          have ev: "evictable k e" using a np nz scanned_must_save(1) [OF s2 d(1,2)] scanned_views(4) [OF s2] by (simp add: evictable_def)
          note eh = e [folded h_def]
          from evicted_victim [OF s2 d [unfolded eh] k3(2,3) [unfolded eh]] obtain p where
            p: "clear_page (frame_dir k e) (upage e) (pal k3) = Some p" "evicted D k ft h (drop_frame h ft (k3 \<lparr> pal := p \<rparr>))"
            unfolding eh by blast
          have "CLOCK_HAND (drop_frame h ft (k3 \<lparr> pal := p \<rparr>)) = c" using k3(4) scanned_views(6) [OF s2] by simp
          with p k3(1) np nz pd fl acc ev show ?thesis unfolding if_not_P [OF False] by (simp add: round flip: h_def)
        qed
      qed
    qed
  qed
qed

text \<open>The pages whose accessed bit the first \<open>j\<close> rounds clear.\<close>

definition cleared :: "('m, 'z) vmk \<Rightarrow> frame_entry list \<Rightarrow> nat \<Rightarrow> (nat \<times> nat) set" where
  "cleared k ft j = {page_id k (clock_at k ft i) | i. i < j \<and> second_chance k (clock_at k ft i)}"

lemma cleared_Suc: "cleared k ft (Suc j)
    = (if second_chance k (clock_at k ft j) then insert (page_id k (clock_at k ft j)) (cleared k ft j) else cleared k ft j)"
  unfolding cleared_def by (auto simp: less_Suc_eq)

lemma mod_eq_dist: "(h + i) mod n = (h + j) mod n \<Longrightarrow> i < j \<Longrightarrow> n \<le> j - (i :: nat)"
  using mod_eq_dvd_iff_nat [of "h + i" "h + j" n] by (auto dest: dvd_imp_le)

lemma cleared_iff:
  assumes vm: "vm_ok D k ft" and ne: "ft \<noteq> []" and sc: "second_chance k (clock_at k ft j)"
  shows "page_id k (clock_at k ft j) \<in> cleared k ft j \<longleftrightarrow> length ft \<le> j"
proof
  assume "page_id k (clock_at k ft j) \<in> cleared k ft j"
  then obtain i where i: "i < j" "page_id k (clock_at k ft i) = page_id k (clock_at k ft j)" by (auto simp: cleared_def)
  let ?a = "(CLOCK_HAND k + i) mod length ft" and ?b = "(CLOCK_HAND k + j) mod length ft"
  have "?a < length ft" "?b < length ft" using ne by simp_all
  moreover have "frame_dir k (ft ! ?a) \<noteq> 0 \<and> frame_dir k (ft ! ?a) = frame_dir k (ft ! ?b) \<and> upage (ft ! ?a) div 4096 = upage (ft ! ?b) div 4096"
    using sc i(2) by (auto simp: clock_at_def page_id_def second_chance_def)
  ultimately have "?a = ?b" using vm unfolding vm_ok_def by blast
  from mod_eq_dist [OF this i(1)] show "length ft \<le> j" by simp
next
  assume j: "length ft \<le> j"
  have "(CLOCK_HAND k + (j - length ft)) mod length ft = (CLOCK_HAND k + j) mod length ft"
    using j by (metis add.assoc le_add_diff_inverse2 mod_add_self2)
  then have "clock_at k ft (j - length ft) = clock_at k ft j" by (simp add: clock_at_def)
  moreover have "j - length ft < j" using j ne by (cases ft) auto
  ultimately show "page_id k (clock_at k ft j) \<in> cleared k ft j" using sc unfolding cleared_def by (auto intro: exI [of _ "j - length ft"])
qed

lemma evict_loop_clock:
  assumes vm: "vm_ok D k ft" and ne: "ft \<noteq> []"
  shows "scanned D k (cleared k ft j) (CLOCK_HAND k + j) k1 \<Longrightarrow> CLOCK_HAND k + j + n < 2 ^ 32 \<Longrightarrow>
    (\<exists>i k'. j \<le> i \<and> i < j + n \<and> clock_pick k ft i \<and> (\<forall>i'. j \<le> i' \<and> i' < i \<longrightarrow> \<not> clock_pick k ft i')
        \<and> evict_loop n ft k1 = Some (Some (kpage (clock_at k ft i)), k')
        \<and> evicted D k ft ((CLOCK_HAND k + i) mod length ft) k' \<and> CLOCK_HAND k' = CLOCK_HAND k + i)
    \<or> (\<forall>i. j \<le> i \<and> i < j + n \<longrightarrow> \<not> clock_pick k ft i)
      \<and> (\<exists>k'. evict_loop n ft k1 = Some (None, k') \<and> scanned D k (cleared k ft (j + n)) (CLOCK_HAND k + j + n) k')"
proof (induction n arbitrary: j k1)
  case 0
  then show ?case by auto
next
  case (Suc n)
  let ?e = "clock_at k ft j"
  have c: "CLOCK_HAND k + j + 1 < 2 ^ 32" "CLOCK_HAND k + Suc j + n < 2 ^ 32" using Suc.prems(2) by simp_all
  note R = evict_round [OF vm ne Suc.prems(1) c(1) clock_at_def]
  have pick: "clock_pick k ft j \<longleftrightarrow> evictable k ?e \<and> \<not> (second_chance k ?e \<and> page_id k ?e \<notin> cleared k ft j)"
    using cleared_iff [OF vm ne, of j] unfolding clock_pick_def evictable_def second_chance_def by argo
  show ?case
  proof (cases "clock_pick k ft j")
    case True
    with R pick obtain k2 where "evict_try ft k1 = Some (Some (kpage ?e), k2)" "evicted D k ft ((CLOCK_HAND k + j) mod length ft) k2"
      "CLOCK_HAND k2 = CLOCK_HAND k + j" by (auto split: if_splits)
    with True show ?thesis by (intro disjI1 exI [of _ j] exI [of _ k2]) auto
  next
    case False
    have "cleared k ft (Suc j) = (if second_chance k ?e \<and> page_id k ?e \<notin> cleared k ft j then insert (page_id k ?e) (cleared k ft j) else cleared k ft j)"
      by (auto simp: cleared_Suc)
    with R pick False obtain k2 where k2: "evict_try ft k1 = Some (None, k2)" "scanned D k (cleared k ft (Suc j)) (CLOCK_HAND k + Suc j) k2"
      by (auto split: if_splits)
    have l: "evict_loop (Suc n) ft k1 = evict_loop n ft k2" by (simp add: k2(1))
    have le: "j \<le> i' \<longleftrightarrow> i' = j \<or> Suc j \<le> i'" for i' by auto
    from Suc.IH [OF k2(2) c(2)] show ?thesis
    proof
      assume "\<exists>i k'. Suc j \<le> i \<and> i < Suc j + n \<and> clock_pick k ft i \<and> (\<forall>i'. Suc j \<le> i' \<and> i' < i \<longrightarrow> \<not> clock_pick k ft i')
        \<and> evict_loop n ft k2 = Some (Some (kpage (clock_at k ft i)), k')
        \<and> evicted D k ft ((CLOCK_HAND k + i) mod length ft) k' \<and> CLOCK_HAND k' = CLOCK_HAND k + i"
      then obtain i k' where "Suc j \<le> i" "i < Suc j + n" "clock_pick k ft i" "\<forall>i'. Suc j \<le> i' \<and> i' < i \<longrightarrow> \<not> clock_pick k ft i'"
        "evict_loop n ft k2 = Some (Some (kpage (clock_at k ft i)), k')"
        "evicted D k ft ((CLOCK_HAND k + i) mod length ft) k' \<and> CLOCK_HAND k' = CLOCK_HAND k + i" by blast
      with False show ?thesis unfolding l by (intro disjI1 exI [of _ i] exI [of _ k']) (auto simp: le)
    next
      assume "(\<forall>i. Suc j \<le> i \<and> i < Suc j + n \<longrightarrow> \<not> clock_pick k ft i)
        \<and> (\<exists>k'. evict_loop n ft k2 = Some (None, k') \<and> scanned D k (cleared k ft (Suc j + n)) (CLOCK_HAND k + Suc j + n) k')"
      with False show ?thesis unfolding l by (intro disjI2) (auto simp: le)
    qed
  qed
qed

lemma clock_reaches:
  assumes "m < n" shows "\<exists>i. n \<le> i \<and> i < 2 * n \<and> (h + i) mod n = (m :: nat)"
proof -
  let ?i = "n + (m + (n - h mod n)) mod n"
  have "(h + ?i) mod n = (h mod n + (m + (n - h mod n))) mod n" by (simp add: mod_simps add.assoc) (metis add.left_commute mod_add_left_eq mod_add_right_eq mod_add_self1)
  also have "h mod n + (m + (n - h mod n)) = m + n" using assms mod_less_divisor [of n h] by linarith
  finally have "(h + ?i) mod n = m" using assms by simp
  moreover have "?i < 2 * n" using assms by simp
  ultimately show ?thesis by (intro exI [of _ ?i]) simp
qed

section \<open>Properties\<close>

text \<open>C10: \<open>evict_frame\<close> is the second-chance clock. If some frame can be evicted - not pinned, mapped, and clean or with a free swap slot -
  then it returns the page of the first frame, in the order of the hand, whose accessed bit is clear or that the hand
  reaches for the second time; the frame leaves the table, its mapping is removed, the page is in a swap slot that was free,
  recorded in the owner's table, or marked as to be read again; every other mapping is kept up to its accessed bit,
  and no page of the user pool changes. Otherwise it returns no page and changes only accessed bits. It never panics.\<close>

theorem evict_second_chance:
  assumes vm: "vm_ok D k ft" and ne: "ft \<noteq> []" and hand: "CLOCK_HAND k + 2 * length ft < 2 ^ 32"
  shows "if \<exists>e \<in> set ft. evictable k e
    then \<exists>j < 2 * length ft. clock_pick k ft j \<and> (\<forall>i < j. \<not> clock_pick k ft i)
      \<and> (\<exists>k'. evict_frame k = Some (Some (kpage (clock_at k ft j)), k')
           \<and> evicted D k ft ((CLOCK_HAND k + j) mod length ft) k' \<and> CLOCK_HAND k' = CLOCK_HAND k + j)
    else \<exists>k' C. evict_frame k = Some (None, k') \<and> scanned D k C (CLOCK_HAND k + 2 * length ft) k'"
proof -
  have st: "scanned D k (cleared k ft 0) (CLOCK_HAND k + 0) k" using vm scanned_start by (auto simp: cleared_def vm_ok_def)
  have ev: "evict_frame k = evict_loop (2 * length ft) ft k" using vm ne hand by (simp add: evict_frame_def vm_ok_def mul_usize_def)
  have pick: "(\<exists>e \<in> set ft. evictable k e) \<longleftrightarrow> (\<exists>j < 2 * length ft. clock_pick k ft j)"
  proof
    assume "\<exists>e \<in> set ft. evictable k e"
    then obtain m where m: "m < length ft" "evictable k (ft ! m)" by (auto simp: in_set_conv_nth)
    with clock_reaches [OF m(1), of "CLOCK_HAND k"] show "\<exists>j < 2 * length ft. clock_pick k ft j" by (auto simp: clock_pick_def clock_at_def)
  next
    assume "\<exists>j < 2 * length ft. clock_pick k ft j"
    then show "\<exists>e \<in> set ft. evictable k e" using ne by (auto simp: clock_pick_def clock_at_def intro!: bexI [OF _ nth_mem])
  qed
  from evict_loop_clock [OF vm ne st, of "2 * length ft"] hand show ?thesis unfolding ev pick by (auto 0 4)
qed

lemma sample_frame_dir: "owner_tid e = 1 \<Longrightarrow> frame_dir sample_vm e = 0xC0200000"
  by (simp add: frame_dir_def get_pagedir_by_tid_def thr_def sample_vm_def)

lemma sample_frames: "FRAME_TABLE sample_vm = Some [\<lparr> kpage = 0xC0300000, upage = 0x8048000, owner_tid = 1, pinned = True \<rparr>,
    \<lparr> kpage = 0xC0302000, upage = 0x8049000, owner_tid = 1, pinned = False \<rparr>]" "ALL_LIST sample_vm \<noteq> None" "SPT_TABLE sample_vm \<noteq> None"
  by (simp_all add: sample_vm_def)

lemma sample_vm_ok: "vm_ok {0xC0200000} sample_vm (the (FRAME_TABLE sample_vm))"
proof -
  have p: "palloc_ok sample_pd" using sample_pd_ok by (simp add: pd_ok_def)
  have u: "upage_ok sample_pd 0xC0300000" "upage_ok sample_pd 0xC0302000"
    unfolding upage_ok_def
    by (rule exI [of _ 0], simp add: npages_def used_def the_pool_def sample_pd_def sample_palloc_def array_bit_def,
        rule exI [of _ 2], simp add: npages_def used_def the_pool_def sample_pd_def sample_palloc_def array_bit_def PGSIZE_def)
  have "index_ok (the (FRAME_TABLE sample_vm)) [0xC0300000 \<mapsto> 0, 0xC0302000 \<mapsto> 1]"
    by (rule index_okI) (auto simp: sample_vm_def less_Suc_eq)
  then have f: "frames_ok sample_vm" using p u by (simp add: frames_ok_def sample_vm_def)
  have d: "dirs_ok {0xC0200000} (pal sample_vm)" using sample_pd_ok by (simp add: dirs_ok_def sample_vm_def)
  have s: "swap_ok (get_swap sample_vm)" by (simp add: swap_ok_def get_swap_def sample_vm_def sample_swap_def)
  show ?thesis
    unfolding vm_ok_def using f d s by (simp add: sample_frames sample_frame_dir PHYS_BASE_def less_Suc_eq all_conj_distrib)
qed

theorem evict_second_chance_witness: "\<exists>k'. evict_frame sample_vm = Some (Some 0xC0302000, k') \<and> CLOCK_HAND k' = 5"
proof -
  let ?f = "the (FRAME_TABLE sample_vm)"
  note ft = sample_frames(1) [THEN arg_cong [where f = the], unfolded option.sel]
  have hand: "CLOCK_HAND sample_vm = 4" "CLOCK_HAND sample_vm + 2 * length ?f < 2 ^ 32" by (simp_all add: sample_vm_def)
  have z: "frame_pte sample_vm e = 0" for e by (simp add: frame_pte_def pte_word_def pde_of_def peek32_def sample_vm_def sample_pd_def bytes_u32_def)
  have e: "evictable sample_vm (?f ! 1)"
    by (simp add: ft evictable_def sample_frame_dir must_save_def z needs_swap_def split: option.splits page_type.splits)
  have at: "clock_at sample_vm ?f 0 = ?f ! 0" "clock_at sample_vm ?f 1 = ?f ! 1"
    by (simp_all add: clock_at_def hand ft flip: numeral_2_eq_2)
  have p0: "\<not> clock_pick sample_vm ?f 0" unfolding clock_pick_def at by (simp add: ft evictable_def)
  have p1: "clock_pick sample_vm ?f 1" unfolding clock_pick_def at using e z by simp
  have "\<exists>e \<in> set ?f. evictable sample_vm e" using e ft by auto
  with evict_second_chance [OF sample_vm_ok _ hand(2)] ft obtain j k' where
    j: "clock_pick sample_vm ?f j" "\<forall>i < j. \<not> clock_pick sample_vm ?f i"
      "evict_frame sample_vm = Some (Some (kpage (clock_at sample_vm ?f j)), k')" "CLOCK_HAND k' = CLOCK_HAND sample_vm + j" by auto
  have "j = 1" using j(1,2) p0 p1 by (metis One_nat_def less_one linorder_neqE_nat)
  with j(3,4) at(2) show ?thesis by (simp add: hand(1) ft)
qed

end
