(* ===== verification/AddrGrow.thy ===== *)
theory AddrGrow
  imports AddrSpaces
begin

section \<open>Address spaces that grow\<close>

text \<open>
  \<open>set_page\<close> among several directories: a new page table comes from the free pages of the kernel pool, so it belongs to no other
  directory. The number of free pages of a pool tells when it succeeds.
\<close>

unbundle bit_operations_syntax

definition pfree :: "palloc \<Rightarrow> bool \<Rightarrow> nat" where
  "pfree p u = card {i. i < npages p u \<and> \<not> used p u i}"

lemma pfree_pos: "0 < pfree p u \<longleftrightarrow> (\<exists>i < npages p u. \<not> used p u i)"
  by (auto simp: pfree_def card_gt_0_iff)

lemma kernel_full_pfree: "kernel_full p \<longleftrightarrow> pfree p False = 0"
  using pfree_pos [of p False] by (auto simp: kernel_full_def)

lemma pfree_ram [simp]: "pfree (p \<lparr> ram := m \<rparr>) u = pfree p u"
  by (simp add: pfree_def npages_def used_def)

lemma pfree_allocated:
  assumes "allocated p u i 1 p'" and "i < npages p u" and "\<not> used p u i"
  shows "pfree p u = Suc (pfree p' u)" "pfree p' (\<not> u) = pfree p (\<not> u)"
proof -
  have "{j. j < npages p u \<and> \<not> used p u j} = insert i {j. j < npages p' u \<and> \<not> used p' u j}"
    using assms by (auto simp: allocated_def)
  moreover have "i \<notin> {j. j < npages p' u \<and> \<not> used p' u j}" using assms(1) by (simp add: allocated_def)
  ultimately show "pfree p u = Suc (pfree p' u)" by (simp add: pfree_def)
  show "pfree p' (\<not> u) = pfree p (\<not> u)" using assms(1) by (simp add: allocated_def pfree_def npages_def used_def)
qed

text \<open>Allocating a table: \<open>alloc_table\<close> with the count of free pages.\<close>

lemma alloc_table_free:
  assumes ok: "palloc_ok p" and g: "get_page {ZERO} p = Some (pt, p')" and pt: "pt \<noteq> 0"
  shows "pfree p False = Suc (pfree p' False)" "pfree p' True = pfree p True"
proof -
  from get_multiple_spec [OF ok, of 1 False "{ZERO}"] g pt obtain i where
    "first_fit (used p False) (npages p False) False 1 0 (Some i)" "allocated p False i 1 p'" by (auto simp: get_page_def)
  with pfree_allocated [of p False i p'] show "pfree p False = Suc (pfree p' False)" "pfree p' True = pfree p True"
    by (auto simp: first_fit_def run_at_def)
qed

text \<open>A change of memory outside the pages of a directory.\<close>

lemma pd_unchanged:
  assumes ok: "pd_ok pd p" and k: "palloc_ok p'" "base (kernel_pool p') = base (kernel_pool p)" "\<And>a. kpage_ok p a \<Longrightarrow> kpage_ok p' a"
    and m: "\<And>t x. t \<in> pd_pages pd (ram p) \<Longrightarrow> t \<le> x \<Longrightarrow> x < t + 4096 \<Longrightarrow> ram p' x = ram p x"
  shows "pd_ok pd p'" "pd_pages pd (ram p') = pd_pages pd (ram p)" "\<And>d. d < 768 \<Longrightarrow> pde_of pd (ram p') d = pde_of pd (ram p) d"
    "\<And>u. u < PHYS_BASE \<Longrightarrow> pte_word pd (ram p') u = pte_word pd (ram p) u"
proof -
  have peek: "peek32 (ram p') (t + 4 * i) = peek32 (ram p) (t + 4 * i)" if "t \<in> pd_pages pd (ram p)" "i < 1024" for t i
    using m [OF that(1)] that(2) by (simp add: peek32_def)
  show pde: "pde_of pd (ram p') d = pde_of pd (ram p) d" if "d < 768" for d
    unfolding pde_of_def using peek [of pd d] that by (simp add: pd_pages_def)
  show "pd_pages pd (ram p') = pd_pages pd (ram p)" unfolding pd_pages_def using pde by metis
  show "pte_word pd (ram p') u = pte_word pd (ram p) u" if "u < PHYS_BASE" for u
    using pde [OF user_index(1) [OF that]] peek [OF entry_page [OF _ that] user_index(2) [of u]] by (simp add: pte_word_def Let_def)
  show "pd_ok pd p'"
    using ok k pde unfolding pd_ok_def by (auto simp del: One_nat_def)
qed

lemma pd_in_pages: "pd \<in> pd_pages pd m"
  by (simp add: pd_pages_def)

lemma pages_apart:
  assumes "4096 dvd t" and "4096 dvd s" and "t \<noteq> s" and "t \<le> x" and "x < t + (4096 :: nat)"
  shows "x < s \<or> s + 4096 \<le> x"
proof -
  from assms(1,2) obtain a b where ab: "t = 4096 * a" "s = 4096 * b" by (auto elim!: dvdE)
  with assms(3) consider "a + 1 \<le> b" | "b + 1 \<le> a" by fastforce
  then show ?thesis by cases (use assms(4,5) ab in auto)
qed

text \<open>One entry of one directory changes; the kernel pool may lose a page.\<close>

definition dirs_grown :: "nat set \<Rightarrow> nat \<Rightarrow> nat \<Rightarrow> nat \<Rightarrow> palloc \<Rightarrow> palloc \<Rightarrow> bool" where
  "dirs_grown D pd va v p p' \<longleftrightarrow> dirs_ok D p' \<and> user_pool p' = user_pool p
     \<and> (\<forall>pd' \<in> D. \<forall>u < PHYS_BASE. pte_word pd' (ram p') u
          = (if pd' = pd \<and> u div 4096 = va div 4096 then v else pte_word pd' (ram p) u))
     \<and> (\<forall>pd' \<in> D. \<forall>d < 768. pde_of pd' (ram p') d = pde_of pd' (ram p) d
          \<or> pd' = pd \<and> d = va div 2 ^ 22 \<and> pde_of pd' (ram p) d = 0 \<and> pfree p False = Suc (pfree p' False))
     \<and> pde_of pd (ram p') (va div 2 ^ 22) \<noteq> 0
     \<and> (pde_of pd (ram p) (va div 2 ^ 22) = 0 \<longrightarrow> pde_of pd (ram p') (va div 2 ^ 22) AND PTE_P \<noteq> 0)
     \<and> (pde_of pd (ram p) (va div 2 ^ 22) \<noteq> 0 \<longrightarrow> pfree p' False = pfree p False)
     \<and> (\<forall>x \<ge> base (user_pool p). ram p' x = ram p x)"

lemma grow_table:
  assumes ok: "dirs_ok D p" and pd: "pd \<in> D" and va: "va < PHYS_BASE" and e: "pde_of pd (ram p) (va div 2 ^ 22) = 0"
    and g: "get_page {ZERO} p = Some (pt, p1)" "pt \<noteq> 0" and pt: "\<not> kpage_ok p pt" "kpage_ok p1 pt" "\<forall>a. kpage_ok p a \<longrightarrow> kpage_ok p1 a"
      "palloc_ok p1" "base (kernel_pool p1) = base (kernel_pool p)" "user_pool p1 = user_pool p" "ram p1 = zero_range pt 4096 (ram p)"
  defines "q \<equiv> p1 \<lparr> ram := poke32 (pd + 4 * (va div 2 ^ 22)) (pt - PHYS_BASE + 7) (ram p1) \<rparr>"
  shows "dirs_ok D q" "\<And>pd' u. pd' \<in> D \<Longrightarrow> u < PHYS_BASE \<Longrightarrow> pte_word pd' (ram q) u = pte_word pd' (ram p) u"
    "\<And>pd' d. pd' \<in> D \<Longrightarrow> d < 768 \<Longrightarrow> pd' \<noteq> pd \<or> d \<noteq> va div 2 ^ 22 \<Longrightarrow> pde_of pd' (ram q) d = pde_of pd' (ram p) d"
    "pde_of pd (ram q) (va div 2 ^ 22) \<noteq> 0" "table (pde_of pd (ram q) (va div 2 ^ 22)) = pt"
    "\<And>x. base (user_pool p) \<le> x \<Longrightarrow> ram q x = ram p x" "user_pool q = user_pool p" "pfree p False = Suc (pfree q False)"
    "pde_of pd (ram q) (va div 2 ^ 22) AND PTE_P \<noteq> 0"
proof -
  let ?d = "va div 2 ^ 22"
  note okpd = dirs_okD [OF ok pd]
  note n = add_table [OF okpd user_index(1) [OF va] e pt]
  have ramq: "ram q = poke32 (pd + 4 * ?d) (pt - PHYS_BASE + 7) (ram p1)" by (simp add: q_def)
  have kq: "kpage_ok q a = kpage_ok p1 a" for a by (simp add: q_def kpage_ok_def npages_def used_def the_pool_def)
  have pagesp: "kpage_ok p t \<and> 4096 dvd t" if "pd' \<in> D" "t \<in> pd_pages pd' (ram p)" for pd' t
    using dirs_okD [OF ok that(1)] pd_pages_aligned(1) [OF dirs_okD [OF ok that(1)] that(2)] that(2) by (auto simp: pd_ok_def pd_pages_def)
  have hi: "PHYS_BASE \<le> base (kernel_pool p1)" using okpd pt(5) by (simp add: pd_ok_def)
  have alpt: "4096 dvd pt" using kpage_facts(1) [OF pt(4) hi pt(2)] .
  have okq: "palloc_ok q" "base (kernel_pool q) = base (kernel_pool p)" using pt(4,5) by (simp_all add: q_def)
  have other: "ram q x = ram p x" if D: "pd' \<in> D" "pd' \<noteq> pd" and t: "t \<in> pd_pages pd' (ram p)" "t \<le> x" "x < t + 4096" for pd' t x
  proof -
    have "pd \<in> pd_pages pd (ram p)" "pd_pages pd (ram p) \<inter> pd_pages pd' (ram p) = {}"
      using ok pd D unfolding dirs_ok_def by (blast intro: pd_in_pages)+
    then have "t \<noteq> pd" using t(1) by blast
    moreover have "t \<noteq> pt" using pagesp [OF D(1) t(1)] pt(1) by blast
    moreover have "4096 dvd pd" using pd_okD(1) [OF okpd, of 0] by simp
    ultimately have "x < pd \<or> pd + 4096 \<le> x" "x < pt \<or> pt + 4096 \<le> x"
      using pages_apart [of t pd x] pages_apart [of t pt x] pagesp [OF D(1) t(1)] alpt t(2,3) by blast+
    with n(7) show ?thesis unfolding ramq by blast
  qed
  have un: "pd_ok pd' q" "pd_pages pd' (ram q) = pd_pages pd' (ram p)" "\<And>d. d < 768 \<Longrightarrow> pde_of pd' (ram q) d = pde_of pd' (ram p) d"
    "\<And>u. u < PHYS_BASE \<Longrightarrow> pte_word pd' (ram q) u = pte_word pd' (ram p) u" if "pd' \<in> D" "pd' \<noteq> pd" for pd'
    using pd_unchanged [OF dirs_okD [OF ok that(1)] okq, unfolded kq] pt(3) other [OF that] by blast+
  have own: "pd_pages pd (ram q) \<subseteq> insert pt (pd_pages pd (ram p))"
  proof
    fix t assume "t \<in> pd_pages pd (ram q)"
    then consider "t = pd" | d where "d < 768" "t = table (pde_of pd (ram q) d)" "pde_of pd (ram q) d \<noteq> 0" by (auto simp: pd_pages_def)
    then show "t \<in> insert pt (pd_pages pd (ram p))"
    proof cases
      case 2
      then show ?thesis using n(6) [OF 2(1)] n(3) by (cases "d = ?d") (auto simp: ramq pd_pages_def)
    qed (simp add: pd_in_pages)
  qed
  have "pd_ok pd q" using n(1) by (simp add: q_def)
  with un(1) have oks: "\<forall>pd' \<in> D. pd_ok pd' q" by blast
  have apart: "pd_pages pd (ram q) \<inter> pd_pages pd' (ram q) = {}" if "pd' \<in> D" "pd' \<noteq> pd" for pd'
  proof -
    have "pd_pages pd (ram p) \<inter> pd_pages pd' (ram p) = {}" using ok pd that unfolding dirs_ok_def by blast
    moreover have "pt \<notin> pd_pages pd' (ram p)" using pagesp [OF that(1)] pt(1) by blast
    ultimately show ?thesis using own un(2) [OF that] by blast
  qed
  show "dirs_ok D q"
    unfolding dirs_ok_def
  proof (intro conjI ballI impI)
    fix a b assume ab: "a \<in> D" "b \<in> D" "a \<noteq> b"
    show "pd_pages a (ram q) \<inter> pd_pages b (ram q) = {}"
    proof (cases "a = pd \<or> b = pd")
      case True
      then show ?thesis using apart ab by blast
    next
      case False
      then have "pd_pages a (ram q) = pd_pages a (ram p)" "pd_pages b (ram q) = pd_pages b (ram p)" using un(2) ab by blast+
      with ok ab show ?thesis by (simp add: dirs_ok_def)
    qed
  qed (use oks in blast)
  show "pte_word pd' (ram q) u = pte_word pd' (ram p) u" if "pd' \<in> D" "u < PHYS_BASE" for pd' u
    using un(4) [OF that(1) _ that(2)] n(4) [OF that(2)] by (cases "pd' = pd") (simp_all add: ramq)
  show "pde_of pd' (ram q) d = pde_of pd' (ram p) d" if "pd' \<in> D" "d < 768" "pd' \<noteq> pd \<or> d \<noteq> ?d" for pd' d
    using un(3) [OF that(1) _ that(2)] n(6) [OF that(2)] that(3) by (cases "pd' = pd") (simp_all add: ramq)
  show "pde_of pd (ram q) ?d \<noteq> 0" "table (pde_of pd (ram q) ?d) = pt" using n(2,3) by (simp_all add: ramq)
  show "pde_of pd (ram q) ?d AND PTE_P \<noteq> 0"
    unfolding ramq n(2) using kpage_facts [OF pt(4) hi pt(2)] by (intro entry_flags(1)) (auto simp: dvd_eq_mod_eq_0)
  show "ram q x = ram p x" if "base (user_pool p) \<le> x" for x using n(5) [OF that] by (simp add: ramq)
  show "user_pool q = user_pool p" using pt(6) by (simp add: q_def)
  have "palloc_ok p" using okpd by (simp add: pd_ok_def)
  from alloc_table_free(1) [OF this g] show "pfree p False = Suc (pfree q False)" by (simp add: q_def)
qed

lemma poke_dirs_pde:
  assumes ok: "dirs_ok D p" and pd: "pd \<in> D" and va: "va < PHYS_BASE" and e: "pde_of pd (ram p) (va div 2 ^ 22) \<noteq> 0"
    and a: "a = table (pde_of pd (ram p) (va div 2 ^ 22)) + 4 * (va div 4096 mod 1024)" and pd': "pd' \<in> D" and d: "d < 768"
  shows "pde_of pd' (poke32 a v (ram p)) d = pde_of pd' (ram p) d"
proof -
  note t = entry_page [OF e va] and i = user_index(2) [of va]
  show ?thesis
  proof (cases "pd' = pd")
    case False
    with poke_other_dir(1) [OF ok pd pd' _ t i refl d] show ?thesis unfolding a by blast
  next
    case True
    have tp: "table (pde_of pd (ram p) (va div 2 ^ 22)) \<noteq> pd"
      using dirs_okD [OF ok pd] user_index(1) [OF va] e by (auto simp: pd_ok_def)
    show ?thesis unfolding a pde_of_def True
      using poke_apart [OF pd_pages_aligned(1) [OF dirs_okD [OF ok pd] t] pd_okD(1) [OF dirs_okD [OF ok pd] d] tp i, of d v "ram p"] d
      by (simp add: pde_of_def)
  qed
qed

lemma set_page_dirs:
  assumes ok: "dirs_ok D p" and pd: "pd \<in> D" and u: "up < PHYS_BASE" "up mod 4096 = 0" and k: "kp mod 4096 = 0" "PHYS_BASE \<le> kp" "kp < 2 ^ 32"
    and room: "pde_of pd (ram p) (up div 2 ^ 22) = 0 \<Longrightarrow> 0 < pfree p False"
  shows "\<exists>p'. set_page pd up kp w p = Some (True, p') \<and> dirs_grown D pd up (kp - PHYS_BASE + (if w then 7 else 5)) p p'"
proof -
  let ?f = "if w then 7 else 5 :: nat" and ?d = "up div 2 ^ 22" and ?j = "up div 4096 mod 1024"
  have fl: "(PTE_P OR PTE_U) OR (if w then PTE_W else 0) = ?f" by (simp add: PTE_P_def PTE_U_def PTE_W_def)
  have kd: "4096 dvd kp" using k(1) by (simp add: dvd_eq_mod_eq_0)
  have tn: "vtop kp = Some (kp - PHYS_BASE)" "(kp - PHYS_BASE) OR ?f = kp - PHYS_BASE + ?f" "kp - PHYS_BASE + ?f < 2 ^ 32"
    using table_new [OF kd k(2,3), of ?f] by (auto split: if_splits)
  let ?v = "kp - PHYS_BASE + ?f"
  have set: "set_page pd up kp w p = Some (True, q \<lparr> ram := poke32 a ?v (ram q) \<rparr>)" if "lookup pd up True p = Some (a, q)" "a \<noteq> 0" for a q
    using that u k tn fl by (simp add: set_page_def)
  have nz: "table x + y \<noteq> 0" for x y by (simp add: table_def PHYS_BASE_def)
  show ?thesis
  proof (cases "pde_of pd (ram p) ?d = 0")
    case False
    let ?a = "table (pde_of pd (ram p) ?d) + 4 * ?j"
    have "dirs_updated D pd up ?v p (p \<lparr> ram := poke32 ?a ?v (ram p) \<rparr>)" by (rule poke_dirs [OF ok pd u(1) False tn(3) refl])
    then have "dirs_grown D pd up ?v p (p \<lparr> ram := poke32 ?a ?v (ram p) \<rparr>)"
      using poke_dirs_pde [OF ok pd u(1) False refl] pd user_index(1) [OF u(1)] False by (simp add: dirs_grown_def dirs_updated_def)
    with set [OF lookup_found [OF dirs_okD [OF ok pd] u(1) False] nz] show ?thesis by blast
  next
    case True
    note okpd = dirs_okD [OF ok pd]
    have pok: "palloc_ok p" "PHYS_BASE \<le> base (kernel_pool p)" using okpd by (auto simp: pd_ok_def)
    from alloc_table [OF this] room [OF True] kernel_full_pfree obtain pt p1 where
      pt: "get_page {ZERO} p = Some (pt, p1)" "pt \<noteq> 0" "\<not> kpage_ok p pt" "kpage_ok p1 pt" "\<forall>a. kpage_ok p a \<longrightarrow> kpage_ok p1 a"
        "palloc_ok p1" "base (kernel_pool p1) = base (kernel_pool p)" "user_pool p1 = user_pool p" "ram p1 = zero_range pt 4096 (ram p)"
      by (metis less_numeral_extra(3))
    define q where "q = p1 \<lparr> ram := poke32 (pd + 4 * ?d) (pt - PHYS_BASE + 7) (ram p1) \<rparr>"
    note gt = grow_table [OF ok pd u(1) True pt, folded q_def]
    let ?a = "pt + 4 * ?j"
    have a: "?a = table (pde_of pd (ram q) ?d) + 4 * ?j" unfolding gt(5) ..
    have up: "dirs_updated D pd up ?v q (q \<lparr> ram := poke32 ?a ?v (ram q) \<rparr>)" by (rule poke_dirs [OF gt(1) pd u(1) gt(4) tn(3) a])
    have pde: "pde_of pd' (poke32 ?a ?v (ram q)) d = pde_of pd' (ram q) d" if "pd' \<in> D" "d < 768" for pd' d
      by (rule poke_dirs_pde [OF gt(1) pd u(1) gt(4) a that])
    have ch: "\<forall>pd' \<in> D. \<forall>d < 768. pde_of pd' (poke32 ?a ?v (ram q)) d = pde_of pd' (ram p) d
        \<or> pd' = pd \<and> d = ?d \<and> pde_of pd' (ram p) d = 0 \<and> pfree p False = Suc (pfree q False)"
      using pde gt(3,8) True by metis
    have "dirs_grown D pd up ?v p (q \<lparr> ram := poke32 ?a ?v (ram q) \<rparr>)"
      using up gt(2,4,6,7,9) ch pde [OF pd user_index(1) [OF u(1)]] True by (simp add: dirs_grown_def dirs_updated_def)
    with set [of ?a q] lookup_new [OF okpd u(1) True pt, folded q_def] pt(2) show ?thesis by auto
  qed
qed

end
