(* ===== verification/PageIn.thy ===== *)
theory PageIn
  imports Evict AddrGrow InodeProps
begin

section \<open>Loading pages on demand\<close>

text \<open>
  What a process sees after a page fault: \<open>load_page\<close> composes the page allocator, the file system or the swap area, and the page
  tables. \<open>page_image\<close> is the content an entry of the supplementary table stands for.
\<close>

definition page_image :: "(sector \<Rightarrow> sector_data) \<Rightarrow> 'm swap \<Rightarrow> spt_entry \<Rightarrow> nat \<Rightarrow> byte" where
  "page_image v s e i = (case location e of
      InSwap slot \<Rightarrow> slot_data s slot ! i
    | OnDisk \<Rightarrow> if page_ofs e \<le> i \<and> i < page_ofs e + read_bytes e \<and> file_offset e + (i - page_ofs e) < file_len v (inode_sector e)
        then file_byte v (inode_sector e) (file_offset e + (i - page_ofs e)) else 0
    | _ \<Rightarrow> 0)"

definition user_room :: "palloc \<Rightarrow> bool" where
  "user_room p \<longleftrightarrow> (\<exists>i < npages p True. \<not> used p True i)"

text \<open>A page that was free, in a pool that is otherwise as before.\<close>

definition fresh_page :: "palloc \<Rightarrow> nat \<Rightarrow> palloc \<Rightarrow> bool" where
  "fresh_page p kp p' \<longleftrightarrow> palloc_ok p' \<and> upage_ok p' kp \<and> \<not> upage_ok p kp \<and> kernel_pool p' = kernel_pool p
     \<and> base (user_pool p') = base (user_pool p) \<and> (\<forall>a. upage_ok p a \<longrightarrow> upage_ok p' a)"

lemma upage_facts:
  assumes ok: "palloc_ok p" and hi: "PHYS_BASE \<le> base (kernel_pool p)" and a: "upage_ok p kp"
  shows "kp mod 4096 = 0" "PHYS_BASE \<le> kp" "kp < 2 ^ 32" "base (user_pool p) \<le> kp"
proof -
  from a obtain i where i: "i < npages p True" "kp = base (user_pool p) + i * PGSIZE" by (auto simp: upage_ok_def)
  have u: "pool_ok (user_pool p)" "pool_end (kernel_pool p) \<le> base (user_pool p)" using ok by (simp_all add: palloc_ok_def)
  have "4096 dvd base (user_pool p)" using u(1) by (simp add: pool_ok_def PGSIZE_def)
  then show "kp mod 4096 = 0" unfolding i(2) PGSIZE_def by (metis dvd_add dvd_triv_right mod_eq_0_iff_dvd)
  show "base (user_pool p) \<le> kp" using i(2) by simp
  show "PHYS_BASE \<le> kp" using hi u(2) i(2) by (simp add: pool_end_def)
  have "i * PGSIZE < npages p True * PGSIZE" using i(1) by (simp add: PGSIZE_def)
  then show "kp < 2 ^ 32" using u(1) i(2) by (simp add: pool_ok_def pool_end_def npages_def the_pool_def PGSIZE_def)
qed

lemma alloc_frame_room:
  assumes ok: "frames_ok k" and room: "user_room (pal k)"
  shows "\<exists>kp p'. alloc_frame up n k = Some (kp, register_frame kp up n (k \<lparr> pal := p' \<rparr>)) \<and> kp \<noteq> 0 \<and> fresh_page (pal k) kp p'
    \<and> ram p' = zero_range kp 4096 (ram (pal k)) \<and> pfree (pal k) True = Suc (pfree p' True) \<and> pfree p' False = pfree (pal k) False"
proof -
  let ?p = "pal k"
  have pal: "palloc_ok ?p" using ok by (simp add: frames_ok_def)
  from room obtain i0 where "i0 < npages ?p True" "\<not> used ?p True i0" by (auto simp: user_room_def)
  then have "\<not> first_fit (used ?p True) (npages ?p True) False 1 0 None" by (auto simp: first_fit_def run_at_Suc intro!: exI [of _ i0])
  with get_multiple_spec [OF pal, of 1 True "{USER, ZERO}"] obtain i p' where
    g: "get_page {USER, ZERO} ?p = Some (base (user_pool ?p) + i * PGSIZE, p')" "allocated ?p True i 1 p'"
      "first_fit (used ?p True) (npages ?p True) False 1 0 (Some i)" by (auto simp: get_page_def the_pool_def)
  define kp where "kp = base (user_pool ?p) + i * PGSIZE"
  have nz: "kp \<noteq> 0" using pal by (simp add: palloc_ok_def pool_ok_def kp_def)
  have "kernel_pool p' = kernel_pool ?p" "base (user_pool p') = base (user_pool ?p)" using g(2) by (simp_all add: allocated_def the_pool_def)
  then have "fresh_page ?p kp p'" "ram p' = zero_range kp 4096 (ram ?p)"
    using get_page_user [OF pal g(1) [folded kp_def]] nz by (simp_all add: fresh_page_def PGSIZE_def)
  moreover have "pfree ?p True = Suc (pfree p' True)" "pfree p' False = pfree ?p False"
    using pfree_allocated [OF g(2)] g(3) by (simp_all add: first_fit_def run_at_def)
  ultimately show ?thesis using g(1) [folded kp_def] nz by (intro exI [of _ kp] exI [of _ p']) (simp add: alloc_frame_def)
qed

text \<open>Page tables live below the user pool.\<close>

lemma pd_ok_below:
  assumes ok: "pd_ok pd p" and p': "palloc_ok p'" "kernel_pool p' = kernel_pool p" "base (user_pool p') = base (user_pool p)"
    and low: "\<And>x. x < base (user_pool p) \<Longrightarrow> ram p' x = ram p x"
  shows "pd_ok pd p'" "\<And>u. u < PHYS_BASE \<Longrightarrow> pte_word pd (ram p') u = pte_word pd (ram p) u"
proof -
  have peek: "peek32 (ram p') (t + 4 * i) = peek32 (ram p) (t + 4 * i)" if "t + 4096 \<le> base (user_pool p)" "i < 1024" for t i
    using that low by (simp add: peek32_def)
  have pd: "pd + 4096 \<le> base (user_pool p)" using pd_pages_aligned(3) [OF ok] by (simp add: pd_pages_def)
  have pde: "pde_of pd (ram p') d = pde_of pd (ram p) d" if "d < 768" for d
    unfolding pde_of_def using peek [OF pd, of d] that by simp
  have k: "kpage_ok p' a = kpage_ok p a" for a using p'(2) by (simp add: kpage_ok_def npages_def used_def the_pool_def)
  show "pd_ok pd p'" using ok p' pde unfolding pd_ok_def k by simp
  show "pte_word pd (ram p') u = pte_word pd (ram p) u" if "u < PHYS_BASE" for u
    using pde [OF user_index(1) [OF that]] peek [OF pd_pages_aligned(3) [OF ok entry_page [OF _ that]] user_index(2) [of u]]
    by (simp add: pte_word_def Let_def)
qed

text \<open>Mapping a registered frame: the end of every case of \<open>load_page\<close>.\<close>

definition mapped :: "nat \<Rightarrow> nat \<Rightarrow> nat \<Rightarrow> palloc \<Rightarrow> palloc \<Rightarrow> bool" where
  "mapped pd page kp p p' \<longleftrightarrow> pd_ok pd p' \<and> pd_get_page pd page p' = Some kp \<and> is_dirty pd page p' = Some False
     \<and> (\<forall>va < PHYS_BASE. va div 4096 \<noteq> page div 4096 \<longrightarrow> pd_get_page pd va p' = pd_get_page pd va p)"

lemma map_frame_spec:
  assumes ok: "pd_ok pd (pal k)" and u: "page < PHYS_BASE" "page mod 4096 = 0"
    and kp: "kp mod 4096 = 0" "PHYS_BASE \<le> kp" "kp < 2 ^ 32" and room: "\<not> kernel_full (pal k)"
  shows "\<exists>p'. map_frame pd page kp n w k = Some (True, set_location n page (\<lambda>_. InMemory) (k \<lparr> pal := p' \<rparr>))
    \<and> mapped pd page kp (pal k) p' \<and> user_pool p' = user_pool (pal k) \<and> (\<forall>x \<ge> base (user_pool (pal k)). ram p' x = ram (pal k) x)"
proof -
  let ?v = "kp - PHYS_BASE + (if w then 7 else 5)"
  from set_page_spec [OF ok u kp, of w] room obtain p' where
    p': "set_page pd page kp w (pal k) = Some (True, p')" "entry_updated pd page ?v (pal k) p'" by blast
  have f: "(if w then 7 else 5 :: nat) \<in> {5, 7}" by simp
  have ok': "pd_ok pd p'" and w: "\<And>v. v < PHYS_BASE \<Longrightarrow> pte_word pd (ram p') v = (if v div 4096 = page div 4096 then ?v else pte_word pd (ram (pal k)) v)"
    using p'(2) by (auto simp: entry_updated_def)
  have "pd_get_page pd page p' = Some kp" "is_dirty pd page p' = Some False"
    unfolding pd_get_page_pte [OF ok' u(1)] is_dirty_pte [OF ok' u(1)] w [OF u(1)]
    using entry_flags [OF kp f] u(2) kp(3) by (simp_all add: pg_ofs_eq add_usize_def)
  moreover have "pd_get_page pd va p' = pd_get_page pd va (pal k)" if "va < PHYS_BASE" "va div 4096 \<noteq> page div 4096" for va
    unfolding pd_get_page_pte [OF ok' that(1)] pd_get_page_pte [OF ok that(1)] w [OF that(1)] using that(2) by simp
  ultimately have "mapped pd page kp (pal k) p'" using ok' by (simp add: mapped_def)
  with p' show ?thesis by (auto simp: map_frame_def entry_updated_def Let_def)
qed

lemma map_filled:
  assumes ok: "pd_ok pd (pal k)" and fr: "fresh_page (pal k) kp p'" and u: "page < PHYS_BASE" "page mod 4096 = 0"
    and room: "\<not> kernel_full (pal k)" and k2: "pal k2 = p' \<lparr> ram := m \<rparr>"
    and m: "\<And>x. x < kp \<or> kp + 4096 \<le> x \<Longrightarrow> m x = ram (pal k) x"
  shows "\<exists>p2. map_frame pd page kp n w k2 = Some (True, set_location n page (\<lambda>_. InMemory) (k2 \<lparr> pal := p2 \<rparr>))
    \<and> mapped pd page kp (pal k) p2 \<and> (\<forall>x \<ge> base (user_pool (pal k)). ram p2 x = m x)"
proof -
  have p': "palloc_ok p'" "upage_ok p' kp" "kernel_pool p' = kernel_pool (pal k)" "base (user_pool p') = base (user_pool (pal k))"
    using fr by (auto simp: fresh_page_def)
  have hi: "PHYS_BASE \<le> base (kernel_pool p')" using ok p'(3) by (simp add: pd_ok_def)
  note kp = upage_facts [OF p'(1) hi p'(2)]
  have low: "ram (pal k2) x = ram (pal k) x" if "x < base (user_pool (pal k))" for x using m [of x] that kp(4) p'(4) by (simp add: k2)
  have ok2: "pd_ok pd (pal k2)" and pte: "\<And>v. v < PHYS_BASE \<Longrightarrow> pte_word pd (ram (pal k2)) v = pte_word pd (ram (pal k)) v"
    using pd_ok_below [OF ok, of "pal k2"] p' low by (auto simp: k2)
  have room2: "\<not> kernel_full (pal k2)" using room p'(3) by (simp add: kernel_full_def npages_def used_def the_pool_def k2)
  from map_frame_spec [OF ok2 u kp(1-3) room2, of n w] obtain p2 where
    p2: "map_frame pd page kp n w k2 = Some (True, set_location n page (\<lambda>_. InMemory) (k2 \<lparr> pal := p2 \<rparr>))"
      "mapped pd page kp (pal k2) p2" "\<forall>x \<ge> base (user_pool (pal k2)). ram p2 x = ram (pal k2) x" by blast
  have "pd_get_page pd va (pal k2) = pd_get_page pd va (pal k)" if "va < PHYS_BASE" for va
    unfolding pd_get_page_pte [OF ok2 that] pd_get_page_pte [OF ok that] pte [OF that] ..
  then have "mapped pd page kp (pal k) p2" using p2(2) by (simp add: mapped_def)
  with p2 p'(4) show ?thesis by (auto simp: k2)
qed

text \<open>What an entry needs to be loaded.\<close>

definition entry_ok :: "nat \<Rightarrow> (sector \<rightharpoonup> inode) \<Rightarrow> (sector \<Rightarrow> sector_data) \<Rightarrow> (sector \<Rightarrow> bool) \<Rightarrow> ('m, 'z) vmk \<Rightarrow> spt_entry \<Rightarrow> bool" where
  "entry_ok N I v u k e \<longleftrightarrow> (case location e of
      InSwap slot \<Rightarrow> swap_ok (get_swap k) \<and> slot_used (get_swap k) slot
    | OnDisk \<Rightarrow> st N (Some I) v u (fsys k) \<and> file_ok N I v u (inode_sector e) \<and> page_ofs e + read_bytes e \<le> 4096 \<and> file_offset e < 2 ^ 31
    | Zero \<Rightarrow> True
    | InMemory \<Rightarrow> False)"

lemma register_frame_fields [simp]:
  "get_swap (register_frame kp up n k) = get_swap k" "fsys (register_frame kp up n k) = fsys k" "SPT_TABLE (register_frame kp up n k) = SPT_TABLE k"
  by (simp_all add: register_frame_def get_swap_def split: option.splits)

lemma load_from_disk_spec:
  assumes e: "entry_ok N I v u k e" "location e = OnDisk" and k1: "fsys k1 = fsys k" "pal k1 = p"
  shows "\<exists>m s'. load_from_disk e kp k1 = Some (set_ram m (k1 \<lparr> fsys := s' \<rparr>)) \<and> st N (Some I) v u s'
    \<and> (\<forall>x. x < kp \<or> kp + 4096 \<le> x \<longrightarrow> m x = ram p x) \<and> (\<forall>i < 4096. m (kp + i) = page_image v sw e i)"
proof -
  let ?m = "zero_range kp 4096 (ram p)" and ?rb = "read_bytes e" and ?dst = "kp + page_ofs e"
  from e have st: "st N (Some I) v u (fsys k1)" and f: "file_ok N I v u (inode_sector e)" and b: "page_ofs e + ?rb \<le> 4096" "file_offset e < 2 ^ 31"
    by (simp_all add: entry_ok_def k1)
  show ?thesis
  proof (cases "?rb > 0")
    case False
    have "k1 \<lparr> fsys := fsys k1 \<rparr> = k1" by simp
    then show ?thesis using False st
      by (intro exI [of _ ?m] exI [of _ "fsys k1"]) (auto simp: load_from_disk_def Let_def PGSIZE_def zero_range_def page_image_def e(2) k1(2))
  next
    case True
    let ?n = "min ?rb (file_len v (inode_sector e) - file_offset e)"
    have i32: "as_i32 (int ?rb) = int ?rb" "as_i32 (int (file_offset e)) = int (file_offset e)" using b by (simp_all add: as_i32_def)
    from read_at_spec [OF st f, of ?rb "file_offset e" "read_mem ?dst ?rb ?m"] b obtain buf s' where
      r: "read_at (inode_sector e) (read_mem ?dst ?rb ?m) (int ?rb) (int (file_offset e)) (fsys k1) = Some (int ?n, buf, s')"
        "st N (Some I) v u s'" "length buf = ?rb"
        "\<forall>j < ?rb. buf ! j = (if j < ?n then file_byte v (inode_sector e) (file_offset e + j) else read_mem ?dst ?rb ?m ! j)" by auto
    have z: "read_mem ?dst ?rb ?m ! j = 0" if "j < ?rb" for j using that b(1) by (simp add: read_mem_def zero_range_def)
    have "load_from_disk e kp k1 = Some (set_ram (write_mem ?dst buf ?m) (k1 \<lparr> fsys := s' \<rparr>))"
      using True r(1) by (simp add: load_from_disk_def i32 PGSIZE_def k1(2) Let_def set_ram_def)
    moreover have "write_mem ?dst buf ?m (kp + i) = page_image v sw e i" if "i < 4096" for i
      using that r(3,4) z by (auto simp: write_mem_def zero_range_def page_image_def e(2) less_diff_conv2)
    moreover have "write_mem ?dst buf ?m x = ram p x" if "x < kp \<or> kp + 4096 \<le> x" for x
      using that r(3) b(1) by (auto simp: write_mem_def zero_range_def)
    ultimately show ?thesis using r(2) by blast
  qed
qed

text \<open>The page is in a frame that was free, mapped at its address, with the content the entry stands for; nothing else of the
  user pool and no other mapping changes; a swap slot it came from is free.\<close>

definition page_loaded :: "(sector \<Rightarrow> sector_data) \<Rightarrow> ('m, 'z) vmk \<Rightarrow> spt_entry \<Rightarrow> nat \<Rightarrow> nat \<Rightarrow> int \<Rightarrow> nat \<Rightarrow> ('m, 'z) vmk \<Rightarrow> bool" where
  "page_loaded v k e pd page n kp k1 \<longleftrightarrow> \<not> upage_ok (pal k) kp \<and> mapped pd page kp (pal k) (pal k1)
     \<and> (\<forall>i < 4096. ram (pal k1) (kp + i) = page_image v (get_swap k) e i)
     \<and> (\<forall>x \<ge> base (user_pool (pal k)). x < kp \<or> kp + 4096 \<le> x \<longrightarrow> ram (pal k1) x = ram (pal k) x)
     \<and> SPT_TABLE k1 = SPT_TABLE (set_location n page (\<lambda>_. InMemory) k)
     \<and> (\<forall>i. slot_used (get_swap k1) i \<longleftrightarrow> slot_used (get_swap k) i \<and> location e \<noteq> InSwap i)"

lemma page_loadedI:
  assumes ok: "pd_ok pd (pal k)" and fr: "fresh_page (pal k) kp p'" and u: "page < PHYS_BASE" "page mod 4096 = 0"
    and room: "\<not> kernel_full (pal k)" and k2: "pal k2 = p' \<lparr> ram := m \<rparr>" "SPT_TABLE k2 = SPT_TABLE k"
    and m: "\<And>x. x < kp \<or> kp + 4096 \<le> x \<Longrightarrow> m x = ram (pal k) x" "\<And>i. i < 4096 \<Longrightarrow> m (kp + i) = page_image v (get_swap k) e i"
    and sl: "\<And>i. slot_used (get_swap k2) i \<longleftrightarrow> slot_used (get_swap k) i \<and> location e \<noteq> InSwap i"
  shows "\<exists>k1. map_frame pd page kp n w k2 = Some (True, k1) \<and> page_loaded v k e pd page n kp k1"
proof -
  from map_filled [OF ok fr u room k2(1) m(1), of n w] obtain p2 where
    p2: "map_frame pd page kp n w k2 = Some (True, set_location n page (\<lambda>_. InMemory) (k2 \<lparr> pal := p2 \<rparr>))"
      "mapped pd page kp (pal k) p2" "\<forall>x \<ge> base (user_pool (pal k)). ram p2 x = m x" by auto
  have "base (user_pool (pal k)) \<le> kp" using fr upage_ok_base [of p' kp] by (simp add: fresh_page_def)
  moreover have "SPT_TABLE (set_location n page f (k2 \<lparr> pal := p2 \<rparr>)) = SPT_TABLE (set_location n page f k)" for f
    using k2(2) by (simp add: set_location_def)
  ultimately have "page_loaded v k e pd page n kp (set_location n page (\<lambda>_. InMemory) (k2 \<lparr> pal := p2 \<rparr>))"
    using p2(2,3) fr m sl by (simp add: page_loaded_def fresh_page_def)
  with p2(1) show ?thesis by blast
qed

lemma load_page_spec:
  assumes fo: "frames_ok k" and room: "user_room (pal k)" "\<not> kernel_full (pal k)" and ok: "pd_ok pd (pal k)"
    and u: "page < PHYS_BASE" "page mod 4096 = 0" and e: "entry_ok N I v us k e"
  shows "\<exists>kp k1. load_page e pd page n k = Some (True, k1) \<and> page_loaded v k e pd page n kp k1"
proof -
  from alloc_frame_room [OF fo room(1), of page n] obtain kp p' where
    a: "alloc_frame page n k = Some (kp, register_frame kp page n (k \<lparr> pal := p' \<rparr>))" "kp \<noteq> 0"
    and fr: "fresh_page (pal k) kp p'" and z: "ram p' = zero_range kp 4096 (ram (pal k))" by blast
  let ?k = "register_frame kp page n (k \<lparr> pal := p' \<rparr>)"
  note load = page_loadedI [OF ok fr u room(2)]
  show ?thesis
  proof (cases "location e")
    case InMemory
    with e show ?thesis by (simp add: entry_ok_def)
  next
    case Zero
    have "\<exists>k1. map_frame pd page kp n (spt_entry.writable e) ?k = Some (True, k1) \<and> page_loaded v k e pd page n kp k1"
      by (rule load [of _ "ram p'"]) (auto simp: z zero_range_def page_image_def Zero)
    with a Zero show ?thesis by (auto simp: load_page_def)
  next
    case (InSwap slot)
    with e have s: "swap_ok (get_swap k)" "slot_used (get_swap k) slot" by (simp_all add: entry_ok_def)
    from swap_in_spec [OF s, of kp "ram p'"] obtain m s2 where
      m: "swap_in slot kp (ram p') (get_swap k) = Some (m, s2)" "read_mem kp 4096 m = slot_data (get_swap k) slot"
        "\<forall>x. x < kp \<or> kp + 4096 \<le> x \<longrightarrow> m x = ram p' x" "\<forall>i. slot_used s2 i \<longleftrightarrow> i \<noteq> slot \<and> slot_used (get_swap k) i"
      by (auto simp: restores_def)
    have img: "m (kp + i) = page_image v (get_swap k) e i" if "i < 4096" for i
      using arg_cong [OF m(2), of "\<lambda>l. l ! i"] that by (simp add: read_mem_def page_image_def InSwap)
    have g: "get_swap (set_ram m (put_swap s2 ?k)) = s2" by (simp add: get_swap_def put_swap_def set_ram_def)
    have "\<exists>k1. map_frame pd page kp n (spt_entry.writable e) (set_ram m (put_swap s2 ?k)) = Some (True, k1)
        \<and> page_loaded v k e pd page n kp k1"
      by (rule load [of _ m]) (use m(3,4) img in \<open>auto simp: z zero_range_def g InSwap set_ram_def\<close>)
    with a m(1) InSwap show ?thesis by (auto simp: load_page_def)
  next
    case OnDisk
    from load_from_disk_spec [OF e OnDisk, of ?k p' kp "get_swap k"] obtain m s' where
      m: "load_from_disk e kp ?k = Some (set_ram m (?k \<lparr> fsys := s' \<rparr>))" "\<forall>x. x < kp \<or> kp + 4096 \<le> x \<longrightarrow> m x = ram p' x"
        "\<forall>i < 4096. m (kp + i) = page_image v (get_swap k) e i" by auto
    have g: "slot_used (get_swap (set_ram m (?k \<lparr> fsys := s' \<rparr>))) i = slot_used (get_swap ?k) i" for i
      by (simp add: slot_used_def get_swap_def set_ram_def)
    have "\<exists>k1. map_frame pd page kp n (spt_entry.writable e) (set_ram m (?k \<lparr> fsys := s' \<rparr>)) = Some (True, k1)
        \<and> page_loaded v k e pd page n kp k1"
      by (rule load [of _ m]) (use m(2,3) g in \<open>auto simp: z zero_range_def OnDisk set_ram_def\<close>)
    with a m(1) OnDisk show ?thesis by (auto simp: load_page_def)
  qed
qed

section \<open>Properties\<close>

text \<open>C11: Demand paging is transparent. With a free frame and a free kernel page, \<open>load_page\<close> succeeds for every kind of entry: the
  bytes of the file and zeros behind them for a page on disk, the bytes of the slot for a page in swap, zeros for a zero
  page. They are in a frame that was free, found at the page's address, and clean; no other frame and no other mapping of
  the process changes, the entry is marked as in memory, and exactly the slot the page came from becomes free.\<close>

theorem load_page_correct:
  assumes "frames_ok k" and "user_room (pal k)" and "\<not> kernel_full (pal k)" and "pd_ok pd (pal k)"
    and "page < PHYS_BASE" and "page mod 4096 = 0" and "entry_ok N I v us k e"
  shows "\<exists>kp k1. load_page e pd page n k = Some (True, k1) \<and> frames_ok k1 \<and> \<not> upage_ok (pal k) kp
    \<and> pd_get_page pd page (pal k1) = Some kp \<and> is_dirty pd page (pal k1) = Some False
    \<and> (\<forall>i < 4096. ram (pal k1) (kp + i) = page_image v (get_swap k) e i)
    \<and> (\<forall>va < PHYS_BASE. va div 4096 \<noteq> page div 4096 \<longrightarrow> pd_get_page pd va (pal k1) = pd_get_page pd va (pal k))
    \<and> (\<forall>x \<ge> base (user_pool (pal k)). x < kp \<or> kp + 4096 \<le> x \<longrightarrow> ram (pal k1) x = ram (pal k) x)
    \<and> SPT_TABLE k1 = SPT_TABLE (set_location n page (\<lambda>_. InMemory) k)
    \<and> (\<forall>i. slot_used (get_swap k1) i \<longleftrightarrow> slot_used (get_swap k) i \<and> location e \<noteq> InSwap i)"
proof -
  from load_page_spec [OF assms, of n] obtain kp k1 where
    l: "load_page e pd page n k = Some (True, k1)" "page_loaded v k e pd page n kp k1" by blast
  with load_page_ok [OF assms(1) l(1)] show ?thesis unfolding page_loaded_def mapped_def by blast
qed

definition sample_entry :: spt_entry where
  "sample_entry = \<lparr> vaddr = 0x804A000, location = InSwap 0, page_type = Anonymous, writable = True,
     inode_sector = 0, file_offset = 0, read_bytes = 0, page_ofs = 0 \<rparr>"

lemma sample_room: "frames_ok sample_vm" "user_room (pal sample_vm)" "\<not> kernel_full (pal sample_vm)" "pd_ok 0xC0200000 (pal sample_vm)"
proof -
  show "frames_ok sample_vm" using sample_vm_ok by (simp add: vm_ok_def)
  show "pd_ok 0xC0200000 (pal sample_vm)" using sample_pd_ok by (simp add: sample_vm_def)
  have "\<not> used (pal sample_vm) True 1" "npages (pal sample_vm) True = 8" "\<not> used (pal sample_vm) False 1" "npages (pal sample_vm) False = 8"
    by (simp_all add: used_def npages_def the_pool_def sample_vm_def sample_pd_def sample_palloc_def array_bit_def)
  then show "user_room (pal sample_vm)" "\<not> kernel_full (pal sample_vm)" unfolding user_room_def kernel_full_def by (auto intro!: exI [of _ 1])
qed

lemma sample_entry_ok: "SPT_TABLE k = s \<Longrightarrow> swap_st k = sample_swap \<Longrightarrow> fsys k = fsys sample_vm \<Longrightarrow> entry_ok 0 Map.empty (\<lambda>_. []) (\<lambda>_. False) k sample_entry"
  by (simp add: entry_ok_def sample_entry_def swap_ok_def slot_used_def get_swap_def sample_swap_def sample_vm_def)

theorem load_page_correct_witness:
  "\<exists>kp k1. load_page sample_entry 0xC0200000 0x804A000 1 sample_vm = Some (True, k1) \<and> pd_get_page 0xC0200000 0x804A000 (pal k1) = Some kp
    \<and> (\<forall>i < 4096. ram (pal k1) (kp + i) = slot_data (get_swap sample_vm) 0 ! i) \<and> \<not> slot_used (get_swap k1) 0"
proof -
  have "entry_ok 0 Map.empty (\<lambda>_. []) (\<lambda>_. False) sample_vm sample_entry" by (rule sample_entry_ok) (simp_all add: sample_vm_def)
  from load_page_correct [OF sample_room _ _ this, of "0x804A000" 1] show ?thesis
    by (auto simp: PHYS_BASE_def page_image_def sample_entry_def)
qed

lemma spt_find_modify: "spt_find va (spt_modify va f t) = map_option f (spt_find va t)"
  by (simp add: spt_find_def spt_modify_def)

lemma get_spt_set_location: "get_spt n k = Some (Some t) \<Longrightarrow> get_spt n (set_location n va f k) = Some (Some (spt_modify va (\<lambda>e. e \<lparr> location := f e \<rparr>) t))"
  by (auto simp: get_spt_def set_location_def split: Option.bind_splits)


definition sample_swapped :: "(sector \<Rightarrow> sector_data) vm" where
  "sample_swapped = sample_vm \<lparr> SPT_TABLE := Some [1 \<mapsto> [(0x804A000, sample_entry)]] \<rparr>"


end
