(* ===== verification/UserMem.thy ===== *)
theory UserMem
  imports Frame Encoding
begin

section \<open>User memory and strings\<close>

text \<open>
  Accesses of the kernel to user addresses, as the processor performs them through the active page directory: the entry
  must be present, and writable for a write because the boot code sets CR0.WP; the accessed and dirty bits are set. A
  fault in kernel mode panics (\<open>page_fault\<close>), so it is \<open>None\<close>.
  A \<open>str\<close> is the list of its code points; \<open>utf8\<close> are its bytes.
\<close>

unbundle bit_operations_syntax

definition user_access :: "bool \<Rightarrow> nat \<Rightarrow> ('m, 'z) vmk \<Rightarrow> (nat \<times> ('m, 'z) vmk) option" where
  "user_access write va k = do {
     pd \<leftarrow> ptov (cr3 k);
     (a, p) \<leftarrow> lookup pd va False (pal k);
     assert (a \<noteq> 0);
     let pte = peek32 (ram p) a;
     assert (pte AND PTE_P \<noteq> 0);
     assert (write \<longrightarrow> pte AND PTE_W \<noteq> 0);
     page \<leftarrow> ptov (pte AND PTE_ADDR);
     let pte = (pte OR PTE_A) OR (if write then PTE_D else 0);
     Some (page + pg_ofs va, k \<lparr> pal := p \<lparr> ram := poke32 a pte (ram p) \<rparr> \<rparr>)
   }"

definition user_load8 :: "nat \<Rightarrow> ('m, 'z) vmk \<Rightarrow> (byte \<times> ('m, 'z) vmk) option" where
  "user_load8 va k = do { (a, k) \<leftarrow> user_access False va k; Some (ram (pal k) a, k) }"

definition user_store8 :: "nat \<Rightarrow> byte \<Rightarrow> ('m, 'z) vmk \<Rightarrow> ('m, 'z) vmk option" where
  "user_store8 va b k = do { (a, k) \<leftarrow> user_access True va k; Some (set_ram ((ram (pal k))(a := b)) k) }"

primrec user_load :: "nat \<Rightarrow> nat \<Rightarrow> ('m, 'z) vmk \<Rightarrow> (byte list \<times> ('m, 'z) vmk) option" where
  "user_load 0 va k = Some ([], k)"
| "user_load (Suc n) va k = do {
     (b, k) \<leftarrow> user_load8 va k;
     (bs, k) \<leftarrow> user_load n (va + 1) k;
     Some (b # bs, k)
   }"

primrec user_store :: "byte list \<Rightarrow> nat \<Rightarrow> ('m, 'z) vmk \<Rightarrow> ('m, 'z) vmk option" where
  "user_store [] va k = Some k"
| "user_store (b # bs) va k = do { k \<leftarrow> user_store8 va b k; user_store bs (va + 1) k }"

definition user_load32 :: "nat \<Rightarrow> ('m, 'z) vmk \<Rightarrow> (nat \<times> ('m, 'z) vmk) option" where
  "user_load32 va k = do { (bs, k) \<leftarrow> user_load 4 va k; Some (bytes_u32 bs, k) }"

definition user_store32 :: "nat \<Rightarrow> nat \<Rightarrow> ('m, 'z) vmk \<Rightarrow> ('m, 'z) vmk option" where
  "user_store32 va v k = user_store (u32_bytes v) va k"

subsection \<open>Strings\<close>

type_synonym str = "nat list"

definition utf8_char :: "nat \<Rightarrow> byte list" where
  "utf8_char c =
     (if c < 0x80 then [of_nat c]
      else if c < 0x800 then [of_nat (0xC0 + c div 64), of_nat (0x80 + c mod 64)]
      else if c < 0x10000 then [of_nat (0xE0 + c div 4096), of_nat (0x80 + c div 64 mod 64), of_nat (0x80 + c mod 64)]
      else [of_nat (0xF0 + c div 262144), of_nat (0x80 + c div 4096 mod 64), of_nat (0x80 + c div 64 mod 64), of_nat (0x80 + c mod 64)])"

definition utf8 :: "str \<Rightarrow> byte list" where
  "utf8 s = concat (map utf8_char s)"

text \<open>\<open>char::is_whitespace\<close>: the code points with the property White_Space.\<close>

definition is_whitespace :: "nat \<Rightarrow> bool" where
  "is_whitespace c \<longleftrightarrow> c \<in> {9, 10, 11, 12, 13, 32, 0x85, 0xA0, 0x1680, 0x2028, 0x2029, 0x202F, 0x205F, 0x3000}
     \<or> 0x2000 \<le> c \<and> c \<le> 0x200A"

text \<open>\<open>split_whitespace\<close>: the maximal runs of other characters; \<open>acc\<close> is the run so far.\<close>

fun split_ws :: "str \<Rightarrow> str \<Rightarrow> str list" where
  "split_ws acc [] = (if acc = [] then [] else [acc])"
| "split_ws acc (c # s) =
     (if is_whitespace c then (if acc = [] then split_ws [] s else acc # split_ws [] s)
      else split_ws (acc @ [c]) s)"

definition split_whitespace :: "str \<Rightarrow> str list" where
  "split_whitespace s = split_ws [] s"

definition words :: "str list \<Rightarrow> bool" where
  "words ws \<longleftrightarrow> (\<forall>w \<in> set ws. w \<noteq> [] \<and> filter is_whitespace w = [])"

lemma words_simps [simp]: "words []" "words (w # ws) \<longleftrightarrow> w \<noteq> [] \<and> filter is_whitespace w = [] \<and> words ws"
  by (auto simp: words_def)

lemma split_ws_ok: "filter is_whitespace acc = [] \<Longrightarrow> words (split_ws acc s)"
  by (induction acc s rule: split_ws.induct) simp_all

lemma split_ws_run: "filter is_whitespace w = [] \<Longrightarrow> split_ws acc (w @ s) = split_ws (acc @ w) s"
  by (induction w arbitrary: acc) (simp_all split: if_splits)

text \<open>Words joined by spaces are split into the words again.\<close>

lemma split_whitespace_join:
  assumes "words ws"
  shows "split_whitespace (concat (map (\<lambda>w. w @ [32]) ws)) = ws"
  using assms
proof (induction ws)
  case (Cons w ws)
  have "is_whitespace 32" by (simp add: is_whitespace_def)
  with Cons split_ws_run [of w "[]" "32 # concat (map (\<lambda>w. w @ [32]) ws)"] show ?case by (simp add: split_whitespace_def)
qed (simp add: split_whitespace_def)

end
