(* ===== verification/Descriptors.thy ===== *)
theory Descriptors
  imports Thread
begin

section \<open>Segment and interrupt descriptors: arch/gdt.rs, arch/idt.rs, userprog/tss.rs\<close>

text \<open>
  The bit layouts the processor reads: segment descriptors of the GDT, gates of the IDT, and the TSS descriptor. The
  two halves of a descriptor are 32-bit words. The lemmas decode each field again, with the positions of the processor
  manual, from the words the code builds. Loading the registers with \<open>lgdt\<close>, \<open>lidt\<close> and \<open>ltr\<close> has no effect here.
\<close>

unbundle bit_operations_syntax

definition SEL_KCSEG :: nat where "SEL_KCSEG = 0x08"
definition SEL_KDSEG :: nat where "SEL_KDSEG = 0x10"
definition SEL_UCSEG :: nat where "SEL_UCSEG = 0x1B"
definition SEL_UDSEG :: nat where "SEL_UDSEG = 0x23"
definition SEL_TSS :: nat where "SEL_TSS = 0x28"
definition GDT_COUNT :: nat where "GDT_COUNT = 6"

record descriptor =
  low :: "32 word"
  high :: "32 word"

definition desc_null :: descriptor where
  "desc_null = \<lparr> low = 0, high = 0 \<rparr>"

definition desc_new :: "32 word \<Rightarrow> 32 word \<Rightarrow> 8 word \<Rightarrow> 8 word \<Rightarrow> 8 word \<Rightarrow> 8 word \<Rightarrow> 8 word \<Rightarrow> 8 word \<Rightarrow> descriptor" where
  "desc_new bs limit seg_type s dpl present db granularity =
     \<lparr> low = (limit AND 0xFFFF) OR push_bit 16 (bs AND 0xFFFF),
       high = ((((((((drop_bit 16 bs AND 0xFF)
         OR push_bit 8 (ucast seg_type AND 0xF))
         OR push_bit 12 (ucast s AND 1))
         OR push_bit 13 (ucast dpl AND 3))
         OR push_bit 15 (ucast present AND 1))
         OR push_bit 16 (drop_bit 16 limit AND 0xF))
         OR push_bit 22 (ucast db AND 1))
         OR push_bit 23 (ucast granularity AND 1))
         OR push_bit 24 (drop_bit 24 bs AND 0xFF) \<rparr>"

definition kernel_code :: descriptor where
  "kernel_code = desc_new 0 0xFFFFF 0xA 1 0 1 1 1"

definition kernel_data :: descriptor where
  "kernel_data = desc_new 0 0xFFFFF 0x2 1 0 1 1 1"

definition user_code :: descriptor where
  "user_code = desc_new 0 0xFFFFF 0xA 1 3 1 1 1"

definition user_data :: descriptor where
  "user_data = desc_new 0 0xFFFFF 0x2 1 3 1 1 1"

definition set_tss :: "32 word \<Rightarrow> 16 word \<Rightarrow> descriptor list \<Rightarrow> descriptor list option" where
  "set_tss bs limit gdt = upd gdt 5
     \<lparr> low = (ucast limit AND 0xFFFF) OR push_bit 16 (bs AND 0xFFFF),
       high = ((((((((drop_bit 16 bs AND 0xFF)
         OR push_bit 8 0x9)
         OR push_bit 12 0)
         OR push_bit 13 0)
         OR push_bit 15 1)
         OR push_bit 16 (drop_bit 16 (ucast limit) AND 0xF))
         OR push_bit 22 0)
         OR push_bit 23 0)
         OR push_bit 24 (drop_bit 24 bs AND 0xFF) \<rparr>"

definition gdt_init :: "descriptor list \<Rightarrow> descriptor list option" where
  "gdt_init gdt = do {
     gdt \<leftarrow> upd gdt 0 desc_null;
     gdt \<leftarrow> upd gdt 1 kernel_code;
     gdt \<leftarrow> upd gdt 2 kernel_data;
     gdt \<leftarrow> upd gdt 3 user_code;
     gdt \<leftarrow> upd gdt 4 user_data;
     upd gdt 5 desc_null
   }"

datatype gate_type = Interrupt | Trap

definition gate_code :: "gate_type \<Rightarrow> 32 word" where
  "gate_code g = (case g of Interrupt \<Rightarrow> 14 | Trap \<Rightarrow> 15)"

definition gate_new :: "32 word \<Rightarrow> 16 word \<Rightarrow> 8 word \<Rightarrow> gate_type \<Rightarrow> descriptor" where
  "gate_new ofs selector dpl g =
     \<lparr> low = (ofs AND 0xFFFF) OR push_bit 16 (ucast selector),
       high = (((ofs AND 0xFFFF0000)
         OR push_bit 15 1)
         OR push_bit 13 (ucast dpl AND 3))
         OR push_bit 8 (gate_code g AND 0xF) \<rparr>"

subsection \<open>Decoding\<close>

text \<open>The fields as the processor reads them: base, limit, and type, S, DPL, P, D/B and G.\<close>

definition desc_base :: "descriptor \<Rightarrow> 32 word" where
  "desc_base d = drop_bit 16 (low d) OR push_bit 16 (take_bit 8 (high d)) OR push_bit 24 (drop_bit 24 (high d))"

definition desc_limit :: "descriptor \<Rightarrow> 32 word" where
  "desc_limit d = take_bit 16 (low d) OR push_bit 16 (take_bit 4 (drop_bit 16 (high d)))"

definition desc_type :: "descriptor \<Rightarrow> 32 word" where
  "desc_type d = take_bit 4 (drop_bit 8 (high d))"

definition desc_dpl :: "descriptor \<Rightarrow> 32 word" where
  "desc_dpl d = take_bit 2 (drop_bit 13 (high d))"

definition gate_offset :: "descriptor \<Rightarrow> 32 word" where
  "gate_offset d = take_bit 16 (low d) OR push_bit 16 (drop_bit 16 (high d))"

lemma and_masks:
  "x AND 0xFFFF = take_bit 16 (x :: 32 word)" "x AND 0xFF = take_bit 8 (x :: 32 word)" "x AND 0xF = take_bit 4 (x :: 32 word)"
  "x AND 3 = take_bit 2 (x :: 32 word)" "x AND 1 = take_bit 1 (x :: 32 word)" "x AND 0xFFFF0000 = push_bit 16 (drop_bit 16 (x :: 32 word))"
proof -
  have "(0xFFFF :: 32 word) = mask 16" "(0xFF :: 32 word) = mask 8" "(0xF :: 32 word) = mask 4" "(3 :: 32 word) = mask 2" "(1 :: 32 word) = mask 1"
    by (simp_all add: mask_eq_exp_minus_1)
  then show "x AND 0xFFFF = take_bit 16 x" "x AND 0xFF = take_bit 8 x" "x AND 0xF = take_bit 4 x" "x AND 3 = take_bit 2 x" "x AND 1 = take_bit 1 x"
    by (simp_all only: take_bit_eq_mask)
  have m: "(0xFFFF0000 :: 32 word) = push_bit 16 (mask 16)" by (simp add: mask_eq_exp_minus_1 push_bit_eq_mult)
  show "x AND 0xFFFF0000 = push_bit 16 (drop_bit 16 x)" unfolding m by (rule bit_word_eqI) (auto simp: bit_simps)
qed

text \<open>Words are equal if their 32 bits are, one by one.\<close>

lemma word_eq_bits:
  assumes "list_all (\<lambda>n. bit a n = bit b n) [0, 1, 2, 3, 4, 5, 6, 7, 8, 9, 10, 11, 12, 13, 14, 15, 16, 17, 18, 19, 20, 21, 22, 23, 24, 25, 26, 27, 28, 29, 30, 31]"
  shows "a = (b :: 32 word)"
proof (rule bit_word_eqI)
  fix n assume "n < LENGTH(32)"
  then have "n \<in> set [0..<32]" by simp
  moreover have "[0..<32] = [0, 1, 2, 3, 4, 5, 6, 7, 8, 9, 10, 11, 12, 13, 14, 15, 16, 17, 18, 19, 20, 21, 22, 23, 24, 25, 26, 27, 28, 29, 30, 31]" by (simp add: upt_rec)
  ultimately show "bit a n = bit b n" using assms unfolding list_all_iff by metis
qed

lemma desc_new_base: "desc_base (desc_new bs limit t s dpl p db g) = bs"
  by (rule word_eq_bits) (simp add: desc_base_def desc_new_def and_masks bit_simps)

lemma desc_new_limit: "desc_limit (desc_new bs limit t s dpl p db g) = take_bit 20 limit"
  by (rule word_eq_bits) (simp add: desc_limit_def desc_new_def and_masks bit_simps)

lemma desc_new_type: "desc_type (desc_new bs limit t s dpl p db g) = take_bit 4 (ucast t)"
  by (rule word_eq_bits) (simp add: desc_type_def desc_new_def and_masks bit_simps)

lemma desc_new_dpl: "desc_dpl (desc_new bs limit t s dpl p db g) = take_bit 2 (ucast dpl)"
  by (rule word_eq_bits) (simp add: desc_dpl_def desc_new_def and_masks bit_simps)

lemma desc_new_bits:
  "bit (high (desc_new bs limit t s dpl p db g)) 12 = bit s 0" "bit (high (desc_new bs limit t s dpl p db g)) 15 = bit p 0"
  "bit (high (desc_new bs limit t s dpl p db g)) 22 = bit db 0" "bit (high (desc_new bs limit t s dpl p db g)) 23 = bit g 0"
proof -
  have "odd (ucast x :: 32 word) = bit x 0" for x :: "8 word"
    unfolding bit_0 [symmetric, of "ucast x :: 32 word"] by (simp add: bit_unsigned_iff del: bit_0)
  then show "bit (high (desc_new bs limit t s dpl p db g)) 12 = bit s 0" "bit (high (desc_new bs limit t s dpl p db g)) 15 = bit p 0"
    "bit (high (desc_new bs limit t s dpl p db g)) 22 = bit db 0" "bit (high (desc_new bs limit t s dpl p db g)) 23 = bit g 0"
    by (simp_all add: desc_new_def and_masks bit_simps)
qed

lemma gate_new_fields:
  "gate_offset (gate_new ofs sel dpl g) = ofs" "drop_bit 16 (low (gate_new ofs sel dpl g)) = ucast sel"
  "desc_dpl (gate_new ofs sel dpl g) = take_bit 2 (ucast dpl)" "desc_type (gate_new ofs sel dpl g) = gate_code g"
  "bit (high (gate_new ofs sel dpl g)) 15"
proof -
  show "gate_offset (gate_new ofs sel dpl g) = ofs"
    by (rule word_eq_bits) (cases g; simp add: gate_offset_def gate_new_def gate_code_def and_masks bit_simps)
  have "\<not> bit sel n" if "16 \<le> n" for n using bit_imp_le_length [of sel n] that by auto
  then show "drop_bit 16 (low (gate_new ofs sel dpl g)) = ucast sel"
    by (intro word_eq_bits) (simp add: gate_new_def and_masks bit_simps)
  show "desc_dpl (gate_new ofs sel dpl g) = take_bit 2 (ucast dpl)" "desc_type (gate_new ofs sel dpl g) = gate_code g"
    by (rule word_eq_bits, cases g; simp add: desc_dpl_def desc_type_def gate_new_def gate_code_def and_masks bit_simps)+
  show "bit (high (gate_new ofs sel dpl g)) 15" by (simp add: gate_new_def bit_simps)
qed

text \<open>The selectors name the segments the code means, with the privilege of the segment in their low bits.\<close>

lemma gdt_init_segments:
  assumes "length gdt = GDT_COUNT"
  shows "\<exists>gdt'. gdt_init gdt = Some gdt' \<and> length gdt' = GDT_COUNT
    \<and> gdt' ! (SEL_KCSEG div 8) = kernel_code \<and> gdt' ! (SEL_KDSEG div 8) = kernel_data
    \<and> gdt' ! (SEL_UCSEG div 8) = user_code \<and> gdt' ! (SEL_UDSEG div 8) = user_data \<and> gdt' ! (SEL_TSS div 8) = desc_null"
  using assms by (simp add: gdt_init_def upd_def GDT_COUNT_def SEL_KCSEG_def SEL_KDSEG_def SEL_UCSEG_def SEL_UDSEG_def SEL_TSS_def)

end
