(* ===== verification/Idt.thy ===== *)
theory Idt
  imports Descriptors
begin

section \<open>Interrupt dispatch: arch/idt.rs, userprog/tss.rs\<close>

text \<open>
  The interrupt frame, the table of handlers, the dispatcher and the programming of the two 8259A controllers. A
  handler is a function on the frame and the kernel state; \<open>None\<close> is a panic. Writes to I/O ports are returned as a
  list of ports and values, in order; reads of the mask registers are arguments.
  \<open>intr_handler\<close> runs a handler that does not switch threads; \<open>check_signals\<close>, which ends a killed process, is an argument.
\<close>

unbundle bit_operations_syntax

definition PIC0_CTRL :: nat where "PIC0_CTRL = 0x20"
definition PIC0_DATA :: nat where "PIC0_DATA = 0x21"
definition PIC1_CTRL :: nat where "PIC1_CTRL = 0xA0"
definition PIC1_DATA :: nat where "PIC1_DATA = 0xA1"
definition PIC_EOI :: byte where "PIC_EOI = 0x20"
definition IRQ_BASE :: nat where "IRQ_BASE = 0x20"

text \<open>The segment fields are 16 bits wide, all others 32.\<close>

record intr_frame =
  edi :: nat
  esi :: nat
  ebp :: nat
  esp_dummy :: nat
  ebx :: nat
  edx :: nat
  ecx :: nat
  eax :: nat
  r_gs :: nat
  r_fs :: nat
  r_es :: nat
  r_ds :: nat
  vec_no :: nat
  error_code :: nat
  frame_pointer :: nat
  eip :: nat
  r_cs :: nat
  eflags :: nat
  esp :: nat
  r_ss :: nat

type_synonym 'k intr_func = "intr_frame \<Rightarrow> 'k \<Rightarrow> (intr_frame \<times> 'k) option"

record 'k handler_entry =
  handler :: "'k intr_func option"
  h_name :: "byte list"
  level :: intr_level

record 'k idt =
  IDT :: "descriptor list"
  HANDLERS :: "'k handler_entry list"

definition handler_empty :: "'k handler_entry" where
  "handler_empty = \<lparr> handler = None, h_name = map of_nat [117, 110, 107, 110, 111, 119, 110], level = Off \<rparr>"

text \<open>\<open>stubs\<close> are the addresses of the entry stubs of asm/intr_stubs.S.\<close>

definition register_int :: "(nat \<Rightarrow> 32 word) \<Rightarrow> nat \<Rightarrow> 8 word \<Rightarrow> intr_level \<Rightarrow> 'k intr_func \<Rightarrow> byte list \<Rightarrow> 'k idt \<Rightarrow> 'k idt option" where
  "register_int stubs v dpl lvl h name t = do {
     gates \<leftarrow> upd (IDT t) v (gate_new (stubs v) (of_nat SEL_KCSEG) dpl Interrupt);
     hs \<leftarrow> upd (HANDLERS t) v \<lparr> handler = Some h, h_name = name, level = lvl \<rparr>;
     Some (t \<lparr> IDT := gates, HANDLERS := hs \<rparr>)
   }"

definition register_handler :: "(nat \<Rightarrow> 32 word) \<Rightarrow> nat \<Rightarrow> 8 word \<Rightarrow> intr_level \<Rightarrow> 'k intr_func \<Rightarrow> byte list \<Rightarrow> 'k idt \<Rightarrow> 'k idt option" where
  "register_handler stubs v dpl lvl h name t = do {
     gates \<leftarrow> upd (IDT t) v (gate_new (stubs v) (of_nat SEL_KCSEG) dpl Interrupt);
     hs \<leftarrow> upd (HANDLERS t) v \<lparr> handler = Some h, h_name = name, level = lvl \<rparr>;
     Some (t \<lparr> IDT := gates, HANDLERS := hs \<rparr>)
   }"

definition register_ext :: "nat \<Rightarrow> 'k intr_func \<Rightarrow> byte list \<Rightarrow> 'k idt \<Rightarrow> 'k idt option" where
  "register_ext irq h name t = do {
     assert (IRQ_BASE + irq < 256);
     hs \<leftarrow> upd (HANDLERS t) (IRQ_BASE + irq) \<lparr> handler = Some h, h_name = name, level = Off \<rparr>;
     Some (t \<lparr> HANDLERS := hs \<rparr>)
   }"

definition pic_init :: "(nat \<times> byte) list" where
  "pic_init = [(PIC0_CTRL, 0x11), (PIC1_CTRL, 0x11),
     (PIC0_DATA, of_nat IRQ_BASE), (PIC1_DATA, of_nat (IRQ_BASE + 8)),
     (PIC0_DATA, 0x04), (PIC1_DATA, 0x02), (PIC0_DATA, 0x01), (PIC1_DATA, 0x01),
     (PIC0_DATA, 0xFF), (PIC1_DATA, 0xFF)]"

text \<open>\<open>m0\<close> and \<open>m1\<close> are the mask registers read from the controllers. The shift \<open>1 << (irq - 8)\<close> of an 8-bit value panics
  from 8 on.\<close>

definition pic_unmask :: "nat \<Rightarrow> byte \<Rightarrow> byte \<Rightarrow> (nat \<times> byte) list option" where
  "pic_unmask irq m0 m1 =
     (if irq < 8 then Some [(PIC0_DATA, m0 AND NOT (push_bit irq 1))]
      else do {
        assert (irq - 8 < 8);
        Some [(PIC1_DATA, m1 AND NOT (push_bit (irq - 8) 1)), (PIC0_DATA, m0 AND NOT (push_bit 2 1))]
      })"

definition idt_init :: "(nat \<Rightarrow> 32 word) \<Rightarrow> 'k idt \<Rightarrow> 'k idt" where
  "idt_init stubs t = t \<lparr> IDT := map (\<lambda>i. gate_new (stubs i) (of_nat SEL_KCSEG) 0 Interrupt) [0..<length (IDT t)] \<rparr>"

definition external :: "nat \<Rightarrow> bool" where
  "external v \<longleftrightarrow> v \<ge> IRQ_BASE \<and> v < IRQ_BASE + 16"

text \<open>The end of an external interrupt: the acknowledgements, and the yield if one was requested.\<close>

definition end_external :: "nat \<Rightarrow> 'z kern \<Rightarrow> ((nat \<times> byte) list \<times> 'z kern) option" where
  "end_external v k = do {
     let eoi = (if v \<ge> IRQ_BASE + 8 then [(PIC1_CTRL, PIC_EOI)] else []) @ [(PIC0_CTRL, PIC_EOI)];
     let k = k \<lparr> IN_EXTERNAL_INTR := False \<rparr>;
     if YIELD_ON_RETURN k
     then do { (_, k) \<leftarrow> yield_current (k \<lparr> YIELD_ON_RETURN := False \<rparr>); Some (eoi, k) }
     else Some (eoi, k)
   }"

definition intr_handler :: "('z kern \<Rightarrow> 'z kern option) \<Rightarrow> 'z kern idt \<Rightarrow> intr_frame \<Rightarrow> 'z kern
    \<Rightarrow> ((nat \<times> byte) list \<times> intr_frame \<times> 'z kern) option" where
  "intr_handler check_signals t frame k = do {
     let v = vec_no frame;
     let k = (if external v then k \<lparr> IN_EXTERNAL_INTR := True \<rparr> else k);
     entry \<leftarrow> idx (HANDLERS t) v;
     (frame, k) \<leftarrow> (case handler entry of
         Some h \<Rightarrow> do {
           let (old_level, k) = intr_set_level (level entry) k;
           (frame, k) \<leftarrow> h frame k;
           Some (frame, snd (intr_set_level old_level k))
         }
       | None \<Rightarrow> Some (frame, k));
     (eoi, k) \<leftarrow> (if external v then end_external v k else Some ([], k));
     k \<leftarrow> (if r_cs frame AND 3 = 3 then check_signals k else Some k);
     Some (eoi, frame, k)
   }"

text \<open>\<open>tss::init\<close>: a zeroed page for the TSS, its descriptor, and the stack of the running thread. Only \<open>esp0\<close> of the
  structure changes afterwards; \<open>ss0\<close> and the offset of the I/O bitmap are constants.\<close>

definition tss_init :: "descriptor list \<Rightarrow> 'z kern \<Rightarrow> (descriptor list \<times> 'z kern) option" where
  "tss_init gdt k = do {
     (tss, p) \<leftarrow> get_page {ASSERT, ZERO} (pal k);
     let k = k \<lparr> pal := p, TSS_PTR := tss \<rparr>;
     gdt \<leftarrow> set_tss (of_nat tss) 103 gdt;
     k \<leftarrow> tss_update k;
     Some (gdt, k)
   }"

subsection \<open>Dispatch\<close>

text \<open>An external interrupt whose handler asks for no yield: the handler runs with interrupts off and inside the external
  context, both controllers that need it are acknowledged, and the flags are as before.\<close>

lemma dispatch_external:
  assumes "external (vec_no f)" and "vec_no f < length (HANDLERS t)" and "HANDLERS t ! vec_no f = \<lparr> handler = Some h, h_name = nm, level = Off \<rparr>"
    and "h f (k \<lparr> IN_EXTERNAL_INTR := True, intr_level := Off \<rparr>) = Some (f', k')" and "r_cs f' AND 3 \<noteq> 3" and "\<not> YIELD_ON_RETURN k'"
  shows "intr_handler chk t f k = Some ((if vec_no f \<ge> IRQ_BASE + 8 then [(PIC1_CTRL, PIC_EOI)] else []) @ [(PIC0_CTRL, PIC_EOI)],
    f', k' \<lparr> intr_level := intr_level k, IN_EXTERNAL_INTR := False \<rparr>)"
proof (cases "intr_level k")
  case Off
  with assms show ?thesis
    by (simp add: intr_handler_def idx_def intr_set_level_def intr_disable_def intr_get_level_def end_external_def Let_def)
next
  case On
  with assms show ?thesis
    by (simp add: intr_handler_def idx_def intr_set_level_def intr_disable_def intr_enable_def intr_get_level_def end_external_def Let_def)
qed

text \<open>Unmasking a line clears its bit and, on the second controller, the cascade line of the first, and keeps all others.\<close>

lemma pic_unmask_first: "irq < 8 \<Longrightarrow> \<exists>m. pic_unmask irq m0 m1 = Some [(PIC0_DATA, m)] \<and> (\<forall>j < 8. bit m j = (bit m0 j \<and> j \<noteq> irq))"
  by (auto simp: pic_unmask_def bit_simps)

lemma pic_unmask_second: "8 \<le> irq \<Longrightarrow> irq < 16 \<Longrightarrow> \<exists>m m'. pic_unmask irq m0 m1 = Some [(PIC1_DATA, m), (PIC0_DATA, m')]
    \<and> (\<forall>j < 8. bit m j = (bit m1 j \<and> j \<noteq> irq - 8)) \<and> (\<forall>j < 8. bit m' j = (bit m0 j \<and> j \<noteq> 2))"
proof -
  have "bit (m0 AND NOT (push_bit 2 1)) j = (bit m0 j \<and> j \<noteq> 2)" if "j < 8" for j
    using that unfolding bit_and_iff bit_not_iff bit_push_bit_iff bit_1_iff by auto
  moreover have "bit (m1 AND NOT (push_bit (irq - 8) 1)) j = (bit m1 j \<and> j \<noteq> irq - 8)" if "j < 8" for j using that by (auto simp: bit_simps)
  moreover assume irq: "8 \<le> irq" "irq < 16"
  have "pic_unmask irq m0 m1 = Some [(PIC1_DATA, m1 AND NOT (push_bit (irq - 8) 1)), (PIC0_DATA, m0 AND NOT (push_bit 2 1))]"
    using irq by (simp add: pic_unmask_def)
  ultimately show ?thesis by blast
qed

end
