(* ===== verification/Process.thy ===== *)
theory Process
  imports UserMem Pipe Idt FileSys
begin

section \<open>Processes: the registries and file descriptors of userprog/process.rs\<close>

text \<open>
  The state of the process layer: the registry of process states, the memory maps, the semaphores parents wait on,
  and the heap objects that pointers of the threads lead to (descriptor tables, arguments of \<open>fork\<close>, command lines). A semaphore is its
  value here: \<open>up\<close> adds one, and a \<open>down\<close> at zero is an operation that waits (the queues and the switch of threads are
  the subject of the synchronisation theories). \<open>next_box\<close> is the address the next \<open>Box::new\<close> returns. Condition
  variables of pipes that are signalled are collected in \<open>pipe_signals\<close>.
\<close>

datatype fd_kind = FileDesc file_handle | PipeRead nat | PipeWrite nat | Console | DevNull | DevZero

type_synonym fds = "fd_kind option list"

record process_state =
  ps_tid :: int
  ps_parent_tid :: int
  exit_status :: int
  exited :: bool
  waited :: bool
  wait_sema :: nat
  load_sema :: nat
  load_success :: bool
  executable_sector :: "nat option"

record mmap_entry =
  mapid :: int
  mm_fd :: int
  mm_inode_sector :: nat
  uaddr :: nat
  mm_length :: nat

record fork_args =
  fa_frame :: intr_frame
  child_pd :: nat
  child_fdt :: nat
  fa_cwd_sector :: nat
  fa_brk :: nat

record 'm proc = "'m vm" +
  PROCESS_STATES :: "(int \<times> process_state) list option"
  MMAP_TABLE :: "(int \<rightharpoonup> mmap_entry list) option"
  NEXT_MAPID :: int
  PARENT_WAIT_SEMAS :: "(int \<rightharpoonup> nat) option"
  fdt_at :: "nat \<Rightarrow> fds"
  fork_args_at :: "nat \<Rightarrow> fork_args"
  cmd_at :: "nat \<Rightarrow> str"
  next_box :: nat
  pipe_reg :: pipes
  pipe_signals :: "(nat \<times> condvar) list"

type_synonym ('m, 'z) pk = "('m, 'z) proc_scheme"

definition on_fs :: "('m fs \<Rightarrow> ('a \<times> 'm fs) option) \<Rightarrow> ('m, 'z) vmk \<Rightarrow> ('a \<times> ('m, 'z) vmk) option" where
  "on_fs f k = do { (r, s) \<leftarrow> f (fsys k); Some (r, k \<lparr> fsys := s \<rparr>) }"

definition in_fs :: "('m fs \<Rightarrow> 'm fs option) \<Rightarrow> ('m, 'z) vmk \<Rightarrow> ('m, 'z) vmk option" where
  "in_fs f k = do { s \<leftarrow> f (fsys k); Some (k \<lparr> fsys := s \<rparr>) }"

definition process_init :: "('m, 'z) pk \<Rightarrow> ('m, 'z) pk" where
  "process_init k = k \<lparr> PROCESS_STATES := Some [], SPT_TABLE := Some Map.empty, MMAP_TABLE := Some Map.empty,
     PARENT_WAIT_SEMAS := Some Map.empty \<rparr>"

text \<open>\<open>get_mut\<close> on the registry and an update of what it finds.\<close>

definition ps_modify :: "int \<Rightarrow> (process_state \<Rightarrow> process_state) \<Rightarrow> ('m, 'z) pk \<Rightarrow> ('m, 'z) pk option" where
  "ps_modify n f k = do { m \<leftarrow> PROCESS_STATES k; Some (k \<lparr> PROCESS_STATES := Some (bt_modify n f m) \<rparr>) }"

definition ps_get :: "int \<Rightarrow> ('m, 'z) pk \<Rightarrow> process_state option option" where
  "ps_get n k = do { m \<leftarrow> PROCESS_STATES k; Some (map_of m n) }"

definition ps_insert :: "int \<Rightarrow> process_state \<Rightarrow> ('m, 'z) pk \<Rightarrow> ('m, 'z) pk option" where
  "ps_insert n ps k = do { m \<leftarrow> PROCESS_STATES k; Some (k \<lparr> PROCESS_STATES := Some (bt_insert n ps m) \<rparr>) }"

definition ps_remove :: "int \<Rightarrow> ('m, 'z) pk \<Rightarrow> ('m, 'z) pk option" where
  "ps_remove n k = do { m \<leftarrow> PROCESS_STATES k; Some (k \<lparr> PROCESS_STATES := Some (bt_remove n m) \<rparr>) }"

subsection \<open>Descriptor tables\<close>

definition fdt_new :: fds where
  "fdt_new = [Some Console, Some Console, Some Console]"

text \<open>The lowest free position, or a new one at the end.\<close>

definition alloc_fd :: "fd_kind \<Rightarrow> fds \<Rightarrow> int \<times> fds" where
  "alloc_fd kind files = (case List.find (\<lambda>i. files ! i = None) [0..<length files] of
      Some i \<Rightarrow> (as_i32 (int i), files[i := Some kind])
    | None \<Rightarrow> (as_i32 (int (length files)), files @ [Some kind]))"

definition fd_open :: "file_handle \<Rightarrow> fds \<Rightarrow> int \<times> fds" where
  "fd_open f files = alloc_fd (FileDesc f) files"

definition open_pipe_read :: "nat \<Rightarrow> fds \<Rightarrow> int \<times> fds" where
  "open_pipe_read n files = alloc_fd (PipeRead n) files"

definition open_pipe_write :: "nat \<Rightarrow> fds \<Rightarrow> int \<times> fds" where
  "open_pipe_write n files = alloc_fd (PipeWrite n) files"

definition alloc_dev :: "fd_kind \<Rightarrow> fds \<Rightarrow> int \<times> fds" where
  "alloc_dev kind files = alloc_fd kind files"

definition fd_index :: "int \<Rightarrow> fds \<Rightarrow> nat option" where
  "fd_index fd files = (if fd < 0 \<or> as_u32 fd \<ge> length files then None else Some (as_u32 fd))"

definition get_kind :: "int \<Rightarrow> fds \<Rightarrow> fd_kind option" where
  "get_kind fd files = (case fd_index fd files of None \<Rightarrow> None | Some i \<Rightarrow> files ! i)"

definition fd_get :: "int \<Rightarrow> fds \<Rightarrow> file_handle option" where
  "fd_get fd files = (case get_kind fd files of Some (FileDesc f) \<Rightarrow> Some f | _ \<Rightarrow> None)"

text \<open>\<open>close_kind\<close>; a pipe both of whose ends are closed is removed.\<close>

definition close_end :: "(pipe \<Rightarrow> (bool \<times> condvar list \<times> pipe) option) \<Rightarrow> nat \<Rightarrow> ('m, 'z) pk \<Rightarrow> ('m, 'z) pk option" where
  "close_end cl n k = do {
     r \<leftarrow> get_pipe n (pipe_reg k);
     case r of
       None \<Rightarrow> Some k
     | Some p \<Rightarrow> do {
         (dead, sigs, p) \<leftarrow> cl p;
         m \<leftarrow> PIPES (pipe_reg k);
         let k = k \<lparr> pipe_reg := (pipe_reg k) \<lparr> PIPES := Some (m(n \<mapsto> p)) \<rparr>,
                    pipe_signals := pipe_signals k @ map (Pair n) sigs \<rparr>;
         if dead then do { g \<leftarrow> destroy_pipe n (pipe_reg k); Some (k \<lparr> pipe_reg := g \<rparr>) } else Some k
       }
   }"

fun close_kind :: "fd_kind \<Rightarrow> ('m, 'z) pk \<Rightarrow> ('m, 'z) pk option" where
  "close_kind (FileDesc f) k = in_fs (file_close f) k"
| "close_kind (PipeRead n) k = close_end close_read n k"
| "close_kind (PipeWrite n) k = close_end close_write n k"
| "close_kind Console k = Some k"
| "close_kind DevNull k = Some k"
| "close_kind DevZero k = Some k"

definition fd_close :: "int \<Rightarrow> fds \<Rightarrow> ('m, 'z) pk \<Rightarrow> (bool \<times> fds \<times> ('m, 'z) pk) option" where
  "fd_close fd files k = (case fd_index fd files of
      None \<Rightarrow> Some (False, files, k)
    | Some i \<Rightarrow> (case files ! i of
          None \<Rightarrow> Some (False, files, k)
        | Some kind \<Rightarrow> do { k \<leftarrow> close_kind kind k; Some (True, files[i := None], k) }))"

fun close_all :: "fds \<Rightarrow> ('m, 'z) pk \<Rightarrow> (fds \<times> ('m, 'z) pk) option" where
  "close_all [] k = Some ([], k)"
| "close_all (slot # files) k = do {
     k \<leftarrow> (case slot of None \<Rightarrow> Some k | Some kind \<Rightarrow> close_kind kind k);
     (files, k) \<leftarrow> close_all files k;
     Some (None # files, k)
   }"

text \<open>The reference count of one end of a pipe goes up, if the pipe exists.\<close>

definition ref_end :: "(pipe \<Rightarrow> pipe option) \<Rightarrow> nat \<Rightarrow> ('m, 'z) pk \<Rightarrow> ('m, 'z) pk option" where
  "ref_end rf n k = do {
     m \<leftarrow> PIPES (pipe_reg k);
     case m n of
       None \<Rightarrow> Some k
     | Some p \<Rightarrow> do { p \<leftarrow> rf p; Some (k \<lparr> pipe_reg := (pipe_reg k) \<lparr> PIPES := Some (m(n \<mapsto> p)) \<rparr> \<rparr>) }
   }"

text \<open>A second descriptor for the same object: files are opened again at the same position, pipes count it.\<close>

fun copy_kind :: "fd_kind \<Rightarrow> ('m, 'z) pk \<Rightarrow> (fd_kind \<times> ('m, 'z) pk) option" where
  "copy_kind (FileDesc f) k = do {
     (f', k) \<leftarrow> on_fs (file_open_with_mode (f_inode_sector f) (f_mode f)) k;
     Some (FileDesc (file_seek (f_pos f) f'), k)
   }"
| "copy_kind (PipeRead n) k = do { k \<leftarrow> ref_end ref_read n k; Some (PipeRead n, k) }"
| "copy_kind (PipeWrite n) k = do { k \<leftarrow> ref_end ref_write n k; Some (PipeWrite n, k) }"
| "copy_kind Console k = Some (Console, k)"
| "copy_kind DevNull k = Some (DevNull, k)"
| "copy_kind DevZero k = Some (DevZero, k)"

definition fd_dup :: "int \<Rightarrow> fds \<Rightarrow> ('m, 'z) pk \<Rightarrow> (int \<times> fds \<times> ('m, 'z) pk) option" where
  "fd_dup fd files k = (case get_kind fd files of
      None \<Rightarrow> Some (- 1, files, k)
    | Some kind \<Rightarrow> do {
        (kind, k) \<leftarrow> copy_kind kind k;
        let (n, files) = alloc_fd kind files;
        Some (n, files, k)
      })"

fun clone_slots :: "fds \<Rightarrow> ('m, 'z) pk \<Rightarrow> (fds \<times> ('m, 'z) pk) option" where
  "clone_slots [] k = Some ([], k)"
| "clone_slots (slot # files) k = do {
     (slot, k) \<leftarrow> (case slot of None \<Rightarrow> Some (None, k)
       | Some kind \<Rightarrow> do { (kind, k) \<leftarrow> copy_kind kind k; Some (Some kind, k) });
     (files, k) \<leftarrow> clone_slots files k;
     Some (slot # files, k)
   }"

definition new_fdt :: "fds \<Rightarrow> ('m, 'z) pk \<Rightarrow> nat \<times> ('m, 'z) pk" where
  "new_fdt files k = (next_box k, k \<lparr> fdt_at := (fdt_at k)(next_box k := files), next_box := next_box k + 1 \<rparr>)"

definition clone_fd_table :: "('m, 'z) pk \<Rightarrow> (nat \<times> ('m, 'z) pk) option" where
  "clone_fd_table k = do {
     let ptr = fd_table (thr (running_thread k) k);
     if ptr = 0 then Some (new_fdt fdt_new k)
     else do { (files, k) \<leftarrow> clone_slots (fdt_at k ptr) k; Some (new_fdt files k) }
   }"

definition get_fd_table :: "('m, 'z) pk \<Rightarrow> fds option" where
  "get_fd_table k = do {
     let ptr = fd_table (thr (running_thread k) k);
     assert (ptr \<noteq> 0);
     Some (fdt_at k ptr)
   }"

definition put_fd_table :: "fds \<Rightarrow> ('m, 'z) pk \<Rightarrow> ('m, 'z) pk" where
  "put_fd_table files k = k \<lparr> fdt_at := (fdt_at k)(fd_table (thr (running_thread k) k) := files) \<rparr>"

subsection \<open>Memory maps\<close>

definition allocate_mapid :: "('m, 'z) pk \<Rightarrow> (int \<times> ('m, 'z) pk) option" where
  "allocate_mapid k = do { n \<leftarrow> add_i32 (NEXT_MAPID k) 1; Some (NEXT_MAPID k, k \<lparr> NEXT_MAPID := n \<rparr>) }"

definition add_mmap :: "int \<Rightarrow> mmap_entry \<Rightarrow> ('m, 'z) pk \<Rightarrow> ('m, 'z) pk" where
  "add_mmap n e k = k \<lparr> MMAP_TABLE := map_option (\<lambda>m. m(n \<mapsto> (case m n of None \<Rightarrow> [] | Some es \<Rightarrow> es) @ [e])) (MMAP_TABLE k) \<rparr>"

definition remove_mmap :: "int \<Rightarrow> int \<Rightarrow> ('m, 'z) pk \<Rightarrow> mmap_entry option \<times> ('m, 'z) pk" where
  "remove_mmap n mid k = (case MMAP_TABLE k of
      None \<Rightarrow> (None, k)
    | Some m \<Rightarrow> (case m n of
          None \<Rightarrow> (None, k)
        | Some es \<Rightarrow> (case List.find (\<lambda>i. mapid (es ! i) = mid) [0..<length es] of
              None \<Rightarrow> (None, k)
            | Some pos \<Rightarrow> (Some (es ! pos), k \<lparr> MMAP_TABLE := Some (m(n \<mapsto> remove_at pos es)) \<rparr>))))"

fun overlaps_any :: "nat \<Rightarrow> nat \<Rightarrow> mmap_entry list \<Rightarrow> bool option" where
  "overlaps_any addr len [] = Some False"
| "overlaps_any addr len (e # es) = do {
     e_end \<leftarrow> add_usize (uaddr e) (mm_length e);
     new_end \<leftarrow> add_usize addr len;
     if addr < e_end \<and> new_end > uaddr e then Some True else overlaps_any addr len es
   }"

definition mmap_overlaps :: "int \<Rightarrow> nat \<Rightarrow> nat \<Rightarrow> ('m, 'z) pk \<Rightarrow> bool option" where
  "mmap_overlaps n addr len k = (case MMAP_TABLE k of
      None \<Rightarrow> Some False
    | Some m \<Rightarrow> (case m n of None \<Rightarrow> Some False | Some es \<Rightarrow> overlaps_any addr len es))"

text \<open>One page of \<open>munmap_entry\<close>: write it back if it is dirty, unmap it, free its frame.\<close>

definition munmap_page :: "mmap_entry \<Rightarrow> nat \<Rightarrow> nat \<Rightarrow> nat \<Rightarrow> ('m, 'z) pk \<Rightarrow> ('m, 'z) pk option" where
  "munmap_page e pd ofs cur_addr k = do {
     kp \<leftarrow> pd_get_page pd cur_addr (pal k);
     if kp = 0 then Some k
     else do {
       dirty \<leftarrow> is_dirty pd cur_addr (pal k);
       k \<leftarrow> (if dirty
         then do {
           rest \<leftarrow> sub_usize (mm_length e) ofs;
           let write_bytes = min rest PGSIZE;
           (_, k) \<leftarrow> on_fs (write_at (mm_inode_sector e) (read_mem kp write_bytes (ram (pal k))) (as_i32 (int write_bytes)) (as_i32 (int ofs))) k;
           Some k
         }
         else Some k);
       p \<leftarrow> clear_page pd cur_addr (pal k);
       free_frame (kp AND not_u32 (PGSIZE - 1)) (k \<lparr> pal := p \<rparr>)
     }
   }"

function munmap_loop :: "mmap_entry \<Rightarrow> nat \<Rightarrow> nat \<Rightarrow> nat \<Rightarrow> ('m, 'z) pk \<Rightarrow> ('m, 'z) pk option" where
  "munmap_loop e pd ofs cur_addr k =
     (if ofs < mm_length e
      then do {
        k \<leftarrow> munmap_page e pd ofs cur_addr k;
        ofs' \<leftarrow> add_usize ofs PGSIZE;
        cur \<leftarrow> add_usize cur_addr PGSIZE;
        munmap_loop e pd ofs' cur k
      }
      else Some k)"
  by pat_completeness auto
termination by (relation "measure (\<lambda>(e, pd, ofs, cur_addr, k). mm_length e - ofs)") (auto simp: add_usize_def PGSIZE_def split: if_splits)

definition munmap_entry :: "mmap_entry \<Rightarrow> ('m, 'z) pk \<Rightarrow> ('m, 'z) pk option" where
  "munmap_entry e k = do {
     let pd = pagedir (thr (running_thread k) k);
     if pd = 0 then Some k else munmap_loop e pd 0 (uaddr e) k
   }"

fun munmap_entries :: "mmap_entry list \<Rightarrow> ('m, 'z) pk \<Rightarrow> ('m, 'z) pk option" where
  "munmap_entries [] k = Some k"
| "munmap_entries (e # es) k = do {
     k \<leftarrow> munmap_entry e k;
     k \<leftarrow> in_fs (inode_close (mm_inode_sector e)) k;
     munmap_entries es k
   }"

definition munmap_all :: "int \<Rightarrow> ('m, 'z) pk \<Rightarrow> ('m, 'z) pk option" where
  "munmap_all n k = (case MMAP_TABLE k of
      None \<Rightarrow> Some k
    | Some m \<Rightarrow> (case m n of
          None \<Rightarrow> Some k
        | Some es \<Rightarrow> munmap_entries es (k \<lparr> MMAP_TABLE := Some (m(n := None)) \<rparr>)))"

end
