(* ===== verification/Elf.thy ===== *)
theory Elf
  imports Spt Encoding Pagedir UserMem
begin

section \<open>ELF images and the initial stack: userprog/process.rs\<close>

text \<open>
  The parts of the loader that do not touch the kernel state: the headers of an ELF image, the collection of the
  loadable segments, the supplementary page table that describes them, and the layout of the first stack page.
\<close>

unbundle bit_operations_syntax

definition PT_LOAD :: nat where "PT_LOAD = 1"
definition PF_W :: nat where "PF_W = 2"

definition ELF_MAGIC :: "byte list" where
  "ELF_MAGIC = [0x7f, 0x45, 0x4C, 0x46]"

definition u16_at :: "byte list \<Rightarrow> nat \<Rightarrow> nat" where
  "u16_at bs i = unat (bs ! i) + 256 * unat (bs ! (i + 1))"

record elf_ehdr =
  e_ident :: "byte list"
  e_type :: nat
  e_machine :: nat
  e_version :: nat
  e_entry :: nat
  e_phoff :: nat
  e_shoff :: nat
  e_flags :: nat
  e_ehsize :: nat
  e_phentsize :: nat
  e_phnum :: nat
  e_shentsize :: nat
  e_shnum :: nat
  e_shstrndx :: nat

record elf_phdr =
  p_type :: nat
  p_offset :: nat
  p_vaddr :: nat
  p_paddr :: nat
  p_filesz :: nat
  p_memsz :: nat
  p_flags :: nat
  p_align :: nat

definition EHDR_SIZE :: nat where "EHDR_SIZE = 52"
definition PHDR_SIZE :: nat where "PHDR_SIZE = 32"

text \<open>The copies of the first bytes over the \<open>repr(C)\<close> structures.\<close>

definition bytes_ehdr :: "byte list \<Rightarrow> elf_ehdr" where
  "bytes_ehdr d = \<lparr> e_ident = take 16 d, e_type = u16_at d 16, e_machine = u16_at d 18, e_version = u32_at d 20,
     e_entry = u32_at d 24, e_phoff = u32_at d 28, e_shoff = u32_at d 32, e_flags = u32_at d 36, e_ehsize = u16_at d 40,
     e_phentsize = u16_at d 42, e_phnum = u16_at d 44, e_shentsize = u16_at d 46, e_shnum = u16_at d 48, e_shstrndx = u16_at d 50 \<rparr>"

definition bytes_phdr :: "byte list \<Rightarrow> elf_phdr" where
  "bytes_phdr d = \<lparr> p_type = u32_at d 0, p_offset = u32_at d 4, p_vaddr = u32_at d 8, p_paddr = u32_at d 12,
     p_filesz = u32_at d 16, p_memsz = u32_at d 20, p_flags = u32_at d 24, p_align = u32_at d 28 \<rparr>"

definition valid_ehdr :: "elf_ehdr \<Rightarrow> bool" where
  "valid_ehdr h \<longleftrightarrow> take 4 (e_ident h) = ELF_MAGIC \<and> e_ident h ! 4 = 1 \<and> e_ident h ! 5 = 1 \<and> e_type h = 2 \<and> e_machine h = 3"

record seg_info =
  s_vaddr :: nat
  s_filesz :: nat
  s_memsz :: nat
  s_file_off :: nat
  s_writable :: bool

definition seg_of :: "elf_phdr \<Rightarrow> seg_info" where
  "seg_of p = \<lparr> s_vaddr = p_vaddr p, s_filesz = p_filesz p, s_memsz = p_memsz p, s_file_off = p_offset p,
     s_writable = (p_flags p AND PF_W \<noteq> 0) \<rparr>"

text \<open>The loop over the program headers, from header \<open>i\<close>; \<open>n\<close> headers are left. The flag is \<open>success\<close>.\<close>

primrec parse_phdrs :: "nat \<Rightarrow> elf_ehdr \<Rightarrow> byte list \<Rightarrow> nat \<Rightarrow> seg_info list \<Rightarrow> (bool \<times> seg_info list) option" where
  "parse_phdrs 0 h d i segs = Some (True, segs)"
| "parse_phdrs (Suc n) h d i segs = do {
     step \<leftarrow> mul_usize i (e_phentsize h);
     off \<leftarrow> add_usize (e_phoff h) step;
     end_off \<leftarrow> add_usize off PHDR_SIZE;
     if end_off > length d then Some (False, segs)
     else let p = bytes_phdr (drop off d)
          in if p_type p \<noteq> PT_LOAD then parse_phdrs n h d (Suc i) segs
             else if p_vaddr p \<ge> PHYS_BASE then Some (False, segs)
             else if p_memsz p < p_filesz p then Some (False, segs)
             else parse_phdrs n h d (Suc i) (segs @ [seg_of p])
   }"

subsection \<open>The supplementary page table of an image\<close>

text \<open>The overall range: first address, its offset in the file, end in memory, end of the file data.\<close>

definition load_range :: "seg_info list \<Rightarrow> (nat \<times> nat \<times> nat \<times> nat) option" where
  "load_range segs = do {
     let base_v = Min (set (map s_vaddr segs));
     first \<leftarrow> List.find (\<lambda>s. s_vaddr s = base_v) segs;
     ends \<leftarrow> those (map (\<lambda>s. add_usize (s_vaddr s) (s_memsz s)) segs);
     fends \<leftarrow> those (map (\<lambda>s. add_usize (s_vaddr s) (s_filesz s)) segs);
     Some (base_v, s_file_off first, Max (set ends), Max (set fends))
   }"

fun any_writable :: "nat \<Rightarrow> nat \<Rightarrow> seg_info list \<Rightarrow> bool option" where
  "any_writable page page_end [] = Some False"
| "any_writable page page_end (s # segs) = do {
     seg_end \<leftarrow> add_usize (s_vaddr s) (s_memsz s);
     if s_vaddr s < page_end \<and> seg_end > page \<and> s_writable s then Some True else any_writable page page_end segs
   }"

definition page_entry :: "seg_info list \<Rightarrow> nat \<times> nat \<times> nat \<times> nat \<Rightarrow> nat \<Rightarrow> nat \<Rightarrow> spt_entry option" where
  "page_entry segs rng sec page = (case rng of (base_v, base_f, end_v, end_f) \<Rightarrow> do {
     page_end \<leftarrow> add_usize page PGSIZE;
     let file_start = max page base_v;
     let file_end = min page_end end_f;
     (rb, po, fo) \<leftarrow> (if file_end > file_start
       then do {
         fo \<leftarrow> add_usize base_f (file_start - base_v);
         Some (file_end - file_start, file_start - page, fo)
       }
       else Some (0, 0, 0));
     w \<leftarrow> any_writable page page_end segs;
     Some \<lparr> vaddr = page, location = (if rb > 0 then OnDisk else Zero), page_type = Binary, writable = w,
       inode_sector = sec, file_offset = fo, read_bytes = rb, page_ofs = po \<rparr>
   })"

function spt_loop :: "seg_info list \<Rightarrow> nat \<times> nat \<times> nat \<times> nat \<Rightarrow> nat \<Rightarrow> nat \<Rightarrow> spt \<Rightarrow> spt option" where
  "spt_loop segs rng sec page t =
     (if page < fst (snd (snd rng))
      then do {
        t \<leftarrow> (if spt_find page t = None then do { e \<leftarrow> page_entry segs rng sec page; Some (spt_insert e t) } else Some t);
        page' \<leftarrow> add_usize page PGSIZE;
        spt_loop segs rng sec page' t
      }
      else Some t)"
  by pat_completeness auto
termination by (relation "measure (\<lambda>(segs, rng, sec, page, t). fst (snd (snd rng)) - page)")
  (auto simp: add_usize_def PGSIZE_def split: if_splits)

declare spt_loop.simps [simp del]

definition build_spt :: "seg_info list \<Rightarrow> nat \<Rightarrow> spt \<Rightarrow> spt option" where
  "build_spt segs sec t = do {
     rng \<leftarrow> load_range segs;
     spt_loop segs rng sec (fst rng AND not_u32 PGMASK) t
   }"

subsection \<open>The first stack page\<close>

text \<open>The argument strings, last argument first: downward from the end of the page, each with a terminating zero. The
  state is the user address, its mirror in the kernel, the addresses and the memory.\<close>

fun push_strings :: "byte list list \<Rightarrow> nat \<Rightarrow> nat \<Rightarrow> nat list \<Rightarrow> (nat \<Rightarrow> byte) \<Rightarrow> (nat \<times> nat list \<times> (nat \<Rightarrow> byte)) option" where
  "push_strings [] str_ptr kstr_ptr addrs m = Some (str_ptr, addrs, m)"
| "push_strings (a # as) str_ptr kstr_ptr addrs m = do {
     str_ptr \<leftarrow> sub_usize str_ptr (length a + 1);
     let kstr_ptr = kstr_ptr - (length a + 1);
     push_strings as str_ptr kstr_ptr (addrs @ [str_ptr]) (write_mem kstr_ptr (a @ [0]) m)
   }"

definition push_word :: "nat \<Rightarrow> nat \<Rightarrow> nat \<Rightarrow> nat \<times> (nat \<Rightarrow> byte) \<Rightarrow> (nat \<times> (nat \<Rightarrow> byte)) option" where
  "push_word kp up v s = do {
     sp \<leftarrow> sub_usize (fst s) 4;
     ofs \<leftarrow> sub_usize sp up;
     Some (sp, poke32 (kp + ofs) v (snd s))
   }"

fun push_words :: "nat \<Rightarrow> nat \<Rightarrow> nat list \<Rightarrow> nat \<times> (nat \<Rightarrow> byte) \<Rightarrow> (nat \<times> (nat \<Rightarrow> byte)) option" where
  "push_words kp up [] s = Some s"
| "push_words kp up (v # vs) s = do { s \<leftarrow> push_word kp up v s; push_words kp up vs s }"

text \<open>The whole page: strings, alignment, the null entry and the pointers of \<open>argv\<close>, then \<open>argv\<close>, \<open>argc\<close> and a return address.\<close>

definition fill_stack :: "nat \<Rightarrow> byte list list \<Rightarrow> (nat \<Rightarrow> byte) \<Rightarrow> (nat \<times> (nat \<Rightarrow> byte)) option" where
  "fill_stack kp args m = do {
     let up = PHYS_BASE - PGSIZE;
     (str_ptr, addrs, m) \<leftarrow> push_strings (rev args) PHYS_BASE (kp + PGSIZE) [] m;
     let arg_addrs = rev addrs;
     let sp = str_ptr AND not_u32 3;
     s \<leftarrow> push_word kp up 0 (sp, m);
     s \<leftarrow> push_words kp up (rev arg_addrs) s;
     s \<leftarrow> push_word kp up (fst s) s;
     s \<leftarrow> push_word kp up (length args) s;
     push_word kp up 0 s
   }"

end
