(* ===== verification/Exec.thy ===== *)
theory Exec
  imports Process Elf
begin

section \<open>Loading programs: userprog/process.rs\<close>

text \<open>
  \<open>load\<close> with the demand-paged loader and the first stack, \<open>exec\<close>, which replaces the image of the running process, and
  \<open>execute\<close>, which starts a new one. Addresses of functions are link-time constants, collected in a record.
  Memory of the kernel heap does not run out here.
\<close>

unbundle bit_operations_syntax

record links =
  l_switch_entry :: nat
  l_kernel_thread :: nat
  l_start_process :: nat
  l_fork_child_entry :: nat

definition install_page :: "nat \<Rightarrow> nat \<Rightarrow> nat \<Rightarrow> bool \<Rightarrow> ('m, 'z) vmk \<Rightarrow> (bool \<times> ('m, 'z) vmk) option" where
  "install_page pd up kp w k = do {
     a \<leftarrow> pd_get_page pd up (pal k);
     if a \<noteq> 0 then Some (False, k)
     else do { (ok, p) \<leftarrow> set_page pd up kp w (pal k); Some (ok, k \<lparr> pal := p \<rparr>) }
   }"

definition setup_stack :: "nat \<Rightarrow> str \<Rightarrow> ('m, 'z) vmk \<Rightarrow> (nat option \<times> ('m, 'z) vmk) option" where
  "setup_stack pd cmdline k = do {
     let up = PHYS_BASE - PGSIZE;
     (kp, k) \<leftarrow> alloc_frame up (tid (thr (running_thread k) k)) k;
     if kp = 0 then Some (None, k)
     else do {
       (ok, k) \<leftarrow> install_page pd up kp True k;
       if \<not> ok then do { k \<leftarrow> free_frame kp k; Some (None, k) }
       else do {
         (sp, m) \<leftarrow> fill_stack kp (map utf8 (split_whitespace cmdline)) (ram (pal k));
         Some (Some sp, set_ram m k)
       }
     }
   }"

definition stack_entry :: "nat \<Rightarrow> spt_entry" where
  "stack_entry page = \<lparr> vaddr = page, location = InMemory, page_type = Anonymous, writable = True, inode_sector = 0,
     file_offset = 0, read_bytes = 0, page_ofs = 0 \<rparr>"

text \<open>The table of thread \<open>n\<close> is updated in place.\<close>

definition with_spt :: "int \<Rightarrow> (spt \<Rightarrow> spt option) \<Rightarrow> ('m, 'z) vmk \<Rightarrow> ('m, 'z) vmk option" where
  "with_spt n f k = do {
     table \<leftarrow> SPT_TABLE k;
     t \<leftarrow> table n;
     t \<leftarrow> f t;
     Some (k \<lparr> SPT_TABLE := Some (table(n \<mapsto> t)) \<rparr>)
   }"

definition drop_spt :: "int \<Rightarrow> ('m, 'z) vmk \<Rightarrow> ('m, 'z) vmk option" where
  "drop_spt n k = do {
     (t, k) \<leftarrow> remove_spt n k;
     Some (case t of None \<Rightarrow> k | Some t \<Rightarrow> put_swap (spt_destroy t (get_swap k)) k)
   }"

definition load_demand_paged :: "byte list \<Rightarrow> str \<Rightarrow> nat \<Rightarrow> ('m, 'z) vmk \<Rightarrow> ((nat \<times> nat) option \<times> ('m, 'z) vmk) option" where
  "load_demand_paged d cmdline sec k =
     (if length d < EHDR_SIZE then Some (None, k)
      else let h = bytes_ehdr d
      in if \<not> valid_ehdr h then Some (None, k)
      else do {
        (pd, p) \<leftarrow> pd_create (INIT_PAGE_DIR k) (pal k);
        let k = k \<lparr> pal := p \<rparr>;
        if pd = 0 then Some (None, k)
        else do {
          let t = running_thread k;
          let n = tid (thr t k);
          k \<leftarrow> set_spt n spt_new k;
          let old_pd = pagedir (thr t k);
          k \<leftarrow> pd_activate pd k;
          (success, segs) \<leftarrow> parse_phdrs (e_phnum h) h d 0 [];
          k \<leftarrow> (if success \<and> segs \<noteq> [] then with_spt n (build_spt segs sec) k else Some k);
          (sp, k) \<leftarrow> (if success then setup_stack pd cmdline k else Some (None, k));
          k \<leftarrow> (if sp \<noteq> None then with_spt n (\<lambda>t. Some (spt_insert (stack_entry (PHYS_BASE - PGSIZE)) t)) k else Some k);
          k \<leftarrow> pd_activate old_pd k;
          case sp of
            None \<Rightarrow> do { k \<leftarrow> drop_spt n k; k \<leftarrow> pd_destroy pd k; Some (None, k) }
          | Some sp \<Rightarrow> do {
              let k = set_thr t (\<lambda>th. th \<lparr> pagedir := pd \<rparr>) k;
              k \<leftarrow> (if segs \<noteq> []
                then do {
                  ends \<leftarrow> those (map (\<lambda>s. add_usize (s_vaddr s) (s_memsz s)) segs);
                  b \<leftarrow> pg_round_up (Max (set ends));
                  Some (set_thr t (\<lambda>th. th \<lparr> brk := b \<rparr>) k)
                }
                else Some k);
              Some (Some (e_entry h, sp), k)
            }
        }
      })"

text \<open>The file is read as a whole into a buffer of its length.\<close>

definition load :: "str \<Rightarrow> ('m, 'z) pk \<Rightarrow> ((nat \<times> nat) option \<times> ('m, 'z) pk) option" where
  "load cmdline k = (case split_whitespace cmdline of
      [] \<Rightarrow> Some (None, k)
    | filename # _ \<Rightarrow> do {
        (r, k) \<leftarrow> on_fs (fs_open (utf8 filename) (cwd_sector (thr (running_thread k) k))) k;
        case r of
          None \<Rightarrow> Some (None, k)
        | Some f \<Rightarrow> do {
            (len, k) \<leftarrow> on_fs (file_length f) k;
            let file_len = as_u32 len;
            let f = file_seek 0 f;
            ((n, d, f), k) \<leftarrow> on_fs (\<lambda>s. do { (n, d, f, s) \<leftarrow> file_read f (replicate file_len 0) (as_i32 (int file_len)) s; Some ((n, d, f), s) }) k;
            if as_u32 n < file_len then do { k \<leftarrow> in_fs (file_close f) k; Some (None, k) }
            else do {
              (r, k) \<leftarrow> load_demand_paged d cmdline (f_inode_sector f) k;
              case r of
                None \<Rightarrow> do { k \<leftarrow> in_fs (file_close f) k; Some (None, k) }
              | Some e \<Rightarrow> do {
                  k \<leftarrow> in_fs (inode_deny_write (f_inode_sector f)) k;
                  k \<leftarrow> ps_modify (tid (thr (running_thread k) k)) (\<lambda>ps. ps \<lparr> executable_sector := Some (f_inode_sector f) \<rparr>) k;
                  Some (Some e, k)
                }
            }
          }
      })"

text \<open>The release of the executable of thread \<open>n\<close>.\<close>

definition release_executable :: "int \<Rightarrow> ('m, 'z) pk \<Rightarrow> ('m, 'z) pk option" where
  "release_executable n k = do {
     r \<leftarrow> ps_get n k;
     case r of
       None \<Rightarrow> Some k
     | Some ps \<Rightarrow> (case executable_sector ps of
           None \<Rightarrow> Some k
         | Some sec \<Rightarrow> do {
             k \<leftarrow> ps_modify n (\<lambda>ps. ps \<lparr> executable_sector := None \<rparr>) k;
             k \<leftarrow> in_fs (inode_allow_write sec) k;
             in_fs (inode_close sec) k
           })
   }"

subsection \<open>exec\<close>

primrec user_string :: "nat \<Rightarrow> nat \<Rightarrow> ('m, 'z) vmk \<Rightarrow> (str \<times> ('m, 'z) vmk) option" where
  "user_string 0 sp k = Some ([], k)"
| "user_string (Suc n) sp k =
     (if sp \<ge> PHYS_BASE then Some ([], k)
      else do {
        (b, k) \<leftarrow> user_load8 sp k;
        if b = 0 then Some ([], k)
        else do { (s, k) \<leftarrow> user_string n (sp + 1) k; Some (unat b # s, k) }
      })"

primrec argv_strings :: "nat \<Rightarrow> nat \<Rightarrow> ('m, 'z) vmk \<Rightarrow> (str list \<times> ('m, 'z) vmk) option" where
  "argv_strings 0 ptr k = Some ([], k)"
| "argv_strings (Suc n) ptr k = do {
     e \<leftarrow> add_usize ptr 4;
     if e > PHYS_BASE then Some ([], k)
     else do {
       (str_ptr, k) \<leftarrow> user_load32 ptr k;
       if str_ptr = 0 \<or> str_ptr \<ge> PHYS_BASE then Some ([], k)
       else do {
         (s, k) \<leftarrow> user_string 256 str_ptr k;
         (ss, k) \<leftarrow> argv_strings n (ptr + 4) k;
         Some (s # ss, k)
       }
     }
   }"

fun join_spaces :: "str list \<Rightarrow> str" where
  "join_spaces [] = []"
| "join_spaces [s] = s"
| "join_spaces (s # ss) = s @ 32 # join_spaces ss"

definition build_cmdline_from_argv :: "nat \<Rightarrow> ('m, 'z) vmk \<Rightarrow> (str \<times> ('m, 'z) vmk) option" where
  "build_cmdline_from_argv argv_addr k = do { (ss, k) \<leftarrow> argv_strings 32 argv_addr k; Some (join_spaces ss, k) }"

text \<open>\<open>path.split('/').last()\<close>, and the name field: at most 15 bytes and a zero over the old contents.\<close>

definition base_name :: "str \<Rightarrow> str" where
  "base_name path = rev (takeWhile (\<lambda>c. c \<noteq> 47) (rev path))"

definition set_name :: "byte list \<Rightarrow> byte list \<Rightarrow> byte list" where
  "set_name name old = (let len = min (length name) 15 in (take len name @ drop len old)[len := 0])"

definition user_frame :: "nat \<Rightarrow> nat \<Rightarrow> intr_frame \<Rightarrow> intr_frame" where
  "user_frame entry sp f = f \<lparr> eip := entry, esp := sp, eax := 0, r_cs := SEL_UCSEG, r_ds := SEL_UDSEG, r_es := SEL_UDSEG,
     r_ss := SEL_UDSEG, eflags := 0x202 \<rparr>"

definition sys_exec :: "str \<Rightarrow> nat \<Rightarrow> intr_frame \<Rightarrow> ('m, 'z) pk \<Rightarrow> (int \<times> intr_frame \<times> ('m, 'z) pk) option" where
  "sys_exec path argv_addr frame k = do {
     let t = running_thread k;
     let n = tid (thr t k);
     let old_pd = pagedir (thr t k);
     (cmdline, k) \<leftarrow> (if argv_addr \<noteq> 0 \<and> argv_addr < PHYS_BASE then build_cmdline_from_argv argv_addr k else Some (path, k));
     k \<leftarrow> release_executable n k;
     k \<leftarrow> drop_spt n k;
     let k = set_thr t (\<lambda>th. th \<lparr> pagedir := 0 \<rparr>) k;
     (r, k) \<leftarrow> load cmdline k;
     case r of
       Some (entry, sp) \<Rightarrow> do {
         k \<leftarrow> (if old_pd \<noteq> 0 then do { k \<leftarrow> pd_activate (pagedir (thr t k)) k; pd_destroy old_pd k } else Some k);
         let k = set_thr t (\<lambda>th. th \<lparr> sig_ignore := 0, t_name := set_name (utf8 (base_name path)) (t_name th) \<rparr>) k;
         Some (0, user_frame entry sp frame, k)
       }
     | None \<Rightarrow> do {
         let k = set_thr t (\<lambda>th. th \<lparr> pagedir := old_pd \<rparr>) k;
         k \<leftarrow> (if old_pd \<noteq> 0 then pd_activate old_pd k else Some k);
         Some (- 1, frame, k)
       }
   }"

subsection \<open>execute\<close>

text \<open>Where a call stands: it returned, it waits for the new process to load, or the new thread runs first because it has
  a higher priority.\<close>

datatype exec_result = Exec_done int | Exec_waits int | Exec_preempted int

definition ensure_parent_sema :: "int \<Rightarrow> ('m, 'z) pk \<Rightarrow> ('m, 'z) pk option" where
  "ensure_parent_sema n k = do {
     m \<leftarrow> PARENT_WAIT_SEMAS k;
     Some (if n \<in> dom m then k else k \<lparr> PARENT_WAIT_SEMAS := Some (m(n \<mapsto> 0)) \<rparr>)
   }"

text \<open>The second half: the process state is registered, then the parent waits.\<close>

definition execute_register :: "int \<Rightarrow> ('m, 'z) pk \<Rightarrow> ('m, 'z) pk option" where
  "execute_register n k = do {
     let parent = tid (thr (running_thread k) k);
     k \<leftarrow> ps_insert n \<lparr> ps_tid = n, ps_parent_tid = parent, exit_status = - 1, exited = False, waited = False, wait_sema = 0,
       load_sema = 0, load_success = False, executable_sector = None \<rparr> k;
     ensure_parent_sema parent k
   }"

definition execute :: "links \<Rightarrow> str \<Rightarrow> ('m, 'z) pk \<Rightarrow> (exec_result \<times> ('m, 'z) pk) option" where
  "execute l cmd_line k = do {
     let prog_name = (case split_whitespace cmd_line of [] \<Rightarrow> [] | w # _ \<Rightarrow> w);
     let cmd_ptr = next_box k;
     let k = k \<lparr> cmd_at := (cmd_at k)(cmd_ptr := cmd_line), next_box := cmd_ptr + 1 \<rparr>;
     (n, preempted, k) \<leftarrow> thread_create (l_switch_entry l) (l_kernel_thread l) (utf8 prog_name) PRI_DEFAULT (l_start_process l) cmd_ptr k;
     if n = TID_ERROR then Some (Exec_done TID_ERROR, k)
     else if preempted \<noteq> None then Some (Exec_preempted n, k)
     else do { k \<leftarrow> execute_register n k; Some (Exec_waits n, k) }
   }"

text \<open>The end, once \<open>load_sema\<close> is positive.\<close>

definition execute_finish :: "int \<Rightarrow> ('m, 'z) pk \<Rightarrow> (exec_result \<times> ('m, 'z) pk) option" where
  "execute_finish n k = do {
     r \<leftarrow> ps_get n k;
     ps \<leftarrow> r;
     if load_sema ps = 0 then Some (Exec_waits n, k)
     else do {
       k \<leftarrow> ps_modify n (\<lambda>ps. ps \<lparr> load_sema := load_sema ps - 1 \<rparr>) k;
       if load_success ps then Some (Exec_done n, k)
       else do { k \<leftarrow> ps_remove n k; Some (Exec_done TID_ERROR, k) }
     }
   }"

text \<open>\<open>start_process\<close> in the new thread: the entry point and stack it jumps to, or none if it exits.\<close>

definition start_process :: "nat \<Rightarrow> ('m, 'z) pk \<Rightarrow> ((nat \<times> nat) option \<times> ('m, 'z) pk) option" where
  "start_process aux k = do {
     let t = running_thread k;
     let n = tid (thr t k);
     (r, k) \<leftarrow> load (cmd_at k aux) k;
     case r of
       Some e \<Rightarrow> do {
         k \<leftarrow> ps_modify n (\<lambda>ps. ps \<lparr> load_success := True, load_sema := load_sema ps + 1 \<rparr>) k;
         let (ptr, k) = new_fdt fdt_new k;
         let k = set_thr t (\<lambda>th. th \<lparr> fd_table := ptr \<rparr>) k;
         k \<leftarrow> pd_activate (pagedir (thr t k)) k;
         Some (Some e, k)
       }
     | None \<Rightarrow> do {
         k \<leftarrow> ps_modify n (\<lambda>ps. ps \<lparr> load_success := False, load_sema := load_sema ps + 1 \<rparr>) k;
         k \<leftarrow> exit k;
         Some (None, k)
       }
   }"

end
