(* ===== verification/StackProps.thy ===== *)
theory StackProps
  imports Exec PagedirProps
begin

section \<open>The initial stack\<close>

text \<open>
  What a new program finds on its stack: the layout that \<open>setup_stack\<close> writes, read back as the C convention reads it, and
  the bound on the size of the arguments behind which the kernel panics.
\<close>

unbundle bit_operations_syntax

definition strings_size :: "byte list list \<Rightarrow> nat" where
  "strings_size args = sum_list (map (\<lambda>a. length a + 1) args)"

lemma strings_size_simps [simp]: "strings_size [] = 0" "strings_size (a # as) = length a + 1 + strings_size as"
  "strings_size (as @ bs) = strings_size as + strings_size bs" "strings_size (rev as) = strings_size as"
  by (simp_all add: strings_size_def rev_map [symmetric] flip: rev_map)

lemma strings_size_take: "strings_size (take i as) \<le> strings_size as"
  by (metis append_take_drop_id le_add1 strings_size_simps(3))

text \<open>A string at an address, with its terminating zero.\<close>

definition c_string :: "(nat \<Rightarrow> byte) \<Rightarrow> nat \<Rightarrow> byte list \<Rightarrow> bool" where
  "c_string m a s \<longleftrightarrow> read_mem a (length s + 1) m = s @ [0]"

lemma c_string_cong:
  assumes "\<And>x. a \<le> x \<Longrightarrow> x < a + length s + 1 \<Longrightarrow> m x = m' x" shows "c_string m a s = c_string m' a s"
proof -
  have "read_mem a (length s + 1) m = read_mem a (length s + 1) m'" unfolding read_mem_def using assms by (intro map_cong) auto
  then show ?thesis by (simp add: c_string_def)
qed

lemma c_string_write: "c_string (write_mem a (s @ [0]) m) a s"
  using read_write_same [of a "s @ [0]" m] by (simp add: c_string_def)

lemma push_strings_spec:
  assumes "strings_size as \<le> s" and "strings_size as \<le> ks"
  shows "\<exists>m'. push_strings as s ks addrs m
      = Some (s - strings_size as, addrs @ map (\<lambda>i. s - strings_size (take (Suc i) as)) [0..<length as], m')
    \<and> (\<forall>i < length as. c_string m' (ks - strings_size (take (Suc i) as)) (as ! i))
    \<and> (\<forall>x. x < ks - strings_size as \<or> ks \<le> x \<longrightarrow> m' x = m x)"
  using assms
proof (induction as arbitrary: s ks addrs m)
  case (Cons a as)
  let ?n = "length a + 1"
  let ?m = "write_mem (ks - ?n) (a @ [0]) m"
  have le: "strings_size as \<le> s - ?n" "strings_size as \<le> ks - ?n" using Cons.prems by simp_all
  from Cons.IH [OF le, of "addrs @ [s - ?n]" ?m] obtain m' where
    m': "push_strings as (s - ?n) (ks - ?n) (addrs @ [s - ?n]) ?m
      = Some (s - ?n - strings_size as, (addrs @ [s - ?n]) @ map (\<lambda>i. s - ?n - strings_size (take (Suc i) as)) [0..<length as], m')"
      "\<forall>i < length as. c_string m' (ks - ?n - strings_size (take (Suc i) as)) (as ! i)"
      "\<forall>x. x < ks - ?n - strings_size as \<or> ks - ?n \<le> x \<longrightarrow> m' x = ?m x" by blast
  have "map (\<lambda>i. s - strings_size (take (Suc i) (a # as))) [0..<length (a # as)]
      = (s - ?n) # map (\<lambda>i. s - ?n - strings_size (take (Suc i) as)) [0..<length as]"
    by (simp add: upt_conv_Cons map_Suc_upt [symmetric] comp_def del: upt_Suc)
  moreover have "push_strings (a # as) s ks addrs m = push_strings as (s - ?n) (ks - ?n) (addrs @ [s - ?n]) ?m"
    using Cons.prems by (simp add: sub_usize_def Let_def)
  moreover have "c_string m' (ks - strings_size (take (Suc i) (a # as))) ((a # as) ! i)" if "i < length (a # as)" for i
  proof (cases i)
    case 0
    have "c_string m' (ks - ?n) a = c_string ?m (ks - ?n) a" by (rule c_string_cong) (use m'(3) in simp)
    with 0 c_string_write show ?thesis by simp
  next
    case (Suc j)
    with m'(2) that show ?thesis by simp
  qed
  moreover have "m' x = m x" if "x < ks - strings_size (a # as) \<or> ks \<le> x" for x
    using m'(3) that Cons.prems(2) by (auto simp: write_mem_def)
  ultimately show ?case using m'(1) by auto
qed simp

lemma push_strings_none: "s < strings_size as \<Longrightarrow> push_strings as s ks addrs m = None"
  by (induction as arbitrary: s ks addrs m) (auto simp: sub_usize_def Let_def)

subsection \<open>Words\<close>

lemma push_words_append: "push_words kp up (vs @ ws) s = do { s \<leftarrow> push_words kp up vs s; push_words kp up ws s }"
  by (induction vs arbitrary: s) (auto simp: bind_assoc split: Option.bind_splits)

lemma push_words_one: "push_words kp up [v] = push_word kp up v"
proof
  fix s show "push_words kp up [v] s = push_word kp up v s" by (cases "push_word kp up v s") simp_all
qed

lemma push_words_spec:
  assumes al: "4 dvd kp" "4 dvd up" "4 dvd sp" and fits: "up + 4 * length ws \<le> sp" and b: "\<forall>w \<in> set ws. w < 2 ^ 32"
  shows "\<exists>m'. push_words kp up ws (sp, m) = Some (sp - 4 * length ws, m')
    \<and> (\<forall>i < length ws. peek32 m' (kp + (sp - 4 * Suc i - up)) = ws ! i)
    \<and> (\<forall>x. x < kp + (sp - 4 * length ws - up) \<or> kp + (sp - up) \<le> x \<longrightarrow> m' x = m x)"
  using al(3) fits b
proof (induction ws arbitrary: sp m)
  case (Cons w ws)
  let ?a = "kp + (sp - 4 - up)"
  let ?m = "poke32 ?a w m"
  have sp: "4 \<le> sp" "up \<le> sp - 4" "4 dvd sp - 4" "up + 4 * length ws \<le> sp - 4" using Cons.prems by auto
  from Cons.IH [OF sp(3,4), of ?m] Cons.prems(3) obtain m' where
    m': "push_words kp up ws (sp - 4, ?m) = Some (sp - 4 - 4 * length ws, m')"
      "\<forall>i < length ws. peek32 m' (kp + (sp - 4 - 4 * Suc i - up)) = ws ! i"
      "\<forall>x. x < kp + (sp - 4 - 4 * length ws - up) \<or> kp + (sp - 4 - up) \<le> x \<longrightarrow> m' x = ?m x" by auto
  have "push_words kp up (w # ws) (sp, m) = push_words kp up ws (sp - 4, ?m)"
    using sp by (simp add: push_word_def sub_usize_def)
  moreover have "peek32 m' (kp + (sp - 4 * Suc i - up)) = (w # ws) ! i" if "i < length (w # ws)" for i
  proof (cases i)
    case 0
    have "peek32 m' ?a = peek32 ?m ?a" using m'(3) by (simp add: peek32_def)
    also have "\<dots> = w" using Cons.prems(3) by (intro peek_poke_same) simp
    finally show ?thesis using 0 by simp
  next
    case (Suc j)
    with m'(2) that show ?thesis by simp
  qed
  moreover have "m' x = m x" if "x < kp + (sp - 4 * length (w # ws) - up) \<or> kp + (sp - up) \<le> x" for x
  proof -
    have "x < kp + (sp - 4 - 4 * length ws - up) \<or> kp + (sp - 4 - up) \<le> x" "x < ?a \<or> ?a + 4 \<le> x" using that sp by auto
    with m'(3) show ?thesis by (auto simp: poke32_def)
  qed
  ultimately show ?case using m'(1) by simp
qed simp

lemma push_words_none: "ws \<noteq> [] \<Longrightarrow> sp < up + 4 * length ws \<Longrightarrow> push_words kp up ws (sp, m) = None"
proof (induction ws arbitrary: sp m)
  case (Cons w ws)
  then show ?case by (cases "ws = []") (auto simp: push_word_def sub_usize_def split: if_splits)
qed simp

section \<open>Properties\<close>

text \<open>Where argument \<open>i\<close> lies, how many bytes the strings take with their padding, and the size of the whole stack.\<close>

definition arg_addr :: "byte list list \<Rightarrow> nat \<Rightarrow> nat" where
  "arg_addr args i = PHYS_BASE - strings_size (drop i args)"

definition padded :: "nat \<Rightarrow> nat" where
  "padded n = (n + 3) div 4 * 4"

definition stack_bytes :: "byte list list \<Rightarrow> nat" where
  "stack_bytes args = padded (strings_size args) + 4 * (length args + 4)"

text \<open>The address in the kernel of a byte of the stack page.\<close>

definition mirror :: "nat \<Rightarrow> nat \<Rightarrow> nat" where
  "mirror kp va = kp + (va - (PHYS_BASE - PGSIZE))"

lemma round_four:
  assumes "n \<le> 4 * (c :: nat)" shows "(4 * c - n) div 4 * 4 = 4 * c - (n + 3) div 4 * 4"
proof -
  define q r where "q = n div 4" and "r = n mod 4"
  have n: "n = 4 * q + r" "r < 4" by (simp_all add: q_def r_def)
  show ?thesis
  proof (cases "r = 0")
    case True
    have "4 * c - n = 4 * (c - q)" "(n + 3) div 4 = q" using n True by simp_all
    then show ?thesis by simp
  next
    case False
    have "4 * c - n = (4 - r) + 4 * (c - q - 1)" "(n + 3) div 4 = q + 1" using n False assms by simp_all
    moreover have "(4 - r) div 4 = 0" using False by simp
    ultimately show ?thesis by simp
  qed
qed

lemma align_down: "n \<le> PHYS_BASE \<Longrightarrow> (PHYS_BASE - n) AND not_u32 3 = PHYS_BASE - padded n"
proof -
  assume n: "n \<le> PHYS_BASE"
  have m: "x AND not_u32 3 = x div 4 * 4" if "x < 2 ^ 32" for x
    using and_not_mask [of x 2] that by simp
  from round_four [of n "0x30000000"] have "(PHYS_BASE - n) div 4 * 4 = PHYS_BASE - padded n" using n by (simp add: padded_def PHYS_BASE_def)
  moreover have "PHYS_BASE - n < 2 ^ 32" by (simp add: PHYS_BASE_def)
  ultimately show ?thesis using m by simp
qed

lemma arg_addr_rev:
  assumes "i < length args"
  shows "map (\<lambda>j. PHYS_BASE - strings_size (take (Suc j) (rev args))) [0..<length (rev args)] ! (length args - Suc i) = arg_addr args i"
    "strings_size (take (Suc (length args - Suc i)) (rev args)) = strings_size (drop i args)"
proof -
  have "Suc (length args - Suc i) = length args - i" using assms by simp
  then show "strings_size (take (Suc (length args - Suc i)) (rev args)) = strings_size (drop i args)"
    using assms by (simp only: take_rev strings_size_simps) simp
  moreover have "length args - Suc i < length args" using assms by simp
  moreover from this have "[0..<length args] ! (length args - Suc i) = length args - Suc i" by simp
  ultimately show "map (\<lambda>j. PHYS_BASE - strings_size (take (Suc j) (rev args))) [0..<length (rev args)] ! (length args - Suc i) = arg_addr args i"
    by (simp add: arg_addr_def del: take_Suc)
qed

lemma fill_stack_eq:
  assumes s: "strings_size args \<le> PHYS_BASE" and ks: "strings_size args \<le> kp + PGSIZE"
  defines "addrs \<equiv> map (\<lambda>j. PHYS_BASE - strings_size (take (Suc j) (rev args))) [0..<length (rev args)]"
    and "sp \<equiv> PHYS_BASE - padded (strings_size args)"
  shows "\<exists>m1. (\<forall>i < length args. c_string m1 (kp + PGSIZE - strings_size (drop i args)) (args ! i))
    \<and> (\<forall>x. x < kp + PGSIZE - strings_size args \<or> kp + PGSIZE \<le> x \<longrightarrow> m1 x = m x)
    \<and> fill_stack kp args m = push_words kp (PHYS_BASE - PGSIZE) (0 # addrs @ [sp - 4 * (length args + 1), length args, 0]) (sp, m1)"
proof -
  let ?up = "PHYS_BASE - PGSIZE"
  from push_strings_spec [of "rev args" PHYS_BASE "kp + PGSIZE" "[]" m] s ks obtain m1 where
    m1: "push_strings (rev args) PHYS_BASE (kp + PGSIZE) [] m = Some (PHYS_BASE - strings_size args, addrs, m1)"
      "\<forall>i < length args. c_string m1 (kp + PGSIZE - strings_size (take (Suc i) (rev args))) (rev args ! i)"
      "\<forall>x. x < kp + PGSIZE - strings_size args \<or> kp + PGSIZE \<le> x \<longrightarrow> m1 x = m x" unfolding addrs_def by auto
  have str: "c_string m1 (kp + PGSIZE - strings_size (drop i args)) (args ! i)" if i: "i < length args" for i
    using m1(2) [rule_format, of "length args - Suc i"] i arg_addr_rev(2) [OF i] by (simp add: rev_nth)
  have fst_words: "fst s' = fst s0 - 4 * length ws" if "push_words kp ?up ws s0 = Some s'" for ws s0 s'
    using that by (induction ws arbitrary: s0) (auto simp: push_word_def sub_usize_def split: Option.bind_splits if_splits)
  have len: "length addrs = length args" by (simp add: addrs_def)
  have "fill_stack kp args m = do {
      s \<leftarrow> push_words kp ?up (0 # addrs) (sp, m1); s \<leftarrow> push_word kp ?up (fst s) s; push_words kp ?up [length args, 0] s }"
    by (simp add: fill_stack_def m1(1) align_down [OF s] sp_def bind_assoc Let_def push_words_one)
  also have "\<dots> = do { s \<leftarrow> push_words kp ?up (0 # addrs) (sp, m1); push_words kp ?up [sp - 4 * (length args + 1), length args, 0] s }"
    using fst_words [of "0 # addrs" "(sp, m1)"] len by (intro Option.bind_cong) (auto simp: push_words.simps(2) [abs_def])
  also have "\<dots> = push_words kp ?up (0 # addrs @ [sp - 4 * (length args + 1), length args, 0]) (sp, m1)"
    using push_words_append [of kp ?up "0 # addrs" _ "(sp, m1)", symmetric] by (simp only: append_Cons)
  finally show ?thesis using str m1(3) by blast
qed

lemma arg_addr_bounds:
  assumes "strings_size args \<le> PGSIZE"
  shows "PHYS_BASE - PGSIZE \<le> arg_addr args i" "arg_addr args i \<le> PHYS_BASE" "mirror kp (arg_addr args i) = kp + PGSIZE - strings_size (drop i args)"
proof -
  have "strings_size (drop i args) \<le> PGSIZE" using assms by (metis append_take_drop_id le_add2 le_trans strings_size_simps(3))
  then show "PHYS_BASE - PGSIZE \<le> arg_addr args i" "arg_addr args i \<le> PHYS_BASE" "mirror kp (arg_addr args i) = kp + PGSIZE - strings_size (drop i args)"
    by (simp_all add: arg_addr_def mirror_def PHYS_BASE_def PGSIZE_def)
qed

text \<open>The stack as a C program reads it: a return address, \<open>argc\<close>, \<open>argv\<close>, the vector with its null entry, and the strings.\<close>

definition argv_at :: "nat \<Rightarrow> byte list list \<Rightarrow> nat \<Rightarrow> (nat \<Rightarrow> byte) \<Rightarrow> bool" where
  "argv_at kp args sp m \<longleftrightarrow> peek32 m (mirror kp sp) = 0 \<and> peek32 m (mirror kp (sp + 4)) = length args
     \<and> peek32 m (mirror kp (sp + 8)) = sp + 12
     \<and> (\<forall>i < length args. peek32 m (mirror kp (sp + 12 + 4 * i)) = arg_addr args i \<and> c_string m (mirror kp (arg_addr args i)) (args ! i))
     \<and> peek32 m (mirror kp (sp + 12 + 4 * length args)) = 0"

lemma padded_bounds: "n \<le> padded n" "4 dvd padded n"
  by (simp_all add: padded_def)

text \<open>C36: The arguments of a program arrive. If the argument strings and pointers fit in the stack page, \<open>setup_stack\<close> leaves the stack pointer
  aligned, below it a return address, \<open>argc\<close> and \<open>argv\<close>, whose entries point to the strings in order, each with its terminating
  zero, followed by a null entry, all inside the page; nothing outside the page's frame changes. If they do not fit, the
  kernel panics.\<close>

theorem stack_layout:
  assumes kp: "4096 dvd kp" and big: "strings_size args \<le> kp"
  shows "if stack_bytes args \<le> PGSIZE
    then \<exists>m'. fill_stack kp args m = Some (PHYS_BASE - stack_bytes args, m') \<and> 4 dvd PHYS_BASE - stack_bytes args
      \<and> argv_at kp args (PHYS_BASE - stack_bytes args) m' \<and> (\<forall>x. x < kp \<or> kp + PGSIZE \<le> x \<longrightarrow> m' x = m x)
    else fill_stack kp args m = None"
proof -
  let ?S = "strings_size args" and ?up = "PHYS_BASE - PGSIZE" and ?n = "length args"
  define addrs where "addrs = map (\<lambda>j. PHYS_BASE - strings_size (take (Suc j) (rev args))) [0..<length (rev args)]"
  define sp where "sp = PHYS_BASE - padded ?S"
  define ws where "ws = 0 # addrs @ [sp - 4 * (?n + 1), ?n, 0]"
  have pb: "PHYS_BASE = 0xC0000000" "PGSIZE = 4096" by (simp_all add: PHYS_BASE_def PGSIZE_def)
  have len: "length addrs = ?n" "length ws = ?n + 4" by (simp_all add: addrs_def ws_def)
  show ?thesis
  proof (cases "?S \<le> PHYS_BASE")
    case S: True
    from fill_stack_eq [OF S, of kp m] big obtain m1 where
      m1: "\<forall>i < ?n. c_string m1 (kp + PGSIZE - strings_size (drop i args)) (args ! i)"
        "\<forall>x. x < kp + PGSIZE - ?S \<or> kp + PGSIZE \<le> x \<longrightarrow> m1 x = m x"
        "fill_stack kp args m = push_words kp ?up ws (sp, m1)" unfolding ws_def addrs_def sp_def by auto
    show ?thesis
    proof (cases "stack_bytes args \<le> PGSIZE")
      case False
      then have "sp < ?up + 4 * length ws" using padded_bounds by (simp add: sp_def stack_bytes_def len pb)
      with False m1(3) push_words_none [of ws sp ?up kp m1] show ?thesis by (simp add: ws_def)
    next
      case True
      have fit: "padded ?S + 4 * (?n + 4) \<le> 4096" "?S \<le> padded ?S" "4 dvd padded ?S"
        using True padded_bounds by (simp_all add: stack_bytes_def pb)
      have al: "4 dvd kp" "4 dvd ?up" "4 dvd sp" using kp fit(3) by (auto simp: pb sp_def intro: dvd_trans)
      have up: "?up + 4 * length ws \<le> sp" using fit by (simp add: sp_def len pb)
      have "\<forall>w \<in> set ws. w < 2 ^ 32" using fit(1) by (auto simp: ws_def addrs_def sp_def pb)
      from push_words_spec [OF al up this, of m1] obtain m' where
        m': "push_words kp ?up ws (sp, m1) = Some (sp - 4 * length ws, m')"
          "\<forall>i < length ws. peek32 m' (kp + (sp - 4 * Suc i - ?up)) = ws ! i"
          "\<forall>x. x < kp + (sp - 4 * length ws - ?up) \<or> kp + (sp - ?up) \<le> x \<longrightarrow> m' x = m1 x" by blast
      let ?sp = "PHYS_BASE - stack_bytes args"
      have e: "sp - 4 * length ws = ?sp" by (simp add: sp_def stack_bytes_def len)
      have w: "peek32 m' (mirror kp (?sp + 4 * j)) = ws ! (?n + 3 - j)" if "j < ?n + 4" for j
      proof -
        have "?sp + 4 * j = sp - 4 * Suc (?n + 3 - j)" using that fit(1) by (simp add: sp_def stack_bytes_def pb)
        then show ?thesis using m'(2) [rule_format, of "?n + 3 - j"] that len by (simp add: mirror_def)
      qed
      have "argv_at kp args ?sp m'"
        unfolding argv_at_def
      proof (intro conjI allI impI)
        show "peek32 m' (mirror kp ?sp) = 0" "peek32 m' (mirror kp (?sp + 4)) = ?n" "peek32 m' (mirror kp (?sp + 8)) = ?sp + 12"
          using w [of 0] w [of 1] w [of 2] len fit(1) by (simp_all add: ws_def nth_append sp_def stack_bytes_def pb)
        have idx: "?sp + 12 + 4 * i = ?sp + 4 * (3 + i)" for i by simp
        show "peek32 m' (mirror kp (?sp + 12 + 4 * ?n)) = 0" unfolding idx using w [of "3 + ?n"] by (simp add: ws_def)
        fix i assume i: "i < ?n"
        have "?n - Suc i < ?n" using i by simp
        then have "ws ! (?n - i) = addrs ! (?n - Suc i)" using i len by (simp add: ws_def nth_append nth_Cons')
        then show "peek32 m' (mirror kp (?sp + 12 + 4 * i)) = arg_addr args i"
          unfolding idx using w [of "3 + i"] i arg_addr_rev(1) [OF i] by (simp add: addrs_def)
        have S': "?S \<le> PGSIZE" using fit by (simp add: pb)
        have "c_string m' (mirror kp (arg_addr args i)) (args ! i) = c_string m1 (mirror kp (arg_addr args i)) (args ! i)"
        proof (rule c_string_cong)
          fix x assume "mirror kp (arg_addr args i) \<le> x"
          moreover have "strings_size (drop i args) \<le> padded ?S"
            using fit(2) by (metis append_take_drop_id le_add2 le_trans strings_size_simps(3))
          ultimately have "kp + (sp - ?up) \<le> x" using fit(1) unfolding arg_addr_bounds(3) [OF S'] by (simp add: sp_def pb)
          with m'(3) show "m' x = m1 x" by blast
        qed
        with m1(1) i show "c_string m' (mirror kp (arg_addr args i)) (args ! i)" unfolding arg_addr_bounds(3) [OF S'] by simp
      qed
      moreover have "m' x = m x" if "x < kp \<or> kp + PGSIZE \<le> x" for x
        using that m'(3) m1(2) fit up by (auto simp: sp_def pb)
      moreover have "4 dvd ?sp" using al(3) unfolding e [symmetric] by simp
      ultimately show ?thesis using True m1(3) m'(1) e by auto
    qed
  next
    case False
    then have "fill_stack kp args m = None" using push_strings_none [of PHYS_BASE "rev args"] by (simp add: fill_stack_def)
    moreover have "\<not> stack_bytes args \<le> PGSIZE" using False padded_bounds(1) [of ?S] by (simp add: stack_bytes_def pb)
    ultimately show ?thesis by simp
  qed
qed

theorem stack_layout_witness:
  "\<exists>sp m'. fill_stack 0xC0300000 [[0x6C, 0x73], [0x2D, 0x61]] (\<lambda>_. 7) = Some (sp, m') \<and> argv_at 0xC0300000 [[0x6C, 0x73], [0x2D, 0x61]] sp m'"
  using stack_layout [of "0xC0300000" "[[0x6C, 0x73], [0x2D, 0x61]]" "\<lambda>_. 7"]
  by (auto simp: stack_bytes_def padded_def PGSIZE_def)

end
