(* ===== verification/Fork.thy ===== *)
theory Fork
  imports Exec
begin

section \<open>fork, wait and exit: userprog/process.rs\<close>

text \<open>
  The copy of an address space and of the tables of a process, the synchronisation of a parent with its children, and
  the end of a process. An operation that waits at a semaphore of value zero says so in its result.
\<close>

unbundle bit_operations_syntax

subsection \<open>fork\<close>

text \<open>One entry of a page table of the parent: \<open>False\<close> if memory runs out.\<close>

definition copy_page :: "nat \<Rightarrow> int \<Rightarrow> nat \<Rightarrow> nat \<Rightarrow> nat \<Rightarrow> ('m, 'z) vmk \<Rightarrow> (bool \<times> ('m, 'z) vmk) option" where
  "copy_page cpd n pt pde_idx pte_idx k = do {
     let pte = peek32 (ram (pal k)) (pt + 4 * pte_idx);
     if pte AND PTE_P = 0 then Some (True, k)
     else do {
       let up = (push_bit 22 pde_idx OR push_bit 12 pte_idx);
       src \<leftarrow> ptov (pte AND PTE_ADDR);
       (dst, k) \<leftarrow> alloc_frame up n k;
       if dst = 0 then Some (False, k)
       else do {
         let k = set_ram (write_mem dst (read_mem src PGSIZE (ram (pal k))) (ram (pal k))) k;
         (ok, p) \<leftarrow> set_page cpd up dst (pte AND PTE_W \<noteq> 0) (pal k);
         let k = k \<lparr> pal := p \<rparr>;
         if ok then Some (True, k) else do { k \<leftarrow> free_frame dst k; Some (False, k) }
       }
     }
   }"

text \<open>A loop \<open>for i in a..a + n\<close> whose body may \<open>return false\<close>.\<close>

primrec loop_while_ok :: "nat \<Rightarrow> nat \<Rightarrow> (nat \<Rightarrow> 's \<Rightarrow> (bool \<times> 's) option) \<Rightarrow> 's \<Rightarrow> (bool \<times> 's) option" where
  "loop_while_ok a 0 f s = Some (True, s)"
| "loop_while_ok a (Suc n) f s = do { (ok, s) \<leftarrow> f a s; if ok then loop_while_ok (Suc a) n f s else Some (False, s) }"

definition copy_table :: "nat \<Rightarrow> nat \<Rightarrow> int \<Rightarrow> nat \<Rightarrow> ('m, 'z) vmk \<Rightarrow> (bool \<times> ('m, 'z) vmk) option" where
  "copy_table ppd cpd n pde_idx k = do {
     let pde = peek32 (ram (pal k)) (ppd + 4 * pde_idx);
     if pde AND PTE_P = 0 then Some (True, k)
     else do {
       pt \<leftarrow> ptov (pde AND PTE_ADDR);
       loop_while_ok 0 1024 (copy_page cpd n pt pde_idx) k
     }
   }"

definition copy_user_pages :: "nat \<Rightarrow> nat \<Rightarrow> int \<Rightarrow> ('m, 'z) vmk \<Rightarrow> (bool \<times> ('m, 'z) vmk) option" where
  "copy_user_pages ppd cpd n k = loop_while_ok 0 (drop_bit 22 PHYS_BASE) (copy_table ppd cpd n) k"

definition clone_location :: "page_location \<Rightarrow> page_location" where
  "clone_location l = (case l of InMemory \<Rightarrow> InMemory | InSwap _ \<Rightarrow> InMemory | other \<Rightarrow> other)"

definition clone_spt :: "spt \<Rightarrow> spt" where
  "clone_spt parent = fold (\<lambda>(_, e). spt_insert (e \<lparr> location := clone_location (location e) \<rparr>)) parent spt_new"

text \<open>The second half of \<open>fork\<close>, once the thread of the child exists.\<close>

definition fork_register :: "int \<Rightarrow> spt option \<Rightarrow> nat option \<Rightarrow> ('m, 'z) pk \<Rightarrow> ('m, 'z) pk option" where
  "fork_register child cspt exec_sector k = do {
     let parent = tid (thr (running_thread k) k);
     let k = fix_owner_tid (- 1) child k;
     k \<leftarrow> (case cspt of None \<Rightarrow> Some k | Some t \<Rightarrow> set_spt child t k);
     k \<leftarrow> set_thread_parent_info child parent (pgid (thr (running_thread k) k)) (sig_ignore (thr (running_thread k) k)) k;
     k \<leftarrow> ps_insert child \<lparr> ps_tid = child, ps_parent_tid = parent, exit_status = - 1, exited = False, waited = False, wait_sema = 0,
       load_sema = 1, load_success = True, executable_sector = exec_sector \<rparr> k;
     k \<leftarrow> ensure_parent_sema parent k;
     case exec_sector of
       None \<Rightarrow> Some k
     | Some sec \<Rightarrow> do { k \<leftarrow> in_fs (inode_open sec) k; in_fs (inode_deny_write sec) k }
   }"

text \<open>The undoing of a fork whose thread could not be created.\<close>

definition fork_undo :: "nat \<Rightarrow> nat \<Rightarrow> spt option \<Rightarrow> ('m, 'z) pk \<Rightarrow> ('m, 'z) pk option" where
  "fork_undo cpd cfdt cspt k = do {
     k \<leftarrow> (if cfdt \<noteq> 0 then do { (files, k) \<leftarrow> close_all (fdt_at k cfdt) k; Some k } else Some k);
     let k = (case cspt of None \<Rightarrow> k | Some t \<Rightarrow> put_swap (spt_destroy t (get_swap k)) k);
     pd_destroy cpd k
   }"

definition fork :: "links \<Rightarrow> intr_frame \<Rightarrow> ('m, 'z) pk \<Rightarrow> (exec_result \<times> ('m, 'z) pk) option" where
  "fork l parent_frame k = do {
     let t = running_thread k;
     let parent = tid (thr t k);
     let ppd = pagedir (thr t k);
     if ppd = 0 then Some (Exec_done (- 1), k)
     else do {
       (cpd, p) \<leftarrow> pd_create (INIT_PAGE_DIR k) (pal k);
       let k = k \<lparr> pal := p \<rparr>;
       if cpd = 0 then Some (Exec_done (- 1), k)
       else do {
         (ok, k) \<leftarrow> copy_user_pages ppd cpd (- 1) k;
         if \<not> ok then do { k \<leftarrow> pd_destroy cpd k; Some (Exec_done (- 1), k) }
         else do {
           pspt \<leftarrow> get_spt parent k;
           let cspt = map_option clone_spt pspt;
           (cfdt, k) \<leftarrow> clone_fd_table k;
           ps \<leftarrow> ps_get parent k;
           let exec_sector = (case ps of None \<Rightarrow> None | Some ps \<Rightarrow> executable_sector ps);
           let args_ptr = next_box k;
           let k = k \<lparr> fork_args_at := (fork_args_at k)(args_ptr := \<lparr> fa_frame = parent_frame \<lparr> eax := 0 \<rparr>, child_pd = cpd,
             child_fdt = cfdt, fa_cwd_sector = cwd_sector (thr t k), fa_brk = brk (thr t k) \<rparr>), next_box := args_ptr + 1 \<rparr>;
           (n, preempted, k) \<leftarrow> thread_create (l_switch_entry l) (l_kernel_thread l) (current_name k) (get_priority k) (l_fork_child_entry l) args_ptr k;
           if n = TID_ERROR then do { k \<leftarrow> fork_undo cpd cfdt cspt k; Some (Exec_done (- 1), k) }
           else if preempted \<noteq> None then Some (Exec_preempted n, k)
           else do { k \<leftarrow> fork_register n cspt exec_sector k; Some (Exec_done n, k) }
         }
       }
     }
   }"

text \<open>\<open>fork_child_entry\<close> up to the return to user mode, with the frame it returns through.\<close>

definition fork_child_entry :: "nat \<Rightarrow> ('m, 'z) pk \<Rightarrow> (intr_frame \<times> ('m, 'z) pk) option" where
  "fork_child_entry aux k = do {
     let a = fork_args_at k aux;
     let k = set_thr (running_thread k) (\<lambda>th. th \<lparr> pagedir := child_pd a, fd_table := child_fdt a,
       cwd_sector := fa_cwd_sector a, brk := fa_brk a \<rparr>) k;
     k \<leftarrow> pd_activate (child_pd a) k;
     Some (fa_frame a, k)
   }"

subsection \<open>wait\<close>

text \<open>The first part marks the child as waited for; \<open>None\<close> is -1 for a child that is unknown or already waited for.\<close>

definition wait_begin :: "int \<Rightarrow> ('m, 'z) pk \<Rightarrow> (bool \<times> ('m, 'z) pk) option" where
  "wait_begin n k = do {
     r \<leftarrow> ps_get n k;
     case r of
       None \<Rightarrow> Some (False, k)
     | Some ps \<Rightarrow> if waited ps then Some (False, k)
         else do { k \<leftarrow> ps_modify n (\<lambda>ps. ps \<lparr> waited := True \<rparr>) k; Some (True, k) }
   }"

text \<open>The second part: the status of the child and its removal, or \<open>None\<close> while it has not exited.\<close>

definition wait_finish :: "int \<Rightarrow> ('m, 'z) pk \<Rightarrow> (int option \<times> ('m, 'z) pk) option" where
  "wait_finish n k = do {
     r \<leftarrow> ps_get n k;
     ps \<leftarrow> r;
     if wait_sema ps = 0 then Some (None, k)
     else do { k \<leftarrow> ps_remove n k; Some (Some (exit_status ps), k) }
   }"

definition wait :: "int \<Rightarrow> ('m, 'z) pk \<Rightarrow> (int option \<times> ('m, 'z) pk) option" where
  "wait n k = do {
     (ok, k) \<leftarrow> wait_begin n k;
     if ok then wait_finish n k else Some (Some (- 1), k)
   }"

text \<open>One round of \<open>wait_any_child\<close>: a child and its status (-1 for both without children), \<open>Again\<close> after taking one count of
  the parent's semaphore, \<open>Sleeps\<close> while there is none to take.\<close>

datatype wait_result = Child int int | Again | Sleeps

definition wait_any_child :: "int \<Rightarrow> ('m, 'z) pk \<Rightarrow> (wait_result \<times> ('m, 'z) pk) option" where
  "wait_any_child parent k = do {
     k \<leftarrow> ensure_parent_sema parent k;
     m \<leftarrow> PROCESS_STATES k;
     case List.find (\<lambda>(_, ps). ps_parent_tid ps = parent \<and> exited ps \<and> \<not> waited ps) m of
       Some (n, _) \<Rightarrow> do {
         (st, k) \<leftarrow> wait n k;
         Some (case st of Some st \<Rightarrow> Child n st | None \<Rightarrow> Sleeps, k)
       }
     | None \<Rightarrow>
         if \<not> (\<exists>(_, ps) \<in> set m. ps_parent_tid ps = parent \<and> \<not> waited ps) then Some (Child (- 1) (- 1), k)
         else do {
           semas \<leftarrow> PARENT_WAIT_SEMAS k;
           v \<leftarrow> semas parent;
           if v = 0 then Some (Sleeps, k)
           else Some (Again, k \<lparr> PARENT_WAIT_SEMAS := Some (semas(parent \<mapsto> v - 1)) \<rparr>)
         }
   }"

subsection \<open>exit\<close>

text \<open>Children that have exited are forgotten, the others get the parent 1.\<close>

definition reparent :: "int \<Rightarrow> (int \<times> process_state) list \<Rightarrow> (int \<times> process_state) list" where
  "reparent n m = map (\<lambda>(c, ps). (c, if ps_parent_tid ps = n then ps \<lparr> ps_parent_tid := 1 \<rparr> else ps))
     (filter (\<lambda>(c, ps). \<not> (ps_parent_tid ps = n \<and> exited ps)) m)"

definition signal_parent :: "int \<Rightarrow> int \<Rightarrow> ('m, 'z) pk \<Rightarrow> ('m, 'z) pk option" where
  "signal_parent n st k = do {
     r \<leftarrow> ps_get n k;
     k \<leftarrow> (case r of
         None \<Rightarrow> Some k
       | Some ps \<Rightarrow> do {
           semas \<leftarrow> PARENT_WAIT_SEMAS k;
           Some (k \<lparr> PARENT_WAIT_SEMAS := Some (semas(ps_parent_tid ps := map_option Suc (semas (ps_parent_tid ps)))) \<rparr>)
         });
     ps_modify n (\<lambda>ps. ps \<lparr> exit_status := st, exited := True, wait_sema := wait_sema ps + 1 \<rparr>) k
   }"

definition exit_with_status :: "int \<Rightarrow> ('m, 'z) pk \<Rightarrow> ('m, 'z) pk option" where
  "exit_with_status st k = do {
     let t = running_thread k;
     let n = tid (thr t k);
     k \<leftarrow> release_executable n k;
     k \<leftarrow> munmap_all n k;
     k \<leftarrow> signal_parent n st k;
     m \<leftarrow> PROCESS_STATES k;
     semas \<leftarrow> PARENT_WAIT_SEMAS k;
     let k = k \<lparr> PROCESS_STATES := Some (reparent n m), PARENT_WAIT_SEMAS := Some (semas(n := None)) \<rparr>;
     let ptr = fd_table (thr t k);
     k \<leftarrow> (if ptr \<noteq> 0
       then do { (files, k) \<leftarrow> close_all (fdt_at k ptr) k; Some (set_thr t (\<lambda>th. th \<lparr> fd_table := 0 \<rparr>) k) }
       else Some k);
     k \<leftarrow> drop_spt n k;
     let pd = pagedir (thr t k);
     if pd \<noteq> 0
     then do {
       k \<leftarrow> pd_activate 0 (set_thr t (\<lambda>th. th \<lparr> pagedir := 0 \<rparr>) k);
       pd_destroy pd k
     }
     else Some k
   }"

definition process_exit :: "('m, 'z) pk \<Rightarrow> ('m, 'z) pk option" where
  "process_exit k = do { k \<leftarrow> exit_with_status (- 1) k; exit k }"

text \<open>\<open>check_signals\<close> of thread/mod.rs.\<close>

definition check_signals :: "('m, 'z) pk \<Rightarrow> ('m, 'z) pk option" where
  "check_signals k =
     (if killed (thr (running_thread k) k) then do { k \<leftarrow> exit_with_status (- 1) k; exit k } else Some k)"

end
