(* ===== verification/ForkProps.thy ===== *)
theory ForkProps
  imports PageIn Fork
begin

section \<open>fork copies the address space\<close>

text \<open>
  \<open>copy_user_pages\<close> gives the child the parent's memory: every page that is present in the parent is present in the child with
  the same content and the same write permission, in a frame of its own. Pages are identified by their number. The
  counts of free frames and of free kernel pages are the resources it needs; with them it does not evict and does not fail.
\<close>

unbundle bit_operations_syntax

definition USER_PAGES :: nat where
  "USER_PAGES = 768 * 1024"

definition pte_at :: "nat \<Rightarrow> palloc \<Rightarrow> nat \<Rightarrow> nat" where
  "pte_at pd p u = pte_word pd (ram p) (u * 4096)"

definition present :: "nat \<Rightarrow> palloc \<Rightarrow> nat \<Rightarrow> bool" where
  "present pd p u \<longleftrightarrow> pte_at pd p u AND PTE_P \<noteq> 0"

definition frame_at :: "nat \<Rightarrow> palloc \<Rightarrow> nat \<Rightarrow> nat" where
  "frame_at pd p u = table (pte_at pd p u)"

definition page_bytes :: "palloc \<Rightarrow> nat \<Rightarrow> byte list" where
  "page_bytes p a = read_mem a 4096 (ram p)"

text \<open>What the copy leaves alone.\<close>

definition parent_kept :: "nat \<Rightarrow> palloc \<Rightarrow> palloc \<Rightarrow> bool" where
  "parent_kept ppd p0 p \<longleftrightarrow> (\<forall>u < USER_PAGES. pte_at ppd p u = pte_at ppd p0 u) \<and> (\<forall>d < 768. pde_of ppd (ram p) d = pde_of ppd (ram p0) d)
     \<and> (\<forall>a. upage_ok p0 a \<longrightarrow> upage_ok p a \<and> page_bytes p a = page_bytes p0 a)"

definition page_copied :: "nat \<Rightarrow> nat \<Rightarrow> palloc \<Rightarrow> palloc \<Rightarrow> nat \<Rightarrow> bool" where
  "page_copied ppd cpd p0 p u \<longleftrightarrow> (if present ppd p0 u
     then present cpd p u \<and> (pte_at cpd p u AND PTE_W \<noteq> 0) = (pte_at ppd p0 u AND PTE_W \<noteq> 0)
       \<and> upage_ok p (frame_at cpd p u) \<and> \<not> upage_ok p0 (frame_at cpd p u) \<and> page_bytes p (frame_at cpd p u) = page_bytes p0 (frame_at ppd p0 u)
     else pte_at cpd p u = 0)"

text \<open>The pages and the tables that are still to be made.\<close>

definition pages_left :: "nat \<Rightarrow> palloc \<Rightarrow> nat \<Rightarrow> nat set" where
  "pages_left ppd p0 c = {u. c \<le> u \<and> u < USER_PAGES \<and> present ppd p0 u}"

definition tables_left :: "nat \<Rightarrow> nat \<Rightarrow> palloc \<Rightarrow> palloc \<Rightarrow> nat set" where
  "tables_left ppd cpd p0 p = {d. d < 768 \<and> pde_of ppd (ram p0) d \<noteq> 0 \<and> pde_of cpd (ram p) d = 0}"

definition copy_inv :: "nat \<Rightarrow> nat \<Rightarrow> palloc \<Rightarrow> nat \<Rightarrow> ('m, 'z) vmk \<Rightarrow> bool" where
  "copy_inv ppd cpd p0 c k \<longleftrightarrow> frames_ok k \<and> dirs_ok {ppd, cpd} (pal k) \<and> parent_kept ppd p0 (pal k)
     \<and> (\<forall>u < c. page_copied ppd cpd p0 (pal k) u) \<and> (\<forall>u. c \<le> u \<and> u < USER_PAGES \<longrightarrow> pte_at cpd (pal k) u = 0)
     \<and> (\<forall>u < c. \<forall>u' < c. u \<noteq> u' \<and> present ppd p0 u \<and> present ppd p0 u' \<longrightarrow> frame_at cpd (pal k) u \<noteq> frame_at cpd (pal k) u')
     \<and> card (pages_left ppd p0 c) \<le> pfree (pal k) True \<and> card (tables_left ppd cpd p0 (pal k)) \<le> pfree (pal k) False"

text \<open>The parent: a well-formed directory whose entries lead to pages of the user pool.\<close>

definition parent_ok :: "nat \<Rightarrow> palloc \<Rightarrow> bool" where
  "parent_ok ppd p0 \<longleftrightarrow> (\<forall>d < 768. pde_of ppd (ram p0) d \<noteq> 0 \<longrightarrow> pde_of ppd (ram p0) d AND PTE_P \<noteq> 0)
     \<and> (\<forall>u < USER_PAGES. present ppd p0 u \<longrightarrow> upage_ok p0 (frame_at ppd p0 u))"

lemma page_index:
  assumes "d < 768" and "j < 1024" and "u = d * 1024 + j"
  shows "u * 4096 div 2 ^ 22 = d" "u * 4096 div 4096 = u" "u mod 1024 = j" "u < USER_PAGES" "u * 4096 < PHYS_BASE" "push_bit 22 d OR push_bit 12 j = u * 4096"
proof -
  have "u * 4096 = d * 2 ^ 22 + j * 4096" using assms(3) by simp
  moreover have "j * 4096 < 2 ^ 22" using assms(2) by simp
  ultimately show "u * 4096 div 2 ^ 22 = d" "push_bit 22 d OR push_bit 12 j = u * 4096"
    using or_flags [of "j * 4096" 22 d] by (simp_all add: push_bit_eq_mult)
  show "u * 4096 div 4096 = u" by simp
  show "u mod 1024 = j" "u < USER_PAGES" "u * 4096 < PHYS_BASE" using assms by (simp_all add: USER_PAGES_def PHYS_BASE_def)
qed

lemma finite_left [simp]: "finite (pages_left ppd p0 c)" "finite (tables_left ppd cpd p0 p)"
  by (simp_all add: pages_left_def tables_left_def)

lemma pages_left_Suc:
  assumes "c < USER_PAGES"
  shows "pages_left ppd p0 c = (if present ppd p0 c then insert c (pages_left ppd p0 (Suc c)) else pages_left ppd p0 (Suc c))"
    "c \<notin> pages_left ppd p0 (Suc c)"
  using assms by (auto simp: pages_left_def Suc_le_eq le_less)

text \<open>The flags of a new entry.\<close>

lemma new_entry:
  assumes "kp mod 4096 = 0" and "PHYS_BASE \<le> kp" and "kp < 2 ^ 32" and v_def: "v = kp - PHYS_BASE + (if w then 7 else 5)"
  shows "v AND PTE_P \<noteq> 0" "v AND PTE_W \<noteq> 0 \<longleftrightarrow> w" "table v = kp"
proof -
  have f: "(if w then 7 else 5 :: nat) \<in> {5, 7}" by simp
  show "v AND PTE_P \<noteq> 0" unfolding v_def by (rule entry_flags(1) [OF assms(1-3) f])
  show "table v = kp" unfolding v_def using table_new(3) [of kp "if w then 7 else 5"] assms(1-3) by (auto simp: dvd_eq_mod_eq_0)
  from assms(1) obtain q where q: "kp = 4096 * q" by (auto elim: dvdE simp: dvd_eq_mod_eq_0 [symmetric])
  have "v = (q - 786432) * 2 ^ 12 + (if w then 7 else 5)" using q assms(2) by (simp add: v_def PHYS_BASE_def)
  then have "take_bit 12 v = (if w then 7 else 5)" by (simp add: take_bit_eq_mod)
  moreover have "mask 12 AND PTE_W = PTE_W" by (simp add: PTE_W_def mask_eq_exp_minus_1)
  then have "v AND PTE_W = take_bit 12 v AND PTE_W" by (simp add: take_bit_eq_mask and.assoc)
  ultimately show "v AND PTE_W \<noteq> 0 \<longleftrightarrow> w" by (simp add: PTE_W_def)
qed

lemma ptov_frame:
  assumes "PHYS_BASE \<le> table e" and "table e < 2 ^ 32" and "e < 2 ^ 32"
  shows "ptov (e AND PTE_ADDR) = Some (table e)"
  using assms by (simp add: pte_addr ptov_def table_def PHYS_BASE_def add_usize_def)

subsection \<open>One page\<close>

text \<open>A page of the user pool that is in use is not touched by filling another one.\<close>

lemma other_page:
  assumes "palloc_ok p" and "PHYS_BASE \<le> base (kernel_pool p)" and "upage_ok p a" and "4096 dvd kp" and "a \<noteq> kp" and "i < 4096"
  shows "a + i < kp \<or> kp + 4096 \<le> a + i"
  using pages_apart [of a kp "a + i"] upage_facts(1) [OF assms(1-3)] assms(4-6) by (simp add: dvd_eq_mod_eq_0)

lemma read_mem_cong: "(\<And>i. i < n \<Longrightarrow> m (a + i) = m' (a + i)) \<Longrightarrow> read_mem a n m = read_mem a n m'"
  by (simp add: read_mem_def)

text \<open>The memory after a fresh frame is filled with a page and mapped in the child.\<close>

definition page_added :: "nat \<Rightarrow> nat \<Rightarrow> palloc \<Rightarrow> nat \<Rightarrow> nat \<Rightarrow> nat \<Rightarrow> bool \<Rightarrow> palloc \<Rightarrow> bool" where
  "page_added ppd cpd p u src dst w p2 \<longleftrightarrow> dirs_ok {ppd, cpd} p2 \<and> upage_ok p2 dst \<and> \<not> upage_ok p dst \<and> page_bytes p2 dst = page_bytes p src
     \<and> (\<forall>a. upage_ok p a \<longrightarrow> upage_ok p2 a \<and> page_bytes p2 a = page_bytes p a)
     \<and> pte_at cpd p2 u = dst - PHYS_BASE + (if w then 7 else 5) \<and> dst mod 4096 = 0 \<and> PHYS_BASE \<le> dst \<and> dst < 2 ^ 32
     \<and> (\<forall>v < USER_PAGES. pte_at ppd p2 v = pte_at ppd p v \<and> (v \<noteq> u \<longrightarrow> pte_at cpd p2 v = pte_at cpd p v))
     \<and> (\<forall>d < 768. pde_of ppd (ram p2) d = pde_of ppd (ram p) d) \<and> pfree p True = Suc (pfree p2 True)
     \<and> pde_of cpd (ram p2) (u div 1024) \<noteq> 0 \<and> (\<forall>d < 768. d \<noteq> u div 1024 \<longrightarrow> pde_of cpd (ram p2) d = pde_of cpd (ram p) d)
     \<and> pfree p False = pfree p2 False + (if pde_of cpd (ram p) (u div 1024) = 0 then 1 else 0)"

lemma dirs_ok_below:
  assumes ok: "dirs_ok D p" and p': "palloc_ok p'" "kernel_pool p' = kernel_pool p" and low: "\<And>x. x < base (user_pool p) \<Longrightarrow> ram p' x = ram p x"
  shows "dirs_ok D p'" "\<And>pd u. pd \<in> D \<Longrightarrow> u < PHYS_BASE \<Longrightarrow> pte_word pd (ram p') u = pte_word pd (ram p) u"
    "\<And>pd d. pd \<in> D \<Longrightarrow> d < 768 \<Longrightarrow> pde_of pd (ram p') d = pde_of pd (ram p) d"
proof -
  have k: "kpage_ok p' a = kpage_ok p a" for a using p'(2) by (simp add: kpage_ok_def npages_def used_def the_pool_def)
  have m: "ram p' x = ram p x" if "pd \<in> D" "t \<in> pd_pages pd (ram p)" "t \<le> x" "x < t + 4096" for pd t x
    using pd_pages_aligned(3) [OF dirs_okD [OF ok that(1)] that(2)] that(4) by (intro low) simp
  have un: "pd_ok pd p'" "pd_pages pd (ram p') = pd_pages pd (ram p)" "\<And>d. d < 768 \<Longrightarrow> pde_of pd (ram p') d = pde_of pd (ram p) d"
    "\<And>u. u < PHYS_BASE \<Longrightarrow> pte_word pd (ram p') u = pte_word pd (ram p) u" if "pd \<in> D" for pd
    using pd_unchanged [OF dirs_okD [OF ok that] p'(1), unfolded k p'(2), OF refl _ m [OF that]] by simp_all
  show "dirs_ok D p'" using ok un(1,2) by (auto simp: dirs_ok_def)
  show "pte_word pd (ram p') u = pte_word pd (ram p) u" if "pd \<in> D" "u < PHYS_BASE" for pd u using un(4) that by blast
  show "pde_of pd (ram p') d = pde_of pd (ram p) d" if "pd \<in> D" "d < 768" for pd d using un(3) that by blast
qed

lemma dirs_grownD:
  assumes "dirs_grown D pd va v p p'" and "pd' \<in> D"
  shows "u < PHYS_BASE \<Longrightarrow> pte_word pd' (ram p') u = (if pd' = pd \<and> u div 4096 = va div 4096 then v else pte_word pd' (ram p) u)"
    "d < 768 \<Longrightarrow> pde_of pd' (ram p') d = pde_of pd' (ram p) d
      \<or> pd' = pd \<and> d = va div 2 ^ 22 \<and> pde_of pd' (ram p) d = 0 \<and> pfree p False = Suc (pfree p' False)"
  using assms unfolding dirs_grown_def by blast+

text \<open>The memory of a fresh frame filled with a page.\<close>

lemma filled_frame:
  assumes okp: "palloc_ok p" "PHYS_BASE \<le> base (kernel_pool p)" and fr: "fresh_page p dst p'" and z: "ram p' = zero_range dst 4096 (ram p)" and src: "upage_ok p src"
  defines "m \<equiv> write_mem dst (read_mem src PGSIZE (ram p')) (ram p')"
  shows "dst mod 4096 = 0" "PHYS_BASE \<le> dst" "dst < 2 ^ 32" "base (user_pool p) \<le> dst"
    and "\<And>x. x < dst \<or> dst + 4096 \<le> x \<Longrightarrow> m x = ram p x" "\<And>b. upage_ok p b \<Longrightarrow> read_mem b 4096 m = read_mem b 4096 (ram p)"
    and "read_mem dst 4096 m = read_mem src 4096 (ram p)"
proof -
  have p': "palloc_ok p'" "kernel_pool p' = kernel_pool p" "base (user_pool p') = base (user_pool p)" "upage_ok p' dst" "\<not> upage_ok p dst"
    using fr by (auto simp: fresh_page_def)
  show al: "dst mod 4096 = 0" and "PHYS_BASE \<le> dst" "dst < 2 ^ 32" "base (user_pool p) \<le> dst"
    using upage_facts [OF p'(1) _ p'(4)] okp(2) p'(2,3) by auto
  show m: "m x = ram p x" if "x < dst \<or> dst + 4096 \<le> x" for x using that by (auto simp: m_def write_mem_def z zero_range_def PGSIZE_def)
  have off: "b + i < dst \<or> dst + 4096 \<le> b + i" if "upage_ok p b" "i < 4096" for b i
  proof -
    have "b \<noteq> dst" using p'(5) that(1) by blast
    then show ?thesis using other_page [OF okp that(1) _ _ that(2), of dst] al by (simp add: dvd_eq_mod_eq_0)
  qed
  show "read_mem b 4096 m = read_mem b 4096 (ram p)" if "upage_ok p b" for b using m off [OF that] by (intro read_mem_cong) blast
  have "ram p' x = ram p x" if "x < dst \<or> dst + 4096 \<le> x" for x using that unfolding z zero_range_def by auto
  then have "read_mem src 4096 (ram p') = read_mem src 4096 (ram p)" using off [OF src] by (intro read_mem_cong) blast
  then show "read_mem dst 4096 m = read_mem src 4096 (ram p)"
    using read_write_same [of dst "read_mem src 4096 (ram p')" "ram p'"] by (simp only: m_def PGSIZE_def length_read_mem)
qed

text \<open>The entries after mapping a page, by page number.\<close>

lemma grown_entries:
  assumes g: "dirs_grown D cpd (u * 4096) v q p2" and u: "u < USER_PAGES" and c: "cpd \<in> D" and q: "pfree q False = f"
    and same: "\<And>pd v. pd \<in> D \<Longrightarrow> v < PHYS_BASE \<Longrightarrow> pte_word pd (ram q) v = pte_word pd (ram p) v"
      "\<And>pd d. pd \<in> D \<Longrightarrow> d < 768 \<Longrightarrow> pde_of pd (ram q) d = pde_of pd (ram p) d"
  shows "\<And>pd x. pd \<in> D \<Longrightarrow> x < USER_PAGES \<Longrightarrow> pte_at pd p2 x = (if pd = cpd \<and> x = u then v else pte_at pd p x)"
    and "\<And>pd d. pd \<in> D \<Longrightarrow> d < 768 \<Longrightarrow> pd \<noteq> cpd \<or> d \<noteq> u div 1024 \<Longrightarrow> pde_of pd (ram p2) d = pde_of pd (ram p) d"
    and "pde_of cpd (ram p2) (u div 1024) \<noteq> 0" "f = pfree p2 False + (if pde_of cpd (ram p) (u div 1024) = 0 then 1 else 0)"
proof -
  have ud: "u * 4096 div 2 ^ 22 = u div 1024" "u div 1024 < 768" using u by (simp_all add: USER_PAGES_def div_mult2_eq [of _ 4096 1024, simplified])
  show "pte_at pd p2 x = (if pd = cpd \<and> x = u then v else pte_at pd p x)" if "pd \<in> D" "x < USER_PAGES" for pd x
  proof -
    have x: "x * 4096 < PHYS_BASE" using that(2) by (simp add: USER_PAGES_def PHYS_BASE_def)
    then show ?thesis using dirs_grownD(1) [OF g that(1) x] same(1) [OF that(1) x] by (simp add: pte_at_def)
  qed
  have pde: "pde_of pd (ram p2) d = pde_of pd (ram p) d \<or> pd = cpd \<and> d = u div 1024 \<and> pde_of cpd (ram p) d = 0 \<and> f = Suc (pfree p2 False)"
    if "pd \<in> D" "d < 768" for pd d
    using dirs_grownD(2) [OF g that] same(2) [OF that] q unfolding ud(1) by auto
  then show "pde_of pd (ram p2) d = pde_of pd (ram p) d" if "pd \<in> D" "d < 768" "pd \<noteq> cpd \<or> d \<noteq> u div 1024" for pd d using that by blast
  show n: "pde_of cpd (ram p2) (u div 1024) \<noteq> 0" using g unfolding dirs_grown_def ud(1) by blast
  have "pde_of cpd (ram p) (u div 1024) \<noteq> 0 \<Longrightarrow> pfree p2 False = f" using g same(2) [OF c ud(2)] q unfolding dirs_grown_def ud(1) by simp
  then show "f = pfree p2 False + (if pde_of cpd (ram p) (u div 1024) = 0 then 1 else 0)" using pde [OF c ud(2)] n by auto
qed

lemma copy_step:
  assumes ok: "frames_ok k" "dirs_ok {ppd, cpd} (pal k)" "ppd \<noteq> cpd" and up: "u < USER_PAGES" and src: "upage_ok (pal k) src"
    and room: "0 < pfree (pal k) True" "pde_of cpd (ram (pal k)) (u div 1024) = 0 \<Longrightarrow> 0 < pfree (pal k) False"
  shows "\<exists>dst k1 p2. alloc_frame (u * 4096) n k = Some (dst, k1) \<and> dst \<noteq> 0
    \<and> set_page cpd (u * 4096) dst w ((pal k1) \<lparr> ram := write_mem dst (read_mem src PGSIZE (ram (pal k1))) (ram (pal k1)) \<rparr>) = Some (True, p2)
    \<and> frames_ok (k1 \<lparr> pal := p2 \<rparr>) \<and> page_added ppd cpd (pal k) u src dst w p2"
proof -
  have upb: "u * 4096 < PHYS_BASE" "u * 4096 mod 4096 = 0" "u * 4096 div 2 ^ 22 = u div 1024" "u div 1024 < 768"
    using up by (simp_all add: USER_PAGES_def PHYS_BASE_def div_mult2_eq [of _ 4096 1024, simplified])
  have "user_room (pal k)" using room(1) by (simp add: pfree_pos user_room_def)
  from alloc_frame_room [OF ok(1) this, of "u * 4096" n] obtain dst p' where
    a: "alloc_frame (u * 4096) n k = Some (dst, register_frame dst (u * 4096) n (k \<lparr> pal := p' \<rparr>))" "dst \<noteq> 0" and fr: "fresh_page (pal k) dst p'"
    and z: "ram p' = zero_range dst 4096 (ram (pal k))" and free: "pfree (pal k) True = Suc (pfree p' True)" "pfree p' False = pfree (pal k) False" by blast
  let ?k1 = "register_frame dst (u * 4096) n (k \<lparr> pal := p' \<rparr>)" and ?p = "pal k" and ?v = "dst - PHYS_BASE + (if w then 7 else 5)"
  define m where "m = write_mem dst (read_mem src PGSIZE (ram p')) (ram p')"
  have okp: "palloc_ok ?p" "PHYS_BASE \<le> base (kernel_pool ?p)" using ok by (auto simp: dirs_ok_def pd_ok_def)
  note f = filled_frame [OF okp fr z src, folded m_def]
  have p': "palloc_ok p'" "kernel_pool p' = kernel_pool ?p" "base (user_pool p') = base (user_pool ?p)" "upage_ok p' dst" "\<not> upage_ok ?p dst" "\<And>b. upage_ok ?p b \<Longrightarrow> upage_ok p' b"
    using fr by (auto simp: fresh_page_def)
  have d1: "dirs_ok {ppd, cpd} (p' \<lparr> ram := m \<rparr>)" "\<And>pd v. pd \<in> {ppd, cpd} \<Longrightarrow> v < PHYS_BASE \<Longrightarrow> pte_word pd m v = pte_word pd (ram ?p) v"
    "\<And>pd d. pd \<in> {ppd, cpd} \<Longrightarrow> d < 768 \<Longrightarrow> pde_of pd m d = pde_of pd (ram ?p) d"
    using dirs_ok_below [OF ok(2), of "p' \<lparr> ram := m \<rparr>"] p'(1,2) f(4,5) by simp_all
  have "\<exists>p2. set_page cpd (u * 4096) dst w (p' \<lparr> ram := m \<rparr>) = Some (True, p2) \<and> dirs_grown {ppd, cpd} cpd (u * 4096) ?v (p' \<lparr> ram := m \<rparr>) p2"
    using room(2) free(2) d1(3) [OF _ upb(4), of cpd] by (intro set_page_dirs [OF d1(1) _ upb(1,2) f(1-3)]) (simp_all add: upb(3) [simplified])
  then obtain p2 where p2: "set_page cpd (u * 4096) dst w (p' \<lparr> ram := m \<rparr>) = Some (True, p2)"
    "dirs_grown {ppd, cpd} cpd (u * 4096) ?v (p' \<lparr> ram := m \<rparr>) p2" by blast
  have us: "user_pool p2 = user_pool p'" "dirs_ok {ppd, cpd} p2" and hi: "\<And>x. base (user_pool ?p) \<le> x \<Longrightarrow> ram p2 x = m x"
    using p2(2) p'(3) by (simp_all add: dirs_grown_def)
  then have bytes: "page_bytes p2 b = read_mem b 4096 m" if "base (user_pool ?p) \<le> b" for b unfolding page_bytes_def using that by (intro read_mem_cong) simp
  have pk: "pal ?k1 = p'" "palloc_ok p2" using dirs_okD [OF us(2), of cpd] by (simp_all add: pd_ok_def)
  have fo: "frames_ok (?k1 \<lparr> pal := p2 \<rparr>)"
    by (rule same_frames_ok [OF alloc_frame_ok(1) [OF ok(1) a(1)]]) (simp add: same_frames_def us(1) pk)
  have "pfree (p' \<lparr> ram := m \<rparr>) False = pfree ?p False" using free(2) by simp
  note g = grown_entries [OF p2(2) up _ this, where p = ?p, simplified, OF d1(2,3), simplified]
  have keep: "upage_ok p2 b \<and> page_bytes p2 b = page_bytes ?p b" if "upage_ok ?p b" for b
    using p'(6) [OF that] upage_ok_user [OF us(1)] bytes [OF upage_facts(4) [OF okp that]] f(6) [OF that] by (simp add: page_bytes_def)
  have "page_added ppd cpd ?p u src dst w p2" unfolding page_added_def
    using us(2) p'(4,5) upage_ok_user [OF us(1)] bytes [OF f(4)] f(1-3,7) g up ok(3) free(1) keep
    by (auto simp: page_bytes_def pfree_def npages_def used_def the_pool_def us(1))
  then show ?thesis using a p2(1) fo by (intro exI [of _ dst] exI [of _ ?k1] exI [of _ p2]) (simp add: m_def pk(1))
qed

lemma parent_kept_added:
  assumes "parent_kept ppd p0 p" and "page_added ppd cpd p u src dst w p2"
  shows "parent_kept ppd p0 p2"
  using assms by (simp add: parent_kept_def page_added_def)

lemma page_copied_added:
  assumes "page_copied ppd cpd p0 p v" and "page_added ppd cpd p u src dst w p2" and "v \<noteq> u" and "v < USER_PAGES"
  shows "page_copied ppd cpd p0 p2 v"
proof -
  have "pte_at cpd p2 v = pte_at cpd p v" using assms(2-4) by (simp add: page_added_def)
  moreover have "upage_ok p a \<Longrightarrow> upage_ok p2 a \<and> page_bytes p2 a = page_bytes p a" for a using assms(2) by (simp add: page_added_def)
  ultimately show ?thesis using assms(1) by (auto simp: page_copied_def present_def frame_at_def split: if_splits)
qed

lemma page_copied_new:
  assumes a: "page_added ppd cpd p u (frame_at ppd p0 u) dst (pte_at ppd p0 u AND PTE_W \<noteq> 0) p2" and p: "present ppd p0 u" "upage_ok p0 (frame_at ppd p0 u)"
    and k: "parent_kept ppd p0 p"
  shows "page_copied ppd cpd p0 p2 u" "frame_at cpd p2 u = dst"
proof -
  let ?w = "pte_at ppd p0 u AND PTE_W \<noteq> 0"
  have d: "dst mod 4096 = 0" "PHYS_BASE \<le> dst" "dst < 2 ^ 32" "pte_at cpd p2 u = dst - PHYS_BASE + (if ?w then 7 else 5)"
    using a by (simp_all add: page_added_def)
  note n = new_entry [OF d]
  show "frame_at cpd p2 u = dst" using n(3) by (simp add: frame_at_def)
  then show "page_copied ppd cpd p0 p2 u" using n a p k by (auto simp: page_copied_def page_added_def parent_kept_def present_def)
qed

lemma tables_left_added:
  assumes "page_added ppd cpd p u src dst w p2" and "pde_of ppd (ram p0) (u div 1024) \<noteq> 0" and "u < USER_PAGES"
    and "card (tables_left ppd cpd p0 p) \<le> pfree p False"
  shows "card (tables_left ppd cpd p0 p2) \<le> pfree p2 False"
proof -
  let ?d = "u div 1024"
  have a: "pde_of cpd (ram p2) ?d \<noteq> 0" "\<And>d. d < 768 \<Longrightarrow> d \<noteq> ?d \<Longrightarrow> pde_of cpd (ram p2) d = pde_of cpd (ram p) d"
    "pfree p False = pfree p2 False + (if pde_of cpd (ram p) ?d = 0 then 1 else 0)" using assms(1) by (simp_all add: page_added_def)
  have "tables_left ppd cpd p0 p2 = tables_left ppd cpd p0 p - {?d}" 
  proof (rule set_eqI)
    fix d
    show "d \<in> tables_left ppd cpd p0 p2 \<longleftrightarrow> d \<in> tables_left ppd cpd p0 p - {?d}" using a(1) a(2) [of d] by (cases "d = ?d") (auto simp: tables_left_def)
  qed
  moreover have "?d \<in> tables_left ppd cpd p0 p \<longleftrightarrow> pde_of cpd (ram p) ?d = 0" using assms(2,3) by (simp add: tables_left_def USER_PAGES_def less_mult_imp_div_less)
  ultimately have "card (tables_left ppd cpd p0 p2) = card (tables_left ppd cpd p0 p) - (if pde_of cpd (ram p) ?d = 0 then 1 else 0)"
    by (simp add: card_Diff_singleton_if)
  then show ?thesis using assms(4) a(3) by (simp split: if_splits)
qed

lemma copy_inv_added:
  assumes inv: "copy_inv ppd cpd p0 u k" and u: "u < USER_PAGES" "present ppd p0 u" "upage_ok p0 (frame_at ppd p0 u)" "pde_of ppd (ram p0) (u div 1024) \<noteq> 0"
    and a: "page_added ppd cpd (pal k) u (frame_at ppd p0 u) dst (pte_at ppd p0 u AND PTE_W \<noteq> 0) p2" and ok: "frames_ok (k1 \<lparr> pal := p2 \<rparr>)"
  shows "copy_inv ppd cpd p0 (Suc u) (k1 \<lparr> pal := p2 \<rparr>)"
proof -
  let ?p = "pal k"
  have i: "parent_kept ppd p0 ?p" "\<And>v. v < u \<Longrightarrow> page_copied ppd cpd p0 ?p v" "\<And>v. u \<le> v \<Longrightarrow> v < USER_PAGES \<Longrightarrow> pte_at cpd ?p v = 0"
    "\<And>v v'. v < u \<Longrightarrow> v' < u \<Longrightarrow> v \<noteq> v' \<Longrightarrow> present ppd p0 v \<Longrightarrow> present ppd p0 v' \<Longrightarrow> frame_at cpd ?p v \<noteq> frame_at cpd ?p v'"
    "card (pages_left ppd p0 u) \<le> pfree ?p True" "card (tables_left ppd cpd p0 ?p) \<le> pfree ?p False"
    using inv by (auto simp: copy_inv_def)
  have ad: "\<And>v. v < USER_PAGES \<Longrightarrow> v \<noteq> u \<Longrightarrow> pte_at cpd p2 v = pte_at cpd ?p v" "pfree ?p True = Suc (pfree p2 True)" "\<not> upage_ok ?p dst" "dirs_ok {ppd, cpd} p2"
    using a by (simp_all add: page_added_def)
  note new = page_copied_new [OF a u(2,3) i(1)]
  have old: "frame_at cpd p2 v = frame_at cpd ?p v" "frame_at cpd p2 v \<noteq> dst" if "v < u" "present ppd p0 v" for v
    using i(2) [OF that(1)] ad(1) [of v] ad(3) that u(1) by (auto simp: frame_at_def page_copied_def)
  have "page_copied ppd cpd p0 p2 v" if "v < Suc u" for v
    using that new(1) page_copied_added [OF i(2) a, of v] u(1) by (cases "v = u") auto
  moreover have "pte_at cpd p2 v = 0" if "Suc u \<le> v" "v < USER_PAGES" for v using i(3) [of v] ad(1) [of v] that by simp
  moreover have "frame_at cpd p2 v \<noteq> frame_at cpd p2 v'" if "v < Suc u" "v' < Suc u" "v \<noteq> v'" "present ppd p0 v" "present ppd p0 v'" for v v'
    using that old [of v] old [of v'] new(2) i(4) [of v v'] by (auto simp: less_Suc_eq)
  moreover have "card (pages_left ppd p0 (Suc u)) \<le> pfree p2 True"
    using i(5) ad(2) pages_left_Suc [OF u(1), of ppd p0] u(2) by simp
  ultimately show ?thesis
    using ok parent_kept_added [OF i(1) a] tables_left_added [OF a u(4,1) i(6)] ad(4) by (simp add: copy_inv_def)
qed

lemma copy_inv_skip:
  assumes "copy_inv ppd cpd p0 u k" and "u < USER_PAGES" and "\<not> present ppd p0 u"
  shows "copy_inv ppd cpd p0 (Suc u) k"
  using assms pages_left_Suc(1) [of u ppd p0] by (auto simp: copy_inv_def less_Suc_eq page_copied_def)

text \<open>The loop over the pages of a table, and the loop over the tables.\<close>

lemma copy_page_step:
  assumes inv: "copy_inv ppd cpd p0 u k" and u: "d < 768" "j < 1024" "u = d * 1024 + j" and t: "pde_of ppd (ram p0) d \<noteq> 0"
    and ok: "parent_ok ppd p0" "ppd \<noteq> cpd"
  shows "\<exists>k'. copy_page cpd n (table (pde_of ppd (ram p0) d)) d j k = Some (True, k') \<and> copy_inv ppd cpd p0 (Suc u) k'"
proof -
  note ix = page_index [OF u]
  let ?pte = "pte_at ppd p0 u"
  have i: "frames_ok k" "dirs_ok {ppd, cpd} (pal k)" "parent_kept ppd p0 (pal k)" "card (pages_left ppd p0 u) \<le> pfree (pal k) True"
    "card (tables_left ppd cpd p0 (pal k)) \<le> pfree (pal k) False" using inv by (simp_all add: copy_inv_def)
  have "pde_of ppd (ram (pal k)) d = pde_of ppd (ram p0) d" "pte_at ppd (pal k) u = ?pte" using i(3) u(1) ix(4) by (simp_all add: parent_kept_def)
  then have pte: "peek32 (ram (pal k)) (table (pde_of ppd (ram p0) d) + 4 * j) = ?pte"
    using t ix(1-3) by (simp add: pte_at_def pte_word_def Let_def)
  have ud: "u div 1024 = d" using u by simp
  show ?thesis
  proof (cases "present ppd p0 u")
    case False
    then show ?thesis using pte copy_inv_skip [OF inv ix(4)] by (simp add: copy_page_def present_def)
  next
    case True
    then have fr: "upage_ok p0 (frame_at ppd p0 u)" using ok(1) ix(4) by (simp add: parent_ok_def)
    then have src: "upage_ok (pal k) (frame_at ppd p0 u)" using i(3) by (simp add: parent_kept_def)
    have pk: "palloc_ok (pal k)" "PHYS_BASE \<le> base (kernel_pool (pal k))" using dirs_okD [OF i(2), of cpd] by (auto simp: pd_ok_def)
    have "?pte < 2 ^ 32" unfolding pte [symmetric] by (rule peek32_bound)
    then have pv: "ptov (?pte AND PTE_ADDR) = Some (frame_at ppd p0 u)" using upage_facts(2,3) [OF pk src] by (simp add: frame_at_def ptov_frame)
    have "u \<in> pages_left ppd p0 u" using True ix(4) by (simp add: pages_left_def)
    then have room: "0 < pfree (pal k) True" using i(4) by (metis card_gt_0_iff empty_iff finite_left(1) order_less_le_trans)
    have "d \<in> tables_left ppd cpd p0 (pal k)" if "pde_of cpd (ram (pal k)) d = 0" using that t u(1) by (simp add: tables_left_def)
    then have room': "0 < pfree (pal k) False" if "pde_of cpd (ram (pal k)) (u div 1024) = 0"
      using that i(5) unfolding ud by (metis card_gt_0_iff empty_iff finite_left(2) order_less_le_trans)
    from copy_step [OF i(1,2) ok(2) ix(4) src room room', of n "?pte AND PTE_W \<noteq> 0"] obtain dst k1 p2 where
      c: "alloc_frame (u * 4096) n k = Some (dst, k1)" "dst \<noteq> 0"
        "set_page cpd (u * 4096) dst (?pte AND PTE_W \<noteq> 0) ((pal k1) \<lparr> ram := write_mem dst (read_mem (frame_at ppd p0 u) PGSIZE (ram (pal k1))) (ram (pal k1)) \<rparr>) = Some (True, p2)"
        "frames_ok (k1 \<lparr> pal := p2 \<rparr>)" "page_added ppd cpd (pal k) u (frame_at ppd p0 u) dst (?pte AND PTE_W \<noteq> 0) p2" by blast
    have "copy_page cpd n (table (pde_of ppd (ram p0) d)) d j k = Some (True, k1 \<lparr> pal := p2 \<rparr>)"
      using True c(1-3) unfolding copy_page_def pte ix(6) by (simp add: pv present_def set_ram_def)
    then show ?thesis using copy_inv_added [OF inv ix(4) True fr _ c(5,4)] t ud by simp
  qed
qed

lemma loop_while_ok_rule:
  assumes "I a s" and "\<And>i s. a \<le> i \<Longrightarrow> i < a + n \<Longrightarrow> I i s \<Longrightarrow> \<exists>s'. f i s = Some (True, s') \<and> I (Suc i) s'"
  shows "\<exists>s'. loop_while_ok a n f s = Some (True, s') \<and> I (a + n) s'"
  using assms
proof (induction n arbitrary: a s)
  case (Suc n)
  from Suc.prems(2) [of a s] Suc.prems(1) obtain s1 where "f a s = Some (True, s1)" "I (Suc a) s1" by auto
  with Suc.IH [of "Suc a" s1] Suc.prems(2) show ?case by auto
qed simp

lemma copy_inv_skip_many:
  assumes "copy_inv ppd cpd p0 u k" and "u + n \<le> USER_PAGES" and "\<And>v. u \<le> v \<Longrightarrow> v < u + n \<Longrightarrow> \<not> present ppd p0 v"
  shows "copy_inv ppd cpd p0 (u + n) k"
  using assms
proof (induction n)
  case (Suc n)
  then have "copy_inv ppd cpd p0 (u + n) k" by simp
  with copy_inv_skip [of ppd cpd p0 "u + n" k] Suc.prems(2,3) show ?case by simp
qed simp

lemma copy_table_step:
  assumes inv: "copy_inv ppd cpd p0 (d * 1024) k" and d: "d < 768" and ok: "parent_ok ppd p0" "ppd \<noteq> cpd"
  shows "\<exists>k'. copy_table ppd cpd n d k = Some (True, k') \<and> copy_inv ppd cpd p0 (Suc d * 1024) k'"
proof -
  let ?e = "pde_of ppd (ram p0) d"
  have i: "parent_kept ppd p0 (pal k)" "pd_ok ppd (pal k)" using inv dirs_okD [of "{ppd, cpd}" "pal k" ppd] by (simp_all add: copy_inv_def)
  have e: "peek32 (ram (pal k)) (ppd + 4 * d) = ?e" using i(1) d by (simp add: parent_kept_def pde_of_def)
  show ?thesis
  proof (cases "?e = 0")
    case True
    have "\<not> present ppd p0 v" if "d * 1024 \<le> v" "v < d * 1024 + 1024" for v
    proof -
      have "v * 4096 div 2 ^ 22 = d" using page_index(1) [of d "v - d * 1024" v] d that by simp
      then show ?thesis using True by (simp add: present_def pte_at_def pte_word_def)
    qed
    then show ?thesis using copy_inv_skip_many [OF inv, of 1024] d True e by (simp add: copy_table_def USER_PAGES_def add.commute)
  next
    case False
    then have p: "?e AND PTE_P \<noteq> 0" using ok(1) d by (simp add: parent_ok_def)
    have "pde_of ppd (ram (pal k)) d = ?e" using e by (simp add: pde_of_def)
    then have "ptov (?e AND PTE_ADDR) = Some (table ?e)"
      using pd_okD(4) [OF i(2) d] False peek32_bound [of "ram (pal k)" "ppd + 4 * d"] e by (intro ptov_frame) auto
    moreover have "\<exists>k'. loop_while_ok 0 1024 (copy_page cpd n (table ?e) d) k = Some (True, k') \<and> copy_inv ppd cpd p0 (d * 1024 + (0 + 1024)) k'"
      by (rule loop_while_ok_rule [where I = "\<lambda>j. copy_inv ppd cpd p0 (d * 1024 + j)"]) (use inv copy_page_step [OF _ d _ refl False ok] in auto)
    ultimately show ?thesis using p e by (simp add: copy_table_def add.commute)
  qed
qed

lemma copy_user_pages_inv:
  assumes "copy_inv ppd cpd p0 0 k" and "parent_ok ppd p0" and "ppd \<noteq> cpd"
  shows "\<exists>k'. copy_user_pages ppd cpd n k = Some (True, k') \<and> copy_inv ppd cpd p0 USER_PAGES k'"
proof -
  have "\<exists>k'. loop_while_ok 0 768 (copy_table ppd cpd n) k = Some (True, k') \<and> copy_inv ppd cpd p0 ((0 + 768) * 1024) k'"
    by (rule loop_while_ok_rule [where I = "\<lambda>d. copy_inv ppd cpd p0 (d * 1024)"]) (use assms copy_table_step [of ppd cpd p0] in auto)
  then show ?thesis by (simp add: copy_user_pages_def USER_PAGES_def PHYS_BASE_def drop_bit_eq_div)
qed

section \<open>Properties\<close>

text \<open>C3: fork copies memory. If the parent's entries lead to pages of the user pool, the user part of the child's directory is
  empty, and there are as many free frames as the parent has pages and as many free kernel pages as it has page tables,
  then \<open>copy_user_pages\<close> succeeds; every page present in the parent is present in the child with the same write
  permission and the same 4096 bytes, in a frame that was free before, different pages in different frames; no other page is present in the
  child; and the mappings of the parent, its tables and the content of every page that was in use are unchanged.\<close>

theorem fork_copies_memory:
  assumes "frames_ok k" and "dirs_ok {ppd, cpd} (pal k)" and "ppd \<noteq> cpd" and "parent_ok ppd (pal k)"
    and "\<forall>u < USER_PAGES. pte_at cpd (pal k) u = 0"
    and "card {u. u < USER_PAGES \<and> present ppd (pal k) u} \<le> pfree (pal k) True"
    and "card {d. d < 768 \<and> pde_of ppd (ram (pal k)) d \<noteq> 0} \<le> pfree (pal k) False"
  shows "\<exists>k'. copy_user_pages ppd cpd n k = Some (True, k') \<and> frames_ok k' \<and> dirs_ok {ppd, cpd} (pal k') \<and> parent_kept ppd (pal k) (pal k')
    \<and> (\<forall>u < USER_PAGES. page_copied ppd cpd (pal k) (pal k') u)
    \<and> inj_on (frame_at cpd (pal k')) {u. u < USER_PAGES \<and> present ppd (pal k) u}"
proof -
  have "card (tables_left ppd cpd (pal k) (pal k)) \<le> card {d. d < 768 \<and> pde_of ppd (ram (pal k)) d \<noteq> 0}"
    by (rule card_mono) (auto simp: tables_left_def)
  then have "copy_inv ppd cpd (pal k) 0 k"
    using assms by (simp add: copy_inv_def parent_kept_def pages_left_def)
  from copy_user_pages_inv [OF this assms(4,3), of n] show ?thesis
    unfolding copy_inv_def inj_on_def by blast
qed

definition two_dirs :: palloc where
  "two_dirs = sample_pd \<lparr> kernel_pool := \<lparr> pool_bitmap = \<lparr> bits = [0x03], bit_cnt = 8 \<rparr>, base = 0xC0200000 \<rparr> \<rparr>"

definition forking :: "(sector \<Rightarrow> sector_data) vm" where
  "forking = sample_vm \<lparr> pal := snd (the (set_page 0xC0200000 0x8048000 0xC0300000 True two_dirs)) \<rparr>"

lemma two_dirs_ok: "dirs_ok {0xC0200000, 0xC0201000} two_dirs"
proof -
  have z: "pde_of pd (ram two_dirs) d = 0" for pd d by (simp add: pde_of_def peek32_def two_dirs_def sample_pd_def bytes_u32_def)
  have "kpage_ok two_dirs 0xC0200000" "kpage_ok two_dirs 0xC0201000" unfolding kpage_ok_def
    by (rule exI [of _ 0], simp add: npages_def used_def the_pool_def two_dirs_def array_bit_def,
        rule exI [of _ 1], simp add: npages_def used_def the_pool_def two_dirs_def array_bit_def PGSIZE_def)
  moreover have "palloc_ok two_dirs"
    by (simp add: two_dirs_def sample_pd_def sample_palloc_def palloc_ok_def pool_ok_def pool_end_def bitmap_ok_def byte_cnt_def div_ceil_def PGSIZE_def)
  moreover have "PHYS_BASE \<le> base (kernel_pool two_dirs)" by (simp add: two_dirs_def PHYS_BASE_def)
  ultimately show ?thesis using z by (simp add: dirs_ok_def pd_ok_def pd_pages_def)
qed

lemma forking_ok:
  shows "frames_ok forking" "dirs_ok {0xC0200000, 0xC0201000} (pal forking)" "user_pool (pal forking) = user_pool sample_palloc"
    and "\<And>u. u < USER_PAGES \<Longrightarrow> pte_at 0xC0200000 (pal forking) u = (if u = 0x8048 then 0x300007 else 0)"
    and "\<And>u. u < USER_PAGES \<Longrightarrow> pte_at 0xC0201000 (pal forking) u = 0"
    and "\<And>d. d < 768 \<Longrightarrow> pde_of 0xC0200000 (ram (pal forking)) d \<noteq> 0 \<Longrightarrow> d = 32" "2 \<le> Suc (pfree (pal forking) False)"
    "pde_of 0xC0200000 (ram (pal forking)) 32 AND PTE_P \<noteq> 0"
    and "0 < pfree (pal forking) True"
proof -
  let ?D = "{0xC0200000, 0xC0201000}"
  have z: "pde_of pd (ram two_dirs) d = 0" "pte_word pd (ram two_dirs) u = 0" for pd d u
    by (simp_all add: pte_word_def pde_of_def peek32_def two_dirs_def sample_pd_def bytes_u32_def)
  have "card {2, 3 :: nat} \<le> card {i. i < npages two_dirs False \<and> \<not> used two_dirs False i}"
    by (rule card_mono) (auto simp: npages_def used_def the_pool_def two_dirs_def array_bit_def)
  then have free: "2 \<le> pfree two_dirs False" by (simp add: pfree_def)
  have "\<exists>p'. set_page 0xC0200000 0x8048000 0xC0300000 True two_dirs = Some (True, p')
      \<and> dirs_grown ?D 0xC0200000 0x8048000 (0xC0300000 - PHYS_BASE + (if True then 7 else 5)) two_dirs p'"
    using free by (intro set_page_dirs [OF two_dirs_ok]) (simp_all add: PHYS_BASE_def)
  then have g: "dirs_grown ?D 0xC0200000 0x8048000 0x300007 two_dirs (pal forking)" by (auto simp: forking_def PHYS_BASE_def)
  show d: "dirs_ok ?D (pal forking)" and us: "user_pool (pal forking) = user_pool sample_palloc"
    using g by (simp_all add: dirs_grown_def two_dirs_def sample_pd_def)
  have "same_frames sample_vm forking" using dirs_okD [OF d, of "0xC0200000"] us
    by (simp add: same_frames_def pd_ok_def) (simp add: forking_def sample_vm_def sample_pd_def)
  then show "frames_ok forking" using same_frames_ok [OF sample_room(1)] by blast
  have pte: "pte_at pd (pal forking) u = (if pd = 0xC0200000 \<and> u = 0x8048 then 0x300007 else 0)" if "pd \<in> ?D" "u < USER_PAGES" for pd u
    using dirs_grownD(1) [OF g that(1), of "u * 4096"] that(2) by (simp add: pte_at_def z USER_PAGES_def PHYS_BASE_def)
  show "pte_at 0xC0200000 (pal forking) u = (if u = 0x8048 then 0x300007 else 0)" "pte_at 0xC0201000 (pal forking) u = 0" if "u < USER_PAGES" for u
    using pte that by simp_all
  show "d = 32" if "d < 768" "pde_of 0xC0200000 (ram (pal forking)) d \<noteq> 0" for d
    using dirs_grownD(2) [OF g, of "0xC0200000" d] that by (simp add: z)
  have "pde_of 0xC0200000 (ram (pal forking)) 32 \<noteq> 0" using g by (simp add: dirs_grown_def)
  then show "2 \<le> Suc (pfree (pal forking) False)" using dirs_grownD(2) [OF g, of "0xC0200000" 32] free by (simp add: z)
  show "pde_of 0xC0200000 (ram (pal forking)) 32 AND PTE_P \<noteq> 0" using g by (simp add: dirs_grown_def z)
  show "0 < pfree (pal forking) True" unfolding pfree_pos
    by (rule exI [of _ 1]) (simp add: npages_def used_def the_pool_def us sample_palloc_def array_bit_def)
qed

theorem fork_copies_memory_witness:
  "\<exists>k'. copy_user_pages 0xC0200000 0xC0201000 (- 1) forking = Some (True, k') \<and> present 0xC0201000 (pal k') 0x8048 \<and> \<not> present 0xC0201000 (pal k') 0x8049
    \<and> frame_at 0xC0201000 (pal k') 0x8048 \<noteq> 0xC0300000
    \<and> page_bytes (pal k') (frame_at 0xC0201000 (pal k') 0x8048) = page_bytes (pal forking) 0xC0300000"
proof -
  let ?p = "pal forking"
  have up: "upage_ok ?p 0xC0300000" unfolding upage_ok_def
    by (rule exI [of _ 0]) (simp add: npages_def used_def the_pool_def forking_ok(3) sample_palloc_def array_bit_def)
  have pr: "present 0xC0200000 ?p u \<longleftrightarrow> u = 0x8048" if "u < USER_PAGES" for u
    using forking_ok(4) [OF that] by (simp add: present_def PTE_P_def)
  have fr: "frame_at 0xC0200000 ?p 0x8048 = 0xC0300000" using forking_ok(4) [of "0x8048"] by (simp add: frame_at_def table_def PHYS_BASE_def USER_PAGES_def)
  have pages: "{u. u < USER_PAGES \<and> present 0xC0200000 ?p u} = {0x8048}" using pr by (auto simp: USER_PAGES_def)
  have "card {d. d < 768 \<and> pde_of 0xC0200000 (ram ?p) d \<noteq> 0} \<le> card {32 :: nat}" by (rule card_mono) (use forking_ok(6) in auto)
  then have tables: "card {d. d < 768 \<and> pde_of 0xC0200000 (ram ?p) d \<noteq> 0} \<le> pfree ?p False" using forking_ok(7) by simp
  have par: "parent_ok 0xC0200000 ?p" using forking_ok(6,8) pr fr up unfolding parent_ok_def by metis
  from fork_copies_memory [OF forking_ok(1,2) _ par _ _ tables, of "- 1"] forking_ok(5,9) obtain k' where
    k': "copy_user_pages 0xC0200000 0xC0201000 (- 1) forking = Some (True, k')" "\<forall>u < USER_PAGES. page_copied 0xC0200000 0xC0201000 ?p (pal k') u"
    unfolding pages by auto
  have "page_copied 0xC0200000 0xC0201000 ?p (pal k') 0x8048" "page_copied 0xC0200000 0xC0201000 ?p (pal k') 0x8049" using k'(2) by (simp_all add: USER_PAGES_def)
  then show ?thesis using k'(1) up pr [of "0x8048"] pr [of "0x8049"] fr by (auto simp: page_copied_def USER_PAGES_def present_def)
qed

end
