(* ===== verification/Log.thy ===== *)
theory Log
  imports Bio Encoding
begin

section \<open>The write-ahead log: filesys/log.rs\<close>

text \<open>
  The log area starts at the sector \<open>log_start\<close>: a header with the number of logged sectors and their destinations,
  then their copies. The lock is its held flag, as in the buffer cache. The device is the one of the role
  \<open>FileSys\<close>; without a device the buffers stay as they are.
\<close>

definition LOGSIZE :: nat where
  "LOGSIZE = 10"

record log_header =
  lh_n :: nat
  lh_sectors :: "sector list"

record log =
  log_lock :: bool
  log_start :: sector
  log_size :: nat
  outstanding :: int
  committing :: bool
  header :: log_header

record 'm log_state =
  LOG :: "log option"
  log_reg :: "'m registry"

definition set_header :: "log_header \<Rightarrow> 'm log_state \<Rightarrow> 'm log_state option" where
  "set_header h s = do { l \<leftarrow> LOG s; Some (s \<lparr> LOG := Some (l \<lparr> header := h \<rparr>) \<rparr>) }"

subsection \<open>The header on disk\<close>

definition write_head :: "'m log_state \<Rightarrow> 'm log_state option" where
  "write_head s = do {
     l \<leftarrow> LOG s;
     let n = lh_n (header l);
     buf \<leftarrow> put_ptr sector_buf 0 n;
     buf \<leftarrow> for_range 0 LOGSIZE (\<lambda>i buf. do { x \<leftarrow> idx (lh_sectors (header l)) i; put_ptr buf (1 + i) x }) buf;
     r \<leftarrow> role_write FileSys (log_start l) buf (log_reg s);
     Some (s \<lparr> log_reg := r \<rparr>)
   }"

definition read_head :: "'m log_state \<Rightarrow> 'm log_state option" where
  "read_head s = do {
     l \<leftarrow> LOG s;
     (buf, r) \<leftarrow> role_read FileSys (log_start l) sector_buf (log_reg s);
     n \<leftarrow> get_ptr buf 0;
     ss \<leftarrow> for_range 0 (min n LOGSIZE) (\<lambda>i ss. do { x \<leftarrow> get_ptr buf (1 + i); upd ss i x }) (lh_sectors (header l));
     set_header \<lparr> lh_n = n, lh_sectors = ss \<rparr> (s \<lparr> log_reg := r \<rparr>)
   }"

subsection \<open>The body of the log\<close>

text \<open>One sector: \<open>a\<close> is read into the buffer, the buffer is written to \<open>b\<close>.\<close>

definition copy_sector :: "sector \<Rightarrow> sector \<Rightarrow> sector_data \<times> 'm registry \<Rightarrow> (sector_data \<times> 'm registry) option" where
  "copy_sector a b = (\<lambda>(buf, r). do {
     (buf, r) \<leftarrow> role_read FileSys a buf r;
     r \<leftarrow> role_write FileSys b buf r;
     Some (buf, r)
   })"

definition log_slot :: "log \<Rightarrow> nat \<Rightarrow> sector option" where
  "log_slot l i = do { a \<leftarrow> add_usize (log_start l) 1; add_usize a i }"

definition write_log :: "'m log_state \<Rightarrow> 'm log_state option" where
  "write_log s = do {
     l \<leftarrow> LOG s;
     (_, r) \<leftarrow> for_range 0 (lh_n (header l)) (\<lambda>i x. do {
         dst \<leftarrow> log_slot l i;
         src \<leftarrow> idx (lh_sectors (header l)) i;
         copy_sector src dst x
       }) (sector_buf, log_reg s);
     Some (s \<lparr> log_reg := r \<rparr>)
   }"

definition install_trans :: "'m log_state \<Rightarrow> 'm log_state option" where
  "install_trans s = do {
     l \<leftarrow> LOG s;
     (_, r) \<leftarrow> for_range 0 (lh_n (header l)) (\<lambda>i x. do {
         src \<leftarrow> log_slot l i;
         dst \<leftarrow> idx (lh_sectors (header l)) i;
         copy_sector src dst x
       }) (sector_buf, log_reg s);
     Some (s \<lparr> log_reg := r \<rparr>)
   }"

definition clear_log :: "'m log_state \<Rightarrow> 'm log_state option" where
  "clear_log s = do { l \<leftarrow> LOG s; s \<leftarrow> set_header ((header l) \<lparr> lh_n := 0 \<rparr>) s; write_head s }"

definition log_commit :: "'m log_state \<Rightarrow> 'm log_state option" where
  "log_commit s = do {
     l \<leftarrow> LOG s;
     if lh_n (header l) = 0 then Some s
     else do {
       s \<leftarrow> write_log s;
       s \<leftarrow> write_head s;
       s \<leftarrow> install_trans s;
       clear_log s
     }
   }"

definition log_recover :: "'m log_state \<Rightarrow> 'm log_state option" where
  "log_recover s = do {
     s \<leftarrow> read_head s;
     l \<leftarrow> LOG s;
     if lh_n (header l) > 0 then do { s \<leftarrow> install_trans s; clear_log s } else Some s
   }"

definition log_init :: "sector \<Rightarrow> nat \<Rightarrow> 'm log_state \<Rightarrow> 'm log_state option" where
  "log_init start sz s = log_recover (s \<lparr> LOG := Some \<lparr> log_lock = False, log_start = start, log_size = sz, outstanding = 0,
       committing = False, header = \<lparr> lh_n = 0, lh_sectors = replicate LOGSIZE 0 \<rparr> \<rparr> \<rparr>)"

subsection \<open>Transactions\<close>

definition begin_op :: "'m log_state \<Rightarrow> 'm log_state option" where
  "begin_op s = do {
     l \<leftarrow> LOG s;
     k \<leftarrow> lock_acquire (log_lock l);
     n \<leftarrow> add_i32 (outstanding l) 1;
     k \<leftarrow> lock_release k;
     Some (s \<lparr> LOG := Some (l \<lparr> log_lock := k, outstanding := n \<rparr>) \<rparr>)
   }"

definition end_op :: "'m log_state \<Rightarrow> 'm log_state option" where
  "end_op s = do {
     l \<leftarrow> LOG s;
     k \<leftarrow> lock_acquire (log_lock l);
     n \<leftarrow> sub_i32 (outstanding l) 1;
     k \<leftarrow> lock_release k;
     let s = s \<lparr> LOG := Some (l \<lparr> log_lock := k, outstanding := n \<rparr>) \<rparr>;
     if n = 0 then log_commit s else Some s
   }"

definition log_write :: "sector \<Rightarrow> 'm log_state \<Rightarrow> 'm log_state option" where
  "log_write sector s = do {
     l \<leftarrow> LOG s;
     k \<leftarrow> lock_acquire (log_lock l);
     let n = lh_n (header l);
     assert (n < LOGSIZE);
     if sector \<in> set (take n (lh_sectors (header l))) then do {
       k \<leftarrow> lock_release k;
       Some (s \<lparr> LOG := Some (l \<lparr> log_lock := k \<rparr>) \<rparr>)
     } else do {
       ss \<leftarrow> upd (lh_sectors (header l)) n sector;
       k \<leftarrow> lock_release k;
       Some (s \<lparr> LOG := Some (l \<lparr> log_lock := k, header := \<lparr> lh_n = n + 1, lh_sectors = ss \<rparr> \<rparr>) \<rparr>)
     }
   }"

section \<open>A disk that loses its power\<close>

text \<open>
  The state of the driver is the content of the sectors and the number of writes that still reach them. A commit that
  is run on it leaves the content a power failure after that many writes leaves.
\<close>

definition failing_ops :: "((sector \<Rightarrow> sector_data) \<times> nat) block_ops" where
  "failing_ops = \<lparr> op_read = (\<lambda>(d, b) s. d s), op_write = (\<lambda>(d, b) s x. if b = 0 then (d, b) else (d(s := x), b - 1)) \<rparr>"

definition failing_disk :: "nat \<Rightarrow> ((sector \<Rightarrow> sector_data) \<times> nat) registry \<Rightarrow> bool" where
  "failing_disk N r \<longleftrightarrow> (\<exists>i. get_role FileSys r = Some (Some i) \<and> i < length (devices r)
     \<and> ops (devices r ! i) = failing_ops \<and> dev_size (devices r ! i) = N)"

definition content :: "((sector \<Rightarrow> sector_data) \<times> nat) registry \<Rightarrow> sector \<Rightarrow> sector_data" where
  "content r = fst (media (role_dev FileSys r))"

definition power_left :: "((sector \<Rightarrow> sector_data) \<times> nat) registry \<Rightarrow> nat" where
  "power_left r = snd (media (role_dev FileSys r))"

lemma failing_read:
  assumes "failing_disk N r" and "x < N"
  shows "\<exists>r'. role_read FileSys x buf r = Some (content r x, r') \<and> failing_disk N r' \<and> content r' = content r \<and> power_left r' = power_left r"
proof -
  from assms(1) obtain i where i: "get_role FileSys r = Some (Some i)" "i < length (devices r)" "ops (devices r ! i) = failing_ops" "dev_size (devices r ! i) = N"
    by (auto simp: failing_disk_def)
  then show ?thesis using assms(2)
    by (simp add: role_read_def dev_read_def failing_disk_def content_def power_left_def role_dev_def failing_ops_def split_beta)
qed

lemma failing_write:
  assumes "failing_disk N r" and "x < N"
  shows "\<exists>r'. role_write FileSys x buf r = Some r' \<and> failing_disk N r' \<and> content r' = (if power_left r = 0 then content r else (content r)(x := buf))
    \<and> power_left r' = power_left r - 1"
proof -
  from assms(1) obtain i where i: "get_role FileSys r = Some (Some i)" "i < length (devices r)" "ops (devices r ! i) = failing_ops" "dev_size (devices r ! i) = N"
    by (auto simp: failing_disk_def)
  then show ?thesis using assms(2)
    by (simp add: role_write_def dev_write_def failing_disk_def content_def power_left_def role_dev_def failing_ops_def split_beta)
qed

subsection \<open>The operations on the failing disk\<close>

lemma write_head_spec:
  assumes l: "LOG s = Some l" "length (lh_sectors (header l)) = LOGSIZE" "\<forall>x \<in> set (lh_sectors (header l)). x < 2 ^ 32" "lh_n (header l) < 2 ^ 32"
    and r: "failing_disk N (log_reg s)" "log_start l < N"
  shows "\<exists>r' buf. write_head s = Some (s \<lparr> log_reg := r' \<rparr>) \<and> failing_disk N r' \<and> power_left r' = power_left (log_reg s) - 1
    \<and> content r' = (if power_left (log_reg s) = 0 then content (log_reg s) else (content (log_reg s))(log_start l := buf))
    \<and> length buf = 512 \<and> u32_at buf 0 = lh_n (header l) \<and> (\<forall>i < LOGSIZE. u32_at buf (4 * (1 + i)) = lh_sectors (header l) ! i)"
proof -
  let ?h = "header l"
  from put_ptr_spec [of 0 sector_buf "lh_n ?h"] l(4) obtain b0 where
    b0: "put_ptr sector_buf 0 (lh_n ?h) = Some b0" "length b0 = 512" "u32_at b0 0 = lh_n ?h"
    by (auto simp: sector_buf_def BLOCK_SECTOR_SIZE_def)
  let ?P = "\<lambda>k b. length b = 512 \<and> u32_at b 0 = lh_n ?h \<and> (\<forall>i < k. u32_at b (4 * (1 + i)) = lh_sectors ?h ! i)"
  have "\<exists>b. for_range 0 LOGSIZE (\<lambda>i buf. do { x \<leftarrow> idx (lh_sectors ?h) i; put_ptr buf (1 + i) x }) b0 = Some b \<and> ?P (0 + LOGSIZE) b"
  proof (rule for_range_rule)
    fix i b assume i: "i < 0 + LOGSIZE" "?P i b"
    then have "lh_sectors ?h ! i < 2 ^ 32" "4 * (1 + i) + 4 \<le> length b" using l(2,3) by (auto simp: LOGSIZE_def)
    from put_ptr_spec [OF this(2,1)] obtain b' where
      b': "put_ptr b (1 + i) (lh_sectors ?h ! i) = Some b'" "length b' = length b"
        "\<forall>j. 4 * j + 4 \<le> length b \<longrightarrow> u32_at b' (4 * j) = (if j = 1 + i then lh_sectors ?h ! i else u32_at b (4 * j))" by blast
    have "u32_at b' 0 = lh_n ?h" using b'(3) [rule_format, of 0] i(2) by simp
    moreover have "u32_at b' (4 * (1 + j)) = lh_sectors ?h ! j" if "j < Suc i" for j
      using b'(3) [rule_format, of "1 + j"] i that by (cases "j = i") (auto simp: LOGSIZE_def)
    ultimately show "\<exists>b'. do { x \<leftarrow> idx (lh_sectors ?h) i; put_ptr b (1 + i) x } = Some b' \<and> ?P (Suc i) b'"
      using b'(1,2) i l(2) by (simp add: idx_def)
  qed (use b0 in simp)
  then obtain b where b: "for_range 0 LOGSIZE (\<lambda>i buf. do { x \<leftarrow> idx (lh_sectors ?h) i; put_ptr buf (1 + i) x }) b0 = Some b" "?P LOGSIZE b" by auto
  from failing_write [OF r, of b] obtain r' where "role_write FileSys (log_start l) b (log_reg s) = Some r'" "failing_disk N r'"
    "content r' = (if power_left (log_reg s) = 0 then content (log_reg s) else (content (log_reg s))(log_start l := b))" "power_left r' = power_left (log_reg s) - 1" by blast
  then show ?thesis using b b0(1) l(1) by (intro exI [of _ r'] exI [of _ b]) (simp add: write_head_def)
qed

lemma read_head_spec:
  assumes l: "LOG s = Some l" "length (lh_sectors (header l)) = LOGSIZE" and r: "failing_disk N (log_reg s)" "log_start l < N"
    and d: "length (content (log_reg s) (log_start l)) = 512"
  defines "h \<equiv> content (log_reg s) (log_start l)"
  shows "\<exists>r' ss. read_head s = Some (s \<lparr> log_reg := r', LOG := Some (l \<lparr> header := \<lparr> lh_n = u32_at h 0, lh_sectors = ss \<rparr> \<rparr>) \<rparr>)
    \<and> failing_disk N r' \<and> content r' = content (log_reg s) \<and> power_left r' = power_left (log_reg s) \<and> length ss = LOGSIZE
    \<and> (\<forall>i < min (u32_at h 0) LOGSIZE. ss ! i = u32_at h (4 * (1 + i))) \<and> (\<forall>i < LOGSIZE. ss ! i \<in> {u32_at h (4 * (1 + i)), lh_sectors (header l) ! i})"
proof -
  from failing_read [OF r, of sector_buf] obtain r' where
    r': "role_read FileSys (log_start l) sector_buf (log_reg s) = Some (h, r')" "failing_disk N r'" "content r' = content (log_reg s)" "power_left r' = power_left (log_reg s)"
    by (auto simp: h_def)
  let ?P = "\<lambda>k ss. length ss = LOGSIZE \<and> (\<forall>i < k. ss ! i = u32_at h (4 * (1 + i))) \<and> (\<forall>i < LOGSIZE. ss ! i \<in> {u32_at h (4 * (1 + i)), lh_sectors (header l) ! i})"
  let ?f = "\<lambda>i ss. do { x \<leftarrow> get_ptr h (1 + i); upd ss i x }"
  have "\<exists>ss. for_range 0 (min (u32_at h 0) LOGSIZE) ?f (lh_sectors (header l)) = Some ss \<and> ?P (0 + min (u32_at h 0) LOGSIZE) ss"
  proof (rule for_range_rule)
    fix i ss assume i: "i < 0 + min (u32_at h 0) LOGSIZE" "?P i ss"
    then show "\<exists>ss'. ?f i ss = Some ss' \<and> ?P (Suc i) ss'"
      using d by (auto simp: h_def get_ptr_def upd_def LOGSIZE_def nth_list_update less_Suc_eq)
  qed (use l(2) in simp)
  then obtain ss where ss: "for_range 0 (min (u32_at h 0) LOGSIZE) ?f (lh_sectors (header l)) = Some ss" "?P (min (u32_at h 0) LOGSIZE) ss" by auto
  have "get_ptr h 0 = Some (u32_at h 0)" using d by (simp add: get_ptr_def h_def)
  then show ?thesis using r' l(1) ss by (intro exI [of _ r'] exI [of _ ss]) (simp add: read_head_def set_header_def)
qed

lemma copy_sector_spec:
  assumes "failing_disk N r" and "a < N" and "b < N"
  shows "\<exists>r'. copy_sector a b (buf, r) = Some (content r a, r') \<and> failing_disk N r' \<and> power_left r' = power_left r - 1
    \<and> content r' = (if power_left r = 0 then content r else (content r)(b := content r a))"
proof -
  from failing_read [OF assms(1,2), of buf] obtain r1 where
    r1: "role_read FileSys a buf r = Some (content r a, r1)" "failing_disk N r1" "content r1 = content r" "power_left r1 = power_left r" by blast
  from failing_write [OF r1(2) assms(3), of "content r a"] r1 show ?thesis by (auto simp: copy_sector_def)
qed

text \<open>The sectors of a transaction: at most ten, on the device and outside of the log area.\<close>

definition log_area :: "sector \<Rightarrow> sector set" where
  "log_area st = {st .. st + LOGSIZE}"

definition log_ok :: "nat \<Rightarrow> log \<Rightarrow> bool" where
  "log_ok N l \<longleftrightarrow> log_start l + LOGSIZE < N \<and> N \<le> 2 ^ 32 \<and> lh_n (header l) \<le> LOGSIZE \<and> length (lh_sectors (header l)) = LOGSIZE
     \<and> (\<forall>i < lh_n (header l). lh_sectors (header l) ! i < N \<and> lh_sectors (header l) ! i \<notin> log_area (log_start l))
     \<and> (\<forall>x \<in> set (lh_sectors (header l)). x < 2 ^ 32)"

lemma log_ok_slot:
  assumes "log_ok N l" and "i < lh_n (header l)"
  shows "log_slot l i = Some (log_start l + 1 + i)" "log_start l + 1 + i < N" "log_start l + 1 + i \<in> log_area (log_start l)" "idx (lh_sectors (header l)) i = Some (lh_sectors (header l) ! i)"
    "lh_sectors (header l) ! i < N" "lh_sectors (header l) ! i \<notin> log_area (log_start l)"
  using assms by (auto simp: log_ok_def log_slot_def add_usize_def log_area_def idx_def LOGSIZE_def)

lemma write_log_spec:
  assumes l: "LOG s = Some l" "log_ok N l" and r: "failing_disk N (log_reg s)"
  defines "d \<equiv> content (log_reg s)" and "c \<equiv> log_start l + 1" and "n \<equiv> lh_n (header l)"
  shows "\<exists>r'. write_log s = Some (s \<lparr> log_reg := r' \<rparr>) \<and> failing_disk N r' \<and> power_left r' = power_left (log_reg s) - n
    \<and> content r' = (\<lambda>y. if c \<le> y \<and> y < c + min n (power_left (log_reg s)) then d (lh_sectors (header l) ! (y - c)) else d y)"
proof -
  let ?p = "power_left (log_reg s)" and ?ss = "lh_sectors (header l)"
  let ?f = "\<lambda>i x. do { dst \<leftarrow> log_slot l i; src \<leftarrow> idx ?ss i; copy_sector src dst x }"
  let ?P = "\<lambda>k x. failing_disk N (snd x) \<and> power_left (snd x) = ?p - k
    \<and> content (snd x) = (\<lambda>y. if c \<le> y \<and> y < c + min k ?p then d (?ss ! (y - c)) else d y)"
  have "\<exists>x. for_range 0 n ?f (sector_buf, log_reg s) = Some x \<and> ?P (0 + n) x"
  proof (rule for_range_rule)
    fix i and x :: "sector_data \<times> ((sector \<Rightarrow> sector_data) \<times> nat) registry"
    assume i: "i < 0 + n" and P: "?P i x"
    obtain bu r0 where x: "x = (bu, r0)" by force
    note sl = log_ok_slot [OF l(2), of i, folded c_def n_def]
    from copy_sector_spec [of N r0 "?ss ! i" "c + i" bu] P sl i obtain r1 where
      r1: "copy_sector (?ss ! i) (c + i) (bu, r0) = Some (content r0 (?ss ! i), r1)" "failing_disk N r1" "power_left r1 = power_left r0 - 1"
        "content r1 = (if power_left r0 = 0 then content r0 else (content r0)(c + i := content r0 (?ss ! i)))" by (auto simp: x)
    have "content r0 (?ss ! i) = d (?ss ! i)" using P sl(6) i l(2) by (auto simp: x log_area_def c_def n_def log_ok_def)
    then have "?P (Suc i) (content r0 (?ss ! i), r1)" using P r1(2-4) by (auto simp: x fun_eq_iff)
    then show "\<exists>x'. ?f i x = Some x' \<and> ?P (Suc i) x'" using r1(1) sl i by (auto simp: x)
  qed (simp only: snd_conv, intro conjI, rule r, simp, auto simp: d_def fun_eq_iff)
  then show ?thesis using l(1) by (auto simp: write_log_def n_def)
qed

text \<open>Installing copies of the content of \<open>d0\<close>, as far as the power lasts.\<close>

lemma install_spec:
  assumes l: "LOG s = Some l" "log_ok N l" and r: "failing_disk N (log_reg s)"
    and body: "\<And>i. 0 < power_left (log_reg s) \<Longrightarrow> i < lh_n (header l) \<Longrightarrow> content (log_reg s) (log_start l + 1 + i) = d0 (lh_sectors (header l) ! i)"
  shows "\<exists>r'. install_trans s = Some (s \<lparr> log_reg := r' \<rparr>) \<and> failing_disk N r' \<and> power_left r' = power_left (log_reg s) - lh_n (header l)
    \<and> content r' = (\<lambda>x. if \<exists>i < min (lh_n (header l)) (power_left (log_reg s)). x = lh_sectors (header l) ! i then d0 x else content (log_reg s) x)"
proof -
  let ?p = "power_left (log_reg s)" and ?ss = "lh_sectors (header l)" and ?n = "lh_n (header l)"
  let ?f = "\<lambda>i x. do { src \<leftarrow> log_slot l i; dst \<leftarrow> idx ?ss i; copy_sector src dst x }"
  let ?P = "\<lambda>k x. failing_disk N (snd x) \<and> power_left (snd x) = ?p - k
    \<and> content (snd x) = (\<lambda>x. if \<exists>i < min k ?p. x = ?ss ! i then d0 x else content (log_reg s) x)"
  have "\<exists>x. for_range 0 ?n ?f (sector_buf, log_reg s) = Some x \<and> ?P (0 + ?n) x"
  proof (rule for_range_rule)
    fix i and x :: "sector_data \<times> ((sector \<Rightarrow> sector_data) \<times> nat) registry"
    assume i: "i < 0 + ?n" and P: "?P i x"
    obtain bu r0 where x: "x = (bu, r0)" by force
    note sl = log_ok_slot [OF l(2)]
    from copy_sector_spec [of N r0 "log_start l + 1 + i" "?ss ! i" bu] P sl [of i] i obtain r1 where
      r1: "copy_sector (log_start l + 1 + i) (?ss ! i) (bu, r0) = Some (content r0 (log_start l + 1 + i), r1)" "failing_disk N r1" "power_left r1 = power_left r0 - 1"
        "content r1 = (if power_left r0 = 0 then content r0 else (content r0)(?ss ! i := content r0 (log_start l + 1 + i)))" by (auto simp: x)
    have "log_start l + 1 + i \<noteq> ?ss ! j" if "j < i" for j using sl(3) [of i] sl(6) [of j] i that by auto
    then have "content r0 (log_start l + 1 + i) = content (log_reg s) (log_start l + 1 + i)" using P by (auto simp: x)
    then have "0 < ?p \<Longrightarrow> content r0 (log_start l + 1 + i) = d0 (?ss ! i)" using body [of i] i by simp
    then have r14: "content r1 = (if ?p \<le> i then content r0 else (content r0)(?ss ! i := d0 (?ss ! i)))" using r1(4) P by (auto simp: x)
    have c0: "content r0 = (\<lambda>x. if \<exists>j < min i ?p. x = ?ss ! j then d0 x else content (log_reg s) x)" using P by (simp add: x)
    have "content r1 = (\<lambda>x. if \<exists>j < min (Suc i) ?p. x = ?ss ! j then d0 x else content (log_reg s) x)"
    proof (cases "?p \<le> i")
      case False
      then have "min i ?p = i" "min (Suc i) ?p = Suc i" by auto
      then show ?thesis using False unfolding r14 c0 by (auto simp: fun_eq_iff less_Suc_eq)
    qed (simp add: r14 c0 min_absorb2)
    then show "\<exists>x'. ?f i x = Some x' \<and> ?P (Suc i) x'" using r1(1-3) sl [of i] i P by (auto simp: x)
  qed (use r in \<open>auto simp: fun_eq_iff\<close>)
  then show ?thesis using l(1) by (auto simp: install_trans_def)
qed

subsection \<open>What a disk can be restored to\<close>

text \<open>
  The disk \<open>d\<close> can be restored to \<open>d0\<close>: for every sector that the log lists it holds a copy of what \<open>d0\<close> has there, and
  outside of the log area the two agree on the other sectors.
\<close>

definition logged :: "sector_data \<Rightarrow> nat \<Rightarrow> sector" where
  "logged h i = u32_at h (4 * (1 + i))"

definition restorable :: "nat \<Rightarrow> sector \<Rightarrow> (sector \<Rightarrow> sector_data) \<Rightarrow> (sector \<Rightarrow> sector_data) \<Rightarrow> bool" where
  "restorable N st d0 d \<longleftrightarrow> (\<forall>x. x \<notin> log_area st \<longrightarrow> d x = d0 x \<or> (\<exists>i < u32_at (d st) 0. x = logged (d st) i)) \<and> length (d st) = 512 \<and> u32_at (d st) 0 \<le> LOGSIZE
     \<and> (\<forall>i < u32_at (d st) 0. logged (d st) i < N \<and> logged (d st) i \<notin> log_area st \<and> d (st + 1 + i) = d0 (logged (d st) i))"

definition log_empty :: "sector \<Rightarrow> (sector \<Rightarrow> sector_data) \<Rightarrow> bool" where
  "log_empty st d \<longleftrightarrow> u32_at (d st) 0 = 0"

text \<open>Writing a header.\<close>

lemma restorable_header:
  assumes "\<And>x. x \<notin> log_area st \<Longrightarrow> d x = d0 x" and "length buf = 512" and "u32_at buf 0 = n" and "n \<le> LOGSIZE"
    and "\<And>i. i < n \<Longrightarrow> logged buf i < N \<and> logged buf i \<notin> log_area st \<and> d (st + 1 + i) = d0 (logged buf i)"
  shows "restorable N st d0 (d(st := buf))"
  using assms by (auto simp: restorable_def log_area_def)

lemma clear_log_spec:
  assumes l: "LOG s = Some l" "log_ok N l" and r: "failing_disk N (log_reg s)" "restorable N (log_start l) d0 (content (log_reg s))"
    and inst: "\<And>x. 0 < power_left (log_reg s) \<Longrightarrow> x \<notin> log_area (log_start l) \<Longrightarrow> content (log_reg s) x = d0 x"
  shows "\<exists>r' l'. clear_log s = Some (s \<lparr> LOG := Some l', log_reg := r' \<rparr>) \<and> restorable N (log_start l) d0 (content r')
    \<and> (0 < power_left (log_reg s) \<longrightarrow> log_empty (log_start l) (content r'))"
proof -
  let ?l = "l \<lparr> header := (header l) \<lparr> lh_n := 0 \<rparr> \<rparr>" and ?st = "log_start l"
  have "?st < N" using l(2) by (simp add: log_ok_def)
  with write_head_spec [of "s \<lparr> LOG := Some ?l \<rparr>" ?l N] l r(1) obtain r' buf where
    w: "write_head (s \<lparr> LOG := Some ?l \<rparr>) = Some (s \<lparr> LOG := Some ?l, log_reg := r' \<rparr>)"
      "content r' = (if power_left (log_reg s) = 0 then content (log_reg s) else (content (log_reg s))(?st := buf))" "length buf = 512" "u32_at buf 0 = 0"
    by (auto simp: log_ok_def cong: if_cong)
  have "restorable N ?st d0 ((content (log_reg s))(?st := buf))" if "0 < power_left (log_reg s)"
    by (rule restorable_header [OF inst [OF that] w(3,4)]) simp_all
  then show ?thesis using w(1,2,4) r(2) l(1)
    by (intro exI [of _ r'] exI [of _ ?l]) (simp add: clear_log_def set_header_def log_empty_def)
qed

lemma log_commit_spec:
  assumes l: "LOG s = Some l" "log_ok N l" and r: "failing_disk N (log_reg s)"
    and d: "log_empty (log_start l) (content (log_reg s))" "length (content (log_reg s) (log_start l)) = 512"
  shows "\<exists>s'. log_commit s = Some s' \<and> restorable N (log_start l) (content (log_reg s)) (content (log_reg s'))
    \<and> (2 * lh_n (header l) + 1 < power_left (log_reg s) \<longrightarrow> log_empty (log_start l) (content (log_reg s')))"
proof (cases "lh_n (header l) = 0")
  case True
  then show ?thesis using l d by (simp add: log_commit_def restorable_def log_empty_def)
next
  case False
  let ?st = "log_start l" and ?n = "lh_n (header l)" and ?ss = "lh_sectors (header l)" and ?d = "content (log_reg s)" and ?p = "power_left (log_reg s)"
  have lk: "?st < N" "?n \<le> LOGSIZE" using l(2) by (simp_all add: log_ok_def)
  from write_log_spec [OF l r] obtain r1 where
    r1: "write_log s = Some (s \<lparr> log_reg := r1 \<rparr>)" "failing_disk N r1" "power_left r1 = ?p - ?n"
      "content r1 = (\<lambda>y. if ?st + 1 \<le> y \<and> y < ?st + 1 + min ?n ?p then ?d (?ss ! (y - (?st + 1))) else ?d y)" by blast
  have out: "content r1 x = ?d x" if "x \<notin> log_area ?st" for x using that lk(2) by (auto simp: r1(4) log_area_def)
  then have rs1: "restorable N ?st ?d (content r1)" using d by (auto simp: r1(4) restorable_def log_empty_def)
  from write_head_spec [of "s \<lparr> log_reg := r1 \<rparr>" l N] l r1(2) lk obtain r2 buf where
    r2: "write_head (s \<lparr> log_reg := r1 \<rparr>) = Some (s \<lparr> log_reg := r2 \<rparr>)" "failing_disk N r2" "power_left r2 = power_left r1 - 1"
      "content r2 = (if power_left r1 = 0 then content r1 else (content r1)(?st := buf))"
      and buf: "length buf = 512" "u32_at buf 0 = ?n" "\<forall>i < LOGSIZE. u32_at buf (4 * (1 + i)) = ?ss ! i" by (auto simp: log_ok_def cong: if_cong)
  have lg: "logged buf i = ?ss ! i" if "i < ?n" for i using buf(3) that lk(2) by (simp add: logged_def)
  have rs2: "restorable N ?st ?d (content r2)"
  proof (cases "power_left r1 = 0")
    case False
    have "restorable N ?st ?d ((content r1)(?st := buf))"
      by (rule restorable_header [OF out buf(1,2) lk(2)]) (use log_ok_slot(5,6) [OF l(2)] lg False r1(3) in \<open>auto simp: r1(4)\<close>)
    then show ?thesis using False r2(4) by simp
  qed (use rs1 r2(4) in simp)
  have body: "content r2 (?st + 1 + i) = ?d (?ss ! i)" if "0 < power_left r2" "i < ?n" for i using that by (auto simp: r2(3,4) r1(3,4))
  have out2: "content r2 x = ?d x" if "x \<notin> log_area ?st" for x using out [OF that] that by (auto simp: r2(4) log_area_def)
  from install_spec [of "s \<lparr> log_reg := r2 \<rparr>" l N ?d] l r2(2) body obtain r3 where
    r3: "install_trans (s \<lparr> log_reg := r2 \<rparr>) = Some (s \<lparr> log_reg := r3 \<rparr>)" "failing_disk N r3" "power_left r3 = power_left r2 - ?n"
      "content r3 = (\<lambda>x. if \<exists>i < min ?n (power_left r2). x = ?ss ! i then ?d x else content r2 x)"
    by (auto cong: if_cong)
  have "content r3 = content r2" using log_ok_slot(6) [OF l(2)] out2 by (auto simp: r3(4) fun_eq_iff)
  with clear_log_spec [of "s \<lparr> log_reg := r3 \<rparr>" l N ?d] l r3(2) rs2 out2 obtain r4 l' where
    r4: "clear_log (s \<lparr> log_reg := r3 \<rparr>) = Some (s \<lparr> log_reg := r3, LOG := Some l', log_reg := r4 \<rparr>)" "restorable N ?st ?d (content r4)"
      "0 < power_left r3 \<longrightarrow> log_empty ?st (content r4)" by auto
  show ?thesis using False l(1) r1(1,3) r2(1,3) r3(1,3) r4 by (auto simp: log_commit_def)
qed

text \<open>Recovery keeps a disk restorable, also if the power fails during it.\<close>

lemma log_init_spec:
  assumes st: "st + LOGSIZE < N" "N \<le> 2 ^ 32" and r: "failing_disk N (log_reg s)" "restorable N st d0 (content (log_reg s))"
  shows "\<exists>s'. log_init st sz s = Some s' \<and> restorable N st d0 (content (log_reg s')) \<and> (LOGSIZE < power_left (log_reg s) \<longrightarrow> log_empty st (content (log_reg s')))"
proof -
  let ?l = "\<lparr> log_lock = False, log_start = st, log_size = sz, outstanding = 0, committing = False, header = \<lparr> lh_n = 0, lh_sectors = replicate LOGSIZE 0 \<rparr> \<rparr>"
  let ?s = "s \<lparr> LOG := Some ?l \<rparr>" and ?h = "content (log_reg s) st"
  have rs: "length ?h = 512" "u32_at ?h 0 \<le> LOGSIZE" "\<And>x. x \<notin> log_area st \<Longrightarrow> content (log_reg s) x = d0 x \<or> (\<exists>i < u32_at ?h 0. x = logged ?h i)"
    "\<And>i. i < u32_at ?h 0 \<Longrightarrow> logged ?h i < N \<and> logged ?h i \<notin> log_area st \<and> content (log_reg s) (st + 1 + i) = d0 (logged ?h i)"
    using r(2) by (auto simp: restorable_def)
  from read_head_spec [of ?s ?l N] r(1) rs(1) st(1) obtain r1 ss where
    r1: "read_head ?s = Some (?s \<lparr> log_reg := r1, LOG := Some (?l \<lparr> header := \<lparr> lh_n = u32_at ?h 0, lh_sectors = ss \<rparr> \<rparr>) \<rparr>)"
      "failing_disk N r1" "content r1 = content (log_reg s)" "power_left r1 = power_left (log_reg s)" "length ss = LOGSIZE"
      "\<forall>i < min (u32_at ?h 0) LOGSIZE. ss ! i = logged ?h i" "\<forall>i < LOGSIZE. ss ! i \<in> {logged ?h i, replicate LOGSIZE 0 ! i}"
    by (auto simp: logged_def)
  let ?l1 = "?l \<lparr> header := \<lparr> lh_n = u32_at ?h 0, lh_sectors = ss \<rparr> \<rparr>"
  show ?thesis
  proof (cases "u32_at ?h 0 = 0")
    case True
    then show ?thesis using r(2) r1(1,3) by (simp add: log_init_def log_recover_def log_empty_def)
  next
    case False
    have "ss ! i < 2 ^ 32" if "i < LOGSIZE" for i using r1(7) that u32_at_bound [of ?h] by (auto simp: logged_def)
    then have "\<forall>x \<in> set ss. x < 2 ^ 32" using r1(5) by (auto simp: in_set_conv_nth)
    then have ok: "log_ok N ?l1" using st rs(2,4) r1(5,6) by (simp add: log_ok_def)
    let ?s1 = "?s \<lparr> log_reg := r1, LOG := Some ?l1 \<rparr>"
    have lg: "ss ! i = logged ?h i" if "i < u32_at ?h 0" for i using r1(6) rs(2) that by simp
    from install_spec [of ?s1 ?l1 N d0] ok r1(2,3) lg rs(4) obtain r2 where
      r2: "install_trans ?s1 = Some (?s1 \<lparr> log_reg := r2 \<rparr>)" "failing_disk N r2" "power_left r2 = power_left r1 - u32_at ?h 0"
        "content r2 = (\<lambda>x. if \<exists>i < min (u32_at ?h 0) (power_left r1). x = ss ! i then d0 x else content r1 x)" by (auto cong: if_cong)
    have area: "content r2 x = content r1 x" if "x \<in> log_area st" for x using rs(4) lg that by (auto simp: r2(4))
    have "content r2 st = ?h" "\<And>i. i < u32_at ?h 0 \<Longrightarrow> content r2 (st + 1 + i) = content (log_reg s) (st + 1 + i)"
      using area [of st] area [of "st + 1 + i" for i] rs(2) r1(3) by (auto simp: log_area_def)
    moreover have "content r2 x = d0 x \<or> (\<exists>i < u32_at ?h 0. x = logged ?h i)" if "x \<notin> log_area st" for x using rs(3) [OF that] by (auto simp: r2(4) r1(3))
    ultimately have "restorable N st d0 (content r2)" using rs(1,2,4) by (simp add: restorable_def)
    moreover have "content r2 x = d0 x" if "0 < power_left r2" "x \<notin> log_area st" for x
      using rs(3) [OF that(2)] that(1) lg by (auto simp: r2(3,4) r1(3))
    ultimately obtain r3 l' where
      "clear_log (?s1 \<lparr> log_reg := r2 \<rparr>) = Some (?s1 \<lparr> log_reg := r2, LOG := Some l', log_reg := r3 \<rparr>)" "restorable N st d0 (content r3)"
      "0 < power_left r2 \<longrightarrow> log_empty st (content r3)" using clear_log_spec [of "?s1 \<lparr> log_reg := r2 \<rparr>" ?l1 N d0] ok r2(2) by auto
    then show ?thesis using False r1(1,4) r2(1,3) rs(2) by (auto simp: log_init_def log_recover_def)
  qed
qed

subsection \<open>Collecting a transaction\<close>

definition logged_set :: "log \<Rightarrow> sector set" where
  "logged_set l = set (take (lh_n (header l)) (lh_sectors (header l)))"

text \<open>A sector is listed once; the eleventh call panics even for a sector that is listed already.\<close>

lemma log_write_spec:
  assumes l: "LOG s = Some l" "log_ok N l" "\<not> log_lock l" and x: "x < N" "x \<notin> log_area (log_start l)"
  shows "if lh_n (header l) = LOGSIZE then log_write x s = None
    else \<exists>l'. log_write x s = Some (s \<lparr> LOG := Some l' \<rparr>) \<and> log_ok N l' \<and> \<not> log_lock l' \<and> log_start l' = log_start l \<and> logged_set l' = insert x (logged_set l)"
proof (cases "lh_n (header l) = LOGSIZE")
  case True
  then show ?thesis using l by (simp add: log_write_def lock_acquire_def)
next
  case False
  let ?n = "lh_n (header l)" and ?ss = "lh_sectors (header l)"
  have n: "?n < LOGSIZE" "?n < length ?ss" using False l(2) by (simp_all add: log_ok_def)
  show ?thesis
  proof (cases "x \<in> set (take ?n ?ss)")
    case True
    then have "log_write x s = Some (s \<lparr> LOG := Some (l \<lparr> log_lock := False \<rparr>) \<rparr>)" using l n by (simp add: log_write_def lock_acquire_def lock_release_def)
    with True show ?thesis using False l by (auto simp: log_ok_def logged_set_def insert_absorb intro!: exI [of _ "l \<lparr> log_lock := False \<rparr>"])
  next
    case new: False
    let ?l = "l \<lparr> log_lock := False, header := \<lparr> lh_n = ?n + 1, lh_sectors = ?ss[?n := x] \<rparr> \<rparr>"
    have "log_write x s = Some (s \<lparr> LOG := Some ?l \<rparr>)" using new l n by (simp add: log_write_def lock_acquire_def lock_release_def upd_def Let_def)
    moreover have "log_ok N ?l" using l(2) x n by (auto simp: log_ok_def nth_list_update less_Suc_eq set_update_subset_insert dest!: subsetD [OF set_update_subset_insert])
    moreover have "logged_set ?l = insert x (logged_set l)" using n by (simp add: logged_set_def take_Suc_conv_app_nth)
    ultimately show ?thesis using False by auto
  qed
qed

subsection \<open>Repeated power failures\<close>

definition failing_registry :: "nat \<Rightarrow> nat \<Rightarrow> (sector \<Rightarrow> sector_data) \<Rightarrow> ((sector \<Rightarrow> sector_data) \<times> nat) registry" where
  "failing_registry N b d = \<lparr> devices = [\<lparr> dev_name = [0x68, 0x64, 0x61], dev_type = FileSys, dev_size = N, ops = failing_ops,
       media = (d, b), read_cnt = 0, write_cnt = 0 \<rparr>], roles = [Some 0, None, None, None] \<rparr>"

lemma failing_registry_ok [simp]:
  "failing_disk N (failing_registry N b d)" "content (failing_registry N b d) = d" "power_left (failing_registry N b d) = b"
  by (simp_all add: failing_disk_def content_def power_left_def role_dev_def get_role_def role_index_def failing_registry_def idx_def)

text \<open>The machine is started once for every number of the list, and loses its power after that many writes.\<close>

primrec reboots :: "sector \<Rightarrow> nat \<Rightarrow> nat \<Rightarrow> nat list \<Rightarrow> (sector \<Rightarrow> sector_data) \<Rightarrow> (sector \<Rightarrow> sector_data) option" where
  "reboots st sz N [] d = Some d"
| "reboots st sz N (b # bs) d = do {
     s \<leftarrow> log_init st sz \<lparr> LOG = None, log_reg = failing_registry N b d \<rparr>;
     reboots st sz N bs (content (log_reg s))
   }"

lemma reboots_spec:
  assumes "st + LOGSIZE < N" and "N \<le> 2 ^ 32" and "restorable N st d0 d"
  shows "\<exists>d'. reboots st sz N bs d = Some d' \<and> restorable N st d0 d' \<and> (bs \<noteq> [] \<and> LOGSIZE < List.last bs \<longrightarrow> log_empty st d')"
  using assms(3)
proof (induction bs arbitrary: d)
  case (Cons b bs)
  from log_init_spec [OF assms(1,2), of "\<lparr> LOG = None, log_reg = failing_registry N b d \<rparr>" d0 sz] Cons.prems obtain s where
    s: "log_init st sz \<lparr> LOG = None, log_reg = failing_registry N b d \<rparr> = Some s" "restorable N st d0 (content (log_reg s))"
      "LOGSIZE < b \<longrightarrow> log_empty st (content (log_reg s))" by auto
  from Cons.IH [OF s(2)] s(1,3) show ?case by (cases bs) auto
qed simp

lemma restored: "restorable N st d0 d \<Longrightarrow> log_empty st d \<Longrightarrow> x \<notin> log_area st \<Longrightarrow> d x = d0 x"
  by (simp add: restorable_def log_empty_def)

section \<open>Properties\<close>

text \<open>C12: Recovery completes what was committed. If the log on the disk lists sectors outside of the log area and holds the content
  \<open>d0\<close> has there, then any number of starts of the machine, each with a power failure after any number of writes, leads
  to a disk from which \<open>d0\<close> can be restored, and after a start with power for more than ten writes every sector
  outside of the log area has the content of \<open>d0\<close> and the log is empty.\<close>

theorem recovery_completes:
  assumes "st + LOGSIZE < N" and "N \<le> 2 ^ 32" and "restorable N st d0 d"
  shows "\<exists>d'. reboots st sz N bs d = Some d' \<and> restorable N st d0 d'
    \<and> (bs \<noteq> [] \<and> LOGSIZE < List.last bs \<longrightarrow> log_empty st d' \<and> (\<forall>x. x \<notin> log_area st \<longrightarrow> d' x = d0 x))"
  using reboots_spec [OF assms, of sz bs] restored [of N st d0] by auto

definition sample_header :: sector_data where
  "sample_header = u32s_bytes (1 # 5 # replicate 9 0) @ replicate 468 0"

definition sample_logged :: "sector \<Rightarrow> sector_data" where
  "sample_logged = (\<lambda>x. if x = 20 then sample_header else if x = 21 then replicate 512 7 else replicate 512 0)"

lemma sample_restorable: "restorable 64 20 (sample_logged(5 := replicate 512 7)) sample_logged"
proof -
  have w: "u32_at sample_header (4 * i) = (1 # 5 # replicate 9 0) ! i" if "i < 11" for i
    unfolding sample_header_def using that by (subst u32_at_append_left) (simp_all add: u32_at_u32s_bytes)
  have "u32_at sample_header 0 = 1" "logged sample_header 0 = 5" "length sample_header = 512"
    using w [of 0] w [of 1] by (simp_all add: logged_def sample_header_def)
  then show ?thesis by (simp add: restorable_def sample_logged_def log_area_def LOGSIZE_def)
qed

theorem recovery_completes_witness:
  "\<exists>d'. reboots 20 11 64 [1, 0, 20] sample_logged = Some d' \<and> d' 5 = replicate 512 7 \<and> d' 6 = replicate 512 0 \<and> log_empty 20 d'"
  using recovery_completes [OF _ _ sample_restorable, of 11 "[1, 0, 20]"] by (auto simp: LOGSIZE_def log_area_def sample_logged_def)

text \<open>C37: A commit does not change the data on the disk. Whatever sectors the transaction lists, and wherever in the commit and in
  the recoveries after it the power fails, at the end every sector outside of the log area has the content it had
  before the commit: the log is filled from the sectors' own places and installed there again, so that it neither makes the updates
  of a transaction nor could undo a part of them.\<close>

theorem commit_keeps_data:
  assumes "log_ok N l" and "length (d (log_start l)) = 512" and "log_empty (log_start l) d"
  shows "\<exists>s d'. log_commit \<lparr> LOG = Some l, log_reg = failing_registry N b d \<rparr> = Some s
    \<and> reboots (log_start l) sz N bs (content (log_reg s)) = Some d' \<and> restorable N (log_start l) d d'
    \<and> (bs = [] \<and> 2 * lh_n (header l) + 1 < b \<or> bs \<noteq> [] \<and> LOGSIZE < List.last bs \<longrightarrow> log_empty (log_start l) d' \<and> (\<forall>x. x \<notin> log_area (log_start l) \<longrightarrow> d' x = d x))"
proof -
  let ?s = "\<lparr> LOG = Some l, log_reg = failing_registry N b d \<rparr>" and ?st = "log_start l"
  from log_commit_spec [of ?s l N] assms obtain s where
    s: "log_commit ?s = Some s" "restorable N ?st d (content (log_reg s))" "2 * lh_n (header l) + 1 < b \<longrightarrow> log_empty ?st (content (log_reg s))" by auto
  have "?st + LOGSIZE < N" "N \<le> 2 ^ 32" using assms(1) by (simp_all add: log_ok_def)
  from reboots_spec [OF this s(2), of sz bs] obtain d' where
    d': "reboots ?st sz N bs (content (log_reg s)) = Some d'" "restorable N ?st d d'" "bs \<noteq> [] \<and> LOGSIZE < List.last bs \<longrightarrow> log_empty ?st d'" by blast
  moreover have "bs = [] \<Longrightarrow> d' = content (log_reg s)" using d'(1) by simp
  ultimately show ?thesis using s(1,3) restored [OF d'(2)] by blast
qed

definition sample_log :: log where
  "sample_log = \<lparr> log_lock = False, log_start = 20, log_size = 11, outstanding = 0, committing = False,
     header = \<lparr> lh_n = 2, lh_sectors = [5, 7, 0, 0, 0, 0, 0, 0, 0, 0] \<rparr> \<rparr>"

theorem commit_keeps_data_witness:
  "\<exists>s d'. log_commit \<lparr> LOG = Some sample_log, log_reg = failing_registry 64 4 (\<lambda>_. replicate 512 0) \<rparr> = Some s
    \<and> reboots 20 11 64 [20] (content (log_reg s)) = Some d' \<and> d' 5 = replicate 512 0"
proof -
  have "log_ok 64 sample_log" 
    by (auto simp: log_ok_def sample_log_def LOGSIZE_def log_area_def less_2_cases_iff)
  from commit_keeps_data [OF this, of "\<lambda>_. replicate 512 0" 4 11 "[20]"] show ?thesis
    by (auto simp: log_empty_def LOGSIZE_def log_area_def sample_log_def)
qed

end
