(* ===== verification/Vga.thy ===== *)
theory Vga
  imports Vaddr
begin

section \<open>The text screen: devices/vga.rs\<close>

text \<open>
  The writer with its escape-sequence parser, the video memory as bytes by address, and the writes to the ports of the
  cursor in their order. \<open>u16\<close> parameters are numbers below \<open>2 ^ 16\<close>, attributes are bytes. The arithmetic of the
  cursor is checked, as the kernel is built; the invariant shows that no check fails.
\<close>

unbundle bit_operations_syntax

definition COL_CNT :: nat where "COL_CNT = 80"
definition ROW_CNT :: nat where "ROW_CNT = 25"
definition DEFAULT_ATTR :: byte where "DEFAULT_ATTR = 0x07"
definition VGA_BUFFER :: nat where "VGA_BUFFER = 0xC00B8000"
definition MAX_PARAMS :: nat where "MAX_PARAMS = 8"

definition ANSI_TO_VGA :: "byte list" where
  "ANSI_TO_VGA = [0, 4, 2, 6, 1, 5, 3, 7]"

datatype esc_state = Normal | Esc | Csi | CsiQuestion

record writer =
  w_col :: nat
  w_row :: nat
  w_attr :: byte
  default_attr :: byte
  w_state :: esc_state
  w_params :: "nat list"
  param_idx :: nat
  saved_row :: nat
  saved_col :: nat
  vmem :: "nat \<Rightarrow> byte"
  ports :: "(nat \<times> byte) list"

definition WRITER :: "(nat \<Rightarrow> byte) \<Rightarrow> writer" where
  "WRITER m = \<lparr> w_col = 0, w_row = 0, w_attr = DEFAULT_ATTR, default_attr = DEFAULT_ATTR, w_state = Normal,
     w_params = replicate MAX_PARAMS 0, param_idx = 0, saved_row = 0, saved_col = 0, vmem = m, ports = [] \<rparr>"

subsection \<open>Cells\<close>

definition write_cell :: "nat \<Rightarrow> nat \<Rightarrow> byte \<Rightarrow> byte \<Rightarrow> writer \<Rightarrow> writer" where
  "write_cell r c ch at w =
     (if r \<ge> ROW_CNT \<or> c \<ge> COL_CNT then w
      else let offset = (r * COL_CNT + c) * 2
           in w \<lparr> vmem := (vmem w)(VGA_BUFFER + offset := ch, VGA_BUFFER + (offset + 1) := at) \<rparr>)"

definition erase_line_from :: "nat \<Rightarrow> nat \<Rightarrow> nat \<Rightarrow> writer \<Rightarrow> writer" where
  "erase_line_from r start en w = fold (\<lambda>x w. write_cell r x 0x20 (w_attr w) w) [start ..< min en COL_CNT] w"

definition clear_row :: "nat \<Rightarrow> writer \<Rightarrow> writer" where
  "clear_row r w = fold (\<lambda>x w. write_cell r x 0x20 (w_attr w) w) [0 ..< COL_CNT] w"

definition scroll :: "writer \<Rightarrow> writer" where
  "scroll w = (let row_bytes = COL_CNT * 2; m = vmem w
     in w \<lparr> vmem := (\<lambda>a. if VGA_BUFFER \<le> a \<and> a < VGA_BUFFER + row_bytes * (ROW_CNT - 1) then m (a + row_bytes) else m a) \<rparr>)"

definition newline :: "writer \<Rightarrow> writer option" where
  "newline w = do {
     r \<leftarrow> add_usize (w_row w) 1;
     let w = w \<lparr> w_col := 0, w_row := r \<rparr>;
     let w = (if r \<ge> ROW_CNT then (scroll w) \<lparr> w_row := ROW_CNT - 1 \<rparr> else w);
     Some (clear_row (w_row w) w)
   }"

subsection \<open>Control sequences\<close>

definition param :: "nat \<Rightarrow> nat \<Rightarrow> writer \<Rightarrow> nat option" where
  "param i dflt w =
     (if i \<le> param_idx w then do { p \<leftarrow> idx (w_params w) i; Some (if p \<noteq> 0 then p else dflt) } else Some dflt)"

definition cursor_up :: "writer \<Rightarrow> writer option" where
  "cursor_up w = do { n \<leftarrow> param 0 1 w; Some (w \<lparr> w_row := w_row w - n \<rparr>) }"

definition cursor_down :: "writer \<Rightarrow> writer option" where
  "cursor_down w = do { n \<leftarrow> param 0 1 w; r \<leftarrow> add_usize (w_row w) n; Some (w \<lparr> w_row := min r (ROW_CNT - 1) \<rparr>) }"

definition cursor_forward :: "writer \<Rightarrow> writer option" where
  "cursor_forward w = do { n \<leftarrow> param 0 1 w; c \<leftarrow> add_usize (w_col w) n; Some (w \<lparr> w_col := min c (COL_CNT - 1) \<rparr>) }"

definition cursor_back :: "writer \<Rightarrow> writer option" where
  "cursor_back w = do { n \<leftarrow> param 0 1 w; Some (w \<lparr> w_col := w_col w - n \<rparr>) }"

definition cursor_position :: "writer \<Rightarrow> writer option" where
  "cursor_position w = do {
     r \<leftarrow> param 0 1 w;
     c \<leftarrow> param 1 1 w;
     Some (w \<lparr> w_row := min (r - 1) (ROW_CNT - 1), w_col := min (c - 1) (COL_CNT - 1) \<rparr>)
   }"

definition erase_display :: "writer \<Rightarrow> writer option" where
  "erase_display w = do {
     p \<leftarrow> param 0 0 w;
     if p = 0 then do {
       let w = erase_line_from (w_row w) (w_col w) COL_CNT w;
       a \<leftarrow> add_usize (w_row w) 1;
       Some (fold clear_row [a ..< ROW_CNT] w)
     }
     else if p = 1 then do {
       let w = fold clear_row [0 ..< w_row w] w;
       e \<leftarrow> add_usize (w_col w) 1;
       Some (erase_line_from (w_row w) 0 e w)
     }
     else if p = 2 \<or> p = 3 then Some ((fold clear_row [0 ..< ROW_CNT] w) \<lparr> w_row := 0, w_col := 0 \<rparr>)
     else Some w
   }"

definition erase_line :: "writer \<Rightarrow> writer option" where
  "erase_line w = do {
     p \<leftarrow> param 0 0 w;
     if p = 0 then Some (erase_line_from (w_row w) (w_col w) COL_CNT w)
     else if p = 1 then do { e \<leftarrow> add_usize (w_col w) 1; Some (erase_line_from (w_row w) 0 e w) }
     else if p = 2 then Some (clear_row (w_row w) w)
     else Some w
   }"

text \<open>One code of a \<open>SGR\<close> sequence: the new attribute.\<close>

definition sgr_code :: "nat \<Rightarrow> byte \<Rightarrow> byte \<Rightarrow> byte option" where
  "sgr_code code dflt a =
     (if code = 0 then Some dflt
      else if code = 1 then Some (a OR 0x08)
      else if code = 2 then Some (a AND NOT 0x08)
      else if code = 4 then Some a
      else if code = 7 then Some (push_bit 4 (a AND 0x0F) OR (drop_bit 4 a AND 0x07))
      else if code = 22 then Some (a AND NOT 0x08)
      else if code = 27 then Some dflt
      else if 30 \<le> code \<and> code \<le> 37 then do { c \<leftarrow> idx ANSI_TO_VGA (code - 30); Some ((a AND 0xF8) OR c) }
      else if code = 39 then Some ((a AND 0xF8) OR (dflt AND 0x07))
      else if 40 \<le> code \<and> code \<le> 47 then do { c \<leftarrow> idx ANSI_TO_VGA (code - 40); Some ((a AND 0x8F) OR push_bit 4 c) }
      else if code = 49 then Some ((a AND 0x8F) OR (dflt AND 0x70))
      else if 90 \<le> code \<and> code \<le> 97 then do { c \<leftarrow> idx ANSI_TO_VGA (code - 90); Some ((a AND 0xF0) OR (c OR 0x08)) }
      else if 100 \<le> code \<and> code \<le> 107 then do { c \<leftarrow> idx ANSI_TO_VGA (code - 100); Some ((a AND 0x0F) OR push_bit 4 c OR 0x80) }
      else Some a)"

definition sgr :: "writer \<Rightarrow> writer option" where
  "sgr w = do {
     count \<leftarrow> add_usize (param_idx w) 1;
     p0 \<leftarrow> idx (w_params w) 0;
     if count = 1 \<and> p0 = 0 \<and> param_idx w = 0 then Some (w \<lparr> w_attr := default_attr w \<rparr>)
     else for_range 0 count (\<lambda>i w. do {
         code \<leftarrow> idx (w_params w) i;
         a \<leftarrow> sgr_code code (default_attr w) (w_attr w);
         Some (w \<lparr> w_attr := a \<rparr>)
       }) w
   }"

definition save_cursor :: "writer \<Rightarrow> writer" where
  "save_cursor w = w \<lparr> saved_row := w_row w, saved_col := w_col w \<rparr>"

definition restore_cursor :: "writer \<Rightarrow> writer" where
  "restore_cursor w = w \<lparr> w_row := saved_row w, w_col := saved_col w \<rparr>"

subsection \<open>The parser\<close>

definition normal_byte :: "byte \<Rightarrow> writer \<Rightarrow> writer option" where
  "normal_byte b w =
     (if b = 0x1B then Some (w \<lparr> w_state := Esc \<rparr>)
      else if b = 0x08 then
        (if w_col w > 0 then let w = w \<lparr> w_col := w_col w - 1 \<rparr> in Some (write_cell (w_row w) (w_col w) 0x20 (w_attr w) w) else Some w)
      else if b = 0x0A then newline w
      else if b = 0x0D then Some (w \<lparr> w_col := 0 \<rparr>)
      else if b = 0x09 then do {
        c \<leftarrow> add_usize (w_col w) 8;
        let w = w \<lparr> w_col := c AND not_u32 7 \<rparr>;
        if w_col w \<ge> COL_CNT then newline w else Some w
      }
      else if b = 0x07 then Some w
      else do {
        w \<leftarrow> (if w_col w \<ge> COL_CNT then newline w else Some w);
        let w = write_cell (w_row w) (w_col w) b (w_attr w) w;
        c \<leftarrow> add_usize (w_col w) 1;
        Some (w \<lparr> w_col := c \<rparr>)
      })"

definition esc_byte :: "byte \<Rightarrow> writer \<Rightarrow> writer" where
  "esc_byte b w =
     (if b = 0x5B then w \<lparr> w_state := Csi, w_params := replicate MAX_PARAMS 0, param_idx := 0 \<rparr>
      else if b = 0x63 then w \<lparr> w_attr := DEFAULT_ATTR, default_attr := DEFAULT_ATTR, w_state := Normal \<rparr>
      else w \<lparr> w_state := Normal \<rparr>)"

definition sat_u16 :: "nat \<Rightarrow> nat" where
  "sat_u16 n = min n 65535"

definition csi_byte :: "byte \<Rightarrow> writer \<Rightarrow> writer option" where
  "csi_byte b w =
     (if b = 0x3F then Some (w \<lparr> w_state := CsiQuestion \<rparr>)
      else if 0x30 \<le> b \<and> b \<le> 0x39 then
        (if param_idx w < MAX_PARAMS then do {
           p \<leftarrow> idx (w_params w) (param_idx w);
           ps \<leftarrow> upd (w_params w) (param_idx w) (sat_u16 (sat_u16 (p * 10) + unat (b - 0x30)));
           Some (w \<lparr> w_params := ps \<rparr>)
         } else Some w)
      else if b = 0x3B then Some (if param_idx w < MAX_PARAMS - 1 then w \<lparr> param_idx := param_idx w + 1 \<rparr> else w)
      else do {
        w \<leftarrow> (if b = 0x41 then cursor_up w
             else if b = 0x42 then cursor_down w
             else if b = 0x43 then cursor_forward w
             else if b = 0x44 then cursor_back w
             else if b = 0x48 \<or> b = 0x66 then cursor_position w
             else if b = 0x4A then erase_display w
             else if b = 0x4B then erase_line w
             else if b = 0x6D then sgr w
             else if b = 0x73 then Some (save_cursor w)
             else if b = 0x75 then Some (restore_cursor w)
             else Some w);
        Some (w \<lparr> w_state := Normal \<rparr>)
      })"

definition write_byte :: "byte \<Rightarrow> writer \<Rightarrow> writer option" where
  "write_byte b w = (case w_state w of
       Normal \<Rightarrow> normal_byte b w
     | Esc \<Rightarrow> Some (esc_byte b w)
     | Csi \<Rightarrow> csi_byte b w
     | CsiQuestion \<Rightarrow> csi_byte b w)"

definition move_cursor :: "writer \<Rightarrow> writer option" where
  "move_cursor w = do {
     a \<leftarrow> mul_usize (w_row w) COL_CNT;
     p \<leftarrow> add_usize a (w_col w);
     let pos = p mod 65536;
     Some (w \<lparr> ports := ports w @ [(0x3D4, 0x0E), (0x3D5, of_nat (pos div 256)), (0x3D4, 0x0F), (0x3D5, of_nat pos)] \<rparr>)
   }"

primrec write_bytes :: "byte list \<Rightarrow> writer \<Rightarrow> writer option" where
  "write_bytes [] w = Some w"
| "write_bytes (b # bs) w = do { w \<leftarrow> write_byte b w; write_bytes bs w }"

definition write_str :: "byte list \<Rightarrow> writer \<Rightarrow> writer option" where
  "write_str s w = do { w \<leftarrow> write_bytes s w; move_cursor w }"

definition vga_clear :: "writer \<Rightarrow> writer option" where
  "vga_clear w = move_cursor (fold clear_row [0 ..< ROW_CNT] (w \<lparr> w_attr := DEFAULT_ATTR, w_col := 0, w_row := 0 \<rparr>))"

definition vga_write_byte :: "byte \<Rightarrow> writer \<Rightarrow> writer option" where
  "vga_write_byte b w = do { w \<leftarrow> write_byte b w; move_cursor w }"

section \<open>The screen\<close>

text \<open>A cell is a character and its attribute. The writer is well-formed if the cursor and the saved cursor are on the screen,
  possibly behind the last column, and the parameters are \<open>u16\<close> numbers.\<close>

definition cell_at :: "nat \<Rightarrow> nat \<Rightarrow> nat" where
  "cell_at r c = VGA_BUFFER + (r * COL_CNT + c) * 2"

definition cell :: "writer \<Rightarrow> nat \<Rightarrow> nat \<Rightarrow> byte \<times> byte" where
  "cell w r c = (vmem w (cell_at r c), vmem w (cell_at r c + 1))"

definition vga_ok :: "writer \<Rightarrow> bool" where
  "vga_ok w \<longleftrightarrow> w_row w < ROW_CNT \<and> w_col w \<le> COL_CNT \<and> saved_row w < ROW_CNT \<and> saved_col w \<le> COL_CNT
     \<and> length (w_params w) = MAX_PARAMS \<and> (\<forall>p \<in> set (w_params w). p < 65536) \<and> param_idx w < MAX_PARAMS"

definition on_screen :: "nat \<Rightarrow> bool" where
  "on_screen x \<longleftrightarrow> VGA_BUFFER \<le> x \<and> x < VGA_BUFFER + ROW_CNT * COL_CNT * 2"

text \<open>A step of the writer: it keeps the invariant, and it changes no memory but the screen's.\<close>

definition vga_step :: "writer \<Rightarrow> writer \<Rightarrow> bool" where
  "vga_step w w' \<longleftrightarrow> (vga_ok w \<longrightarrow> vga_ok w') \<and> (\<forall>x. \<not> on_screen x \<longrightarrow> vmem w' x = vmem w x)"

lemma vga_step_refl [simp]: "vga_step w w"
  by (simp add: vga_step_def)

lemma vga_step_trans: "vga_step a b \<Longrightarrow> vga_step b c \<Longrightarrow> vga_step a c"
  by (simp add: vga_step_def)

lemma cell_at_inj: "c < COL_CNT \<Longrightarrow> c' < COL_CNT \<Longrightarrow> cell_at r c = cell_at r' c' \<longleftrightarrow> r = r' \<and> c = c'"
proof -
  assume c: "c < COL_CNT" "c' < COL_CNT"
  have "(r * COL_CNT + c) div COL_CNT = r" "(r' * COL_CNT + c') div COL_CNT = r'" using c by simp_all
  then have "r * COL_CNT + c = r' * COL_CNT + c' \<longleftrightarrow> r = r' \<and> c = c'" by auto
  moreover have "cell_at r c = cell_at r' c' \<longleftrightarrow> r * COL_CNT + c = r' * COL_CNT + c'" unfolding cell_at_def by (simp only: add_left_cancel mult_cancel2) simp
  ultimately show ?thesis by blast
qed

lemma cell_at_odd: "cell_at r c \<noteq> cell_at r' c' + 1"
  unfolding cell_at_def by presburger

lemma cell_at_on_screen: "r < ROW_CNT \<Longrightarrow> c < COL_CNT \<Longrightarrow> on_screen (cell_at r c) \<and> on_screen (cell_at r c + 1)"
  by (auto simp: on_screen_def cell_at_def ROW_CNT_def COL_CNT_def)

lemma write_cell_eq:
  "write_cell r c ch at w = (if r < ROW_CNT \<and> c < COL_CNT then w \<lparr> vmem := (vmem w)(cell_at r c := ch, cell_at r c + 1 := at) \<rparr> else w)"
  by (simp add: write_cell_def cell_at_def not_less [symmetric] Let_def)

lemma cell_write_cell:
  assumes "r < ROW_CNT" and "c < COL_CNT" and "c' < COL_CNT"
  shows "cell (write_cell r c ch at w) r' c' = (if r' = r \<and> c' = c then (ch, at) else cell w r' c')"
  using assms cell_at_inj [OF assms(3,2), of r' r] cell_at_odd [of r' c' r c] cell_at_odd [of r c r' c']
  unfolding write_cell_eq cell_def by simp

lemma write_cell_step: "vga_step w (write_cell r c ch at w)"
  using cell_at_on_screen [of r c] unfolding write_cell_eq by (auto simp: vga_step_def vga_ok_def)

lemma write_cell_vmem: "write_cell r c ch at w = w \<lparr> vmem := vmem (write_cell r c ch at w) \<rparr>"
  by (cases w) (simp add: write_cell_def Let_def)

lemma write_cell_fields [simp]: "w_col (write_cell r c ch at w) = w_col w" "w_row (write_cell r c ch at w) = w_row w"
  "w_attr (write_cell r c ch at w) = w_attr w" "w_state (write_cell r c ch at w) = w_state w"
  by (simp_all add: write_cell_eq)

text \<open>Erasing a range of a row.\<close>

lemma erase_cells:
  assumes "b \<le> COL_CNT"
  shows "\<exists>m. fold (\<lambda>x w. write_cell r x 0x20 (w_attr w) w) [a ..< b] w = w \<lparr> vmem := m \<rparr> \<and> vga_step w (w \<lparr> vmem := m \<rparr>)
    \<and> (\<forall>r' c'. c' < COL_CNT \<longrightarrow> cell (w \<lparr> vmem := m \<rparr>) r' c' = (if r' = r \<and> r < ROW_CNT \<and> a \<le> c' \<and> c' < b then (0x20, w_attr w) else cell w r' c'))"
  using assms
proof (induction b)
  case 0
  show ?case by (rule exI [of _ "vmem w"]) simp
next
  case (Suc b)
  show ?case
  proof (cases "a \<le> b")
    case True
    from Suc obtain m where m: "fold (\<lambda>x w. write_cell r x 0x20 (w_attr w) w) [a ..< b] w = w \<lparr> vmem := m \<rparr>" "vga_step w (w \<lparr> vmem := m \<rparr>)"
      "\<forall>r' c'. c' < COL_CNT \<longrightarrow> cell (w \<lparr> vmem := m \<rparr>) r' c' = (if r' = r \<and> r < ROW_CNT \<and> a \<le> c' \<and> c' < b then (0x20, w_attr w) else cell w r' c')" by auto
    let ?w = "write_cell r b 0x20 (w_attr w) (w \<lparr> vmem := m \<rparr>)"
    have e: "?w = w \<lparr> vmem := vmem ?w \<rparr>" by (subst write_cell_vmem) simp
    have c: "cell ?w r' c' = (if r' = r \<and> r < ROW_CNT \<and> a \<le> c' \<and> c' < Suc b then (0x20, w_attr w) else cell w r' c')" if "c' < COL_CNT" for r' c'
    proof (cases "r < ROW_CNT")
      case True
      then show ?thesis using cell_write_cell [OF True _ that, of b "0x20" "w_attr w" "w \<lparr> vmem := m \<rparr>" r'] m(3) that Suc.prems \<open>a \<le> b\<close> by auto
    qed (use m(3) that in \<open>simp add: write_cell_def\<close>)
    have "vga_step w ?w" using vga_step_trans [OF m(2) write_cell_step] .
    with e c m(1) True show ?thesis by (intro exI [of _ "vmem ?w"]) (simp flip: e)
  next
    case False
    then show ?thesis by (intro exI [of _ "vmem w"]) auto
  qed
qed

lemma erase_line_from_step: "vga_step w (erase_line_from r a b w)" and erase_line_from_vmem: "\<exists>m. erase_line_from r a b w = w \<lparr> vmem := m \<rparr>"
  using erase_cells [of "min b COL_CNT" r a w] by (auto simp: erase_line_from_def)

lemma clear_row_spec:
  "\<exists>m. clear_row r w = w \<lparr> vmem := m \<rparr> \<and> vga_step w (w \<lparr> vmem := m \<rparr>)
    \<and> (\<forall>r' c'. c' < COL_CNT \<longrightarrow> cell (w \<lparr> vmem := m \<rparr>) r' c' = (if r' = r \<and> r < ROW_CNT then (0x20, w_attr w) else cell w r' c'))"
  using erase_cells [of COL_CNT r 0 w] by (auto simp: clear_row_def cong: if_cong)

lemma clear_rows:
  "\<exists>m. fold clear_row [a ..< b] w = w \<lparr> vmem := m \<rparr> \<and> vga_step w (w \<lparr> vmem := m \<rparr>)
    \<and> (\<forall>r' c'. c' < COL_CNT \<longrightarrow> cell (w \<lparr> vmem := m \<rparr>) r' c' = (if a \<le> r' \<and> r' < b \<and> r' < ROW_CNT then (0x20, w_attr w) else cell w r' c'))"
proof (induction b)
  case 0
  show ?case by (rule exI [of _ "vmem w"]) simp
next
  case (Suc b)
  show ?case
  proof (cases "a \<le> b")
    case True
    from Suc obtain m where m: "fold clear_row [a ..< b] w = w \<lparr> vmem := m \<rparr>" "vga_step w (w \<lparr> vmem := m \<rparr>)"
      "\<forall>r' c'. c' < COL_CNT \<longrightarrow> cell (w \<lparr> vmem := m \<rparr>) r' c' = (if a \<le> r' \<and> r' < b \<and> r' < ROW_CNT then (0x20, w_attr w) else cell w r' c')" by blast
    from clear_row_spec [of b "w \<lparr> vmem := m \<rparr>"] obtain m' where
      m': "clear_row b (w \<lparr> vmem := m \<rparr>) = w \<lparr> vmem := m' \<rparr>" "vga_step (w \<lparr> vmem := m \<rparr>) (w \<lparr> vmem := m' \<rparr>)"
        "\<forall>r' c'. c' < COL_CNT \<longrightarrow> cell (w \<lparr> vmem := m' \<rparr>) r' c' = (if r' = b \<and> b < ROW_CNT then (0x20, w_attr w) else cell (w \<lparr> vmem := m \<rparr>) r' c')" by auto
    show ?thesis using True m(1,3) m'(1,3) vga_step_trans [OF m(2) m'(2)] by (intro exI [of _ m']) auto
  next
    case False
    then show ?thesis by (intro exI [of _ "vmem w"]) auto
  qed
qed

lemma scroll_spec:
  "vga_step w (scroll w)" "r < ROW_CNT - 1 \<Longrightarrow> c < COL_CNT \<Longrightarrow> cell (scroll w) r c = cell w (Suc r) c" "scroll w = w \<lparr> vmem := vmem (scroll w) \<rparr>"
proof -
  show "vga_step w (scroll w)" by (auto simp: vga_step_def vga_ok_def scroll_def Let_def on_screen_def ROW_CNT_def COL_CNT_def)
  show "scroll w = w \<lparr> vmem := vmem (scroll w) \<rparr>" by (simp add: scroll_def Let_def)
  assume "r < ROW_CNT - 1" "c < COL_CNT"
  then have a: "cell_at r c + 1 < VGA_BUFFER + COL_CNT * 2 * (ROW_CNT - 1)" "VGA_BUFFER \<le> cell_at r c" "cell_at r c + COL_CNT * 2 = cell_at (Suc r) c"
    by (auto simp: cell_at_def ROW_CNT_def COL_CNT_def)
  then show "cell (scroll w) r c = cell w (Suc r) c" unfolding cell_def scroll_def Let_def by (simp flip: a(3))
qed

text \<open>A new line: in the last row the screen moves up by one row.\<close>

lemma newline_spec:
  assumes "vga_ok w"
  shows "\<exists>w'. newline w = Some w' \<and> vga_step w w' \<and> w_col w' = 0 \<and> w_row w' = min (Suc (w_row w)) (ROW_CNT - 1) \<and> w_state w' = w_state w \<and> w_attr w' = w_attr w
    \<and> (\<forall>r c. r < ROW_CNT \<and> c < COL_CNT \<longrightarrow> cell w' r c = (if r = w_row w' then (0x20, w_attr w) else if Suc (w_row w) < ROW_CNT then cell w r c else cell w (Suc r) c))"
proof -
  have a: "add_usize (w_row w) 1 = Some (Suc (w_row w))" and row: "w_row w < ROW_CNT" using assms by (simp_all add: vga_ok_def add_usize_def ROW_CNT_def)
  show ?thesis
  proof (cases "Suc (w_row w) < ROW_CNT")
    case True
    let ?w = "w \<lparr> w_col := 0, w_row := Suc (w_row w) \<rparr>"
    from clear_row_spec [of "Suc (w_row w)" ?w] obtain m where
      m: "clear_row (Suc (w_row w)) ?w = ?w \<lparr> vmem := m \<rparr>" "vga_step ?w (?w \<lparr> vmem := m \<rparr>)"
        "\<forall>r' c'. c' < COL_CNT \<longrightarrow> cell (?w \<lparr> vmem := m \<rparr>) r' c' = (if r' = Suc (w_row w) \<and> Suc (w_row w) < ROW_CNT then (0x20, w_attr w) else cell ?w r' c')" by auto
    have "vga_step w ?w" using True by (simp add: vga_step_def vga_ok_def)
    from vga_step_trans [OF this m(2)] show ?thesis using a m(1,3) True
      by (intro exI [of _ "?w \<lparr> vmem := m \<rparr>"]) (auto simp: newline_def cell_def)
  next
    case False
    let ?w = "(scroll (w \<lparr> w_col := 0, w_row := Suc (w_row w) \<rparr>)) \<lparr> w_row := ROW_CNT - 1 \<rparr>"
    from clear_row_spec [of "ROW_CNT - 1" ?w] obtain m where
      m: "clear_row (ROW_CNT - 1) ?w = ?w \<lparr> vmem := m \<rparr>" "vga_step ?w (?w \<lparr> vmem := m \<rparr>)"
        "\<forall>r' c'. c' < COL_CNT \<longrightarrow> cell (?w \<lparr> vmem := m \<rparr>) r' c' = (if r' = ROW_CNT - 1 \<and> ROW_CNT - 1 < ROW_CNT then (0x20, w_attr ?w) else cell ?w r' c')" by blast
    note sc = scroll_spec [where w = "w \<lparr> w_col := 0, w_row := Suc (w_row w) \<rparr>"]
    have f: "w_col ?w = 0" "w_attr ?w = w_attr w" "w_state ?w = w_state w" by (simp_all add: scroll_def Let_def)
    have "vga_step w ?w" using sc(1) by (auto simp: vga_step_def vga_ok_def scroll_def Let_def ROW_CNT_def)
    from vga_step_trans [OF this m(2)] show ?thesis using a m(1,3) f False row sc(2)
      by (intro exI [of _ "?w \<lparr> vmem := m \<rparr>"]) (auto simp: newline_def cell_def ROW_CNT_def)
  qed
qed

subsection \<open>Every byte keeps the writer well-formed\<close>

lemma param_some:
  assumes "vga_ok w" and "i < MAX_PARAMS" and "d < 65536"
  shows "\<exists>n. param i d w = Some n \<and> n < 65536"
  using assms by (auto simp: param_def vga_ok_def idx_def)

lemma cursor_steps:
  assumes "vga_ok w"
  shows "\<exists>w'. cursor_up w = Some w' \<and> vga_step w w'" "\<exists>w'. cursor_down w = Some w' \<and> vga_step w w'" "\<exists>w'. cursor_forward w = Some w' \<and> vga_step w w'"
    "\<exists>w'. cursor_back w = Some w' \<and> vga_step w w'" "\<exists>w'. cursor_position w = Some w' \<and> vga_step w w'"
proof -
  from param_some [OF assms, of 0 1] param_some [OF assms, of 1 1] obtain n m where p: "param 0 1 w = Some n" "n < 65536" "param 1 1 w = Some m"
    by (auto simp: MAX_PARAMS_def)
  have b: "w_row w + n < 2 ^ 32" "w_col w + n < 2 ^ 32" using p(2) assms by (simp_all add: vga_ok_def ROW_CNT_def COL_CNT_def)
  show "\<exists>w'. cursor_up w = Some w' \<and> vga_step w w'" "\<exists>w'. cursor_back w = Some w' \<and> vga_step w w'"
    using p by (auto simp: cursor_up_def cursor_back_def vga_step_def vga_ok_def)
  show "\<exists>w'. cursor_down w = Some w' \<and> vga_step w w'" "\<exists>w'. cursor_forward w = Some w' \<and> vga_step w w'" "\<exists>w'. cursor_position w = Some w' \<and> vga_step w w'"
    using p b by (auto simp: cursor_down_def cursor_forward_def cursor_position_def add_usize_def vga_step_def vga_ok_def ROW_CNT_def COL_CNT_def)
qed

lemma erase_steps:
  assumes "vga_ok w"
  shows "\<exists>w'. erase_display w = Some w' \<and> vga_step w w'" "\<exists>w'. erase_line w = Some w' \<and> vga_step w w'"
proof -
  from param_some [OF assms, of 0 0] obtain p where p: "param 0 0 w = Some p" by (auto simp: MAX_PARAMS_def)
  have a: "add_usize (w_row w) 1 = Some (Suc (w_row w))" "add_usize (w_col w) 1 = Some (Suc (w_col w))"
    using assms by (simp_all add: vga_ok_def add_usize_def ROW_CNT_def COL_CNT_def)
  have el: "vga_step w (erase_line_from r x y w)" "w_row (erase_line_from r x y w) = w_row w" for r x y
    using erase_line_from_step erase_line_from_vmem [of r x y w] by auto
  have cr: "vga_step v (fold clear_row [x ..< y] v)" "w_row (fold clear_row [x ..< y] v) = w_row v" "w_col (fold clear_row [x ..< y] v) = w_col v"
    "vga_step v (clear_row x v)" for x y v
    using clear_rows [of x y v] clear_row_spec [of x v] by auto
  show "\<exists>w'. erase_line w = Some w' \<and> vga_step w w'" using p a el cr(4) by (simp add: erase_line_def)
  consider "p = 0" | "p = 1" | "p = 2 \<or> p = 3" | "3 < p" by linarith
  then show "\<exists>w'. erase_display w = Some w' \<and> vga_step w w'"
  proof cases
    case 1
    then show ?thesis using p a el vga_step_trans [OF el(1) cr(1)] by (simp add: erase_display_def)
  next
    case 2
    then show ?thesis using p a vga_step_trans [OF cr(1) erase_line_from_step] by (simp add: erase_display_def cr)
  next
    case 3
    let ?v = "fold clear_row [0 ..< ROW_CNT] w"
    have "vga_step ?v (?v \<lparr> w_row := 0, w_col := 0 \<rparr>)" by (simp add: vga_step_def vga_ok_def ROW_CNT_def)
    then have "vga_step w (?v \<lparr> w_row := 0, w_col := 0 \<rparr>)" by (rule vga_step_trans [OF cr(1)])
    moreover have "erase_display w = Some (?v \<lparr> w_row := 0, w_col := 0 \<rparr>)" using 3 p by (auto simp: erase_display_def)
    ultimately show ?thesis by blast
  next
    case 4
    then show ?thesis using p by (simp add: erase_display_def)
  qed
qed

lemma sgr_code_some: "\<exists>a'. sgr_code code d a = Some a'"
  by (auto simp: sgr_code_def idx_def ANSI_TO_VGA_def)

lemma sgr_step:
  assumes "vga_ok w"
  shows "\<exists>w'. sgr w = Some w' \<and> vga_step w w'"
proof -
  let ?f = "\<lambda>i w. do { code \<leftarrow> idx (w_params w) i; a \<leftarrow> sgr_code code (default_attr w) (w_attr w); Some (w \<lparr> w_attr := a \<rparr>) }"
  have p: "param_idx w < MAX_PARAMS" "length (w_params w) = MAX_PARAMS" using assms by (simp_all add: vga_ok_def)
  have "\<exists>w'. for_range 0 (Suc (param_idx w)) ?f w = Some w' \<and> vga_step w w' \<and> w_params w' = w_params w"
  proof (rule for_range_rule [where P = "\<lambda>_ v. vga_step w v \<and> w_params v = w_params w"])
    fix i v assume i: "i < 0 + Suc (param_idx w)" "vga_step w v \<and> w_params v = w_params w"
    from sgr_code_some [of "w_params w ! i" "default_attr v" "w_attr v"] obtain a where "sgr_code (w_params w ! i) (default_attr v) (w_attr v) = Some a" by blast
    then show "\<exists>v'. ?f i v = Some v' \<and> vga_step w v' \<and> w_params v' = w_params w"
      using i p by (auto simp: idx_def vga_step_def vga_ok_def)
  qed simp
  then show ?thesis using p by (auto simp: sgr_def add_usize_def idx_def MAX_PARAMS_def vga_step_def vga_ok_def)
qed

lemma csi_byte_step:
  assumes "vga_ok w"
  shows "\<exists>w'. csi_byte b w = Some w' \<and> vga_step w w'"
proof -
  let ?g = "if b = 0x41 then cursor_up w else if b = 0x42 then cursor_down w else if b = 0x43 then cursor_forward w else if b = 0x44 then cursor_back w
    else if b = 0x48 \<or> b = 0x66 then cursor_position w else if b = 0x4A then erase_display w else if b = 0x4B then erase_line w else if b = 0x6D then sgr w
    else if b = 0x73 then Some (save_cursor w) else if b = 0x75 then Some (restore_cursor w) else Some w"
  have "vga_step w (save_cursor w)" "vga_step w (restore_cursor w)" by (simp_all add: vga_step_def vga_ok_def save_cursor_def restore_cursor_def)
  then obtain w1 where w1: "?g = Some w1" "vga_step w w1"
    using cursor_steps [OF assms] erase_steps [OF assms] sgr_step [OF assms] by (cases ?g) (auto split: if_splits)
  have st: "vga_step v (v \<lparr> w_state := s \<rparr>)" for v s by (simp add: vga_step_def vga_ok_def)
  have dig: "vga_step w (w \<lparr> w_params := (w_params w)[param_idx w := sat_u16 x] \<rparr>)" for x
    using set_update_subset_insert [of "w_params w" "param_idx w" "sat_u16 x"] by (auto simp: vga_step_def vga_ok_def sat_u16_def dest!: subsetD)
  have nx: "param_idx w < MAX_PARAMS - 1 \<Longrightarrow> vga_step w (w \<lparr> param_idx := Suc (param_idx w) \<rparr>)" by (simp add: vga_step_def vga_ok_def MAX_PARAMS_def)
  have i: "param_idx w < length (w_params w)" using assms by (simp add: vga_ok_def)
  consider "b = 0x3F" | "b \<noteq> 0x3F" "0x30 \<le> b \<and> b \<le> 0x39" | "b = 0x3B" | "b \<noteq> 0x3F" "\<not> (0x30 \<le> b \<and> b \<le> 0x39)" "b \<noteq> 0x3B" by blast
  then show ?thesis
  proof cases
    case 4
    have "csi_byte b w = do { w \<leftarrow> ?g; Some (w \<lparr> w_state := Normal \<rparr>) }" unfolding csi_byte_def using 4 by (simp only: if_False simp_thms)
    then show ?thesis using w1 vga_step_trans [OF w1(2) st] by simp
  qed (use st dig nx i in \<open>auto simp: csi_byte_def idx_def upd_def\<close>)
qed

lemma normal_byte_step:
  assumes ok: "vga_ok w"
  shows "\<exists>w'. normal_byte b w = Some w' \<and> vga_step w w'"
proof -
  have wok: "w_col w \<le> COL_CNT" using ok by (simp add: vga_ok_def)
  from newline_spec [OF ok] obtain wn where n: "newline w = Some wn" "vga_step w wn" "w_col wn = 0" by blast
  show ?thesis
  proof (cases "b = 0x09")
    case tab: True
    let ?c = "(w_col w + 8) AND not_u32 7"
    have a: "add_usize (w_col w) 8 = Some (w_col w + 8)" using wok by (simp add: add_usize_def COL_CNT_def)
    show ?thesis
    proof (cases "COL_CNT \<le> ?c")
      case True
      have "newline (w \<lparr> w_col := ?c \<rparr>) = newline w" by (simp add: newline_def)
      then show ?thesis using tab a n True by (simp add: normal_byte_def)
    next
      case False
      then have "vga_step w (w \<lparr> w_col := ?c \<rparr>)" by (simp add: vga_step_def vga_ok_def)
      then show ?thesis using tab a False by (simp add: normal_byte_def)
    qed
  next
    case notab: False
    have st: "vga_step w (w \<lparr> w_state := Esc \<rparr>)" "vga_step w (w \<lparr> w_col := 0 \<rparr>)" "0 < w_col w \<Longrightarrow> vga_step w (w \<lparr> w_col := w_col w - 1 \<rparr>)"
      by (auto simp: vga_step_def vga_ok_def)
    have put: "\<exists>w'. do { let v = write_cell (w_row v) (w_col v) b (w_attr v) v; c \<leftarrow> add_usize (w_col v) 1; Some (v \<lparr> w_col := c \<rparr>) } = Some w' \<and> vga_step w w'"
      if v: "vga_step w v" "w_col v < COL_CNT" for v
    proof -
      let ?v = "write_cell (w_row v) (w_col v) b (w_attr v) v"
      have e: "w_col ?v = w_col v" by (subst write_cell_vmem) simp
      have "vga_step ?v (?v \<lparr> w_col := Suc (w_col v) \<rparr>)" using v(2) by (simp add: vga_step_def vga_ok_def)
      with vga_step_trans [OF v(1) vga_step_trans [OF write_cell_step]] v(2) e show ?thesis by (simp add: add_usize_def COL_CNT_def)
    qed
    have "\<exists>w'. do { w \<leftarrow> (if w_col w \<ge> COL_CNT then newline w else Some w); let w = write_cell (w_row w) (w_col w) b (w_attr w) w;
        c \<leftarrow> add_usize (w_col w) 1; Some (w \<lparr> w_col := c \<rparr>) } = Some w' \<and> vga_step w w'"
      using put [of w] put [OF n(2)] n(1,3) wok by (auto simp: COL_CNT_def)
    then show ?thesis using st n vga_step_trans [OF st(3) write_cell_step] notab by (auto simp: normal_byte_def Let_def)
  qed
qed

lemma write_byte_step:
  assumes "vga_ok w"
  shows "\<exists>w'. write_byte b w = Some w' \<and> vga_step w w'"
proof -
  have "vga_step w (esc_byte b w)" by (auto simp: vga_step_def vga_ok_def esc_byte_def MAX_PARAMS_def)
  then show ?thesis using normal_byte_step [OF assms] csi_byte_step [OF assms] by (auto simp: write_byte_def split: esc_state.split)
qed

lemma write_bytes_step: "vga_ok w \<Longrightarrow> \<exists>w'. write_bytes bs w = Some w' \<and> vga_step w w'"
proof (induction bs arbitrary: w)
  case (Cons b bs)
  from write_byte_step [OF Cons.prems] obtain w1 where w1: "write_byte b w = Some w1" "vga_step w w1" by blast
  with Cons.prems have "vga_ok w1" by (simp add: vga_step_def)
  from Cons.IH [OF this] w1 show ?case by (auto intro: vga_step_trans)
qed simp

lemma move_cursor_spec:
  assumes "vga_ok w"
  shows "\<exists>hi lo. move_cursor w = Some (w \<lparr> ports := ports w @ [(0x3D4, 0x0E), (0x3D5, hi), (0x3D4, 0x0F), (0x3D5, lo)] \<rparr>)
    \<and> unat hi * 256 + unat lo = w_row w * COL_CNT + w_col w"
proof -
  define q where "q = w_row w * COL_CNT + w_col w"
  have q: "q < 65536" using assms by (simp add: q_def vga_ok_def ROW_CNT_def COL_CNT_def)
  then have "mul_usize (w_row w) COL_CNT = Some (w_row w * COL_CNT)" "add_usize (w_row w * COL_CNT) (w_col w) = Some q"
    by (simp_all add: mul_usize_def add_usize_def q_def)
  moreover have "unat (of_nat (q div 256) :: byte) * 256 + unat (of_nat q :: byte) = q" using q by (simp add: unat_of_nat)
  ultimately show ?thesis using q
    by (intro exI [of _ "of_nat (q div 256)"] exI [of _ "of_nat q"]) (simp add: move_cursor_def flip: q_def)
qed

subsection \<open>Placing text\<close>

text \<open>The decimal digits of a number.\<close>

fun dec :: "nat \<Rightarrow> byte list" where
  "dec n = (if n < 10 then [0x30 + of_nat n] else dec (n div 10) @ [0x30 + of_nat (n mod 10)])"

declare dec.simps [simp del]

lemma write_bytes_append: "write_bytes (xs @ ys) w = do { w \<leftarrow> write_bytes xs w; write_bytes ys w }"
  by (induction xs arbitrary: w) (auto split: Option.bind_splits)

lemma digit_byte:
  assumes "d < 10"
  shows "0x30 \<le> (0x30 + of_nat d :: byte)" "(0x30 + of_nat d :: byte) \<le> 0x39" "unat ((0x30 + of_nat d :: byte) - 0x30) = d" "(0x30 + of_nat d :: byte) \<noteq> 0x3F"
proof -
  have u: "unat (0x30 + of_nat d :: byte) = 48 + d" using assms by (simp add: unat_word_ariths unat_of_nat)
  show "0x30 \<le> (0x30 + of_nat d :: byte)" "(0x30 + of_nat d :: byte) \<le> 0x39" unfolding word_le_nat_alt u using assms by simp_all
  show "(0x30 + of_nat d :: byte) \<noteq> 0x3F"
  proof
    assume "(0x30 + of_nat d :: byte) = 0x3F"
    then have "unat (0x30 + of_nat d :: byte) = 63" by simp
    with u assms show False by simp
  qed
  show "unat ((0x30 + of_nat d :: byte) - 0x30) = d" using assms by (simp add: unat_of_nat)
qed

lemma csi_digit:
  assumes "w_state w = Csi" and "param_idx w < MAX_PARAMS" "length (w_params w) = MAX_PARAMS" and "d < 10"
  shows "write_byte (0x30 + of_nat d) w = Some (w \<lparr> w_params := (w_params w)[param_idx w := sat_u16 (sat_u16 (w_params w ! param_idx w * 10) + d)] \<rparr>)"
  using assms digit_byte [OF assms(4)] by (simp add: write_byte_def csi_byte_def idx_def upd_def)

lemma csi_number:
  assumes w: "w_state w = Csi" "param_idx w < MAX_PARAMS" "length (w_params w) = MAX_PARAMS" "w_params w ! param_idx w = 0" and "n < 65536"
  shows "write_bytes (dec n) w = Some (w \<lparr> w_params := (w_params w)[param_idx w := n] \<rparr>)"
  using assms(5)
proof (induction n rule: dec.induct)
  case (1 n)
  show ?case
  proof (cases "n < 10")
    case True
    then show ?thesis using csi_digit [OF w(1-3) True] w(4) by (simp add: dec.simps [of n] sat_u16_def)
  next
    case False
    let ?w = "w \<lparr> w_params := (w_params w)[param_idx w := n div 10] \<rparr>"
    have v: "sat_u16 (sat_u16 (n div 10 * 10) + n mod 10) = n" using "1.prems" by (simp add: sat_u16_def)
    have "write_byte (0x30 + of_nat (n mod 10)) ?w = Some (w \<lparr> w_params := (w_params w)[param_idx w := n] \<rparr>)"
      using csi_digit [of ?w "n mod 10"] w v by simp
    then show ?thesis using 1 False by (subst dec.simps) (simp add: write_bytes_append)
  qed
qed

definition printable :: "byte \<Rightarrow> bool" where
  "printable b \<longleftrightarrow> b \<notin> {0x1B, 0x08, 0x0A, 0x0D, 0x09, 0x07}"

lemma print_text:
  assumes "w_state w = Normal" and "\<forall>b \<in> set s. printable b" and "w_row w < ROW_CNT" and "w_col w + length s \<le> COL_CNT"
  shows "\<exists>m. write_bytes s w = Some (w \<lparr> w_col := w_col w + length s, vmem := m \<rparr>)
    \<and> (\<forall>r c. c < COL_CNT \<longrightarrow> cell (w \<lparr> vmem := m \<rparr>) r c
        = (if r = w_row w \<and> w_col w \<le> c \<and> c < w_col w + length s then (s ! (c - w_col w), w_attr w) else cell w r c))"
  using assms
proof (induction s arbitrary: w)
  case Nil
  show ?case by (rule exI [of _ "vmem w"]) auto
next
  case (Cons b s)
  let ?w = "(write_cell (w_row w) (w_col w) b (w_attr w) w) \<lparr> w_col := Suc (w_col w) \<rparr>"
  have c: "w_col w < COL_CNT" using Cons.prems(4) by simp
  have e: "?w = w \<lparr> w_col := Suc (w_col w), vmem := vmem ?w \<rparr>" by (subst write_cell_vmem) simp
  have f: "w_state ?w = Normal" "w_row ?w = w_row w" "w_col ?w = Suc (w_col w)" "w_attr ?w = w_attr w"
    using Cons.prems(1) by simp_all
  have "write_byte b w = Some ?w"
    using Cons.prems(1,2) c by (simp add: write_byte_def normal_byte_def printable_def add_usize_def COL_CNT_def)
  moreover from Cons.IH [of ?w] Cons.prems f obtain m where
    m: "write_bytes s ?w = Some (?w \<lparr> w_col := Suc (w_col w) + length s, vmem := m \<rparr>)"
      "\<forall>r c. c < COL_CNT \<longrightarrow> cell (?w \<lparr> vmem := m \<rparr>) r c
        = (if r = w_row w \<and> Suc (w_col w) \<le> c \<and> c < Suc (w_col w) + length s then (s ! (c - Suc (w_col w)), w_attr w) else cell ?w r c)" by auto
  ultimately have "write_bytes (b # s) w = Some (?w \<lparr> w_col := Suc (w_col w) + length s, vmem := m \<rparr>)" by simp
  also have "?w \<lparr> w_col := Suc (w_col w) + length s, vmem := m \<rparr> = w \<lparr> w_col := w_col w + length (b # s), vmem := m \<rparr>" by (subst e) simp
  finally have r: "write_bytes (b # s) w = Some (w \<lparr> w_col := w_col w + length (b # s), vmem := m \<rparr>)" .
  have "cell (w \<lparr> vmem := m \<rparr>) r' c' = (if r' = w_row w \<and> w_col w \<le> c' \<and> c' < w_col w + length (b # s) then ((b # s) ! (c' - w_col w), w_attr w) else cell w r' c')"
    if "c' < COL_CNT" for r' c'
  proof -
    have "cell (w \<lparr> vmem := m \<rparr>) r' c' = cell (?w \<lparr> vmem := m \<rparr>) r' c'" by (simp add: cell_def)
    moreover have "cell ?w r' c' = (if r' = w_row w \<and> c' = w_col w then (b, w_attr w) else cell w r' c')"
      using cell_write_cell [OF Cons.prems(3) c that, of b "w_attr w" w r'] by (simp add: cell_def)
    ultimately show ?thesis using m(2) that by (auto simp: nth_Cons' Suc_le_eq)
  qed
  with r show ?case by blast
qed

section \<open>Properties\<close>

text \<open>C13: Type safety of the screen driver. From a well-formed writer, which the initial one is, every string of bytes, with any
  escape sequences complete or not, is written without a panic; the writer is well-formed again, no byte of memory outside of the
  screen changes, and the hardware cursor is set to the row and the column of the writer.\<close>

theorem vga_write_safe:
  assumes "vga_ok w"
  shows "\<exists>w' hi lo. write_str s w = Some w' \<and> vga_ok w' \<and> (\<forall>x. \<not> on_screen x \<longrightarrow> vmem w' x = vmem w x) \<and> vga_ok (WRITER m)
    \<and> (\<exists>ps. ports w' = ps @ [(0x3D4, 0x0E), (0x3D5, hi), (0x3D4, 0x0F), (0x3D5, lo)]) \<and> unat hi * 256 + unat lo = w_row w' * 80 + w_col w'"
proof -
  from write_bytes_step [OF assms, of s] obtain w1 where w1: "write_bytes s w = Some w1" "vga_step w w1" by blast
  with assms have ok: "vga_ok w1" by (simp add: vga_step_def)
  from move_cursor_spec [OF ok] obtain hi lo where
    "move_cursor w1 = Some (w1 \<lparr> ports := ports w1 @ [(0x3D4, 0x0E), (0x3D5, hi), (0x3D4, 0x0F), (0x3D5, lo)] \<rparr>)" "unat hi * 256 + unat lo = w_row w1 * COL_CNT + w_col w1" by blast
  moreover have "vga_ok (WRITER m)" by (simp add: vga_ok_def WRITER_def ROW_CNT_def COL_CNT_def MAX_PARAMS_def)
  ultimately show ?thesis using w1 ok by (auto simp: write_str_def vga_step_def vga_ok_def COL_CNT_def)
qed

theorem vga_write_safe_witness:
  "\<exists>w'. write_str [0x1B, 0x5B, 0x39, 0x39, 0x42, 0x0A, 0x41] (WRITER (\<lambda>_. 0)) = Some w' \<and> vga_ok w' \<and> vmem w' 0xC0000000 = 0"
proof -
  have "vga_ok (WRITER (\<lambda>_. 0))" by (simp add: vga_ok_def WRITER_def ROW_CNT_def COL_CNT_def MAX_PARAMS_def)
  from vga_write_safe [OF this, of "[0x1B, 0x5B, 0x39, 0x39, 0x42, 0x0A, 0x41]"] obtain w' where
    "write_str [0x1B, 0x5B, 0x39, 0x39, 0x42, 0x0A, 0x41] (WRITER (\<lambda>_. 0)) = Some w'" "vga_ok w'"
    "\<forall>x. \<not> on_screen x \<longrightarrow> vmem w' x = vmem (WRITER (\<lambda>_. 0)) x" by blast
  moreover have "\<not> on_screen 0xC0000000" by (simp add: on_screen_def VGA_BUFFER_def)
  ultimately show ?thesis by (auto simp: WRITER_def)
qed

text \<open>C38: Text is placed where the escape sequence says. \<open>ESC [ r ; c H\<close> with the decimal digits of a row and a column of the
  screen, followed by printable bytes that fit in the row, puts these bytes in this row from this column on, with the current
  attribute; every other cell of the screen stays as it is and the cursor ends behind the text.\<close>

theorem vga_places_text:
  assumes "vga_ok w" and "w_state w = Normal" and "1 \<le> r" and "r \<le> 25" and "1 \<le> c" and "c \<le> 80" and "c - 1 + length s \<le> 80" and "\<forall>b \<in> set s. printable b"
  shows "\<exists>w'. write_str ([0x1B, 0x5B] @ dec r @ [0x3B] @ dec c @ [0x48] @ s) w = Some w' \<and> w_row w' = r - 1 \<and> w_col w' = c - 1 + length s
    \<and> (\<forall>i < length s. cell w' (r - 1) (c - 1 + i) = (s ! i, w_attr w))
    \<and> (\<forall>y x. x < 80 \<and> \<not> (y = r - 1 \<and> c - 1 \<le> x \<and> x < c - 1 + length s) \<longrightarrow> cell w' y x = cell w y x)"
proof -
  let ?w1 = "w \<lparr> w_state := Csi, w_params := replicate MAX_PARAMS 0, param_idx := 0 \<rparr>"
  let ?w2 = "w \<lparr> w_state := Csi, w_params := (replicate MAX_PARAMS 0)[0 := r], param_idx := 0 \<rparr>"
  let ?w3 = "w \<lparr> w_state := Csi, w_params := (replicate MAX_PARAMS 0)[0 := r, 1 := c], param_idx := 1 \<rparr>"
  let ?w4 = "?w3 \<lparr> w_row := r - 1, w_col := c - 1, w_state := Normal \<rparr>"
  have 1: "write_bytes [0x1B, 0x5B] w = Some ?w1" using assms(2) by (simp add: write_byte_def normal_byte_def esc_byte_def)
  have 2: "write_bytes (dec r) ?w1 = Some ?w2" using csi_number [of ?w1 r] assms(4) by (simp add: MAX_PARAMS_def)
  have 3: "write_bytes [0x3B] ?w2 = Some (?w2 \<lparr> param_idx := 1 \<rparr>)" by (simp add: write_byte_def csi_byte_def MAX_PARAMS_def)
  have 4: "write_bytes (dec c) (?w2 \<lparr> param_idx := 1 \<rparr>) = Some ?w3" using csi_number [of "?w2 \<lparr> param_idx := 1 \<rparr>" c] assms(6) by (simp add: MAX_PARAMS_def)
  have 5: "write_bytes [0x48] ?w3 = Some ?w4"
    using assms(3-6) by (simp add: write_byte_def csi_byte_def cursor_position_def param_def idx_def MAX_PARAMS_def ROW_CNT_def COL_CNT_def)
  have "w_state ?w4 = Normal" "w_row ?w4 < ROW_CNT" "w_col ?w4 + length s \<le> COL_CNT" using assms(3,4,7) by (simp_all add: ROW_CNT_def COL_CNT_def)
  from print_text [OF this(1) assms(8) this(2,3)] obtain m where
    m: "write_bytes s ?w4 = Some (?w4 \<lparr> w_col := c - 1 + length s, vmem := m \<rparr>)"
      "\<forall>y x. x < COL_CNT \<longrightarrow> cell (?w4 \<lparr> vmem := m \<rparr>) y x = (if y = r - 1 \<and> c - 1 \<le> x \<and> x < c - 1 + length s then (s ! (x - (c - 1)), w_attr w) else cell ?w4 y x)"
    by (auto cong: if_cong)
  let ?w5 = "?w4 \<lparr> w_col := c - 1 + length s, vmem := m \<rparr>"
  have w: "write_bytes ([0x1B, 0x5B] @ dec r @ [0x3B] @ dec c @ [0x48] @ s) w = Some ?w5"
    unfolding write_bytes_append 1 bind.bind_lunit 2 3 4 5 m(1) ..
  have "vga_ok ?w5" using write_bytes_step [OF assms(1), of "[0x1B, 0x5B] @ dec r @ [0x3B] @ dec c @ [0x48] @ s"] w assms(1) by (auto simp: vga_step_def)
  from move_cursor_spec [OF this] obtain ps where "write_str ([0x1B, 0x5B] @ dec r @ [0x3B] @ dec c @ [0x48] @ s) w = Some (?w5 \<lparr> ports := ps \<rparr>)"
    unfolding write_str_def w by auto
  moreover have "cell (?w5 \<lparr> ports := ps \<rparr>) y x = cell (?w4 \<lparr> vmem := m \<rparr>) y x" "cell ?w4 y x = cell w y x" for y x by (simp_all add: cell_def)
  ultimately show ?thesis using m(2) assms(7) by (intro exI [of _ "?w5 \<lparr> ports := ps \<rparr>"]) (simp add: COL_CNT_def)
qed

theorem vga_places_text_witness:
  "\<exists>w'. write_str ([0x1B, 0x5B] @ dec 12 @ [0x3B] @ dec 40 @ [0x48] @ [0x48, 0x69]) (WRITER (\<lambda>_. 0)) = Some w'
    \<and> cell w' 11 39 = (0x48, 7) \<and> cell w' 11 40 = (0x69, 7) \<and> cell w' 0 0 = (0, 0) \<and> w_col w' = 41"
proof -
  have ok: "vga_ok (WRITER (\<lambda>_. 0))" "w_state (WRITER (\<lambda>_. 0)) = Normal" by (simp_all add: vga_ok_def WRITER_def ROW_CNT_def COL_CNT_def MAX_PARAMS_def)
  from vga_places_text [OF ok, of 12 40 "[0x48, 0x69]"] obtain w' where
    "write_str ([0x1B, 0x5B] @ dec 12 @ [0x3B] @ dec 40 @ [0x48] @ [0x48, 0x69]) (WRITER (\<lambda>_. 0)) = Some w'" "w_col w' = 41"
    and t: "\<forall>i < 2. cell w' 11 (39 + i) = ([0x48, 0x69] ! i, w_attr (WRITER (\<lambda>_. 0)))" "cell w' 0 0 = cell (WRITER (\<lambda>_. 0)) 0 0"
    by (auto simp: printable_def)
  then show ?thesis using t(1) [rule_format, of 0] t(1) [rule_format, of 1] by (auto simp: WRITER_def DEFAULT_ATTR_def cell_def)
qed

end
