(* ===== verification/Keyboard.thy ===== *)
theory Keyboard
  imports Input Idt
begin

section \<open>The keyboard: devices/keyboard.rs\<close>

text \<open>
  The driver turns scan codes into characters. The byte read from the data port is an argument of the handler. What the
  handler decides, \<open>key_event\<close>, is the new state of the modifiers and the characters for the console input; what it does with
  them, \<open>keyboard_interrupt\<close>, is a call of \<open>putc\<close> or one \<open>putc_raw\<close> for every byte of an escape sequence.
\<close>

unbundle bit_operations_syntax

record keyboard =
  LEFT_SHIFT :: bool
  RIGHT_SHIFT :: bool
  LEFT_CTRL :: bool
  RIGHT_CTRL :: bool
  CAPS_LOCK :: bool
  E0_PENDING :: bool

definition KEYBOARD :: keyboard where
  "KEYBOARD = \<lparr> LEFT_SHIFT = False, RIGHT_SHIFT = False, LEFT_CTRL = False, RIGHT_CTRL = False, CAPS_LOCK = False, E0_PENDING = False \<rparr>"

definition SCANCODE_MAP :: "(byte \<times> byte) list" where
  "SCANCODE_MAP = (replicate 128 (0, 0))[
       0x02 := (0x31, 0x21), 0x03 := (0x32, 0x40), 0x04 := (0x33, 0x23), 0x05 := (0x34, 0x24), 0x06 := (0x35, 0x25), 0x07 := (0x36, 0x5E),
       0x08 := (0x37, 0x26), 0x09 := (0x38, 0x2A), 0x0A := (0x39, 0x28), 0x0B := (0x30, 0x29), 0x0C := (0x2D, 0x5F), 0x0D := (0x3D, 0x2B),
       0x0E := (0x08, 0x08), 0x0F := (0x09, 0x09),
       0x10 := (0x71, 0x51), 0x11 := (0x77, 0x57), 0x12 := (0x65, 0x45), 0x13 := (0x72, 0x52), 0x14 := (0x74, 0x54), 0x15 := (0x79, 0x59),
       0x16 := (0x75, 0x55), 0x17 := (0x69, 0x49), 0x18 := (0x6F, 0x4F), 0x19 := (0x70, 0x50), 0x1A := (0x5B, 0x7B), 0x1B := (0x5D, 0x7D),
       0x1C := (0x0D, 0x0D),
       0x1E := (0x61, 0x41), 0x1F := (0x73, 0x53), 0x20 := (0x64, 0x44), 0x21 := (0x66, 0x46), 0x22 := (0x67, 0x47), 0x23 := (0x68, 0x48),
       0x24 := (0x6A, 0x4A), 0x25 := (0x6B, 0x4B), 0x26 := (0x6C, 0x4C), 0x27 := (0x3B, 0x3A), 0x28 := (0x27, 0x22), 0x29 := (0x60, 0x7E),
       0x2B := (0x5C, 0x7C), 0x2C := (0x7A, 0x5A), 0x2D := (0x78, 0x58), 0x2E := (0x63, 0x43), 0x2F := (0x76, 0x56), 0x30 := (0x62, 0x42),
       0x31 := (0x6E, 0x4E), 0x32 := (0x6D, 0x4D), 0x33 := (0x2C, 0x3C), 0x34 := (0x2E, 0x3E), 0x35 := (0x2F, 0x3F),
       0x39 := (0x20, 0x20), 0x01 := (0x1B, 0x1B)]"

definition SC_LEFT_SHIFT :: byte where "SC_LEFT_SHIFT = 0x2A"
definition SC_RIGHT_SHIFT :: byte where "SC_RIGHT_SHIFT = 0x36"
definition SC_LEFT_CTRL :: byte where "SC_LEFT_CTRL = 0x1D"
definition SC_CAPS_LOCK :: byte where "SC_CAPS_LOCK = 0x3A"

text \<open>The sequences of the extended keys: arrows, Home, End, Page Up, Page Down, Delete and Insert.\<close>

definition e0_sequence :: "byte \<Rightarrow> byte list" where
  "e0_sequence sc =
     (if sc = 0x48 then [0x1B, 0x5B, 0x41]
      else if sc = 0x50 then [0x1B, 0x5B, 0x42]
      else if sc = 0x4D then [0x1B, 0x5B, 0x43]
      else if sc = 0x4B then [0x1B, 0x5B, 0x44]
      else if sc = 0x47 then [0x1B, 0x5B, 0x48]
      else if sc = 0x4F then [0x1B, 0x5B, 0x46]
      else if sc = 0x49 then [0x1B, 0x5B, 0x35, 0x7E]
      else if sc = 0x51 then [0x1B, 0x5B, 0x36, 0x7E]
      else if sc = 0x53 then [0x1B, 0x5B, 0x33, 0x7E]
      else if sc = 0x52 then [0x1B, 0x5B, 0x32, 0x7E]
      else [])"

definition to_ascii_lowercase :: "byte \<Rightarrow> byte" where
  "to_ascii_lowercase b = (if 0x41 \<le> b \<and> b \<le> 0x5A then b OR 0x20 else b)"

datatype key_action = No_key | Key byte | Escape_keys "byte list"

definition key_event :: "byte \<Rightarrow> keyboard \<Rightarrow> (key_action \<times> keyboard) option" where
  "key_event code kb =
     (if code = 0xE0 then Some (No_key, kb \<lparr> E0_PENDING := True \<rparr>)
      else let is_release = (code AND 0x80 \<noteq> 0);
               scancode = code AND 0x7F;
               was_e0 = E0_PENDING kb;
               kb = kb \<lparr> E0_PENDING := False \<rparr>
           in if was_e0 \<and> scancode = SC_LEFT_CTRL then Some (No_key, kb \<lparr> RIGHT_CTRL := \<not> is_release \<rparr>)
              else if \<not> was_e0 \<and> scancode = SC_LEFT_SHIFT then Some (No_key, kb \<lparr> LEFT_SHIFT := \<not> is_release \<rparr>)
              else if \<not> was_e0 \<and> scancode = SC_RIGHT_SHIFT then Some (No_key, kb \<lparr> RIGHT_SHIFT := \<not> is_release \<rparr>)
              else if \<not> was_e0 \<and> scancode = SC_LEFT_CTRL then Some (No_key, kb \<lparr> LEFT_CTRL := \<not> is_release \<rparr>)
              else if \<not> was_e0 \<and> scancode = SC_CAPS_LOCK \<and> \<not> is_release then Some (No_key, kb \<lparr> CAPS_LOCK := \<not> CAPS_LOCK kb \<rparr>)
              else if is_release then Some (No_key, kb)
              else if was_e0 then Some (Escape_keys (e0_sequence scancode), kb)
              else if scancode < 128 then do {
                (unshifted, shifted) \<leftarrow> idx SCANCODE_MAP (unat scancode);
                if unshifted = 0 then Some (No_key, kb)
                else let shift = (LEFT_SHIFT kb \<or> RIGHT_SHIFT kb);
                         ctrl = (LEFT_CTRL kb \<or> RIGHT_CTRL kb);
                         base = to_ascii_lowercase unshifted
                     in if ctrl \<and> 0x61 \<le> base \<and> base \<le> 0x7A then Some (Key (base - 0x61 + 1), kb)
                        else let is_letter = (0x61 \<le> unshifted \<and> unshifted \<le> 0x7A);
                                 use_shifted = (if is_letter then shift \<noteq> CAPS_LOCK kb else shift)
                             in Some (Key (if use_shifted then shifted else unshifted), kb)
              }
              else Some (No_key, kb))"

primrec emit_escape :: "byte list \<Rightarrow> input \<Rightarrow> input option" where
  "emit_escape [] s = Some s"
| "emit_escape (b # bs) s = do { s \<leftarrow> putc_raw b s; emit_escape bs s }"

definition keyboard_interrupt :: "byte \<Rightarrow> 'z kern \<Rightarrow> input \<Rightarrow> keyboard \<Rightarrow> (echo list \<times> 'z kern \<times> input \<times> keyboard) option" where
  "keyboard_interrupt code k s kb = do {
     (act, kb) \<leftarrow> key_event code kb;
     case act of
       No_key \<Rightarrow> Some ([], k, s, kb)
     | Key c \<Rightarrow> do { (es, k, s) \<leftarrow> putc c k s; Some (es, k, s, kb) }
     | Escape_keys bs \<Rightarrow> do { s \<leftarrow> emit_escape bs s; Some ([], k, s, kb) }
   }"

definition keyboard_init :: "'k intr_func \<Rightarrow> byte \<Rightarrow> byte \<Rightarrow> 'k idt \<Rightarrow> ((nat \<times> byte) list \<times> 'k idt) option" where
  "keyboard_init h m0 m1 t = do {
     t \<leftarrow> register_ext 1 h (map of_nat [107, 101, 121, 98, 111, 97, 114, 100]) t;
     ps \<leftarrow> pic_unmask 1 m0 m1;
     Some (ps, t)
   }"

section \<open>What a key types\<close>

lemma SCANCODE_MAP_eq:
  "SCANCODE_MAP = [
    (0, 0), (0x1B, 0x1B), (0x31, 0x21), (0x32, 0x40), (0x33, 0x23), (0x34, 0x24), (0x35, 0x25), (0x36, 0x5E), (0x37, 0x26),
    (0x38, 0x2A), (0x39, 0x28), (0x30, 0x29), (0x2D, 0x5F), (0x3D, 0x2B), (0x08, 0x08), (0x09, 0x09), (0x71, 0x51),
    (0x77, 0x57), (0x65, 0x45), (0x72, 0x52), (0x74, 0x54), (0x79, 0x59), (0x75, 0x55), (0x69, 0x49), (0x6F, 0x4F),
    (0x70, 0x50), (0x5B, 0x7B), (0x5D, 0x7D), (0x0D, 0x0D), (0, 0), (0x61, 0x41), (0x73, 0x53), (0x64, 0x44), (0x66, 0x46),
    (0x67, 0x47), (0x68, 0x48), (0x6A, 0x4A), (0x6B, 0x4B), (0x6C, 0x4C), (0x3B, 0x3A), (0x27, 0x22), (0x60, 0x7E), (0, 0),
    (0x5C, 0x7C), (0x7A, 0x5A), (0x78, 0x58), (0x63, 0x43), (0x76, 0x56), (0x62, 0x42), (0x6E, 0x4E), (0x6D, 0x4D),
    (0x2C, 0x3C), (0x2E, 0x3E), (0x2F, 0x3F), (0, 0), (0, 0), (0, 0), (0x20, 0x20), (0, 0), (0, 0), (0, 0), (0, 0), (0, 0),
    (0, 0), (0, 0), (0, 0), (0, 0), (0, 0), (0, 0), (0, 0), (0, 0), (0, 0), (0, 0), (0, 0), (0, 0), (0, 0), (0, 0), (0, 0),
    (0, 0), (0, 0), (0, 0), (0, 0), (0, 0), (0, 0), (0, 0), (0, 0), (0, 0), (0, 0), (0, 0), (0, 0), (0, 0), (0, 0), (0, 0),
    (0, 0), (0, 0), (0, 0), (0, 0), (0, 0), (0, 0), (0, 0), (0, 0), (0, 0), (0, 0), (0, 0), (0, 0), (0, 0), (0, 0), (0, 0),
    (0, 0), (0, 0), (0, 0), (0, 0), (0, 0), (0, 0), (0, 0), (0, 0), (0, 0), (0, 0), (0, 0), (0, 0), (0, 0), (0, 0), (0, 0),
    (0, 0), (0, 0), (0, 0), (0, 0), (0, 0)]"
  by code_simp

primrec key_events :: "byte list \<Rightarrow> keyboard \<Rightarrow> (key_action list \<times> keyboard) option" where
  "key_events [] kb = Some ([], kb)"
| "key_events (c # cs) kb = do { (a, kb) \<leftarrow> key_event c kb; (as, kb) \<leftarrow> key_events cs kb; Some (a # as, kb) }"

text \<open>The scan codes of the presses and releases that type a character on a keyboard at rest, with the left shift key where
  it is needed.\<close>

definition scancode_of :: "(byte \<times> byte \<Rightarrow> byte) \<Rightarrow> byte \<Rightarrow> nat option" where
  "scancode_of f c = List.find (\<lambda>i. f (SCANCODE_MAP ! i) = c) [0 ..< 128]"

definition type_codes :: "byte \<Rightarrow> byte list" where
  "type_codes c = (case scancode_of fst c of
       Some i \<Rightarrow> [of_nat i, of_nat i + 0x80]
     | None \<Rightarrow> (case scancode_of snd c of
           Some i \<Rightarrow> [0x2A, of_nat i, of_nat i + 0x80, 0xAA]
         | None \<Rightarrow> []))"

lemma map_entries:
  "length SCANCODE_MAP = 128" "\<forall>e \<in> set SCANCODE_MAP. fst e = 0 \<longleftrightarrow> snd e = 0"
  "SCANCODE_MAP ! 0x2A = (0, 0)" "SCANCODE_MAP ! 0x36 = (0, 0)" "SCANCODE_MAP ! 0x1D = (0, 0)" "SCANCODE_MAP ! 0x3A = (0, 0)" "SCANCODE_MAP ! 0x60 = (0, 0)"
  by (simp_all add: SCANCODE_MAP_eq)

lemma scancode_of_Some:
  "scancode_of f c = Some i \<Longrightarrow> i < 128 \<and> f (SCANCODE_MAP ! i) = c"
  by (auto simp: scancode_of_def find_Some_iff)

lemma code_word:
  assumes "i < 128"
  shows "(of_nat i :: byte) AND 0x7F = of_nat i" "(of_nat i :: byte) AND 0x80 = 0" "((of_nat i :: byte) + 0x80) AND 0x7F = of_nat i" "((of_nat i :: byte) + 0x80) AND 0x80 \<noteq> 0"
    "unat (of_nat i :: byte) = i" "(of_nat i :: byte) \<noteq> 0xE0" "(of_nat i :: byte) < 128"
proof -
  have all: "list_all (\<lambda>i. (of_nat i :: byte) AND 0x7F = of_nat i \<and> (of_nat i :: byte) AND 0x80 = 0 \<and> ((of_nat i :: byte) + 0x80) AND 0x7F = of_nat i
    \<and> ((of_nat i :: byte) + 0x80) AND 0x80 \<noteq> 0) [0 ..< 128]" by code_simp
  have "i \<in> set [0 ..< 128]" using assms by simp
  from all [unfolded list_all_iff, rule_format, OF this] show "(of_nat i :: byte) AND 0x7F = of_nat i" "(of_nat i :: byte) AND 0x80 = 0"
    "((of_nat i :: byte) + 0x80) AND 0x7F = of_nat i" "((of_nat i :: byte) + 0x80) AND 0x80 \<noteq> 0" by blast+
  show u: "unat (of_nat i :: byte) = i" using assms by (simp add: unat_of_nat)
  show "(of_nat i :: byte) < 128" unfolding word_less_nat_alt u using assms by simp
  then show "(of_nat i :: byte) \<noteq> 0xE0" by auto
qed

lemma code_inj: "i < 128 \<Longrightarrow> (of_nat i :: byte) = of_nat j \<Longrightarrow> j < 128 \<Longrightarrow> i = j"
  using code_word(5) by metis

lemma press:
  assumes i: "i < 128" "fst (SCANCODE_MAP ! i) \<noteq> 0"
  shows "key_event (of_nat i) KEYBOARD = Some (Key (fst (SCANCODE_MAP ! i)), KEYBOARD)"
    "key_event (of_nat i) (KEYBOARD \<lparr> LEFT_SHIFT := True \<rparr>) = Some (Key (snd (SCANCODE_MAP ! i)), KEYBOARD \<lparr> LEFT_SHIFT := True \<rparr>)"
    "\<not> E0_PENDING kb \<Longrightarrow> key_event (of_nat i + 0x80) kb = Some (No_key, kb)"
proof -
  have n: "i \<noteq> 0x2A" "i \<noteq> 0x36" "i \<noteq> 0x1D" "i \<noteq> 0x3A" "i \<noteq> 0x60" using i(2) map_entries(3-7) by auto
  have sc: "(of_nat i :: byte) \<noteq> SC_LEFT_SHIFT" "(of_nat i :: byte) \<noteq> SC_RIGHT_SHIFT" "(of_nat i :: byte) \<noteq> SC_LEFT_CTRL" "(of_nat i :: byte) \<noteq> SC_CAPS_LOCK"
    using n code_inj [OF i(1), of "0x2A"] code_inj [OF i(1), of "0x36"] code_inj [OF i(1), of "0x1D"] code_inj [OF i(1), of "0x3A"]
    by (auto simp: SC_LEFT_SHIFT_def SC_RIGHT_SHIFT_def SC_LEFT_CTRL_def SC_CAPS_LOCK_def)
  show "key_event (of_nat i) KEYBOARD = Some (Key (fst (SCANCODE_MAP ! i)), KEYBOARD)"
    "key_event (of_nat i) (KEYBOARD \<lparr> LEFT_SHIFT := True \<rparr>) = Some (Key (snd (SCANCODE_MAP ! i)), KEYBOARD \<lparr> LEFT_SHIFT := True \<rparr>)"
    using code_word [OF i(1)] sc i map_entries(1)
    by (simp_all add: key_event_def KEYBOARD_def idx_def split_beta Let_def)
  show "key_event (of_nat i + 0x80) kb = Some (No_key, kb)" if "\<not> E0_PENDING kb"
    using code_word [OF i(1)] sc that n(5) code_inj [OF i(1), of "0x60"] by (auto simp: key_event_def)
qed

text \<open>Every printable character and the Enter key is in the table, and none of its codes with the release bit is the prefix \<open>0xE0\<close>.\<close>

lemma printable_in_map: "list_all (\<lambda>n. n \<in> set (map unat (map fst SCANCODE_MAP @ map snd SCANCODE_MAP))) (13 # [32 ..< 127])"
  unfolding SCANCODE_MAP_eq by simp

definition typeable :: "byte \<Rightarrow> bool" where
  "typeable c \<longleftrightarrow> c = 13 \<or> 0x20 \<le> c \<and> c \<le> 0x7E"

lemma typeable_codes:
  assumes "typeable c"
  shows "\<exists>as. key_events (type_codes c) KEYBOARD = Some (as, KEYBOARD) \<and> filter (\<lambda>a. a \<noteq> No_key) as = [Key c]"
proof -
  have c: "c \<noteq> 0" using assms by (auto simp: typeable_def)
  have "unat c = 13 \<or> 32 \<le> unat c \<and> unat c < 127" using assms by (auto simp: typeable_def word_le_nat_alt)
  then have "unat c \<in> set (13 # [32 ..< 127])" unfolding list.set set_upt by auto
  with printable_in_map have "unat c \<in> set (map unat (map fst SCANCODE_MAP @ map snd SCANCODE_MAP))" unfolding list_all_iff by blast
  then obtain x where x: "x \<in> set (map fst SCANCODE_MAP @ map snd SCANCODE_MAP)" "unat c = unat x" unfolding set_map [of unat] by (rule imageE)
  then have "c = x" by (simp add: word_unat_eq_iff)
  with x(1) have mem: "c \<in> set (map fst SCANCODE_MAP) \<union> set (map snd SCANCODE_MAP)" unfolding set_append by blast
  have shift: "key_event 0x2A KEYBOARD = Some (No_key, KEYBOARD \<lparr> LEFT_SHIFT := True \<rparr>)" "key_event 0xAA (KEYBOARD \<lparr> LEFT_SHIFT := True \<rparr>) = Some (No_key, KEYBOARD)"
    by (simp_all add: key_event_def KEYBOARD_def SC_LEFT_SHIFT_def SC_LEFT_CTRL_def)
  have e0: "\<not> E0_PENDING KEYBOARD" "\<not> E0_PENDING (KEYBOARD \<lparr> LEFT_SHIFT := True \<rparr>)" by (simp_all add: KEYBOARD_def)
  show ?thesis
  proof (cases "scancode_of fst c")
    case (Some i)
    note si = scancode_of_Some [OF Some]
    with c have i: "i < 128" "fst (SCANCODE_MAP ! i) \<noteq> 0" by auto
    show ?thesis using Some press(1) [OF i] press(3) [OF i e0(1)] si by (simp add: type_codes_def)
  next
    case None
    then have "c \<notin> set (map fst SCANCODE_MAP)" using map_entries(1) by (fastforce simp: scancode_of_def find_None_iff in_set_conv_nth)
    with mem have "\<exists>i < 128. snd (SCANCODE_MAP ! i) = c" using map_entries(1) by (fastforce simp: in_set_conv_nth)
    then obtain i where s: "scancode_of snd c = Some i" by (cases "scancode_of snd c") (auto simp: scancode_of_def find_None_iff)
    note si = scancode_of_Some [OF s]
    then have "SCANCODE_MAP ! i \<in> set SCANCODE_MAP" using map_entries(1) by simp
    with si c have i: "i < 128" "fst (SCANCODE_MAP ! i) \<noteq> 0" using map_entries(2) by auto
    show ?thesis using None s press(2) [OF i] press(3) [OF i e0(2)] si shift by (simp add: type_codes_def)
  qed
qed

subsection \<open>A line of text\<close>

primrec keyboard_run :: "byte list \<Rightarrow> 'z kern \<Rightarrow> input \<Rightarrow> keyboard \<Rightarrow> ('z kern \<times> input \<times> keyboard) option" where
  "keyboard_run [] k s kb = Some (k, s, kb)"
| "keyboard_run (c # cs) k s kb = do { (_, k, s, kb) \<leftarrow> keyboard_interrupt c k s kb; keyboard_run cs k s kb }"

lemma keyboard_run_append: "keyboard_run (xs @ ys) k s kb = do { (k, s, kb) \<leftarrow> keyboard_run xs k s kb; keyboard_run ys k s kb }"
  by (induction xs arbitrary: k s kb) (auto split: Option.bind_splits)

lemma keyboard_run_quiet:
  "key_events codes kb = Some (as, kb') \<Longrightarrow> filter (\<lambda>a. a \<noteq> No_key) as = [] \<Longrightarrow> keyboard_run codes k s kb = Some (k, s, kb')"
  by (induction codes arbitrary: kb as) (auto simp: keyboard_interrupt_def split: Option.bind_splits if_splits)

lemma keyboard_run_char:
  "key_events codes kb = Some (as, kb') \<Longrightarrow> filter (\<lambda>a. a \<noteq> No_key) as = [Key c] \<Longrightarrow> putc c k s = Some (es, k, s') \<Longrightarrow> keyboard_run codes k s kb = Some (k, s', kb')"
proof (induction codes arbitrary: kb as)
  case (Cons x codes)
  then obtain a kb1 as1 where a: "key_event x kb = Some (a, kb1)" "key_events codes kb1 = Some (as1, kb')" "as = a # as1" by (auto split: Option.bind_splits)
  show ?case
  proof (cases "a = No_key")
    case True
    then show ?thesis using Cons.IH [OF a(2) _ Cons.prems(3)] Cons.prems(2) a by (simp add: keyboard_interrupt_def)
  next
    case False
    then have "a = Key c" "filter (\<lambda>a. a \<noteq> No_key) as1 = []" using Cons.prems(2) a(3) by auto
    then show ?thesis using keyboard_run_quiet [OF a(2)] Cons.prems(3) a(1) by (simp add: keyboard_interrupt_def)
  qed
qed simp

text \<open>Printable characters append to the line, Enter commits it.\<close>

lemma type_char:
  assumes "input_ok s" and "\<not> in_raw s" and "typeable c"
  shows "\<exists>s'. keyboard_run (type_codes c) k s KEYBOARD = Some (k, s', KEYBOARD) \<and> input_ok s' \<and> \<not> in_raw s'
    \<and> (committed s', editing s') = edit c (committed s, editing s)"
proof -
  have c: "c \<notin> {CTRL_C, CTRL_BACKSLASH, CTRL_Z, CTRL_U, BACKSPACE, DEL}"
    using assms(3) by (auto simp: typeable_def CTRL_C_def CTRL_BACKSLASH_def CTRL_Z_def CTRL_U_def BACKSPACE_def DEL_def)
  from typeable_codes [OF assms(3)] obtain as where as: "key_events (type_codes c) KEYBOARD = Some (as, KEYBOARD)" "filter (\<lambda>a. a \<noteq> No_key) as = [Key c]" by blast
  from putc_append [OF assms(1,2) c, of k] obtain es s' where s': "putc c k s = Some (es, k, s')" "input_ok s'" "(committed s', editing s') = edit c (committed s, editing s)" by blast
  moreover have "\<not> in_raw s'" using s'(1) assms(2) c by (auto simp: putc_def Let_def split: if_splits Option.bind_splits)
  ultimately show ?thesis using keyboard_run_char [OF as s'(1)] by blast
qed

lemma type_text:
  assumes "input_ok s" and "\<not> in_raw s" and "\<forall>c \<in> set line. 0x20 \<le> c \<and> c \<le> 0x7E" and "length (committed s) + length (editing s) + length line < BUF_SIZE"
  shows "\<exists>s'. keyboard_run (concat (map type_codes line)) k s KEYBOARD = Some (k, s', KEYBOARD) \<and> input_ok s' \<and> \<not> in_raw s'
    \<and> committed s' = committed s \<and> editing s' = editing s @ line"
  using assms
proof (induction line arbitrary: s)
  case (Cons c line)
  then have c: "typeable c" "c \<notin> {CTRL_C, CTRL_BACKSLASH, CTRL_Z, CTRL_U, BACKSPACE, DEL}" "c \<noteq> 0" "c \<noteq> 13" "c \<noteq> 10" "c \<noteq> CTRL_D"
    by (auto simp: typeable_def CTRL_C_def CTRL_BACKSLASH_def CTRL_Z_def CTRL_U_def BACKSPACE_def DEL_def CTRL_D_def)
  from type_char [OF Cons.prems(1,2) c(1), of k] obtain s1 where
    s1: "keyboard_run (type_codes c) k s KEYBOARD = Some (k, s1, KEYBOARD)" "input_ok s1" "\<not> in_raw s1" "(committed s1, editing s1) = edit c (committed s, editing s)" by blast
  have "committed s1 = committed s" "editing s1 = editing s @ [c]" using s1(4) c Cons.prems(4) by (auto simp: edit_append)
  with Cons.IH [OF s1(2,3)] Cons.prems(3,4) s1(1) show ?case by (auto simp: keyboard_run_append)
qed simp

section \<open>Properties\<close>

text \<open>C14: What is typed is what is read. From a keyboard at rest and with the console in line mode, pressing and releasing the keys
  of any printable ASCII text that fits in the buffer, with shift where the character needs it, and then Enter, commits the line
  being edited followed by exactly this text and a newline to the readers; the keyboard is at rest again, and no signal is sent.\<close>

theorem typed_line_read:
  assumes "input_ok s" and "\<not> in_raw s" and "\<forall>c \<in> set line. 0x20 \<le> c \<and> c \<le> 0x7E" and "length (committed s) + length (editing s) + length line < BUF_SIZE"
  shows "\<exists>s'. keyboard_run (concat (map type_codes (line @ [13]))) k s KEYBOARD = Some (k, s', KEYBOARD) \<and> input_ok s'
    \<and> committed s' = committed s @ editing s @ line @ [10] \<and> editing s' = []"
proof -
  from type_text [OF assms, of k] obtain s1 where
    s1: "keyboard_run (concat (map type_codes line)) k s KEYBOARD = Some (k, s1, KEYBOARD)" "input_ok s1" "\<not> in_raw s1" "committed s1 = committed s" "editing s1 = editing s @ line" by blast
  from type_char [OF s1(2,3), of 13 k] obtain s2 where
    s2: "keyboard_run (type_codes 13) k s1 KEYBOARD = Some (k, s2, KEYBOARD)" "input_ok s2" "(committed s2, editing s2) = edit 13 (committed s1, editing s1)"
    by (auto simp: typeable_def)
  have "edit 13 (committed s1, editing s1) = (committed s @ editing s @ line @ [10], [])"
    using assms(4) s1(4,5) by (simp add: edit_append CTRL_C_def CTRL_BACKSLASH_def CTRL_Z_def CTRL_U_def BACKSPACE_def DEL_def)
  then show ?thesis using s1(1) s2 by (auto simp: keyboard_run_append)
qed

theorem typed_line_read_witness:
  "\<exists>s'. keyboard_run (concat (map type_codes [0x48, 0x69, 13])) sample_kernel INPUT KEYBOARD = Some (sample_kernel, s', KEYBOARD) \<and> committed s' = [0x48, 0x69, 10]"
proof -
  have "input_ok INPUT" "\<not> in_raw INPUT" "committed INPUT = []" "editing INPUT = []"
    by (simp_all add: INPUT_def input_ok_def BUF_SIZE_def committed_def editing_def)
  with typed_line_read [of INPUT "[0x48, 0x69]" sample_kernel] show ?thesis by (auto simp: BUF_SIZE_def)
qed

text \<open>The keyboard cannot send Ctrl-backslash. Whatever the state of the modifiers and the scan code, the handler passes to
  \<open>putc\<close> a character of the table or one of the control characters 1 to 26; the byte 0x1C, with which the console input
  signals \<open>SIGQUIT\<close>, is none of them.\<close>

theorem no_ctrl_backslash:
  assumes "key_event code kb = Some (Key c, kb')"
  shows "(1 \<le> c \<and> c \<le> 26 \<or> c \<in> set (map fst SCANCODE_MAP) \<union> set (map snd SCANCODE_MAP)) \<and> c \<noteq> CTRL_BACKSLASH"
proof -
  have t: "0x1C \<notin> set (map fst SCANCODE_MAP) \<union> set (map snd SCANCODE_MAP)" by (simp add: SCANCODE_MAP_eq)
  have ctrl: "1 \<le> b - 0x61 + 1 \<and> b - 0x61 + 1 \<le> 26" if "0x61 \<le> b" "b \<le> 0x7A" for b :: byte
  proof -
    have "0x61 \<le> unat b" "unat b \<le> 0x7A" using that by (simp_all add: word_le_nat_alt)
    moreover have "b - 0x61 + 1 = b - 0x60" by simp
    moreover have "unat (b - 0x60) = unat b - 0x60" using unat_sub [of "0x60" b] \<open>0x61 \<le> unat b\<close> by (simp add: word_le_nat_alt)
    ultimately show ?thesis unfolding word_le_nat_alt by auto
  qed
  have "\<exists>e \<in> set SCANCODE_MAP. c = fst e \<or> c = snd e \<or> (let b = to_ascii_lowercase (fst e) in 0x61 \<le> b \<and> b \<le> 0x7A \<and> c = b - 0x61 + 1)"
  proof -
    from assms obtain e where e: "idx SCANCODE_MAP (unat (code AND 0x7F)) = Some e"
      and "c = fst e \<or> c = snd e \<or> (let b = to_ascii_lowercase (fst e) in 0x61 \<le> b \<and> b \<le> 0x7A \<and> c = b - 0x61 + 1)"
      by (cases "idx SCANCODE_MAP (unat (code AND 0x7F))") (auto simp: key_event_def Let_def split_beta split: if_splits)
    moreover from e have "e \<in> set SCANCODE_MAP" by (auto simp: idx_def split: if_splits)
    ultimately show ?thesis by blast
  qed
  then obtain e where e: "e \<in> set SCANCODE_MAP" and "c = fst e \<or> c = snd e \<or> (\<exists>b. 0x61 \<le> b \<and> b \<le> 0x7A \<and> c = b - 0x61 + 1)" by (auto simp: Let_def)
  then consider "c = fst e \<or> c = snd e" | b where "0x61 \<le> b" "b \<le> 0x7A" "c = b - 0x61 + 1" by blast
  then show ?thesis
  proof cases
    case 1
    with e t show ?thesis by (auto simp: CTRL_BACKSLASH_def)
  next
    case 2
    then have "c \<le> 26" "1 \<le> c" using ctrl [OF 2(1,2)] by simp_all
    moreover have "\<not> (CTRL_BACKSLASH \<le> 26)" by (simp add: CTRL_BACKSLASH_def)
    ultimately show ?thesis by auto
  qed
qed

theorem no_ctrl_backslash_witness:
  "key_event 0x2E (KEYBOARD \<lparr> LEFT_CTRL := True \<rparr>) = Some (Key 3, KEYBOARD \<lparr> LEFT_CTRL := True \<rparr>) \<and> (3 :: byte) \<noteq> CTRL_BACKSLASH"
proof -
  have "key_event 0x2E (KEYBOARD \<lparr> LEFT_CTRL := True \<rparr>) = Some (Key 3, KEYBOARD \<lparr> LEFT_CTRL := True \<rparr>)"
    by (simp add: key_event_def KEYBOARD_def SC_LEFT_SHIFT_def SC_RIGHT_SHIFT_def SC_LEFT_CTRL_def SC_CAPS_LOCK_def idx_def SCANCODE_MAP_eq to_ascii_lowercase_def Let_def)
  with no_ctrl_backslash [OF this] show ?thesis by blast
qed

end
