(* ===== verification/UserAlloc.thy ===== *)
theory UserAlloc
  imports Malloc
begin

section \<open>The heap of user programs: user/rxv6-user/src/lib.rs\<close>

text \<open>
  The global allocator of the user library: a free list in address order, threaded through the free memory, that grows by
  \<open>sbrk\<close> and joins neighbouring blocks. \<open>umem\<close> is the memory of the program by 32-bit words, as in the kernel heap, whose
  relation \<open>chain\<close> between links and lists is used here too. User programs are built in release mode, so the arithmetic wraps.
  The system call is an argument \<open>sb\<close>; what the allocator relies on is the interface \<open>break_call\<close>.
\<close>

unbundle bit_operations_syntax

record uheap =
  umem :: "nat \<Rightarrow> nat"
  uhead :: nat

definition HEADER_SIZE :: nat where
  "HEADER_SIZE = 8"

definition MIN_BLOCK :: nat where
  "MIN_BLOCK = HEADER_SIZE + 8"

definition wrap :: "nat \<Rightarrow> nat" where
  "wrap n = n mod 2 ^ 32"

subsection \<open>The free list\<close>

text \<open>The loop that finds the place of an address.\<close>

partial_function (option) insert_pos :: "(nat \<Rightarrow> nat) \<Rightarrow> nat \<Rightarrow> nat \<Rightarrow> nat \<Rightarrow> (nat \<times> nat) option" where
  "insert_pos m a prev cur =
     (if cur \<noteq> 0 \<and> cur < a then insert_pos m a cur (m (cur + 4)) else Some (prev, cur))"

definition free_list_insert :: "nat \<Rightarrow> uheap \<Rightarrow> uheap option" where
  "free_list_insert block h = do {
     let block_end = wrap (block + umem h block);
     (prev, cur) \<leftarrow> insert_pos (umem h) block 0 (uhead h);
     let m = umem h;
     let m = (if cur \<noteq> 0 \<and> block_end = cur
              then m(block := wrap (m block + m cur), block + 4 := m (cur + 4))
              else m(block + 4 := cur));
     Some (if prev \<noteq> 0
           then let prev_end = wrap (prev + m prev)
                in h \<lparr> umem := (if prev_end = block then m(prev := wrap (m prev + m block), prev + 4 := m (block + 4)) else m(prev + 4 := block)) \<rparr>
           else h \<lparr> umem := m, uhead := block \<rparr>)
   }"

subsection \<open>Allocation\<close>

definition total_size :: "layout \<Rightarrow> nat" where
  "total_size l =
     (let align = max (lay_align l) HEADER_SIZE;
          tot = max (wrap (HEADER_SIZE + align - 1 + lay_size l)) MIN_BLOCK
      in wrap (tot + HEADER_SIZE - 1) AND (2 ^ 32 - 1 - (HEADER_SIZE - 1)))"

text \<open>The search for a block; the null pointer if there is none.\<close>

partial_function (option) first_fit_loop :: "nat \<Rightarrow> uheap \<Rightarrow> nat \<Rightarrow> nat \<Rightarrow> (nat \<times> uheap) option" where
  "first_fit_loop tot h prev cur =
     (if cur = 0 then Some (0, h)
      else let m = umem h
           in if m cur \<ge> tot
              then let remainder = m cur - tot
                   in if remainder \<ge> MIN_BLOCK
                      then let new_block = cur + remainder
                           in Some (new_block + HEADER_SIZE, h \<lparr> umem := m(cur := remainder, new_block := tot, new_block + 4 := 0) \<rparr>)
                      else Some (cur + HEADER_SIZE,
                             if prev = 0 then h \<lparr> uhead := m (cur + 4), umem := m(cur + 4 := 0) \<rparr>
                             else h \<lparr> umem := m(prev + 4 := m (cur + 4), cur + 4 := 0) \<rparr>)
              else first_fit_loop tot h cur (m (cur + 4)))"

text \<open>The block of \<open>grow\<close> bytes at the old break; what is not needed of it goes to the free list.\<close>

definition grown_block :: "nat \<Rightarrow> nat \<Rightarrow> nat \<Rightarrow> uheap \<Rightarrow> uheap option" where
  "grown_block tot grow block h = do {
     let h = h \<lparr> umem := (umem h)(block := grow, block + 4 := 0) \<rparr>;
     if grow > tot \<and> grow - tot \<ge> MIN_BLOCK
     then do {
       let r = block + tot;
       h \<leftarrow> free_list_insert r (h \<lparr> umem := (umem h)(r := grow - tot, r + 4 := 0) \<rparr>);
       Some (h \<lparr> umem := (umem h)(block := tot) \<rparr>)
     }
     else Some h
   }"

definition user_alloc :: "(int \<Rightarrow> 'k \<Rightarrow> (int \<times> 'k) option) \<Rightarrow> layout \<Rightarrow> uheap \<Rightarrow> 'k \<Rightarrow> (nat \<times> uheap \<times> 'k) option" where
  "user_alloc sb l h k = do {
     let tot = total_size l;
     (p, h) \<leftarrow> first_fit_loop tot h 0 (uhead h);
     if p \<noteq> 0 then Some (p, h, k)
     else do {
       let grow = max tot 4096;
       (base, k) \<leftarrow> sb (as_i32 (int grow)) k;
       if base < 0 then Some (0, h, k)
       else do {
         let block = as_u32 base;
         h \<leftarrow> grown_block tot grow block h;
         Some (block + HEADER_SIZE, h, k)
       }
     }
   }"

definition user_dealloc :: "nat \<Rightarrow> uheap \<Rightarrow> uheap option" where
  "user_dealloc ptr h = (if ptr = 0 then Some h else free_list_insert (wrap (ptr + 2 ^ 32 - HEADER_SIZE)) h)"

subsection \<open>The interface of the break\<close>

text \<open>Growing by a positive number of bytes either fails and changes nothing, or moves the break up and returns the old one.\<close>

locale break_call =
  fixes sb :: "int \<Rightarrow> 'k \<Rightarrow> (int \<times> 'k) option"
    and brk_of :: "'k \<Rightarrow> nat"
  assumes grow: "0 < n \<Longrightarrow> n < 2 ^ 31 \<Longrightarrow> sb n k = Some (r, k') \<Longrightarrow>
      r = - 1 \<and> brk_of k' = brk_of k
      \<or> r = as_i32 (int (brk_of k)) \<and> brk_of k' = brk_of k + nat n \<and> brk_of k' < 3 * 2 ^ 30 \<and> 0 < brk_of k"

section \<open>The blocks of the heap\<close>

text \<open>
  A heap on the bytes \<open>U\<close>: the blocks \<open>F\<close> of the free list in address order with a gap behind each of them, and the
  blocks \<open>L\<close> handed out, which have their sizes in their headers. Every byte is in exactly one block.
\<close>

definition ublock_ok :: "nat \<times> nat \<Rightarrow> bool" where
  "ublock_ok b \<longleftrightarrow> 8 dvd fst b \<and> 8 dvd snd b \<and> 0 < fst b \<and> MIN_BLOCK \<le> snd b \<and> fst b + snd b < 2 ^ 32"

definition gaps :: "(nat \<times> nat) list \<Rightarrow> bool" where
  "gaps F \<longleftrightarrow> sorted_wrt (\<lambda>b c. fst b + snd b < fst c) F"

definition bytes :: "(nat \<times> nat) set \<Rightarrow> nat set" where
  "bytes B = (\<Union>b \<in> B. {fst b ..< fst b + snd b})"

definition uheap_ok :: "nat set \<Rightarrow> (nat \<times> nat) set \<Rightarrow> (nat \<times> nat) list \<Rightarrow> uheap \<Rightarrow> bool" where
  "uheap_ok U L F h \<longleftrightarrow> chain (umem h) (uhead h) F \<and> gaps F \<and> (\<forall>b \<in> L. umem h (fst b) = snd b)
     \<and> (\<forall>b \<in> L \<union> set F. ublock_ok b) \<and> (\<forall>b \<in> L. \<forall>c \<in> L. b \<noteq> c \<longrightarrow> apart b c) \<and> (\<forall>b \<in> L. \<forall>c \<in> set F. apart b c)
     \<and> bytes (L \<union> set F) = U"

subsection \<open>Paths through the links\<close>

primrec path :: "(nat \<Rightarrow> nat) \<Rightarrow> nat \<Rightarrow> (nat \<times> nat) list \<Rightarrow> nat \<Rightarrow> bool" where
  "path m p [] q \<longleftrightarrow> p = q"
| "path m p (b # bs) q \<longleftrightarrow> p = fst b \<and> fst b \<noteq> 0 \<and> m (fst b) = snd b \<and> path m (m (fst b + 4)) bs q"

lemma chain_append: "chain m p (xs @ ys) \<longleftrightarrow> (\<exists>q. path m p xs q \<and> chain m q ys)"
  by (induction xs arbitrary: p) auto

lemma path_snoc: "path m p (xs @ [b]) q \<longleftrightarrow> path m p xs (fst b) \<and> fst b \<noteq> 0 \<and> m (fst b) = snd b \<and> m (fst b + 4) = q"
  by (induction xs arbitrary: p) auto

definition same_header :: "(nat \<Rightarrow> nat) \<Rightarrow> (nat \<Rightarrow> nat) \<Rightarrow> nat \<times> nat \<Rightarrow> bool" where
  "same_header m m' b \<longleftrightarrow> m' (fst b) = m (fst b) \<and> m' (fst b + 4) = m (fst b + 4)"

lemma path_frame: "path m p xs q \<Longrightarrow> (\<And>b. b \<in> set xs \<Longrightarrow> same_header m m' b) \<Longrightarrow> path m' p xs q"
  by (induction xs arbitrary: p) (auto simp: same_header_def)

lemma chain_same: "chain m p xs \<Longrightarrow> (\<And>b. b \<in> set xs \<Longrightarrow> same_header m m' b) \<Longrightarrow> chain m' p xs"
  by (rule chain_frame) (auto simp: same_header_def)

text \<open>Headers of blocks that do not overlap are different words.\<close>

lemma ublock_keys:
  assumes "apart b c" and "ublock_ok b" and "ublock_ok c"
  shows "fst b \<noteq> fst c" "fst b + 4 \<noteq> fst c" "fst b \<noteq> fst c + 4"
  using assms by (auto simp: apart_def ublock_ok_def MIN_BLOCK_def HEADER_SIZE_def)

lemma gaps_append: "gaps (xs @ ys) \<longleftrightarrow> gaps xs \<and> gaps ys \<and> (\<forall>b \<in> set xs. \<forall>c \<in> set ys. fst b + snd b < fst c)"
  by (simp add: gaps_def sorted_wrt_append)

lemma gaps_Cons: "gaps (b # ys) \<longleftrightarrow> gaps ys \<and> (\<forall>c \<in> set ys. fst b + snd b < fst c)"
  by (auto simp: gaps_def)

lemma gaps_apart: "gaps F \<Longrightarrow> b \<in> set F \<Longrightarrow> c \<in> set F \<Longrightarrow> b \<noteq> c \<Longrightarrow> apart b c"
  by (induction F) (auto simp: gaps_Cons apart_def)

subsection \<open>Inserting a block\<close>

definition head_of :: "(nat \<times> nat) list \<Rightarrow> nat" where
  "head_of F = (case F of [] \<Rightarrow> 0 | b # _ \<Rightarrow> fst b)"

lemma chain_head: "chain m p F \<Longrightarrow> p = head_of F"
  by (cases F) (auto simp: head_of_def)

definition last_of :: "nat \<Rightarrow> (nat \<times> nat) list \<Rightarrow> nat" where
  "last_of d F = (if F = [] then d else fst (List.last F))"

lemma insert_pos_spec:
  "chain m cur (pre @ post) \<Longrightarrow> (\<And>b. b \<in> set pre \<Longrightarrow> fst b < a) \<Longrightarrow> (\<And>b. b \<in> set post \<Longrightarrow> a \<le> fst b)
     \<Longrightarrow> insert_pos m a prev cur = Some (last_of prev pre, head_of post)"
proof (induction pre arbitrary: prev cur)
  case Nil
  have "cur = head_of post" using chain_head Nil.prems(1) by simp
  moreover have "\<not> (head_of post \<noteq> 0 \<and> head_of post < a)" using Nil.prems(3) by (cases post) (force simp: head_of_def)+
  ultimately show ?case by (subst insert_pos.simps) (auto simp: last_of_def)
next
  case (Cons b pre)
  then have "insert_pos m a (fst b) (m (fst b + 4)) = Some (last_of (fst b) pre, head_of post)" by simp
  then show ?case using Cons.prems by (subst insert_pos.simps) (auto simp: last_of_def)
qed

text \<open>Joining a block with its right neighbour, and with its left one.\<close>

definition join_right :: "nat \<times> nat \<Rightarrow> (nat \<times> nat) list \<Rightarrow> (nat \<times> nat) list" where
  "join_right b post = (case post of
       [] \<Rightarrow> [b]
     | c # r \<Rightarrow> if fst b + snd b = fst c then (fst b, snd b + snd c) # r else b # post)"

definition join_left :: "(nat \<times> nat) list \<Rightarrow> (nat \<times> nat) list \<Rightarrow> (nat \<times> nat) list" where
  "join_left pre bs = (if pre \<noteq> [] \<and> fst (List.last pre) + snd (List.last pre) = fst (hd bs)
     then butlast pre @ (fst (List.last pre), snd (List.last pre) + snd (hd bs)) # tl bs else pre @ bs)"

lemma join_right_spec:
  assumes m: "m (fst b) = snd b" "chain m (head_of post) post" and ok: "ublock_ok b" "\<And>c. c \<in> set post \<Longrightarrow> ublock_ok c \<and> fst b + snd b \<le> fst c" "gaps post"
  defines "m1 \<equiv> (if head_of post \<noteq> 0 \<and> wrap (fst b + m (fst b)) = head_of post
      then m(fst b := wrap (m (fst b) + m (head_of post)), fst b + 4 := m (head_of post + 4)) else m(fst b + 4 := head_of post))"
  shows "chain m1 (fst b) (join_right b post)" "\<And>x. x \<noteq> fst b \<Longrightarrow> x \<noteq> fst b + 4 \<Longrightarrow> m1 x = m x"
    "gaps (join_right b post)" "\<forall>c \<in> set (join_right b post). ublock_ok c" "bytes (set (join_right b post)) = bytes (insert b (set post))" "fst (hd (join_right b post)) = fst b"
proof -
  show frame: "\<And>x. x \<noteq> fst b \<Longrightarrow> x \<noteq> fst b + 4 \<Longrightarrow> m1 x = m x" by (simp add: m1_def)
  show "fst (hd (join_right b post)) = fst b" by (simp add: join_right_def split: list.split)
  have nz: "fst b \<noteq> 0" "wrap (fst b + snd b) = fst b + snd b" using ok(1) by (simp_all add: ublock_ok_def wrap_def)
  have same: "same_header m m1 c" if "c \<in> set post" for c
  proof -
    have "apart b c" using ok(2) [OF that] by (simp add: apart_def)
    from ublock_keys [OF this ok(1)] ok(2) [OF that] show ?thesis by (auto simp: same_header_def intro!: frame)
  qed
  have big: "fst b + snd b < fst d" if "d \<in> set r" "post = c # r" for c d r
    using that ok(2) [of c] ok(3) by (auto simp: gaps_Cons)
  consider (none) "post = []" | (join) c r where "post = c # r" "fst b + snd b = fst c" | (apart) c r where "post = c # r" "fst b + snd b < fst c"
    using ok(2) by (cases post) force+
  then have "chain m1 (fst b) (join_right b post) \<and> gaps (join_right b post) \<and> (\<forall>c \<in> set (join_right b post). ublock_ok c) \<and> bytes (set (join_right b post)) = bytes (insert b (set post))"
  proof cases
    case none
    then show ?thesis using nz m ok(1) by (simp add: join_right_def m1_def head_of_def gaps_def)
  next
    case (join c r)
    have c: "fst c \<noteq> 0" "m (fst c) = snd c" "ublock_ok c" "chain m (m (fst c + 4)) r" using m(2) ok(2) [of c] join by (auto simp: head_of_def)
    have "m1 = m(fst b := snd b + snd c, fst b + 4 := m (fst c + 4))"
      using join c nz m(1) ok(1) by (simp add: m1_def head_of_def wrap_def ublock_ok_def)
    moreover have "chain m1 (m (fst c + 4)) r" by (rule chain_same [OF c(4)]) (use same join in simp)
    moreover have "ublock_ok (fst b, snd b + snd c)" using ok(1) c(3) join(2) by (simp add: ublock_ok_def)
    moreover have "gaps ((fst b, snd b + snd c) # r)" using ok(3) join by (auto simp: gaps_Cons)
    moreover have "bytes (insert (fst b, snd b + snd c) (set r)) = bytes (insert b (insert c (set r)))" using join(2) by (auto simp: bytes_def)
    ultimately show ?thesis using join nz ok(2) by (simp add: join_right_def)
  next
    case (apart c r)
    then have "m1 = m(fst b + 4 := fst c)" "head_of post = fst c" using nz m(1) by (simp_all add: m1_def head_of_def)
    moreover have "chain m1 (head_of post) post" by (rule chain_same [OF m(2) same])
    ultimately show ?thesis using apart nz m(1) ok big [OF _ apart(1)] by (auto simp: join_right_def gaps_Cons)
  qed
  then show "chain m1 (fst b) (join_right b post)" "gaps (join_right b post)" "\<forall>c \<in> set (join_right b post). ublock_ok c"
    "bytes (set (join_right b post)) = bytes (insert b (set post))" by blast+
qed

definition headers :: "(nat \<times> nat) set \<Rightarrow> nat set" where
  "headers B = (\<Union>b \<in> B. {fst b, fst b + 4})"

lemma join_left_spec:
  assumes p: "path m p (pre @ [c]) q" and b: "chain m1 (fst b) (b # post)" and fr: "\<And>d. d \<in> set (pre @ [c]) \<Longrightarrow> same_header m m1 d"
    and ok: "gaps (b # post)" "ublock_ok b" "\<And>d. d \<in> set (pre @ [c]) \<Longrightarrow> ublock_ok d \<and> fst d + snd d \<le> fst b" "gaps (pre @ [c])"
      "\<And>d. d \<in> set post \<Longrightarrow> ublock_ok d"
  defines "m2 \<equiv> (if wrap (fst c + m1 (fst c)) = fst b then m1(fst c := wrap (m1 (fst c) + m1 (fst b)), fst c + 4 := m1 (fst b + 4)) else m1(fst c + 4 := fst b))"
  shows "chain m2 p (join_left (pre @ [c]) (b # post))" "gaps (join_left (pre @ [c]) (b # post))" "\<forall>d \<in> set (join_left (pre @ [c]) (b # post)). ublock_ok d"
    "bytes (set (join_left (pre @ [c]) (b # post))) = bytes (set (pre @ [c]) \<union> set (b # post))"
    "\<And>x. x \<noteq> fst c \<Longrightarrow> x \<noteq> fst c + 4 \<Longrightarrow> m2 x = m1 x"
proof -
  show frame: "\<And>x. x \<noteq> fst c \<Longrightarrow> x \<noteq> fst c + 4 \<Longrightarrow> m2 x = m1 x" by (simp add: m2_def)
  have c: "ublock_ok c" "fst c + snd c \<le> fst b" using ok(3) by auto
  have p1: "path m1 p pre (fst c)" "m1 (fst c) = snd c" "fst c \<noteq> 0"
    using p fr [of c] path_frame [of m p pre "fst c" m1] fr by (auto simp: path_snoc same_header_def)
  have same: "same_header m1 m2 d" if "apart c d" "ublock_ok d" for d
    using ublock_keys [OF that(1) c(1) that(2)] by (auto simp: same_header_def intro!: frame)
  have pre_c: "fst d + snd d < fst c" if "d \<in> set pre" for d using ok(4) that by (auto simp: gaps_append)
  have b_post: "fst b + snd b < fst d" if "d \<in> set post" for d using ok(1) that by (auto simp: gaps_Cons)
  have "apart c d" "ublock_ok d" if "d \<in> set pre" for d using pre_c [OF that] ok(3) [of d] that by (simp_all add: apart_def)
  then have p2: "path m2 p pre (fst c)" by (intro path_frame [OF p1(1)] same)
  have w: "wrap (fst c + snd c) = fst c + snd c" using c(1) by (simp add: wrap_def ublock_ok_def)
  have bq: "m1 (fst b) = snd b" "chain m1 (m1 (fst b + 4)) post" using b by auto
  have po: "same_header m1 m2 d" if "d \<in> set (b # post)" for d
  proof (rule same)
    have "fst b \<le> fst d" using that b_post [of d] by (cases "d = b") auto
    then show "apart c d" using c(2) by (simp add: apart_def)
    show "ublock_ok d" using that ok(2) ok(5) [of d] by auto
  qed
  have gp: "gaps pre" "gaps post" using ok(1,4) by (auto simp: gaps_append gaps_Cons)
  have "chain m2 p (join_left (pre @ [c]) (b # post)) \<and> gaps (join_left (pre @ [c]) (b # post)) \<and> (\<forall>d \<in> set (join_left (pre @ [c]) (b # post)). ublock_ok d)
    \<and> bytes (set (join_left (pre @ [c]) (b # post))) = bytes (set (pre @ [c]) \<union> set (b # post))"
  proof (cases "fst c + snd c = fst b")
    case True
    have j: "join_left (pre @ [c]) (b # post) = pre @ (fst c, snd c + snd b) # post" using True by (simp add: join_left_def)
    have "m2 = m1(fst c := snd c + snd b, fst c + 4 := m1 (fst b + 4))"
      using True w p1(2) bq(1) ok(2) by (simp add: m2_def wrap_def ublock_ok_def)
    moreover have "chain m2 (m1 (fst b + 4)) post" by (rule chain_same [OF bq(2)]) (use po in simp)
    ultimately have "chain m2 p (pre @ (fst c, snd c + snd b) # post)" using p2 p1(3) by (auto simp: chain_append)
    moreover have "ublock_ok (fst c, snd c + snd b)" using c(1) ok(2) True by (simp add: ublock_ok_def)
    moreover have "fst c + (snd c + snd b) < fst d" if "d \<in> set post" for d using b_post [OF that] True by simp
    then have "gaps (pre @ (fst c, snd c + snd b) # post)" using gp pre_c ok(2) by (force simp: gaps_append gaps_Cons)
    moreover have "bytes (set (pre @ (fst c, snd c + snd b) # post)) = bytes (set (pre @ [c]) \<union> set (b # post))" using True by (auto simp: bytes_def)
    ultimately show ?thesis unfolding j using ok(3,5) by auto
  next
    case False
    have j: "join_left (pre @ [c]) (b # post) = (pre @ [c]) @ b # post" using False by (simp add: join_left_def)
    have m2: "m2 = m1(fst c + 4 := fst b)" using False w p1(2) by (simp add: m2_def)
    have "path m2 p (pre @ [c]) (fst b)" using p2 p1 by (simp add: path_snoc m2)
    moreover have "chain m2 (fst b) (b # post)" by (rule chain_same [OF b po])
    ultimately have "chain m2 p ((pre @ [c]) @ b # post)" unfolding chain_append by blast
    moreover have "gaps ((pre @ [c]) @ b # post)" using ok(1,4) False c(2) pre_c b_post ok(2) by (force simp: gaps_append gaps_Cons)
    ultimately show ?thesis unfolding j using ok(2,3,5) by (auto simp: insert_commute)
  qed
  then show "chain m2 p (join_left (pre @ [c]) (b # post))" "gaps (join_left (pre @ [c]) (b # post))" "\<forall>d \<in> set (join_left (pre @ [c]) (b # post)). ublock_ok d"
    "bytes (set (join_left (pre @ [c]) (b # post))) = bytes (set (pre @ [c]) \<union> set (b # post))" by blast+
qed

text \<open>The block joins the free list, and only headers are written.\<close>

lemma free_list_insert_spec:
  assumes ch: "chain (umem h) (uhead h) F" and F: "gaps F" "\<And>c. c \<in> set F \<Longrightarrow> ublock_ok c" and b: "ublock_ok b" "umem h (fst b) = snd b" "\<And>c. c \<in> set F \<Longrightarrow> apart b c"
  shows "\<exists>h' F'. free_list_insert (fst b) h = Some h' \<and> chain (umem h') (uhead h') F' \<and> gaps F' \<and> (\<forall>c \<in> set F'. ublock_ok c)
    \<and> bytes (set F') = bytes (insert b (set F)) \<and> (\<forall>x. x \<notin> headers (insert b (set F)) \<longrightarrow> umem h' x = umem h x)"
proof -
  define pre where "pre = takeWhile (\<lambda>c. fst c < fst b) F"
  define post where "post = dropWhile (\<lambda>c. fst c < fst b) F"
  have Fe: "F = pre @ post" by (simp add: pre_def post_def)
  let ?m = "umem h"
  have size: "0 < snd c" if "c \<in> set F" for c using F(2) [OF that] by (simp add: ublock_ok_def MIN_BLOCK_def)
  have pre: "fst c < fst b" "fst c + snd c \<le> fst b" if "c \<in> set pre" for c
  proof -
    show lt: "fst c < fst b" using that by (auto simp: pre_def dest: set_takeWhileD)
    show "fst c + snd c \<le> fst b" using b(3) [of c] lt that by (auto simp: Fe apart_def)
  qed
  have gp: "gaps pre" "gaps post" using F(1) by (simp_all add: Fe gaps_append)
  have post: "fst b \<le> fst c" "fst b + snd b \<le> fst c" if c: "c \<in> set post" for c
  proof -
    from c obtain d r where d: "post = d # r" by (cases post) auto
    then have "\<not> fst d < fst b" using hd_dropWhile [of "\<lambda>c. fst c < fst b" F] by (simp add: post_def)
    moreover have "fst d \<le> fst c" using c gp(2) d by (auto simp: gaps_Cons)
    ultimately show le: "fst b \<le> fst c" by simp
    show "fst b + snd b \<le> fst c" using b(3) [of c] size [of c] le c by (auto simp: Fe apart_def)
  qed
  have pos: "insert_pos ?m (fst b) 0 (uhead h) = Some (last_of 0 pre, head_of post)"
    using insert_pos_spec [of ?m "uhead h" pre post "fst b" 0] ch pre(1) post(1) by (auto simp: Fe)
  from ch obtain q where q: "path ?m (uhead h) pre q" "chain ?m q post" by (auto simp: Fe chain_append)
  have qh: "q = head_of post" using chain_head [OF q(2)] .
  have okc: "ublock_ok c" if "c \<in> set pre \<union> set post" for c using F(2) [of c] that by (auto simp: Fe)
  define m1 where "m1 = (if head_of post \<noteq> 0 \<and> wrap (fst b + ?m (fst b)) = head_of post
      then ?m(fst b := wrap (?m (fst b) + ?m (head_of post)), fst b + 4 := ?m (head_of post + 4)) else ?m(fst b + 4 := head_of post))"
  have po: "ublock_ok c \<and> fst b + snd b \<le> fst c" if "c \<in> set post" for c using okc post(2) that by blast
  note jr' = join_right_spec [of ?m b post, OF b(2) q(2) [unfolded qh] b(1) po gp(2), folded m1_def]
  obtain b' post' where bp: "join_right b post = b' # post'" "fst b' = fst b" by (cases "join_right b post") (auto simp: join_right_def split: list.splits if_splits)
  show ?thesis
  proof (cases pre rule: rev_cases)
    case Nil
    have "free_list_insert (fst b) h = Some (h \<lparr> umem := m1, uhead := fst b \<rparr>)"
      using pos Nil by (simp add: free_list_insert_def last_of_def m1_def Let_def)
    moreover have "\<forall>x. x \<notin> headers (insert b (set F)) \<longrightarrow> m1 x = ?m x" using jr'(2) by (auto simp: headers_def)
    ultimately show ?thesis using jr' Nil by (intro exI [of _ "h \<lparr> umem := m1, uhead := fst b \<rparr>"] exI [of _ "join_right b post"]) (simp add: Fe)
  next
    case (snoc pre0 c)
    let ?m2 = "if wrap (fst c + m1 (fst c)) = fst b then m1(fst c := wrap (m1 (fst c) + m1 (fst b)), fst c + 4 := m1 (fst b + 4)) else m1(fst c + 4 := fst b)"
    have sameh: "same_header ?m m1 d" if "d \<in> set (pre0 @ [c])" for d
    proof -
      have "apart b d" using pre(2) [of d] that by (simp add: snoc apart_def)
      from ublock_keys [OF this b(1) okc] that show ?thesis by (auto simp: same_header_def snoc intro!: jr'(2))
    qed
    have ne: "fst c \<noteq> 0" using okc [of c] by (simp add: snoc ublock_ok_def)
    have "free_list_insert (fst b) h = Some (h \<lparr> umem := ?m2 \<rparr>)"
      using pos snoc ne by (simp add: free_list_insert_def last_of_def m1_def Let_def)
    moreover have b': "m1 (fst b) = snd b'" using jr'(1) bp by simp
    have "chain ?m2 (uhead h) (join_left pre (b' # post')) \<and> gaps (join_left pre (b' # post')) \<and> (\<forall>d \<in> set (join_left pre (b' # post')). ublock_ok d)
      \<and> bytes (set (join_left pre (b' # post'))) = bytes (set pre \<union> set (b' # post'))"
    proof -
      have 1: "chain m1 (fst b') (b' # post')" "gaps (b' # post')" "ublock_ok b'" using jr'(1,3,4) bp by simp_all
      have 2: "ublock_ok d \<and> fst d + snd d \<le> fst b'" if "d \<in> set (pre0 @ [c])" for d using okc [of d] pre(2) [of d] that bp(2) by (auto simp: snoc)
      have 3: "ublock_ok d" if "d \<in> set post'" for d using jr'(4) bp(1) that by simp
      show ?thesis using join_left_spec [OF q(1) [unfolded snoc] 1(1) sameh 1(2,3) 2 gp(1) [unfolded snoc] 3, unfolded bp(2)] unfolding snoc by blast
    qed
    moreover have "bytes (set pre \<union> set (b' # post')) = bytes (insert b (set F))"
      using jr'(5) unfolding bp(1) by (auto simp: bytes_def Fe)
    moreover have "\<forall>x. x \<notin> headers (insert b (set F)) \<longrightarrow> ?m2 x = ?m x" using jr'(2) by (auto simp: headers_def Fe snoc)
    ultimately show ?thesis by (intro exI [of _ "h \<lparr> umem := ?m2 \<rparr>"] exI [of _ "join_left pre (b' # post')"]) simp
  qed
qed

subsection \<open>Taking a block\<close>

text \<open>A block taken from the free list: \<open>b\<close> is cut out of the blocks \<open>F\<close>, \<open>F'\<close> are left.\<close>

definition taken :: "(nat \<times> nat) list \<Rightarrow> uheap \<Rightarrow> nat \<times> nat \<Rightarrow> (nat \<times> nat) list \<Rightarrow> uheap \<Rightarrow> bool" where
  "taken F h b F' h' \<longleftrightarrow> chain (umem h') (uhead h') F' \<and> gaps F' \<and> (\<forall>c \<in> set F'. ublock_ok c \<and> apart b c) \<and> ublock_ok b \<and> umem h' (fst b) = snd b
     \<and> bytes (insert b (set F')) = bytes (set F) \<and> (\<forall>x. x \<notin> headers (insert b (set F)) \<longrightarrow> umem h' x = umem h x)"

lemma take_split:
  assumes ch: "chain (umem h) (uhead h) (pre @ (a, s) # r)" and g: "gaps (pre @ (a, s) # r)" and ok: "\<And>c. c \<in> set (pre @ (a, s) # r) \<Longrightarrow> ublock_ok c"
    and t: "8 dvd tot" "MIN_BLOCK \<le> tot" "tot \<le> s" "MIN_BLOCK \<le> s - tot"
  shows "taken (pre @ (a, s) # r) h (a + (s - tot), tot) (pre @ (a, s - tot) # r)
    (h \<lparr> umem := (umem h)(a := s - tot, a + (s - tot) := tot, a + (s - tot) + 4 := 0) \<rparr>)"
proof -
  let ?b = "(a + (s - tot), tot)" and ?m = "umem h" and ?m' = "(umem h)(a := s - tot, a + (s - tot) := tot, a + (s - tot) + 4 := 0)"
  have as: "ublock_ok (a, s)" using ok by simp
  have ob: "ublock_ok ?b" "ublock_ok (a, s - tot)" using as t by (auto simp: ublock_ok_def intro: dvd_diff_nat)
  have ends: "fst c + snd c < a" if "c \<in> set pre" for c using g that by (auto simp: gaps_append gaps_Cons)
  have starts: "a + s < fst c" if "c \<in> set r" for c using g that by (auto simp: gaps_append gaps_Cons)
  have ap: "apart ?b c" "apart (a, s - tot) c" if "c \<in> set pre \<union> set r" for c
    using that ends [of c] starts [of c] t(3) by (auto simp: apart_def)
  have sh: "same_header ?m ?m' c" if "c \<in> set pre \<union> set r" for c
  proof -
    have oc: "ublock_ok c" using that ok [of c] by auto
    show ?thesis using ublock_keys [OF ap(1) [OF that] ob(1) oc] ublock_keys [OF ap(2) [OF that] ob(2) oc] by (auto simp: same_header_def)
  qed
  have d: "4 < s - tot" using t(4) by (simp add: MIN_BLOCK_def HEADER_SIZE_def)
  from ch obtain q where q: "path ?m (uhead h) pre q" "chain ?m q ((a, s) # r)" unfolding chain_append by blast
  have "path ?m' (uhead h) pre q" by (rule path_frame [OF q(1)]) (use sh in blast)
  moreover have "chain ?m (?m (a + 4)) r" "q = a" "a \<noteq> 0" using q(2) by auto
  moreover have "chain ?m' (?m (a + 4)) r" by (rule chain_same [OF \<open>chain ?m (?m (a + 4)) r\<close>]) (use sh in blast)
  ultimately have "chain ?m' (uhead h) (pre @ (a, s - tot) # r)" using d unfolding chain_append by auto
  moreover have "gaps (pre @ (a, s - tot) # r)" using g by (auto simp: gaps_append gaps_Cons)
  moreover have "ublock_ok c \<and> apart ?b c" if "c \<in> set (pre @ (a, s - tot) # r)" for c
    using that ok [of c] ob(2) ap(1) [of c] by (cases "c = (a, s - tot)") (auto simp: apart_def)
  moreover have "bytes (insert ?b (set (pre @ (a, s - tot) # r))) = bytes (set (pre @ (a, s) # r))" using t(3) by (auto simp: bytes_def)
  moreover have "\<forall>x. x \<notin> headers (insert ?b (set (pre @ (a, s) # r))) \<longrightarrow> ?m' x = ?m x" by (auto simp: headers_def)
  ultimately show ?thesis using ob(1) by (simp add: taken_def)
qed

lemma take_all:
  assumes ch: "chain (umem h) (uhead h) (pre @ (a, s) # r)" and g: "gaps (pre @ (a, s) # r)" and ok: "\<And>c. c \<in> set (pre @ (a, s) # r) \<Longrightarrow> ublock_ok c"
  shows "taken (pre @ (a, s) # r) h (a, s) (pre @ r)
    (if last_of 0 pre = 0 then h \<lparr> uhead := umem h (a + 4), umem := (umem h)(a + 4 := 0) \<rparr>
     else h \<lparr> umem := (umem h)(last_of 0 pre + 4 := umem h (a + 4), a + 4 := 0) \<rparr>)"
proof -
  let ?m = "umem h"
  have as: "ublock_ok (a, s)" using ok by simp
  have ends: "fst c + snd c < a" if "c \<in> set pre" for c using g that by (auto simp: gaps_append gaps_Cons)
  have starts: "a + s < fst c" if "c \<in> set r" for c using g that by (auto simp: gaps_append gaps_Cons)
  have ap: "apart (a, s) c" if "c \<in> set (pre @ r)" for c using that ends [of c] starts [of c] by (auto simp: apart_def)
  have gr: "gaps (pre @ r)" using g by (auto simp: gaps_append gaps_Cons)
  have rest: "ublock_ok c \<and> apart (a, s) c" if "c \<in> set (pre @ r)" for c using that ap ok by auto
  from ch obtain q where q: "path ?m (uhead h) pre q" "chain ?m q ((a, s) # r)" unfolding chain_append by blast
  have q': "q = a" "a \<noteq> 0" "?m a = s" "chain ?m (?m (a + 4)) r" using q(2) by auto
  have byt: "bytes (insert (a, s) (set (pre @ r))) = bytes (set (pre @ (a, s) # r))" by (simp add: insert_commute)
  show ?thesis
  proof (cases pre rule: rev_cases)
    case Nil
    have "chain (?m(a + 4 := 0)) (?m (a + 4)) r"
      by (rule chain_same [OF q'(4)]) (use ublock_keys [OF _ as] rest Nil in \<open>fastforce simp: same_header_def\<close>)
    then show ?thesis using Nil gr rest q' as byt by (simp add: taken_def last_of_def headers_def)
  next
    case (snoc pre0 c)
    have c: "fst c \<noteq> 0" "ublock_ok c" "apart c (a, s)" using rest [of c] snoc by (auto simp: ublock_ok_def apart_sym)
    have ce: "fst c + snd c < fst d" if "d \<in> set r" for d using gr that snoc by (auto simp: gaps_append gaps_Cons)
    have pe: "fst d + snd d < fst c" if "d \<in> set pre0" for d using gr that snoc by (auto simp: gaps_append)
    let ?m' = "?m(fst c + 4 := ?m (a + 4), a + 4 := 0)"
    have sh: "same_header ?m ?m' d" if "d \<in> set pre0 \<union> set r" for d
    proof -
      have "ublock_ok d" "apart (a, s) d" "apart c d" using rest [of d] that snoc ce [of d] pe [of d] by (auto simp: apart_def)
      then show ?thesis using ublock_keys [OF \<open>apart (a, s) d\<close> as] ublock_keys [OF \<open>apart c d\<close> c(2)] by (auto simp: same_header_def)
    qed
    have p0: "path ?m (uhead h) pre0 (fst c)" "?m (fst c) = snd c" using q(1) snoc by (auto simp: path_snoc)
    have k: "fst c \<noteq> a" "fst c + 4 \<noteq> a" "fst c \<noteq> a + 4" using ublock_keys [OF c(3,2) as] by auto
    have "path ?m' (uhead h) pre0 (fst c)" by (rule path_frame [OF p0(1)]) (use sh in blast)
    then have "path ?m' (uhead h) pre (?m (a + 4))" using p0 k c(1) by (simp add: snoc path_snoc)
    moreover have "chain ?m' (?m (a + 4)) r" by (rule chain_same [OF q'(4)]) (use sh in blast)
    ultimately have "chain ?m' (uhead h) (pre @ r)" unfolding chain_append by blast
    then show ?thesis using gr rest q' as byt k c(1) by (simp add: taken_def last_of_def headers_def snoc)
  qed
qed

lemma first_fit_spec:
  assumes "path (umem h) (uhead h) pre cur" and "chain (umem h) cur bs" and "gaps (pre @ bs)" and "\<And>c. c \<in> set (pre @ bs) \<Longrightarrow> ublock_ok c"
    and t: "8 dvd tot" "MIN_BLOCK \<le> tot"
  shows "first_fit_loop tot h (last_of 0 pre) cur = Some (0, h) \<and> (\<forall>c \<in> set bs. snd c < tot)
    \<or> (\<exists>b F' h'. first_fit_loop tot h (last_of 0 pre) cur = Some (fst b + HEADER_SIZE, h') \<and> taken (pre @ bs) h b F' h' \<and> tot \<le> snd b)"
  using assms(1-4)
proof (induction bs arbitrary: pre cur)
  case Nil
  then show ?case by (subst first_fit_loop.simps) simp
next
  case (Cons b r)
  obtain a s where b: "b = (a, s)" by (cases b)
  have ch: "chain (umem h) (uhead h) (pre @ (a, s) # r)" using Cons.prems(1,2) b unfolding chain_append by blast
  have cur: "cur = a" "a \<noteq> 0" "umem h a = s" "chain (umem h) (umem h (a + 4)) r" using Cons.prems(2) b by auto
  note g = Cons.prems(3) [unfolded b] and ok = Cons.prems(4) [unfolded b]
  consider "s < tot" | "tot \<le> s" "s - tot < MIN_BLOCK" | "tot \<le> s" "MIN_BLOCK \<le> s - tot" by linarith
  then show ?case
  proof cases
    case 1
    have "path (umem h) (uhead h) (pre @ [b]) (umem h (a + 4))" using Cons.prems(1) cur b by (simp add: path_snoc)
    from Cons.IH [OF this cur(4)] Cons.prems(3,4) show ?thesis using 1 cur b
      by (subst (1 2) first_fit_loop.simps) (simp add: last_of_def Let_def)
  next
    case 2
    then have "first_fit_loop tot h (last_of 0 pre) cur = Some (fst (a, s) + HEADER_SIZE,
        if last_of 0 pre = 0 then h \<lparr> uhead := umem h (a + 4), umem := (umem h)(a + 4 := 0) \<rparr>
        else h \<lparr> umem := (umem h)(last_of 0 pre + 4 := umem h (a + 4), a + 4 := 0) \<rparr>)"
      using cur by (subst first_fit_loop.simps) (simp add: Let_def)
    moreover have "tot \<le> snd (a, s)" using 2 by simp
    ultimately show ?thesis using take_all [OF ch g ok] b by blast
  next
    case 3
    then have "first_fit_loop tot h (last_of 0 pre) cur = Some (fst (a + (s - tot), tot) + HEADER_SIZE,
        h \<lparr> umem := (umem h)(a := s - tot, a + (s - tot) := tot, a + (s - tot) + 4 := 0) \<rparr>)"
      using cur by (subst first_fit_loop.simps) (simp add: Let_def)
    moreover have "tot \<le> snd (a + (s - tot), tot)" by simp
    ultimately show ?thesis using take_split [OF ch g ok t 3] b by blast
  qed
qed

subsection \<open>The invariant of the heap\<close>

lemma headers_bytes: "(\<And>b. b \<in> B \<Longrightarrow> ublock_ok b) \<Longrightarrow> headers B \<subseteq> bytes B"
proof
  fix x assume ok: "\<And>b. b \<in> B \<Longrightarrow> ublock_ok b" and "x \<in> headers B"
  then obtain b where b: "b \<in> B" "x = fst b \<or> x = fst b + 4" by (auto simp: headers_def)
  then have "x \<in> {fst b ..< fst b + snd b}" using ok [of b] by (auto simp: ublock_ok_def MIN_BLOCK_def HEADER_SIZE_def)
  then show "x \<in> bytes B" using b(1) by (auto simp: bytes_def)
qed

lemma apart_bytes:
  assumes "ublock_ok b" and "ublock_ok c" shows "apart b c \<longleftrightarrow> bytes {b} \<inter> bytes {c} = {}"
proof
  assume d: "bytes {b} \<inter> bytes {c} = {}"
  have p: "0 < snd b" "0 < snd c" using assms by (auto simp: ublock_ok_def MIN_BLOCK_def)
  show "apart b c"
  proof (rule ccontr)
    assume "\<not> apart b c"
    then have "max (fst b) (fst c) \<in> bytes {b} \<inter> bytes {c}" using p by (auto simp: apart_def bytes_def)
    then show False using d by blast
  qed
qed (auto simp: apart_def bytes_def)

lemma bytes_Un: "bytes (A \<union> B) = bytes A \<union> bytes B"
  by (auto simp: bytes_def)

lemma bytes_mem: "b \<in> B \<Longrightarrow> bytes {b} \<subseteq> bytes B"
  by (auto simp: bytes_def)

lemma bytes_meet: "bytes A \<inter> bytes {b} = {} \<longleftrightarrow> (\<forall>c \<in> A. bytes {c} \<inter> bytes {b} = {})"
proof -
  have "bytes A = (\<Union>c \<in> A. bytes {c})" by (simp add: bytes_def)
  then show ?thesis by blast
qed

lemma uheap_frame:
  assumes inv: "uheap_ok U L F h" and "uhead h' = uhead h" and "\<And>x. x \<in> U \<Longrightarrow> x \<in> headers (L \<union> set F) \<Longrightarrow> umem h' x = umem h x"
  shows "uheap_ok U L F h'"
proof -
  have "headers (L \<union> set F) \<subseteq> U" using inv headers_bytes [of "L \<union> set F"] by (auto simp: uheap_ok_def)
  then have e: "umem h' x = umem h x" if "x \<in> headers (L \<union> set F)" for x using that assms(3) by blast
  have "chain (umem h') (uhead h) F"
    by (rule chain_same [where m = "umem h"]) (use inv e in \<open>auto simp: uheap_ok_def same_header_def headers_def\<close>)
  moreover have "umem h' (fst b) = snd b" if "b \<in> L" for b
    using e [of "fst b"] inv that by (auto simp: uheap_ok_def headers_def)
  ultimately show ?thesis using inv assms(2) by (simp add: uheap_ok_def)
qed

lemma uheap_add:
  assumes inv: "uheap_ok U L F h" and b: "ublock_ok b" "bytes {b} \<inter> U = {}" "umem h (fst b) = snd b"
  shows "uheap_ok (U \<union> bytes {b}) (insert b L) F h" "b \<notin> L"
proof -
  have U: "U = bytes (L \<union> set F)" "\<And>c. c \<in> L \<union> set F \<Longrightarrow> ublock_ok c" using inv by (auto simp: uheap_ok_def)
  have ap: "apart b c" if "c \<in> L \<union> set F" for c
    using b(2) bytes_mem [OF that] apart_bytes [OF b(1) U(2) [OF that]] unfolding U(1) by blast
  then have "apart c b" if "c \<in> L \<union> set F" for c using that apart_sym by blast
  moreover have "bytes (insert b L \<union> set F) = U \<union> bytes {b}" using bytes_Un [of "{b}" "L \<union> set F"] U(1) by auto
  ultimately show "uheap_ok (U \<union> bytes {b}) (insert b L) F h" using inv b(1,3) ap by (simp add: uheap_ok_def)
  show "b \<notin> L" using ap [of b] b(1) by (auto simp: apart_def ublock_ok_def MIN_BLOCK_def)
qed

lemma uheap_insert:
  assumes inv: "uheap_ok U L F h" and b: "ublock_ok b" "bytes {b} \<inter> U = {}" "umem h (fst b) = snd b"
  obtains h' F' where "free_list_insert (fst b) h = Some h'" "uheap_ok (U \<union> bytes {b}) L F' h'"
    "\<And>x. x \<notin> headers (insert b (set F)) \<Longrightarrow> umem h' x = umem h x"
proof -
  have U: "U = bytes (L \<union> set F)" "\<And>c. c \<in> L \<union> set F \<Longrightarrow> ublock_ok c" using inv by (auto simp: uheap_ok_def)
  have ap: "apart b c" if "c \<in> L \<union> set F" for c
    using b(2) bytes_mem [OF that] apart_bytes [OF b(1) U(2) [OF that]] unfolding U(1) by blast
  obtain h' F' where h': "free_list_insert (fst b) h = Some h'" "chain (umem h') (uhead h') F'" "gaps F'" "\<forall>c \<in> set F'. ublock_ok c"
      "bytes (set F') = bytes (insert b (set F))" "\<And>x. x \<notin> headers (insert b (set F)) \<Longrightarrow> umem h' x = umem h x"
    using free_list_insert_spec [of h F b] inv b ap by (auto simp: uheap_ok_def)
  have d: "bytes {c} \<inter> bytes (insert b (set F)) = {}" if "c \<in> L" for c
  proof -
    have "bytes {e} \<inter> bytes {c} = {}" if "e \<in> insert b (set F)" for e
      using that \<open>c \<in> L\<close> inv ap [of c] apart_bytes [of e c] U(2) [of c] U(2) [of e] b(1) apart_sym [of e c] by (auto simp: uheap_ok_def)
    then show ?thesis using bytes_meet [of "insert b (set F)" c] by blast
  qed
  have sz: "umem h' (fst c) = snd c" if "c \<in> L" for c
  proof -
    have "fst c \<in> bytes {c}" using U(2) [of c] that by (auto simp: bytes_def ublock_ok_def MIN_BLOCK_def)
    then have "fst c \<notin> headers (insert b (set F))" using d [OF that] headers_bytes [of "insert b (set F)"] U(2) b(1) by blast
    then show ?thesis using h'(6) inv that by (simp add: uheap_ok_def)
  qed
  have "apart c d'" if "c \<in> L" "d' \<in> set F'" for c d'
    using d [OF that(1)] bytes_mem [OF that(2)] apart_bytes [of c d'] U(2) [of c] h'(4) that unfolding h'(5) by blast
  moreover have "bytes (L \<union> set F') = U \<union> bytes {b}" unfolding U(1) bytes_Un h'(5) using bytes_Un [of "{b}" "set F"] by auto
  ultimately have "uheap_ok (U \<union> bytes {b}) L F' h'"
    using inv h'(2-4) sz U(2) by (simp add: uheap_ok_def ball_Un)
  then show thesis using that h'(1,6) by blast
qed

lemma uheap_disjoint:
  assumes inv: "uheap_ok U L F h" and "b \<in> L" and "c \<in> L - {b} \<or> c \<in> set F"
  shows "bytes {c} \<inter> bytes {b} = {}"
proof -
  have "ublock_ok b" "ublock_ok c" "apart b c" using assms by (auto simp: uheap_ok_def)
  then show ?thesis using apart_bytes by blast
qed

lemma uheap_remove:
  assumes inv: "uheap_ok U L F h" and b: "b \<in> L"
  shows "uheap_ok (U - bytes {b}) (L - {b}) F h" "ublock_ok b" "umem h (fst b) = snd b" "bytes {b} \<subseteq> U"
proof -
  show ok: "ublock_ok b" "umem h (fst b) = snd b" and "bytes {b} \<subseteq> U" using inv b bytes_mem [of b] by (auto simp: uheap_ok_def)
  have "bytes {c} \<inter> bytes {b} = {}" if "c \<in> (L - {b}) \<union> set F" for c
    using uheap_disjoint [OF inv b] that by blast
  then have "bytes ((L - {b}) \<union> set F) \<inter> bytes {b} = {}" using bytes_meet [of "(L - {b}) \<union> set F" b] by blast
  moreover have "L \<union> set F = ((L - {b}) \<union> set F) \<union> {b}" using b by blast
  then have "bytes (L \<union> set F) = bytes ((L - {b}) \<union> set F) \<union> bytes {b}" using bytes_Un by metis
  moreover have "bytes (L \<union> set F) = U" using inv by (simp add: uheap_ok_def)
  ultimately have "bytes ((L - {b}) \<union> set F) = U - bytes {b}" by blast
  then show "uheap_ok (U - bytes {b}) (L - {b}) F h" using inv by (simp add: uheap_ok_def ball_Un)
qed

lemma uheap_live_bytes:
  assumes inv: "uheap_ok U L F h" and c: "c \<in> L" "x \<in> bytes {c}" shows "x \<notin> bytes (set F)"
  using uheap_disjoint [OF inv c(1)] c(2) bytes_meet [of "set F" c] by blast

lemma uheap_taken:
  assumes inv: "uheap_ok U L F h" and t: "taken F h b F' h'"
  shows "uheap_ok U (insert b L) F' h'" "b \<notin> L" "c \<in> L \<Longrightarrow> x \<in> bytes {c} \<Longrightarrow> umem h' x = umem h x"
proof -
  note t = t [unfolded taken_def]
  have bF: "bytes {b} \<subseteq> bytes (set F)" "bytes (insert b (set F)) = bytes (set F)" "bytes (set F') \<subseteq> bytes (set F)"
    using t by (auto simp: bytes_def)
  have "headers (insert b (set F)) \<subseteq> bytes (set F)" using headers_bytes [of "insert b (set F)"] inv t bF(2) by (auto simp: uheap_ok_def)
  then show same: "umem h' x = umem h x" if "c \<in> L" "x \<in> bytes {c}" for c x
    using uheap_live_bytes [OF inv that] t by blast
  have live: "umem h' (fst c) = snd c" "\<forall>d \<in> set F'. apart c d" if "c \<in> L" for c
  proof -
    have oc: "ublock_ok c" "umem h (fst c) = snd c" using inv that by (auto simp: uheap_ok_def)
    then show "umem h' (fst c) = snd c" using same [OF that, of "fst c"] by (auto simp: bytes_def ublock_ok_def MIN_BLOCK_def)
    show "\<forall>d \<in> set F'. apart c d"
      using uheap_live_bytes [OF inv that] bF(3) bytes_mem [of _ "set F'"] t apart_bytes [OF oc(1)] by blast
  qed
  have "uheap_ok (bytes (L \<union> set F')) L F' h'" using inv t live by (simp add: uheap_ok_def ball_Un)
  moreover have "bytes {b} \<inter> bytes (L \<union> set F') = {}"
  proof -
    have "bytes {d} \<inter> bytes {b} = {}" if "d \<in> set F'" for d using that t apart_bytes [of b d] by blast
    moreover have "bytes {d} \<inter> bytes {b} = {}" if "d \<in> L" for d using uheap_live_bytes [OF inv that] bF(1) by blast
    ultimately show ?thesis using bytes_meet [of "L \<union> set F'" b] by blast
  qed
  ultimately have *: "uheap_ok (bytes (L \<union> set F') \<union> bytes {b}) (insert b L) F' h'" "b \<notin> L" using uheap_add t by blast+
  have "bytes (L \<union> set F') \<union> bytes {b} = U" using inv t bytes_Un [of "{b}" "set F'"] by (auto simp: uheap_ok_def bytes_Un)
  then show "uheap_ok U (insert b L) F' h'" "b \<notin> L" using * by auto
qed

subsection \<open>Allocating and freeing\<close>

definition small :: "layout \<Rightarrow> bool" where
  "small l \<longleftrightarrow> lay_size l + max (lay_align l) HEADER_SIZE + 15 \<le> 2 ^ 31"

lemma total_size_spec:
  assumes "small l"
  shows "8 dvd total_size l" "MIN_BLOCK \<le> total_size l" "lay_size l + 8 \<le> total_size l" "total_size l < 2 ^ 31"
proof -
  define n where "n = lay_size l + max (lay_align l) 8 + 7"
  have n: "n + 8 \<le> 2 ^ 31" "lay_size l + 15 \<le> n" using assms by (auto simp: small_def n_def HEADER_SIZE_def)
  have "wrap (HEADER_SIZE + max (lay_align l) HEADER_SIZE - 1 + lay_size l) = n" using n by (simp add: wrap_def HEADER_SIZE_def n_def)
  moreover have "wrap (max n 16 + 8 - 1) = max n 16 + 7" using n by (simp add: wrap_def)
  ultimately have "total_size l = (max n 16 + 7) AND (2 ^ 32 - 1 - (2 ^ 3 - 1))" by (simp add: total_size_def HEADER_SIZE_def MIN_BLOCK_def)
  also have "\<dots> = (max n 16 + 7) div 2 ^ 3 * 2 ^ 3" using and_not_mask [of "max n 16 + 7" 3] n by (simp add: not_u32_def)
  finally have "total_size l = (max n 16 + 7) div 8 * 8" by simp
  then show "8 dvd total_size l" "MIN_BLOCK \<le> total_size l" "lay_size l + 8 \<le> total_size l" "total_size l < 2 ^ 31"
    using n by (auto simp: MIN_BLOCK_def HEADER_SIZE_def)
qed

lemma user_dealloc_spec:
  assumes inv: "uheap_ok U L F h" and b: "b \<in> L"
  obtains h' F' where "user_dealloc (fst b + HEADER_SIZE) h = Some h'" "uheap_ok U (L - {b}) F' h'"
    "\<And>c x. c \<in> L - {b} \<Longrightarrow> x \<in> bytes {c} \<Longrightarrow> umem h' x = umem h x"
proof -
  note r = uheap_remove [OF inv b]
  have "fst b + 8 < 2 ^ 32" using r(2) by (auto simp: ublock_ok_def MIN_BLOCK_def HEADER_SIZE_def)
  then have e: "user_dealloc (fst b + HEADER_SIZE) h = free_list_insert (fst b) h" by (simp add: user_dealloc_def wrap_def HEADER_SIZE_def)
  obtain h' F' where h': "free_list_insert (fst b) h = Some h'" "uheap_ok (U - bytes {b} \<union> bytes {b}) (L - {b}) F' h'"
      "\<And>x. x \<notin> headers (insert b (set F)) \<Longrightarrow> umem h' x = umem h x"
    using uheap_insert [OF r(1,2) _ r(3)] by blast
  have "headers (insert b (set F)) \<subseteq> bytes (insert b (set F))" using headers_bytes [of "insert b (set F)"] inv r(2) by (auto simp: uheap_ok_def)
  moreover have "x \<notin> bytes (insert b (set F))" if "c \<in> L - {b}" "x \<in> bytes {c}" for c x
  proof -
    have "bytes {c} \<inter> bytes {b} = {}" using uheap_disjoint [OF inv b] that(1) by blast
    then show ?thesis using uheap_live_bytes [OF inv, of c x] that bytes_Un [of "{b}" "set F"] by auto
  qed
  ultimately have "umem h' x = umem h x" if "c \<in> L - {b}" "x \<in> bytes {c}" for c x using h'(3) that by blast
  then show thesis using that [of h' F'] e h'(1,2) r(4) by (simp add: Un_absorb2)
qed

text \<open>What a successful allocation of \<open>n\<close> bytes does: a new live block, on the bytes there were or on more of them below the break.\<close>

definition got_block :: "nat \<Rightarrow> nat set \<Rightarrow> (nat \<times> nat) set \<Rightarrow> uheap \<Rightarrow> nat \<Rightarrow> uheap \<Rightarrow> nat \<Rightarrow> bool" where
  "got_block n U L h p h' hi \<longleftrightarrow> (\<exists>b U' F'. p = fst b + HEADER_SIZE \<and> n + HEADER_SIZE \<le> snd b \<and> b \<notin> L \<and> uheap_ok U' (insert b L) F' h' \<and> U' \<subseteq> {..<hi}
     \<and> (\<forall>c \<in> L. \<forall>x \<in> bytes {c}. umem h' x = umem h x))"

lemma grown_whole:
  assumes inv: "uheap_ok U L F h" and U: "U \<subseteq> {..<a}" and a: "8 dvd a" "0 < a" and g: "8 dvd g" "tot \<le> g" "a + g < 2 ^ 32" and t: "8 dvd tot" "MIN_BLOCK \<le> tot" "n + HEADER_SIZE \<le> tot"
    and cut: "\<not> (g > tot \<and> g - tot \<ge> MIN_BLOCK)"
  obtains h' where "grown_block tot g a h = Some h'" "got_block n U L h (a + HEADER_SIZE) h' (a + g)"
proof -
  define h1 where "h1 = h \<lparr> umem := (umem h)(a := g, a + 4 := 0) \<rparr>"
  have b: "ublock_ok (a, g)" using a g t by (auto simp: ublock_ok_def)
  have "uheap_ok U L F h1" by (rule uheap_frame [OF inv]) (use U in \<open>auto simp: h1_def\<close>)
  moreover have "bytes {(a, g)} \<inter> U = {}" using U by (auto simp: bytes_def)
  ultimately have "uheap_ok (U \<union> bytes {(a, g)}) (insert (a, g) L) F h1" "(a, g) \<notin> L"
    using uheap_add [of U L F h1 "(a, g)"] b by (simp_all add: h1_def)
  moreover have "umem h1 x = umem h x" if "c \<in> L" "x \<in> bytes {c}" for c x
    using uheap_remove(4) [OF inv that(1)] that(2) U by (auto simp: h1_def)
  moreover have "U \<union> bytes {(a, g)} \<subseteq> {..<a + g}" using U by (auto simp: bytes_def)
  ultimately have "got_block n U L h (a + HEADER_SIZE) h1 (a + g)" using g(2) t(3)
    unfolding got_block_def by (intro exI [of _ "(a, g)"] exI [of _ "U \<union> bytes {(a, g)}"] exI [of _ F]) auto
  then show thesis using that [of h1] cut by (simp add: grown_block_def h1_def Let_def)
qed

lemma grown_split:
  assumes inv: "uheap_ok U L F h" and U: "U \<subseteq> {..<a}" and a: "8 dvd a" "0 < a" and g: "8 dvd g" "tot \<le> g" "a + g < 2 ^ 32" and t: "8 dvd tot" "MIN_BLOCK \<le> tot" "n + HEADER_SIZE \<le> tot"
    and cut: "g > tot \<and> g - tot \<ge> MIN_BLOCK"
  obtains h' where "grown_block tot g a h = Some h'" "got_block n U L h (a + HEADER_SIZE) h' (a + g)"
proof -
  define h1 where "h1 = h \<lparr> umem := (umem h)(a := g, a + 4 := 0) \<rparr>"
  define r where "r = (a + tot, g - tot)"
  define h2 where "h2 = h1 \<lparr> umem := (umem h1)(a + tot := g - tot, a + tot + 4 := 0) \<rparr>"
  have r: "ublock_ok r" "bytes {r} \<inter> U = {}" "umem h2 (fst r) = snd r" "bytes {r} \<subseteq> {a + tot ..< a + g}" and b: "ublock_ok (a, tot)"
    using a g t cut U by (auto simp: r_def h2_def ublock_ok_def bytes_def)
  have "uheap_ok U L F h2" by (rule uheap_frame [OF inv]) (use U in \<open>auto simp: h1_def h2_def\<close>)
  then obtain h3 F' where h3: "free_list_insert (fst r) h2 = Some h3" "uheap_ok (U \<union> bytes {r}) L F' h3"
      "\<And>x. x \<notin> headers (insert r (set F)) \<Longrightarrow> umem h3 x = umem h2 x"
    using uheap_insert [OF _ r(1-3)] by blast
  define h4 where "h4 = h3 \<lparr> umem := (umem h3)(a := tot) \<rparr>"
  have "a \<notin> U \<union> bytes {r}" using U r(4) t(2) by (auto simp: MIN_BLOCK_def HEADER_SIZE_def)
  then have "uheap_ok (U \<union> bytes {r}) L F' h4" by (intro uheap_frame [OF h3(2)]) (auto simp: h4_def)
  moreover have "bytes {(a, tot)} \<inter> (U \<union> bytes {r}) = {}" using U r(4) by (auto simp: bytes_def)
  ultimately have "uheap_ok (U \<union> bytes {r} \<union> bytes {(a, tot)}) (insert (a, tot) L) F' h4" "(a, tot) \<notin> L"
    using uheap_add [of "U \<union> bytes {r}" L F' h4 "(a, tot)"] b by (simp_all add: h4_def)
  moreover have "umem h4 x = umem h x" if "c \<in> L" "x \<in> bytes {c}" for c x
  proof -
    have x: "x \<in> U" "x < a" using uheap_remove(4) [OF inv that(1)] that(2) U by auto
    moreover have "x \<notin> headers (insert r (set F))"
      using headers_bytes [of "set F"] inv uheap_live_bytes [OF inv that] x by (auto simp: uheap_ok_def headers_def r_def)
    ultimately show ?thesis using h3(3) by (simp add: h4_def h2_def h1_def)
  qed
  moreover have "U \<union> bytes {r} \<union> bytes {(a, tot)} \<subseteq> {..<a + g}" using U r(4) g(2) by (auto simp: bytes_def)
  ultimately have "got_block n U L h (a + HEADER_SIZE) h4 (a + g)" using t(3)
    unfolding got_block_def by (intro exI [of _ "(a, tot)"] exI [of _ "U \<union> bytes {r} \<union> bytes {(a, tot)}"] exI [of _ F']) auto
  then show thesis using that [of h4] cut h3(1) by (simp add: grown_block_def h4_def h2_def h1_def r_def Let_def)
qed

subsection \<open>Programs\<close>

text \<open>
  The states that a program reaches by its calls to the allocator: the pointers it holds with their layouts, the words it
  has written behind them, its memory and the kernel. In between it makes other system calls, which only move the break up.
\<close>

inductive heap_run :: "(int \<Rightarrow> 'k \<Rightarrow> (int \<times> 'k) option) \<Rightarrow> ('k \<Rightarrow> nat) \<Rightarrow> (nat \<times> layout) set \<Rightarrow> (nat \<Rightarrow> nat option) \<Rightarrow> uheap \<Rightarrow> 'k \<Rightarrow> bool" for sb brk_of where
  start: "8 dvd brk_of k \<Longrightarrow> uhead h = 0 \<Longrightarrow> heap_run sb brk_of {} (\<lambda>x. None) h k"
| allocate: "heap_run sb brk_of A w h k \<Longrightarrow> small l \<Longrightarrow> user_alloc sb l h k = Some (p, h', k') \<Longrightarrow>
    heap_run sb brk_of (if p = 0 then A else insert (p, l) A) w h' k'"
| free: "heap_run sb brk_of A w h k \<Longrightarrow> (p, l) \<in> A \<Longrightarrow> user_dealloc p h = Some h' \<Longrightarrow>
    heap_run sb brk_of (A - {(p, l)}) (\<lambda>x. if p \<le> x \<and> x < p + lay_size l then None else w x) h' k"
| store: "heap_run sb brk_of A w h k \<Longrightarrow> (p, l) \<in> A \<Longrightarrow> p \<le> x \<Longrightarrow> x < p + lay_size l \<Longrightarrow> 4 dvd x \<Longrightarrow>
    heap_run sb brk_of A (w(x := Some v)) (h \<lparr> umem := (umem h)(x := v) \<rparr>) k"
| other: "heap_run sb brk_of A w h k \<Longrightarrow> brk_of k \<le> brk_of k' \<Longrightarrow> 8 dvd brk_of k' \<Longrightarrow> heap_run sb brk_of A w h k'"

definition holds :: "(nat \<times> nat) set \<Rightarrow> nat \<times> layout \<Rightarrow> nat \<times> nat \<Rightarrow> bool" where
  "holds L q b \<longleftrightarrow> b \<in> L \<and> fst q = fst b + HEADER_SIZE \<and> lay_size (snd q) + HEADER_SIZE \<le> snd b"

definition run_ok :: "nat \<Rightarrow> (nat \<times> layout) set \<Rightarrow> (nat \<Rightarrow> nat option) \<Rightarrow> uheap \<Rightarrow> bool" where
  "run_ok hi A w h \<longleftrightarrow> (\<exists>U L F. uheap_ok U L F h \<and> U \<subseteq> {..<hi} \<and> (\<forall>q \<in> A. \<exists>b. holds L q b) \<and> inj_on fst A
     \<and> (\<forall>x v. w x = Some v \<longrightarrow> umem h x = v \<and> (\<exists>q \<in> A. fst q \<le> x \<and> x < fst q + lay_size (snd q))))"

lemma holds_bytes: "holds L q b \<Longrightarrow> fst q \<le> x \<Longrightarrow> x < fst q + lay_size (snd q) \<Longrightarrow> x \<in> bytes {b}"
  by (auto simp: holds_def bytes_def)

lemma holds_payload: 
  assumes "uheap_ok U L F h" and "holds L q b" and "fst q \<le> x" and "x < fst q + lay_size (snd q)" and "4 dvd x"
  shows "x \<notin> headers (L \<union> set F)"
proof
  assume "x \<in> headers (L \<union> set F)"
  then obtain c where c: "c \<in> L \<union> set F" "x = fst c \<or> x = fst c + 4" by (auto simp: headers_def)
  have b: "b \<in> L" "fst b + 8 \<le> x" using assms(2,3) by (auto simp: holds_def HEADER_SIZE_def)
  have x: "x \<in> bytes {b}" using holds_bytes assms(2-4) by blast
  have "ublock_ok c" using assms(1) c(1) by (auto simp: uheap_ok_def)
  then have "x \<in> bytes {c}" using c(2) by (auto simp: bytes_def ublock_ok_def MIN_BLOCK_def HEADER_SIZE_def)
  then have "c = b" using uheap_disjoint [OF assms(1) b(1)] c(1) x by blast
  then show False using c(2) b(2) by auto
qed

lemma run_ok_mono: "run_ok hi A w h \<Longrightarrow> hi \<le> hi' \<Longrightarrow> run_ok hi' A w h"
  unfolding run_ok_def by (meson lessThan_subset_iff order_trans)

lemma run_ok_alloc:
  assumes inv: "uheap_ok U L F h" "\<forall>q \<in> A. \<exists>b. holds L q b" "inj_on fst A"
      "\<forall>x v. w x = Some v \<longrightarrow> umem h x = v \<and> (\<exists>q \<in> A. fst q \<le> x \<and> x < fst q + lay_size (snd q))"
    and al: "got_block (lay_size l) U L h p h' hi"
  shows "run_ok hi (insert (p, l) A) w h'"
proof -
  obtain b U' F' where b: "p = fst b + HEADER_SIZE" "lay_size l + HEADER_SIZE \<le> snd b" "b \<notin> L" "uheap_ok U' (insert b L) F' h'" "U' \<subseteq> {..<hi}"
      "\<And>c x. c \<in> L \<Longrightarrow> x \<in> bytes {c} \<Longrightarrow> umem h' x = umem h x"
    using al unfolding got_block_def by blast
  have h: "\<exists>b'. holds (insert b L) q b'" if "q \<in> insert (p, l) A" for q
  proof (cases "q = (p, l)")
    case True
    then show ?thesis using b(1,2) by (intro exI [of _ b]) (simp add: holds_def)
  next
    case False
    then show ?thesis using that inv(2) unfolding holds_def by blast
  qed
  have "fst q \<noteq> p" if "q \<in> A" for q
  proof
    assume e: "fst q = p"
    obtain c where c: "holds L q c" using inv(2) \<open>q \<in> A\<close> by blast
    have "c \<in> L" "c \<noteq> b" "fst c = fst b" using c b(1,3) e by (auto simp: holds_def)
    moreover have "ublock_ok b" "ublock_ok c" using b(4) \<open>c \<in> L\<close> by (auto simp: uheap_ok_def)
    ultimately show False using uheap_disjoint [OF b(4), of b c] by (fastforce simp: bytes_def ublock_ok_def MIN_BLOCK_def)
  qed
  then have "inj_on fst (insert (p, l) A)" using inv(3) by (auto simp: inj_on_def)
  moreover have "umem h' x = v" "\<exists>q \<in> insert (p, l) A. fst q \<le> x \<and> x < fst q + lay_size (snd q)" if w: "w x = Some v" for x v
  proof -
    obtain q where q: "q \<in> A" "fst q \<le> x" "x < fst q + lay_size (snd q)" "umem h x = v" using w inv(4) by blast
    obtain c where c: "holds L q c" using inv(2) q(1) by blast
    then show "umem h' x = v" using b(6) [of c x] holds_bytes [OF c q(2,3)] q(4) by (simp add: holds_def)
    show "\<exists>q \<in> insert (p, l) A. fst q \<le> x \<and> x < fst q + lay_size (snd q)" using q by blast
  qed
  ultimately show ?thesis using b(4,5) h unfolding run_ok_def by blast
qed

lemma run_ok_free:
  assumes inv: "run_ok hi A w h" and q: "(p, l) \<in> A"
  obtains h' where "user_dealloc p h = Some h'" "run_ok hi (A - {(p, l)}) (\<lambda>x. if p \<le> x \<and> x < p + lay_size l then None else w x) h'"
proof -
  obtain U L F where r: "uheap_ok U L F h" "U \<subseteq> {..<hi}" "\<And>q. q \<in> A \<Longrightarrow> \<exists>b. holds L q b" "inj_on fst A"
      "\<And>x v. w x = Some v \<Longrightarrow> umem h x = v \<and> (\<exists>q \<in> A. fst q \<le> x \<and> x < fst q + lay_size (snd q))"
    using inv unfolding run_ok_def by blast
  obtain b where b: "holds L (p, l) b" using r(3) q by blast
  then have bL: "b \<in> L" "p = fst b + HEADER_SIZE" by (auto simp: holds_def)
  obtain h' F' where h': "user_dealloc p h = Some h'" "uheap_ok U (L - {b}) F' h'" "\<And>c x. c \<in> L - {b} \<Longrightarrow> x \<in> bytes {c} \<Longrightarrow> umem h' x = umem h x"
    using user_dealloc_spec [OF r(1) bL(1)] bL(2) by metis
  have other: "\<exists>c. holds (L - {b}) q' c" if "q' \<in> A - {(p, l)}" for q'
  proof -
    obtain c where c: "holds L q' c" using r(3) \<open>q' \<in> A - {(p, l)}\<close> by blast
    moreover have "fst q' \<noteq> p" using r(4) q that by (auto simp: inj_on_def)
    ultimately have "holds (L - {b}) q' c" using bL(2) by (auto simp: holds_def)
    then show ?thesis by blast
  qed
  have "umem h' x = v \<and> (\<exists>q' \<in> A - {(p, l)}. fst q' \<le> x \<and> x < fst q' + lay_size (snd q'))"
    if w: "(if p \<le> x \<and> x < p + lay_size l then None else w x) = Some v" for x v
  proof -
    have out: "\<not> (p \<le> x \<and> x < p + lay_size l)" "w x = Some v" using w by (auto split: if_splits)
    obtain q' where q': "q' \<in> A" "fst q' \<le> x" "x < fst q' + lay_size (snd q')" "umem h x = v" using out(2) r(5) by blast
    then have "q' \<in> A - {(p, l)}" using out(1) by auto
    then obtain c where c: "holds (L - {b}) q' c" using other by blast
    then have "umem h' x = umem h x" using h'(3) [of c x] holds_bytes [OF c q'(2,3)] by (simp add: holds_def)
    then show ?thesis using q' \<open>q' \<in> A - {(p, l)}\<close> by blast
  qed
  moreover have "inj_on fst (A - {(p, l)})" using r(4) by (rule inj_on_subset) blast
  ultimately have "run_ok hi (A - {(p, l)}) (\<lambda>x. if p \<le> x \<and> x < p + lay_size l then None else w x) h'"
    unfolding run_ok_def using h'(2) r(2) other by blast
  then show thesis using that h'(1) by blast
qed

lemma run_ok_store:
  assumes inv: "run_ok hi A w h" and q: "(p, l) \<in> A" "p \<le> x" "x < p + lay_size l" "4 dvd x"
  shows "run_ok hi A (w(x := Some v)) (h \<lparr> umem := (umem h)(x := v) \<rparr>)"
proof -
  obtain U L F where r: "uheap_ok U L F h" "U \<subseteq> {..<hi}" "\<forall>q \<in> A. \<exists>b. holds L q b" "inj_on fst A"
      "\<forall>x v. w x = Some v \<longrightarrow> umem h x = v \<and> (\<exists>q \<in> A. fst q \<le> x \<and> x < fst q + lay_size (snd q))"
    using inv unfolding run_ok_def by blast
  obtain b where "holds L (p, l) b" using r(3) q by blast
  then have "x \<notin> headers (L \<union> set F)" using holds_payload [OF r(1)] q(2-4) by simp
  then have "uheap_ok U L F (h \<lparr> umem := (umem h)(x := v) \<rparr>)" by (intro uheap_frame [OF r(1)]) auto
  moreover have "umem (h \<lparr> umem := (umem h)(x := v) \<rparr>) y = u \<and> (\<exists>q \<in> A. fst q \<le> y \<and> y < fst q + lay_size (snd q))" if "(w(x := Some v)) y = Some u" for y u
    using that r(5) q(1-3) by (cases "y = x") (force, simp)
  ultimately show ?thesis using r(2-4) unfolding run_ok_def by blast
qed

context break_call
begin

lemma user_alloc_spec:
  assumes inv: "uheap_ok U L F h" "U \<subseteq> {..<brk_of k}" "8 dvd brk_of k" and l: "small l" and run: "user_alloc sb l h k = Some (p, h', k')"
  shows "8 dvd brk_of k' \<and> brk_of k \<le> brk_of k' \<and> (if p = 0 then h' = h else got_block (lay_size l) U L h p h' (brk_of k'))"
proof -
  note t = total_size_spec [OF l]
  have "path (umem h) (uhead h) [] (uhead h)" "chain (umem h) (uhead h) F" "gaps ([] @ F)" "\<And>c. c \<in> set ([] @ F) \<Longrightarrow> ublock_ok c"
    using inv(1) by (auto simp: uheap_ok_def)
  from first_fit_spec [OF this t(1,2)] consider (none) "first_fit_loop (total_size l) h 0 (uhead h) = Some (0, h)"
    | (fit) b F1 h1 where "first_fit_loop (total_size l) h 0 (uhead h) = Some (fst b + HEADER_SIZE, h1)" "taken F h b F1 h1" "total_size l \<le> snd b"
    by (auto simp: last_of_def)
  then show ?thesis
  proof cases
    case fit
    then have "p = fst b + HEADER_SIZE" "h' = h1" "k' = k" using run by (auto simp: user_alloc_def Let_def HEADER_SIZE_def)
    moreover have "lay_size l + HEADER_SIZE \<le> snd b" using fit(3) t(3) by (simp add: HEADER_SIZE_def)
    ultimately have "got_block (lay_size l) U L h p h' (brk_of k)" using uheap_taken [OF inv(1) fit(2)] inv(2)
      unfolding got_block_def by (intro exI [of _ b] exI [of _ U] exI [of _ F1]) auto
    then show ?thesis using inv(3) \<open>p = _\<close> \<open>k' = k\<close> by (simp add: HEADER_SIZE_def)
  next
    case none
    define g where "g = max (total_size l) 4096"
    have g: "0 < int g" "int g < 2 ^ 31" "8 dvd g" "as_i32 (int g) = int g" using t by (auto simp: g_def max_def in_i32_def)
    obtain base k1 where base: "sb (int g) k = Some (base, k1)" using run none g(4) by (auto simp: user_alloc_def g_def Let_def bind_eq_Some_conv)
    from grow [OF g(1,2) base] consider (fail) "base = - 1" "brk_of k1 = brk_of k"
      | (ok) "base = as_i32 (int (brk_of k))" "brk_of k1 = brk_of k + g" "brk_of k1 < 3 * 2 ^ 30" "0 < brk_of k" by auto
    then show ?thesis
    proof cases
      case fail
      then show ?thesis using run none base g(4) inv by (simp add: user_alloc_def Let_def g_def [symmetric])
    next
      case ok
      have u: "as_u32 base = brk_of k" using ok by simp
      show ?thesis
      proof (cases "base < 0")
        case True
        then show ?thesis using run none base g(3,4) ok(2) inv(3) by (simp add: user_alloc_def Let_def g_def [symmetric])
      next
        case False
        have lim: "brk_of k + g < 2 ^ 32" "total_size l \<le> g" "lay_size l + HEADER_SIZE \<le> total_size l" using ok t(3) by (auto simp: g_def HEADER_SIZE_def)
        obtain h2 where h2: "grown_block (total_size l) g (brk_of k) h = Some h2" "got_block (lay_size l) U L h (brk_of k + HEADER_SIZE) h2 (brk_of k + g)"
          using grown_whole [OF inv(1-3) ok(4) g(3) lim(2,1) t(1,2) lim(3)] grown_split [OF inv(1-3) ok(4) g(3) lim(2,1) t(1,2) lim(3)] by blast
        have "p = brk_of k + HEADER_SIZE" "h' = h2" "k' = k1"
          using run none base False u h2(1) g(4) by (simp_all add: user_alloc_def Let_def g_def [symmetric])
        then show ?thesis using h2(2) ok(2) g(3) inv(3) by (simp add: HEADER_SIZE_def)
      qed
    qed
  qed
qed

lemma run_invariant: "heap_run sb brk_of A w h k \<Longrightarrow> 8 dvd brk_of k \<and> run_ok (brk_of k) A w h"
proof (induction rule: heap_run.induct)
  case (start k h)
  have "uheap_ok {} {} [] h" using start(2) by (simp add: uheap_ok_def gaps_def bytes_def)
  then show ?case using start(1) by (auto simp: run_ok_def)
next
  case (allocate A w h k l p h' k')
  from allocate.IH obtain U L F where r: "uheap_ok U L F h" "U \<subseteq> {..<brk_of k}" "\<forall>q \<in> A. \<exists>b. holds L q b" "inj_on fst A"
      "\<forall>x v. w x = Some v \<longrightarrow> umem h x = v \<and> (\<exists>q \<in> A. fst q \<le> x \<and> x < fst q + lay_size (snd q))" and d: "8 dvd brk_of k"
    unfolding run_ok_def by blast
  note s = user_alloc_spec [OF r(1,2) d allocate.hyps(2,3)]
  show ?case
  proof (cases "p = 0")
    case True
    then show ?thesis using s allocate.IH run_ok_mono by auto
  next
    case False
    then show ?thesis using s run_ok_alloc [OF r(1,3-5)] by simp
  qed
next
  case (free A w h k p l h')
  have "run_ok (brk_of k) A w h" using free.IH by blast
  then obtain h1 where "user_dealloc p h = Some h1" "run_ok (brk_of k) (A - {(p, l)}) (\<lambda>x. if p \<le> x \<and> x < p + lay_size l then None else w x) h1"
    using run_ok_free free.hyps(2) by blast
  then show ?case using free.hyps(3) free.IH by simp
next
  case (store A w h k p l x v)
  then show ?case using run_ok_store by blast
next
  case (other A w h k k')
  then show ?case using run_ok_mono by blast
qed

text \<open>What a program may rely on.\<close>

lemma run_safe:
  assumes run: "heap_run sb brk_of A w h k"
  shows "(p, l) \<in> A \<Longrightarrow> 8 dvd p \<and> HEADER_SIZE < p \<and> p + lay_size l \<le> brk_of k \<and> user_dealloc p h \<noteq> None"
    and "(p, l) \<in> A \<Longrightarrow> (q, l') \<in> A \<Longrightarrow> (p, l) \<noteq> (q, l') \<Longrightarrow> p + lay_size l + HEADER_SIZE \<le> q \<or> q + lay_size l' + HEADER_SIZE \<le> p"
    and "w x = Some v \<Longrightarrow> umem h x = v"
proof -
  have ok: "run_ok (brk_of k) A w h" using run_invariant [OF run] by blast
  then obtain U L F where r: "uheap_ok U L F h" "U \<subseteq> {..<brk_of k}" "\<And>q. q \<in> A \<Longrightarrow> \<exists>b. holds L q b" "inj_on fst A"
      "\<And>x v. w x = Some v \<Longrightarrow> umem h x = v"
    unfolding run_ok_def by blast
  show "w x = Some v \<Longrightarrow> umem h x = v" by (rule r(5))
  show "8 dvd p \<and> HEADER_SIZE < p \<and> p + lay_size l \<le> brk_of k \<and> user_dealloc p h \<noteq> None" if pA: "(p, l) \<in> A"
  proof -
    obtain b where b: "b \<in> L" "p = fst b + HEADER_SIZE" "lay_size l + HEADER_SIZE \<le> snd b" using r(3) [OF pA] by (auto simp: holds_def)
    have u: "ublock_ok b" "bytes {b} \<subseteq> U" using uheap_remove [OF r(1) b(1)] by auto
    then have "fst b + snd b - 1 \<in> bytes {b}" by (auto simp: bytes_def ublock_ok_def MIN_BLOCK_def HEADER_SIZE_def)
    then have "fst b + snd b \<le> brk_of k" using u r(2) by auto
    then show ?thesis using u(1) b run_ok_free [OF ok pA] by (auto simp: ublock_ok_def HEADER_SIZE_def)
  qed
  show "p + lay_size l + HEADER_SIZE \<le> q \<or> q + lay_size l' + HEADER_SIZE \<le> p" if A: "(p, l) \<in> A" "(q, l') \<in> A" "(p, l) \<noteq> (q, l')"
  proof -
    obtain b where b: "b \<in> L" "p = fst b + HEADER_SIZE" "lay_size l + HEADER_SIZE \<le> snd b" using r(3) [OF A(1)] by (auto simp: holds_def)
    obtain c where c: "c \<in> L" "q = fst c + HEADER_SIZE" "lay_size l' + HEADER_SIZE \<le> snd c" using r(3) [OF A(2)] by (auto simp: holds_def)
    have "p \<noteq> q" using inj_onD [OF r(4) _ A(1,2)] A(3) by auto
    then have "apart b c" using r(1) b(1,2) c(1,2) by (auto simp: uheap_ok_def)
    then show ?thesis using b c by (auto simp: apart_def)
  qed
qed

text \<open>Allocation returns whenever the call does.\<close>

lemma run_alloc_returns:
  assumes run: "heap_run sb brk_of A w h k" and l: "small l" and s: "sb (int (max (total_size l) 4096)) k \<noteq> None"
  shows "user_alloc sb l h k \<noteq> None"
proof -
  note t = total_size_spec [OF l]
  obtain U L F where r: "uheap_ok U L F h" "U \<subseteq> {..<brk_of k}" "8 dvd brk_of k"
    using run_invariant [OF run] unfolding run_ok_def by blast
  have "path (umem h) (uhead h) [] (uhead h)" "chain (umem h) (uhead h) F" "gaps ([] @ F)" "\<And>c. c \<in> set ([] @ F) \<Longrightarrow> ublock_ok c"
    using r(1) by (auto simp: uheap_ok_def)
  from first_fit_spec [OF this t(1,2)] consider (none) "first_fit_loop (total_size l) h 0 (uhead h) = Some (0, h)"
    | (fit) b :: "nat \<times> nat" and h1 where "first_fit_loop (total_size l) h 0 (uhead h) = Some (fst b + HEADER_SIZE, h1)" by (auto simp: last_of_def)
  then show ?thesis
  proof cases
    case fit
    then show ?thesis by (simp add: user_alloc_def HEADER_SIZE_def)
  next
    case none
    define g where "g = max (total_size l) 4096"
    have g: "0 < int g" "int g < 2 ^ 31" "8 dvd g" "as_i32 (int g) = int g" "total_size l \<le> g" using t by (auto simp: g_def max_def in_i32_def)
    obtain base k1 where base: "sb (int g) k = Some (base, k1)" using s by (auto simp: g_def)
    show ?thesis
    proof (cases "base < 0")
      case True
      then show ?thesis using none base g(4) by (simp add: user_alloc_def Let_def g_def [symmetric])
    next
      case False
      then have ok: "base = as_i32 (int (brk_of k))" "brk_of k + g < 2 ^ 32" "0 < brk_of k" using grow [OF g(1,2) base] by auto
      have u: "as_u32 base = brk_of k" using ok by simp
      have "lay_size l + HEADER_SIZE \<le> total_size l" using t(3) by (simp add: HEADER_SIZE_def)
      then obtain h2 where "grown_block (total_size l) g (brk_of k) h = Some h2"
        using grown_whole [OF r ok(3) g(3,5) ok(2) t(1,2)] grown_split [OF r ok(3) g(3,5) ok(2) t(1,2)] by blast
      then show ?thesis using none base False u g(4) by (simp add: user_alloc_def Let_def g_def [symmetric])
    qed
  qed
qed

text \<open>
  The alignment of the layout is not honoured: the pointer is behind the header of a fresh block, wherever the break is.
\<close>

lemma alloc_at_break:
  assumes "uhead h = 0" and l: "small l" and run: "user_alloc sb l h k = Some (p, h', k')"
  obtains base where "sb (int (max (total_size l) 4096)) k = Some (base, k')" "p = (if base < 0 then 0 else brk_of k + HEADER_SIZE)"
proof -
  define g where "g = max (total_size l) 4096"
  have g: "0 < int g" "int g < 2 ^ 31" "as_i32 (int g) = int g" using total_size_spec [OF l] by (auto simp: g_def max_def in_i32_def)
  have f: "first_fit_loop (total_size l) h 0 (uhead h) = Some (0, h)" by (subst first_fit_loop.simps) (simp add: assms(1))
  obtain base k1 where base: "sb (int g) k = Some (base, k1)" using run f g(3) by (auto simp: user_alloc_def g_def Let_def bind_eq_Some_conv)
  have "p = (if base < 0 then 0 else brk_of k + HEADER_SIZE)" "k' = k1" using grow [OF g(1,2) base] run f base g(3)
    by (auto simp: user_alloc_def Let_def g_def [symmetric] bind_eq_Some_conv split: if_splits)
  then show thesis using that base by (simp add: g_def)
qed

end

end
