(* ===== verification/Exception.thy ===== *)
theory Exception
  imports Fork
begin

section \<open>Exceptions: userprog/exception.rs\<close>

text \<open>
  \<open>kill\<close> and \<open>page_fault\<close>. A fault of user code is resolved by demand paging, by growing the stack or by the older swap
  map, in this order, or ends the process; a fault of the kernel panics (\<open>None\<close>). CR2 is an argument.
\<close>

unbundle bit_operations_syntax

datatype fault_result = Handled | Ended

definition end_process :: "('m, 'z) pk \<Rightarrow> (fault_result \<times> ('m, 'z) pk) option" where
  "end_process k = do { k \<leftarrow> exit_with_status (- 1) k; k \<leftarrow> exit k; Some (Ended, k) }"

definition kill :: "intr_frame \<Rightarrow> ('m, 'z) pk \<Rightarrow> (fault_result \<times> ('m, 'z) pk) option" where
  "kill frame k = (if r_cs frame = SEL_UCSEG then end_process k else None)"

text \<open>The three attempts; \<open>None\<close> inside is an attempt that does not apply or failed.\<close>

definition fault_demand :: "nat \<Rightarrow> bool \<Rightarrow> ('m, 'z) pk \<Rightarrow> (fault_result option \<times> ('m, 'z) pk) option" where
  "fault_demand addr write k = do {
     let page = addr AND not_u32 PGMASK;
     let pd = pagedir (thr (running_thread k) k);
     let n = tid (thr (running_thread k) k);
     spt \<leftarrow> get_spt n k;
     case (if pd = 0 then None else spt) of
       None \<Rightarrow> Some (None, k)
     | Some t \<Rightarrow> (case spt_find page t of
           None \<Rightarrow> Some (None, k)
         | Some e \<Rightarrow>
             if write \<and> \<not> writable e then do { (r, k) \<leftarrow> end_process k; Some (Some r, k) }
             else do { (ok, k) \<leftarrow> load_page e pd page n k; Some (if ok then Some Handled else None, k) })
   }"

definition fault_stack :: "nat \<Rightarrow> nat \<Rightarrow> ('m, 'z) pk \<Rightarrow> (fault_result option \<times> ('m, 'z) pk) option" where
  "fault_stack addr sp k =
     (if addr \<ge> PHYS_BASE - USER_STACK_MAX \<and> addr < PHYS_BASE \<and> addr \<ge> (sp + 2 ^ 32 - 32) mod 2 ^ 32
      then do {
        let page = addr AND not_u32 PGMASK;
        let pd = pagedir (thr (running_thread k) k);
        if pd = 0 then Some (None, k)
        else do {
          let n = tid (thr (running_thread k) k);
          (kp, k) \<leftarrow> alloc_frame page n k;
          if kp = 0 then Some (None, k)
          else do {
            (ok, p) \<leftarrow> set_page pd page kp True (pal k);
            let k = k \<lparr> pal := p \<rparr>;
            if ok
            then do {
              spt \<leftarrow> get_spt n k;
              k \<leftarrow> (if spt = None then Some k else with_spt n (\<lambda>t. Some (spt_insert (stack_entry page) t)) k);
              Some (Some Handled, k)
            }
            else do { k \<leftarrow> free_frame kp k; Some (None, k) }
          }
        }
      }
      else Some (None, k))"

definition fault_swap :: "nat \<Rightarrow> ('m, 'z) pk \<Rightarrow> (fault_result option \<times> ('m, 'z) pk) option" where
  "fault_swap addr k = do {
     let page = addr AND not_u32 PGMASK;
     let n = tid (thr (running_thread k) k);
     let pd = pagedir (thr (running_thread k) k);
     case (if pd = 0 then None else get_swap_slot n page k) of
       None \<Rightarrow> Some (None, k)
     | Some slot \<Rightarrow> do {
         (kp, k) \<leftarrow> alloc_frame page n k;
         if kp = 0 then Some (None, k)
         else do {
           (m, s) \<leftarrow> swap_in slot kp (ram (pal k)) (get_swap k);
           let k = set_ram m (put_swap s k);
           (ok, p) \<leftarrow> set_page pd page kp True (pal k);
           let k = k \<lparr> pal := p \<rparr>;
           if ok then Some (Some Handled, remove_swap_entry n page k)
           else do { k \<leftarrow> free_frame kp k; Some (None, k) }
         }
       }
   }"

definition page_fault :: "nat \<Rightarrow> intr_frame \<Rightarrow> ('m, 'z) pk \<Rightarrow> (fault_result \<times> ('m, 'z) pk) option" where
  "page_fault fault_addr frame k = do {
     let not_present = (error_code frame AND 1 = 0);
     let write = (error_code frame AND 2 \<noteq> 0);
     let user = (error_code frame AND 4 \<noteq> 0);
     let (_, k) = intr_enable k;
     assert user;
     if \<not> not_present then end_process k
     else do {
       (r, k) \<leftarrow> fault_demand fault_addr write k;
       case r of
         Some r \<Rightarrow> Some (r, k)
       | None \<Rightarrow> do {
           (r, k) \<leftarrow> fault_stack fault_addr (esp frame) k;
           case r of
             Some r \<Rightarrow> Some (r, k)
           | None \<Rightarrow> do {
               (r, k) \<leftarrow> fault_swap fault_addr k;
               case r of Some r \<Rightarrow> Some (r, k) | None \<Rightarrow> end_process k
             }
         }
     }
   }"

text \<open>The vectors and levels \<open>init\<close> registers: divide error, invalid opcode and general protection with interrupts on, the
  page fault with interrupts off.\<close>

definition exception_vectors :: "(nat \<times> 8 word \<times> intr_level) list" where
  "exception_vectors = [(0, 0, On), (6, 0, On), (13, 0, On), (14, 0, Off)]"

end
