(* ===== verification/Syscall.thy ===== *)
theory Syscall
  imports Exception Input
begin

section \<open>System calls: userprog/syscall.rs\<close>

text \<open>
  Validation of user pointers, the transfer of data, and one definition per system call. The state adds the console: its
  input buffer, the bytes written to it, and the tick counter. A call ends with a frame to return through (\<open>Resume\<close>), with
  the end of the process (\<open>Gone\<close>), or where it waits (\<open>Blocks\<close>); a panic is \<open>None\<close>.
\<close>

unbundle bit_operations_syntax

record 'm sys = "'m proc" +
  console :: input
  console_out :: "byte list"
  uptime :: int

type_synonym ('m, 'z) sk = "('m, 'z) sys_scheme"

definition O_RDONLY :: int where "O_RDONLY = 0"
definition O_WRONLY :: int where "O_WRONLY = 1"
definition O_ACCMODE :: int where "O_ACCMODE = 3"
definition O_CREATE :: int where "O_CREATE = 0x200"
definition O_TRUNC :: int where "O_TRUNC = 0x400"
definition O_APPEND :: int where "O_APPEND = 0x800"
definition T_DIR :: nat where "T_DIR = 1"
definition T_FILE :: nat where "T_FILE = 2"
definition T_DEV :: nat where "T_DEV = 3"
definition TIOCRAW :: nat where "TIOCRAW = 0x5401"
definition TIOCPOLL :: nat where "TIOCPOLL = 0x5402"
definition SIG_DFL :: nat where "SIG_DFL = 0"
definition SIG_IGN :: nat where "SIG_IGN = 1"

text \<open>What a call waits for, with what it has done so far.\<close>

datatype blocked = On_child | On_start int | On_pipe_read nat | On_pipe_write nat nat | On_console nat | On_timer int

datatype outcome = Resume intr_frame | Gone | Blocks blocked

datatype sres = Val int | Exits | Waits blocked

abbreviation me :: "('m, 'z) sk \<Rightarrow> thread" where
  "me k \<equiv> thr (running_thread k) k"

definition exit_process :: "int \<Rightarrow> ('m, 'z) sk \<Rightarrow> ('m, 'z) sk option" where
  "exit_process st k = do { k \<leftarrow> exit_with_status st k; exit k }"

subsection \<open>Validation\<close>

definition demand_load_page :: "nat \<Rightarrow> nat \<Rightarrow> int \<Rightarrow> ('m, 'z) sk \<Rightarrow> ('m, 'z) sk option" where
  "demand_load_page pd page n k = do {
     spt \<leftarrow> get_spt n k;
     case spt of
       None \<Rightarrow> Some k
     | Some t \<Rightarrow> (case spt_find page t of
           None \<Rightarrow> Some k
         | Some e \<Rightarrow> do { (_, k) \<leftarrow> load_page e pd page n k; Some k })
   }"

function valid_loop :: "nat \<Rightarrow> int \<Rightarrow> nat \<Rightarrow> nat \<Rightarrow> ('m, 'z) sk \<Rightarrow> (bool \<times> ('m, 'z) sk) option" where
  "valid_loop pd n stop page k =
     (if page < stop
      then do {
        a \<leftarrow> pd_get_page pd page (pal k);
        if a \<noteq> 0
        then do { page' \<leftarrow> add_usize page PGSIZE; valid_loop pd n stop page' k }
        else do {
          spt \<leftarrow> get_spt n k;
          if (case spt of None \<Rightarrow> False | Some t \<Rightarrow> spt_find page t \<noteq> None)
          then do {
            k \<leftarrow> demand_load_page pd page n k;
            page' \<leftarrow> add_usize page PGSIZE;
            valid_loop pd n stop page' k
          }
          else Some (page \<ge> PHYS_BASE - USER_STACK_MAX \<and> page < PHYS_BASE, k)
        }
      }
      else Some (True, k))"
  by pat_completeness auto
termination by (relation "measure (\<lambda>(pd, n, stop, page, k). stop - page)") (auto simp: add_usize_def PGSIZE_def split: if_splits)

declare valid_loop.simps [simp del]

definition is_valid_user_ptr :: "nat \<Rightarrow> nat \<Rightarrow> ('m, 'z) sk \<Rightarrow> (bool \<times> ('m, 'z) sk) option" where
  "is_valid_user_ptr addr sz k =
     (if \<not> (PGSIZE \<le> addr \<and> addr < PHYS_BASE) \<or> (addr + sz) mod 2 ^ 32 > PHYS_BASE then Some (False, k)
      else let pd = pagedir (me k)
      in if pd = 0 then Some (True, k)
      else do {
        stop \<leftarrow> add_usize addr sz;
        valid_loop pd (tid (me k)) stop (addr AND not_u32 (PGSIZE - 1)) k
      })"

text \<open>The checks that end the process; the flag tells whether it still runs.\<close>

definition require :: "nat \<Rightarrow> nat \<Rightarrow> ('m, 'z) sk \<Rightarrow> (bool \<times> ('m, 'z) sk) option" where
  "require addr sz k = do {
     (ok, k) \<leftarrow> is_valid_user_ptr addr sz k;
     if ok then Some (True, k) else do { k \<leftarrow> exit_process (- 1) k; Some (False, k) }
   }"

definition check_args :: "nat \<Rightarrow> nat \<Rightarrow> ('m, 'z) sk \<Rightarrow> (bool \<times> ('m, 'z) sk) option" where
  "check_args args count k = require args (4 * (count + 1)) k"

definition validate_user_buffer :: "nat \<Rightarrow> nat \<Rightarrow> ('m, 'z) sk \<Rightarrow> (bool \<times> ('m, 'z) sk) option" where
  "validate_user_buffer addr sz k = (if sz > 0 then require addr sz k else Some (True, k))"

text \<open>The string at an address, \<open>None\<close> inside if the process was ended. \<open>vend\<close> is \<open>validated_end\<close>.\<close>

function read_string :: "nat \<Rightarrow> nat \<Rightarrow> str \<Rightarrow> ('m, 'z) sk \<Rightarrow> (str option \<times> ('m, 'z) sk) option" where
  "read_string ptr vend s k = do {
     (alive, vend, k) \<leftarrow> (if ptr \<ge> vend
       then do {
         vend \<leftarrow> add_usize (ptr AND not_u32 (PGSIZE - 1)) PGSIZE;
         (alive, k) \<leftarrow> require ptr 1 k;
         Some (alive, vend, k)
       }
       else Some (True, vend, k));
     if \<not> alive then Some (None, k)
     else do {
       (b, k) \<leftarrow> user_load8 ptr k;
       if b = 0 then Some (Some s, k)
       else do { ptr' \<leftarrow> add_usize ptr 1; read_string ptr' vend (s @ [unat b]) k }
     }
   }"
  by pat_completeness auto
termination by (relation "measure (\<lambda>(ptr, vend, s, k). 2 ^ 32 - ptr)") (auto simp: add_usize_def split: if_splits)

declare read_string.simps [simp del]

definition read_user_string :: "nat \<Rightarrow> ('m, 'z) sk \<Rightarrow> (str option \<times> ('m, 'z) sk) option" where
  "read_user_string addr k = read_string addr (addr AND not_u32 (PGSIZE - 1)) [] k"

text \<open>The path argument of a call: a check of one byte, then the string.\<close>

definition path_arg :: "nat \<Rightarrow> ('m, 'z) sk \<Rightarrow> (str option \<times> ('m, 'z) sk) option" where
  "path_arg addr k = do {
     (alive, k) \<leftarrow> require addr 1 k;
     if alive then read_user_string addr k else Some (None, k)
   }"

function pin_loop :: "(nat \<Rightarrow> ('m, 'z) sk \<Rightarrow> ('m, 'z) sk) \<Rightarrow> nat \<Rightarrow> nat \<Rightarrow> ('m, 'z) sk \<Rightarrow> ('m, 'z) sk option" where
  "pin_loop f stop page k =
     (if page < stop then do { page' \<leftarrow> add_usize page PGSIZE; pin_loop f stop page' (f page k) } else Some k)"
  by pat_completeness auto
termination by (relation "measure (\<lambda>(f, stop, page, k). stop - page)") (auto simp: add_usize_def PGSIZE_def split: if_splits)

declare pin_loop.simps [simp del]

definition pin_user_pages :: "int \<Rightarrow> nat \<Rightarrow> nat \<Rightarrow> ('m, 'z) sk \<Rightarrow> ('m, 'z) sk option" where
  "pin_user_pages n addr sz k = do { stop \<leftarrow> add_usize addr sz; pin_loop (pin_upage n) stop (addr AND not_u32 (PGSIZE - 1)) k }"

definition unpin_user_pages :: "int \<Rightarrow> nat \<Rightarrow> nat \<Rightarrow> ('m, 'z) sk \<Rightarrow> ('m, 'z) sk option" where
  "unpin_user_pages n addr sz k = do { stop \<leftarrow> add_usize addr sz; pin_loop (unpin_upage n) stop (addr AND not_u32 (PGSIZE - 1)) k }"

end
