(* ===== verification/SyscallOps.thy ===== *)
theory SyscallOps
  imports Syscall
begin

section \<open>The system calls: userprog/syscall.rs\<close>

text \<open>
  Reading and writing through descriptors, one definition per call, and the dispatcher. The arguments of a call are the
  words above the number on the user stack.
\<close>

unbundle bit_operations_syntax

subsection \<open>Reading and writing\<close>

definition set_pipe :: "nat \<Rightarrow> pipe \<Rightarrow> condvar list \<Rightarrow> ('m, 'z) sk \<Rightarrow> ('m, 'z) sk" where
  "set_pipe n p sigs k = k \<lparr> pipe_reg := (pipe_reg k) \<lparr> PIPES := map_option (\<lambda>m. m(n \<mapsto> p)) (PIPES (pipe_reg k)) \<rparr>,
     pipe_signals := pipe_signals k @ map (Pair n) sigs \<rparr>"

definition set_file :: "int \<Rightarrow> file_handle \<Rightarrow> ('m, 'z) sk \<Rightarrow> ('m, 'z) sk" where
  "set_file fd f k = put_fd_table ((fdt_at k (fd_table (me k)))[as_u32 fd := Some (FileDesc f)]) k"

function read_bounced :: "nat \<Rightarrow> nat \<Rightarrow> nat \<Rightarrow> nat \<Rightarrow> int \<Rightarrow> file_handle \<Rightarrow> ('m, 'z) sk \<Rightarrow> (int \<times> file_handle \<times> ('m, 'z) sk) option" where
  "read_bounced bounce buf_addr sz ofs tot f k =
     (if ofs < sz
      then do {
        let chunk = min (sz - ofs) PGSIZE;
        ((n, b, f), k) \<leftarrow> on_fs (\<lambda>s. do { (n, b, f, s) \<leftarrow> file_read f (read_mem bounce chunk (ram (pal k))) (as_i32 (int chunk)) s; Some ((n, b, f), s) }) k;
        let k = set_ram (write_mem bounce b (ram (pal k))) k;
        if n \<le> 0 then Some (tot, f, k)
        else do {
          dst \<leftarrow> add_usize buf_addr ofs;
          k \<leftarrow> user_store (read_mem bounce (as_u32 n) (ram (pal k))) dst k;
          tot \<leftarrow> add_i32 tot n;
          ofs' \<leftarrow> add_usize ofs (as_u32 n);
          if as_u32 n < chunk then Some (tot, f, k) else read_bounced bounce buf_addr sz ofs' tot f k
        }
      }
      else Some (tot, f, k))"
  by pat_completeness auto
termination by (relation "measure (\<lambda>(bounce, buf_addr, sz, ofs, tot, f, k). sz - ofs)") (auto simp: add_usize_def PGSIZE_def split: if_splits)

declare read_bounced.simps [simp del]

definition bounced_read :: "int \<Rightarrow> file_handle \<Rightarrow> nat \<Rightarrow> nat \<Rightarrow> ('m, 'z) sk \<Rightarrow> (int \<times> ('m, 'z) sk) option" where
  "bounced_read fd f buf_addr sz k = do {
     let n = tid (me k);
     (bounce, p) \<leftarrow> get_page {ZERO} (pal k);
     let k = k \<lparr> pal := p \<rparr>;
     if bounce = 0 then Some (- 1, k)
     else do {
       k \<leftarrow> pin_user_pages n buf_addr sz k;
       (tot, f, k) \<leftarrow> read_bounced bounce buf_addr sz 0 0 f k;
       k \<leftarrow> unpin_user_pages n buf_addr sz (set_file fd f k);
       p \<leftarrow> free_page bounce (pal k);
       Some (tot, k \<lparr> pal := p \<rparr>)
     }
   }"

function write_bounced :: "nat \<Rightarrow> nat \<Rightarrow> nat \<Rightarrow> nat \<Rightarrow> int \<Rightarrow> file_handle \<Rightarrow> ('m, 'z) sk \<Rightarrow> (int \<times> file_handle \<times> ('m, 'z) sk) option" where
  "write_bounced bounce buf_addr sz ofs tot f k =
     (if ofs < sz
      then do {
        let chunk = min (sz - ofs) PGSIZE;
        src \<leftarrow> add_usize buf_addr ofs;
        (bs, k) \<leftarrow> user_load chunk src k;
        let k = set_ram (write_mem bounce bs (ram (pal k))) k;
        ((n, f), k) \<leftarrow> on_fs (\<lambda>s. do { (n, f, s) \<leftarrow> file_write f (read_mem bounce chunk (ram (pal k))) (as_i32 (int chunk)) s; Some ((n, f), s) }) k;
        if n \<le> 0 then Some (tot, f, k)
        else do {
          tot \<leftarrow> add_i32 tot n;
          ofs' \<leftarrow> add_usize ofs (as_u32 n);
          if as_u32 n < chunk then Some (tot, f, k) else write_bounced bounce buf_addr sz ofs' tot f k
        }
      }
      else Some (tot, f, k))"
  by pat_completeness auto
termination by (relation "measure (\<lambda>(bounce, buf_addr, sz, ofs, tot, f, k). sz - ofs)") (auto simp: add_usize_def PGSIZE_def split: if_splits)

declare write_bounced.simps [simp del]

definition bounced_write :: "int \<Rightarrow> file_handle \<Rightarrow> nat \<Rightarrow> nat \<Rightarrow> ('m, 'z) sk \<Rightarrow> (int \<times> ('m, 'z) sk) option" where
  "bounced_write fd f buf_addr sz k = do {
     let n = tid (me k);
     (bounce, p) \<leftarrow> get_page {ZERO} (pal k);
     let k = k \<lparr> pal := p \<rparr>;
     if bounce = 0 then Some (- 1, k)
     else do {
       k \<leftarrow> pin_user_pages n buf_addr sz k;
       (tot, f, k) \<leftarrow> write_bounced bounce buf_addr sz 0 0 f k;
       k \<leftarrow> unpin_user_pages n buf_addr sz (set_file fd f k);
       p \<leftarrow> free_page bounce (pal k);
       Some (tot, k \<lparr> pal := p \<rparr>)
     }
   }"

definition write_pipe :: "nat \<Rightarrow> nat \<Rightarrow> nat \<Rightarrow> ('m, 'z) sk \<Rightarrow> (sres \<times> ('m, 'z) sk) option" where
  "write_pipe pid buf_addr sz k = do {
     r \<leftarrow> get_pipe pid (pipe_reg k);
     case r of
       None \<Rightarrow> Some (Val (- 1), k)
     | Some p \<Rightarrow> do {
         (bs, k) \<leftarrow> user_load sz buf_addr k;
         (w, p) \<leftarrow> pipe_write bs p;
         let k = set_pipe pid p (write_signals w) k;
         k \<leftarrow> (if raises_sigpipe w then do { (_, k) \<leftarrow> send_signal (tid (me k)) SIGPIPE k; Some k } else Some k);
         Some (case w of Blocked_full n \<Rightarrow> Waits (On_pipe_write pid n) | _ \<Rightarrow> Val (the (write_return w)), k)
       }
   }"

definition read_pipe :: "nat \<Rightarrow> nat \<Rightarrow> nat \<Rightarrow> ('m, 'z) sk \<Rightarrow> (sres \<times> ('m, 'z) sk) option" where
  "read_pipe pid buf_addr sz k = do {
     r \<leftarrow> get_pipe pid (pipe_reg k);
     case r of
       None \<Rightarrow> Some (Val (- 1), k)
     | Some p \<Rightarrow> do {
         (w, p) \<leftarrow> pipe_read sz p;
         let k = set_pipe pid p (read_signals w) k;
         k \<leftarrow> (case w of Read bs \<Rightarrow> user_store bs buf_addr k | _ \<Rightarrow> Some k);
         Some (case w of Blocked_empty \<Rightarrow> Waits (On_pipe_read pid) | _ \<Rightarrow> Val (the (read_return w)), k)
       }
   }"

text \<open>The loop over the buffer in cooked mode, after \<open>n\<close> bytes; in raw mode at most one byte is read.\<close>

primrec read_line :: "nat \<Rightarrow> nat \<Rightarrow> nat \<Rightarrow> ('m, 'z) sk \<Rightarrow> (sres \<times> ('m, 'z) sk) option" where
  "read_line 0 addr n k = Some (Val (as_i32 (int n)), k)"
| "read_line (Suc r) addr n k = do {
     (g, c) \<leftarrow> getc k (console k);
     let k = k \<lparr> console := c \<rparr>;
     case g of
       Yields \<Rightarrow> Some (Waits (On_console n), k)
     | Killed_waiting \<Rightarrow> Some (Val (as_i32 (int n)), k)
     | Got b \<Rightarrow>
         if b = 0 \<or> b = 4 then Some (Val (as_i32 (int n)), k)
         else do {
           k \<leftarrow> user_store8 addr b k;
           if b = 10 then Some (Val (as_i32 (int (n + 1))), k) else read_line r (addr + 1) (n + 1) k
         }
   }"

definition read_raw :: "nat \<Rightarrow> nat \<Rightarrow> ('m, 'z) sk \<Rightarrow> (sres \<times> ('m, 'z) sk) option" where
  "read_raw sz addr k =
     (if sz = 0 then Some (Val 0, k)
      else do {
        (g, c) \<leftarrow> getc k (console k);
        let k = k \<lparr> console := c \<rparr>;
        case g of
          Yields \<Rightarrow> Some (Waits (On_console 0), k)
        | Killed_waiting \<Rightarrow> Some (Val 0, k)
        | Got b \<Rightarrow> if b = 0 then Some (Val 0, k) else do { k \<leftarrow> user_store8 addr b k; Some (Val 1, k) }
      })"

definition sys_write :: "int \<Rightarrow> nat \<Rightarrow> nat \<Rightarrow> ('m, 'z) sk \<Rightarrow> (sres \<times> ('m, 'z) sk) option" where
  "sys_write fd buf_addr sz k = do {
     (alive, k) \<leftarrow> validate_user_buffer buf_addr sz k;
     if \<not> alive then Some (Exits, k)
     else if fd < 0 then Some (Val (- 1), k)
     else do {
       files \<leftarrow> get_fd_table k;
       case get_kind fd files of
         Some Console \<Rightarrow> do {
           (bs, k) \<leftarrow> user_load sz buf_addr k;
           Some (Val (as_i32 (int sz)), k \<lparr> console_out := console_out k @ bs \<rparr>)
         }
       | Some (PipeWrite pid) \<Rightarrow> write_pipe pid buf_addr sz k
       | Some (FileDesc f) \<Rightarrow>
           if f_mode f AND O_ACCMODE = O_RDONLY then Some (Val (- 1), k)
           else do { (n, k) \<leftarrow> bounced_write fd f buf_addr sz k; Some (Val n, k) }
       | Some DevNull \<Rightarrow> Some (Val (as_i32 (int sz)), k)
       | Some DevZero \<Rightarrow> Some (Val (as_i32 (int sz)), k)
       | _ \<Rightarrow> Some (Val (- 1), k)
     }
   }"

definition sys_read :: "int \<Rightarrow> nat \<Rightarrow> nat \<Rightarrow> ('m, 'z) sk \<Rightarrow> (sres \<times> ('m, 'z) sk) option" where
  "sys_read fd buf_addr sz k = do {
     (alive, k) \<leftarrow> validate_user_buffer buf_addr sz k;
     if \<not> alive then Some (Exits, k)
     else if fd < 0 then Some (Val (- 1), k)
     else do {
       files \<leftarrow> get_fd_table k;
       case get_kind fd files of
         Some Console \<Rightarrow> if is_raw (console k) then read_raw sz buf_addr k else read_line sz buf_addr 0 k
       | Some (PipeRead pid) \<Rightarrow> read_pipe pid buf_addr sz k
       | Some (FileDesc f) \<Rightarrow>
           if f_mode f AND O_ACCMODE = O_WRONLY then Some (Val (- 1), k)
           else do { (n, k) \<leftarrow> bounced_read fd f buf_addr sz k; Some (Val n, k) }
       | Some DevNull \<Rightarrow> Some (Val 0, k)
       | Some DevZero \<Rightarrow> do { k \<leftarrow> user_store (replicate sz 0) buf_addr k; Some (Val (as_i32 (int sz)), k) }
       | _ \<Rightarrow> Some (Val (- 1), k)
     }
   }"


subsection \<open>The calls\<close>

text \<open>Argument \<open>i\<close> of the call, and the two ways to return a number.\<close>

definition arg :: "nat \<Rightarrow> intr_frame \<Rightarrow> ('m, 'z) sk \<Rightarrow> (nat \<times> ('m, 'z) sk) option" where
  "arg i f k = user_load32 (esp f + 4 * i) k"

definition ret :: "int \<Rightarrow> intr_frame \<Rightarrow> outcome" where
  "ret v f = Resume (f \<lparr> eax := as_u32 v \<rparr>)"

definition ret_bool :: "bool \<Rightarrow> intr_frame \<Rightarrow> outcome" where
  "ret_bool b f = ret (if b then 0 else - 1) f"

type_synonym ('m, 'z) call = "intr_frame \<Rightarrow> ('m, 'z) sk \<Rightarrow> (outcome \<times> ('m, 'z) sk) option"

text \<open>\<open>check_args\<close> in front of a call.\<close>

definition with_args :: "nat \<Rightarrow> ('m, 'z) call \<Rightarrow> ('m, 'z) call" where
  "with_args n c f k = do {
     (alive, k) \<leftarrow> check_args (esp f) n k;
     if alive then c f k else Some (Gone, k)
   }"

definition call_fork :: "links \<Rightarrow> ('m, 'z) call" where
  "call_fork l f k = do {
     (r, k) \<leftarrow> fork l f k;
     Some (case r of Exec_done n \<Rightarrow> ret n f | Exec_waits n \<Rightarrow> Blocks (On_start n) | Exec_preempted n \<Rightarrow> Blocks (On_start n), k)
   }"

definition call_exit :: "('m, 'z) call" where
  "call_exit f k = do {
     (v, k) \<leftarrow> arg 1 f k;
     k \<leftarrow> exit_process (as_i32 (int v)) k;
     Some (Gone, k)
   }"

text \<open>At most one round more than the parent's semaphore has counts.\<close>

primrec wait_rounds :: "nat \<Rightarrow> int \<Rightarrow> ('m, 'z) sk \<Rightarrow> (wait_result \<times> ('m, 'z) sk) option" where
  "wait_rounds 0 n k = Some (Sleeps, k)"
| "wait_rounds (Suc r) n k = do {
     (w, k) \<leftarrow> wait_any_child n k;
     if w = Again then wait_rounds r n k else Some (w, k)
   }"

definition call_wait :: "('m, 'z) call" where
  "call_wait f k = do {
     (ptr, k) \<leftarrow> arg 1 f k;
     let n = tid (me k);
     semas \<leftarrow> PARENT_WAIT_SEMAS k;
     (w, k) \<leftarrow> wait_rounds (Suc (case semas n of None \<Rightarrow> 0 | Some v \<Rightarrow> v)) n k;
     case w of
       Child pid st \<Rightarrow> do {
         (ok, k) \<leftarrow> (if ptr \<noteq> 0 then is_valid_user_ptr ptr 4 k else Some (False, k));
         k \<leftarrow> (if ok then user_store32 ptr (as_u32 st) k else Some k);
         Some (ret pid f, k)
       }
     | _ \<Rightarrow> Some (Blocks On_child, k)
   }"

definition call_pipe :: "('m, 'z) call" where
  "call_pipe f k = do {
     (ptr, k) \<leftarrow> arg 1 f k;
     (alive, k) \<leftarrow> validate_user_buffer ptr 8 k;
     if \<not> alive then Some (Gone, k)
     else do {
       (pid, g) \<leftarrow> create_pipe (pipe_reg k);
       let k = k \<lparr> pipe_reg := g \<rparr>;
       files \<leftarrow> get_fd_table k;
       let (rfd, files) = open_pipe_read pid files;
       let (wfd, files) = open_pipe_write pid files;
       let k = put_fd_table files k;
       k \<leftarrow> user_store32 ptr (as_u32 rfd) k;
       k \<leftarrow> user_store32 (ptr + 4) (as_u32 wfd) k;
       Some (ret 0 f, k)
     }
   }"

definition ret_sres :: "sres \<Rightarrow> intr_frame \<Rightarrow> outcome" where
  "ret_sres r f = (case r of Val v \<Rightarrow> ret v f | Exits \<Rightarrow> Gone | Waits b \<Rightarrow> Blocks b)"

definition call_transfer :: "(int \<Rightarrow> nat \<Rightarrow> nat \<Rightarrow> ('m, 'z) sk \<Rightarrow> (sres \<times> ('m, 'z) sk) option) \<Rightarrow> ('m, 'z) call" where
  "call_transfer op f k = do {
     (fd, k) \<leftarrow> arg 1 f k;
     (buf_addr, k) \<leftarrow> arg 2 f k;
     (sz, k) \<leftarrow> arg 3 f k;
     if sz > PHYS_BASE then do { k \<leftarrow> exit_process (- 1) k; Some (Gone, k) }
     else do { (r, k) \<leftarrow> op (as_i32 (int fd)) buf_addr sz k; Some (ret_sres r f, k) }
   }"

definition call_close :: "('m, 'z) call" where
  "call_close f k = do {
     (fd, k) \<leftarrow> arg 1 f k;
     files \<leftarrow> get_fd_table k;
     (ok, files, k) \<leftarrow> fd_close (as_i32 (int fd)) files k;
     Some (ret_bool ok f, put_fd_table files k)
   }"

text \<open>The negation of a process identifier panics at \<open>i32::MIN\<close>.\<close>

definition call_kill :: "('m, 'z) call" where
  "call_kill f k = do {
     (pid, k) \<leftarrow> arg 1 f k;
     (sig, k) \<leftarrow> arg 2 f k;
     let pid = as_i32 (int pid);
     let sig = (if sig = 0 then SIGKILL else sig);
     if pid > 0 then do { (found, k) \<leftarrow> send_signal pid sig k; Some (ret_bool found f, k) }
     else if pid = 0 then do { k \<leftarrow> send_signal_pgid (pgid (me k)) sig k; Some (ret 0 f, k) }
     else if pid = - 1 then Some (ret (- 1) f, k)
     else do { pg \<leftarrow> sub_i32 0 pid; k \<leftarrow> send_signal_pgid pg sig k; Some (ret 0 f, k) }
   }"

text \<open>A call on a path, which ends the process if the path is not readable.\<close>

definition with_path :: "nat \<Rightarrow> (str \<Rightarrow> ('m, 'z) call) \<Rightarrow> ('m, 'z) call" where
  "with_path i c f k = do {
     (ptr, k) \<leftarrow> arg i f k;
     (path, k) \<leftarrow> path_arg ptr k;
     case path of None \<Rightarrow> Some (Gone, k) | Some path \<Rightarrow> c path f k
   }"

definition call_exec :: "('m, 'z) call" where
  "call_exec f k = do {
     (path_ptr, k) \<leftarrow> arg 1 f k;
     (argv_ptr, k) \<leftarrow> arg 2 f k;
     (path, k) \<leftarrow> path_arg path_ptr k;
     case path of
       None \<Rightarrow> Some (Gone, k)
     | Some path \<Rightarrow> do {
         (r, f, k) \<leftarrow> sys_exec path argv_ptr f k;
         Some (if r < 0 then ret (- 1) f else Resume f, k)
       }
   }"

text \<open>The special paths, and the device each stands for.\<close>

definition chars :: "string \<Rightarrow> str" where
  "chars s = map of_char s"

definition device_of :: "str \<Rightarrow> fd_kind option" where
  "device_of path =
     (if path = chars ''dev/null'' \<or> path = chars ''/dev/null'' then Some DevNull
      else if path = chars ''dev/zero'' \<or> path = chars ''/dev/zero'' then Some DevZero
      else if path = chars ''dev/console'' \<or> path = chars ''/dev/console'' \<or> path = chars ''dev/tty'' \<or> path = chars ''/dev/tty''
      then Some Console
      else None)"

definition open_file :: "str \<Rightarrow> int \<Rightarrow> ('m, 'z) call" where
  "open_file path oflags f k = do {
     let cwd = cwd_sector (me k);
     k \<leftarrow> (if oflags AND O_CREATE \<noteq> 0 then do { (_, k) \<leftarrow> on_fs (create (utf8 path) 0 cwd) k; Some k } else Some k);
     (r, k) \<leftarrow> on_fs (fs_open (utf8 path) cwd) k;
     case r of
       None \<Rightarrow> Some (ret (- 1) f, k)
     | Some h \<Rightarrow> do {
         let h = h \<lparr> f_mode := oflags AND O_ACCMODE \<rparr>;
         k \<leftarrow> (if oflags AND O_TRUNC \<noteq> 0 then in_fs (Inode.truncate (f_inode_sector h)) k else Some k);
         (h, k) \<leftarrow> (if oflags AND O_APPEND \<noteq> 0
           then do { (len, k) \<leftarrow> on_fs (file_length h) k; Some (file_seek len h, k) }
           else Some (h, k));
         files \<leftarrow> get_fd_table k;
         let (fd, files) = fd_open h files;
         Some (ret fd f, put_fd_table files k)
       }
   }"

definition call_open :: "('m, 'z) call" where
  "call_open f k = do {
     (path_ptr, k) \<leftarrow> arg 1 f k;
     (oflags, k) \<leftarrow> arg 2 f k;
     (path, k) \<leftarrow> path_arg path_ptr k;
     case path of
       None \<Rightarrow> Some (Gone, k)
     | Some path \<Rightarrow> (case device_of path of
           Some dev \<Rightarrow> do {
             files \<leftarrow> get_fd_table k;
             let (fd, files) = alloc_dev dev files;
             Some (ret fd f, put_fd_table files k)
           }
         | None \<Rightarrow> open_file path (as_i32 (int oflags)) f k)
   }"

definition call_unlink :: "('m, 'z) call" where
  "call_unlink = with_path 1 (\<lambda>path f k. do { (ok, k) \<leftarrow> on_fs (fs_remove (utf8 path) (cwd_sector (me k))) k; Some (ret_bool ok f, k) })"

definition call_mkdir :: "('m, 'z) call" where
  "call_mkdir = with_path 1 (\<lambda>path f k. do { (ok, k) \<leftarrow> on_fs (mkdir (utf8 path) (cwd_sector (me k))) k; Some (ret_bool ok f, k) })"

definition call_link :: "('m, 'z) call" where
  "call_link f k = do {
     (old_ptr, k) \<leftarrow> arg 1 f k;
     (new_ptr, k) \<leftarrow> arg 2 f k;
     (ok1, k) \<leftarrow> is_valid_user_ptr old_ptr 1 k;
     (ok2, k) \<leftarrow> (if ok1 then is_valid_user_ptr new_ptr 1 k else Some (False, k));
     if \<not> ok2 then do { k \<leftarrow> exit_process (- 1) k; Some (Gone, k) }
     else do {
       (old, k) \<leftarrow> read_user_string old_ptr k;
       case old of
         None \<Rightarrow> Some (Gone, k)
       | Some old \<Rightarrow> do {
           (new, k) \<leftarrow> read_user_string new_ptr k;
           case new of
             None \<Rightarrow> Some (Gone, k)
           | Some new \<Rightarrow> do {
               (ok, k) \<leftarrow> on_fs (link (utf8 old) (utf8 new) (cwd_sector (me k))) k;
               Some (ret_bool ok f, k)
             }
         }
     }
   }"

definition set_cwd :: "nat \<Rightarrow> ('m, 'z) sk \<Rightarrow> ('m, 'z) sk" where
  "set_cwd sec k = set_thr (running_thread k) (\<lambda>th. th \<lparr> cwd_sector := sec \<rparr>) k"

definition call_chdir :: "('m, 'z) call" where
  "call_chdir = with_path 1 (\<lambda>path f k.
     if path \<noteq> [] \<and> list_all (\<lambda>b. b = SLASH) (utf8 path) then Some (ret 0 f, set_cwd ROOT_DIR_SECTOR k)
     else do {
       (r, k) \<leftarrow> on_fs (fs_open (utf8 path) (cwd_sector (me k))) k;
       case r of
         None \<Rightarrow> Some (ret (- 1) f, k)
       | Some h \<Rightarrow> do {
           (d, k) \<leftarrow> on_fs (inode_is_dir (f_inode_sector h)) k;
           let k = (if d then set_cwd (f_inode_sector h) k else k);
           k \<leftarrow> in_fs (file_close h) k;
           Some (ret_bool d f, k)
         }
     })"

text \<open>The bytes of the \<open>repr(C)\<close> structure \<open>Stat\<close> of 16 bytes; the gap before the size is zero here.\<close>

definition stat_bytes :: "nat \<Rightarrow> nat \<Rightarrow> nat \<Rightarrow> nat \<Rightarrow> nat \<Rightarrow> byte list" where
  "stat_bytes ty dev ino nlink sz = [of_nat ty, of_nat (ty div 256), of_nat dev, of_nat (dev div 256)] @ u32_bytes ino
     @ [of_nat nlink, of_nat (nlink div 256), 0, 0] @ u32_bytes sz"

definition call_fstat :: "('m, 'z) call" where
  "call_fstat f k = do {
     (fd, k) \<leftarrow> arg 1 f k;
     (st_ptr, k) \<leftarrow> arg 2 f k;
     (alive, k) \<leftarrow> validate_user_buffer st_ptr 16 k;
     if \<not> alive then Some (Gone, k)
     else do {
       files \<leftarrow> get_fd_table k;
       case get_kind (as_i32 (int fd)) files of
         Some (FileDesc h) \<Rightarrow> do {
           (d, k) \<leftarrow> on_fs (inode_is_dir (f_inode_sector h)) k;
           (len, k) \<leftarrow> on_fs (inode_length (f_inode_sector h)) k;
           k \<leftarrow> user_store (stat_bytes (if d then T_DIR else T_FILE) 0 (f_inode_sector h) 1 (as_u32 len)) st_ptr k;
           Some (ret 0 f, k)
         }
       | Some (PipeRead _) \<Rightarrow> Some (ret (- 1) f, k)
       | Some (PipeWrite _) \<Rightarrow> Some (ret (- 1) f, k)
       | None \<Rightarrow> Some (ret (- 1) f, k)
       | Some _ \<Rightarrow> do { k \<leftarrow> user_store (stat_bytes T_DEV 0 0 1 0) st_ptr k; Some (ret 0 f, k) }
     }
   }"

definition call_dup :: "('m, 'z) call" where
  "call_dup f k = do {
     (fd, k) \<leftarrow> arg 1 f k;
     files \<leftarrow> get_fd_table k;
     (n, files, k) \<leftarrow> fd_dup (as_i32 (int fd)) files k;
     Some (ret n f, put_fd_table files k)
   }"

definition call_getpid :: "('m, 'z) call" where
  "call_getpid f k = Some (ret (tid (me k)) f, k)"


text \<open>The pages of a growing heap; \<open>False\<close> if memory runs out. The result of \<open>set_page\<close> is ignored.\<close>

function sbrk_loop :: "nat \<Rightarrow> int \<Rightarrow> nat \<Rightarrow> nat \<Rightarrow> ('m, 'z) sk \<Rightarrow> (bool \<times> ('m, 'z) sk) option" where
  "sbrk_loop pd n new_brk page k =
     (if page < new_brk
      then do {
        a \<leftarrow> pd_get_page pd page (pal k);
        (ok, k) \<leftarrow> (if a \<noteq> 0 then Some (True, k)
          else do {
            (kp, k) \<leftarrow> alloc_frame page n k;
            if kp = 0 then Some (False, k)
            else do { (_, p) \<leftarrow> set_page pd page kp True (pal k); Some (True, k \<lparr> pal := p \<rparr>) }
          });
        if \<not> ok then Some (False, k)
        else do { page' \<leftarrow> add_usize page PGSIZE; sbrk_loop pd n new_brk page' k }
      }
      else Some (True, k))"
  by pat_completeness auto
termination by (relation "measure (\<lambda>(pd, n, new_brk, page, k). new_brk - page)") (auto simp: add_usize_def PGSIZE_def split: if_splits)

declare sbrk_loop.simps [simp del]

text \<open>The body of the call: the value for \<open>eax\<close>.\<close>

definition sys_sbrk :: "int \<Rightarrow> ('m, 'z) sk \<Rightarrow> (nat \<times> ('m, 'z) sk) option" where
  "sys_sbrk n k = do {
     let old_brk = brk (me k);
     if old_brk = 0 then Some (as_u32 (- 1), k)
     else do {
       new_brk \<leftarrow> (if n \<ge> 0 then add_usize old_brk (as_u32 n)
         else do { m \<leftarrow> sub_i32 0 n; Some (old_brk - as_u32 m) });
       if new_brk \<ge> PHYS_BASE then Some (as_u32 (- 1), k)
       else do {
         (ok, k) \<leftarrow> (if new_brk > old_brk
           then do {
             let page = old_brk AND not_u32 (PGSIZE - 1);
             page \<leftarrow> (if old_brk AND (PGSIZE - 1) \<noteq> 0 then add_usize page PGSIZE else Some page);
             sbrk_loop (pagedir (me k)) (tid (me k)) new_brk page k
           }
           else Some (True, k));
         if \<not> ok then Some (as_u32 (- 1), k)
         else Some (old_brk, set_thr (running_thread k) (\<lambda>th. th \<lparr> brk := new_brk \<rparr>) k)
       }
     }
   }"

definition call_sbrk :: "('m, 'z) call" where
  "call_sbrk f k = do {
     (v, k) \<leftarrow> arg 1 f k;
     (r, k) \<leftarrow> sys_sbrk (as_i32 (int v)) k;
     Some (Resume (f \<lparr> eax := r \<rparr>), k)
   }"

text \<open>\<open>timer_sleep\<close> returns at once for no ticks.\<close>

definition call_sleep :: "('m, 'z) call" where
  "call_sleep f k = do {
     (n, k) \<leftarrow> arg 1 f k;
     Some (if n = 0 then ret 0 f else Blocks (On_timer (int n)), k)
   }"

definition call_uptime :: "('m, 'z) call" where
  "call_uptime f k = Some (ret (uptime k) f, k)"

definition call_ioctl :: "('m, 'z) call" where
  "call_ioctl f k = do {
     (fd, k) \<leftarrow> arg 1 f k;
     (request, k) \<leftarrow> arg 2 f k;
     (v, k) \<leftarrow> arg 3 f k;
     files \<leftarrow> get_fd_table k;
     if get_kind (as_i32 (int fd)) files = Some Console
     then if request = TIOCRAW
          then let (old, c) = set_raw (v \<noteq> 0) (console k) in Some (ret (of_bool old) f, k \<lparr> console := c \<rparr>)
          else if request = TIOCPOLL then Some (ret (of_bool (has_data (console k))) f, k)
          else Some (ret (- 1) f, k)
     else Some (ret (- 1) f, k)
   }"

definition call_signal :: "('m, 'z) call" where
  "call_signal f k = do {
     (sig, k) \<leftarrow> arg 1 f k;
     (h, k) \<leftarrow> arg 2 f k;
     if sig = 0 \<or> sig > 31 \<or> sig = SIGKILL then Some (ret (- 1) f, k)
     else let msk = push_bit sig (1 :: 32 word);
              old = (if sig_ignore (me k) AND msk \<noteq> 0 then SIG_IGN else SIG_DFL)
          in Some (Resume (f \<lparr> eax := old \<rparr>), set_thr (running_thread k) (\<lambda>th. th \<lparr> sig_ignore :=
               (if h = SIG_IGN then sig_ignore th OR msk else sig_ignore th AND NOT msk) \<rparr>) k)
   }"

definition call_setpgid :: "('m, 'z) call" where
  "call_setpgid f k = do {
     (pid, k) \<leftarrow> arg 1 f k;
     (pg, k) \<leftarrow> arg 2 f k;
     let target = (if as_i32 (int pid) = 0 then tid (me k) else as_i32 (int pid));
     (found, k) \<leftarrow> set_pgid target (as_i32 (int pg)) k;
     Some (ret_bool found f, k)
   }"

definition call_getpgid :: "('m, 'z) call" where
  "call_getpgid f k = do {
     (pid, k) \<leftarrow> arg 1 f k;
     let target = (if as_i32 (int pid) = 0 then tid (me k) else as_i32 (int pid));
     pg \<leftarrow> get_pgid target k;
     Some (ret pg f, k)
   }"

subsection \<open>Dispatch\<close>

definition dispatch :: "links \<Rightarrow> nat \<Rightarrow> ('m, 'z) call" where
  "dispatch l num =
     (if num = 1 then call_fork l
      else if num = 2 then with_args 1 call_exit
      else if num = 3 then with_args 1 call_wait
      else if num = 4 then with_args 1 call_pipe
      else if num = 5 then with_args 3 (call_transfer sys_read)
      else if num = 6 then with_args 3 (call_transfer sys_write)
      else if num = 7 then with_args 1 call_close
      else if num = 8 then with_args 2 call_kill
      else if num = 9 then with_args 2 call_exec
      else if num = 10 then with_args 2 call_open
      else if num = 11 then (\<lambda>f k. Some (ret (- 1) f, k))
      else if num = 12 then with_args 1 call_unlink
      else if num = 13 then with_args 2 call_fstat
      else if num = 14 then with_args 2 call_link
      else if num = 15 then with_args 1 call_mkdir
      else if num = 16 then with_args 1 call_chdir
      else if num = 17 then with_args 1 call_dup
      else if num = 18 then call_getpid
      else if num = 19 then with_args 1 call_sbrk
      else if num = 20 then with_args 1 call_sleep
      else if num = 21 then call_uptime
      else if num = 22 then with_args 3 call_ioctl
      else if num = 23 then with_args 2 call_signal
      else if num = 24 then with_args 2 call_setpgid
      else if num = 25 then with_args 1 call_getpgid
      else (\<lambda>f k. do { k \<leftarrow> exit_process (- 1) k; Some (Gone, k) }))"

definition syscall_handler :: "links \<Rightarrow> ('m, 'z) call" where
  "syscall_handler l f k = do {
     (alive, k) \<leftarrow> require (esp f) 4 k;
     if \<not> alive then Some (Gone, k)
     else do { (num, k) \<leftarrow> arg 0 f k; dispatch l num f k }
   }"

end
