(* ===== verification/SyscallProps.thy ===== *)
theory SyscallProps
  imports SyscallOps PageIn
begin

section \<open>What a user buffer can do to the kernel\<close>

text \<open>
  The check of a user buffer in userprog/syscall.rs tests the end of the buffer with wrapping arithmetic and computes it again
  with the checked one.
\<close>

text \<open>C40: A program can stop the kernel. \<open>read\<close> and \<open>write\<close> of a process with a page directory panic, whatever the descriptor, if the
  buffer starts in the user part of the address space and its length, which may be as large as the limit of the system
  call, reaches over the end of the 32-bit addresses: the wrapped end passes the check and the sum that follows overflows.\<close>

theorem buffer_wrap_panics:
  assumes "PGSIZE \<le> addr" and "addr < PHYS_BASE" and "sz \<le> PHYS_BASE" and "2 ^ 32 \<le> addr + sz" and "pagedir (me k) \<noteq> 0"
  shows "sys_read fd addr sz k = None \<and> sys_write fd addr sz k = None"
proof -
  have "addr + sz < 2 ^ 32 + PHYS_BASE" "addr + sz - 2 ^ 32 < 2 ^ 32" using assms(2,3) by (simp_all add: PHYS_BASE_def)
  then have "\<not> PHYS_BASE < (addr + sz) mod 2 ^ 32" using assms(4) by (simp add: le_mod_geq)
  moreover have "add_usize addr sz = None" using assms(4) by (simp add: add_usize_def)
  ultimately have "is_valid_user_ptr addr sz k = None" using assms(1,2,5) by (simp add: is_valid_user_ptr_def)
  moreover have "0 < sz" using assms(2,4) by (simp add: PHYS_BASE_def)
  ultimately show ?thesis by (simp add: sys_read_def sys_write_def validate_user_buffer_def require_def)
qed

text \<open>A process with an address space, no pages and no open descriptors.\<close>

definition zero_frame :: intr_frame where
  "zero_frame = \<lparr> edi = 0, esi = 0, ebp = 0, esp_dummy = 0, ebx = 0, edx = 0, ecx = 0, eax = 0, r_gs = 0, r_fs = 0, r_es = 0, r_ds = 0,
     vec_no = 0, error_code = 0, frame_pointer = 0, eip = 0, r_cs = 0, eflags = 0, esp = 0, r_ss = 0 \<rparr>"

definition sample_sys :: "(sector \<Rightarrow> sector_data) sys" where
  "sample_sys = (proc.extend (vm.extend sample_vm
       (proc.fields (Some []) (Some Map.empty) 1 (Some Map.empty) (\<lambda>_. []) (\<lambda>_. \<lparr> fa_frame = zero_frame, child_pd = 0, child_fdt = 0, fa_cwd_sector = 1, fa_brk = 0 \<rparr>)
         (\<lambda>_. []) 1 \<lparr> PIPES = Some Map.empty, NEXT_PIPE_ID = 0 \<rparr> []))
       (sys.fields INPUT [] 0)) \<lparr> threads := (\<lambda>t. zero_thread \<lparr> tid := 1, pagedir := 0xC0200000, brk := 0x804A000 \<rparr>) \<rparr>"

theorem buffer_wrap_panics_witness:
  "sys_read 0 0x80000000 0x80000000 sample_sys = None \<and> sys_write 1 0x80000000 0x80000000 sample_sys = None"
proof -
  have "pagedir (me sample_sys) \<noteq> 0" by (simp add: sample_sys_def vm.defs proc.defs sample_vm_def thr_def)
  then show ?thesis using buffer_wrap_panics [of "0x80000000" "0x80000000" sample_sys] by (simp add: PGSIZE_def PHYS_BASE_def)
qed

end
