(* ===== verification/UserHeap.thy ===== *)
theory UserHeap
  imports UserAlloc SyscallProps
begin

section \<open>The user heap on the kernel's break\<close>

text \<open>
  The user library's \<open>sbrk\<close> (user/rxv6-user/src/syscall.rs) calls the kernel's \<open>SYS_SBRK\<close> (userprog/syscall.rs), which maps
  pages and moves the break of the running thread. It meets the interface \<open>break_call\<close> of the allocator, so the theorems
  about programs hold of the two together.
\<close>

text \<open>The result is \<open>eax\<close> read as an \<open>i32\<close>.\<close>

definition user_sbrk :: "int \<Rightarrow> ('m, 'z) sk \<Rightarrow> (int \<times> ('m, 'z) sk) option" where
  "user_sbrk n k = do { (r, k) \<leftarrow> sys_sbrk (as_i32 (int (as_u32 n))) k; Some (as_i32 (int r), k) }"

definition break_of :: "('m, 'z) sk \<Rightarrow> nat" where
  "break_of k = brk (me k)"

subsection \<open>Getting a frame leaves the threads alone\<close>

definition same_threads :: "'z kern \<Rightarrow> 'z kern \<Rightarrow> bool" where
  "same_threads k k' \<longleftrightarrow> threads k' = threads k \<and> cur k' = cur k"

lemma same_threads_refl [simp]: "same_threads k k"
  by (simp add: same_threads_def)

lemma same_threads_trans: "same_threads k k1 \<Longrightarrow> same_threads k1 k2 \<Longrightarrow> same_threads k k2"
  by (simp add: same_threads_def)

lemma save_page_threads: "save_page e dirty k = Some (b, k') \<Longrightarrow> same_threads k k'"
  by (auto simp: save_page_def set_location_def put_swap_def same_threads_def Let_def split: Option.bind_splits if_splits option.splits)

lemma evict_try_threads:
  assumes "evict_try ft k = Some (r, k')" shows "same_threads k k'"
proof -
  have s: "threads k2 = threads k1 \<and> cur k2 = cur k1" if "save_page e d k1 = Some (b, k2)" for e d b and k1 k2 :: "('a, 'b) vmk"
    using save_page_threads [OF that] by (simp add: same_threads_def)
  show ?thesis
    using assms by (auto simp: evict_try_def drop_frame_def same_threads_def Let_def split: Option.bind_splits if_splits dest!: s)
qed

lemma evict_loop_threads: "evict_loop n ft k = Some (r, k') \<Longrightarrow> same_threads k k'"
  by (induction n arbitrary: k) (auto split: Option.bind_splits if_splits dest!: evict_try_threads intro: same_threads_trans)

lemma alloc_frame_threads:
  assumes "alloc_frame up n k = Some (kp, k')" shows "same_threads k k'"
proof -
  have r: "same_threads k1 (register_frame a up n k1)" for a and k1 :: "('a, 'b) vmk"
    by (simp add: register_frame_def same_threads_def split: option.split)
  have e: "same_threads k1 k2" if "evict_frame k1 = Some (x, k2)" for k1 k2 :: "('a, 'b) vmk" and x
    using that by (auto simp: evict_frame_def split: option.splits if_splits Option.bind_splits dest!: evict_loop_threads)
  show ?thesis
    using assms r by (auto simp: alloc_frame_def set_ram_def same_threads_def register_frame_def Let_def split: Option.bind_splits if_splits option.splits dest!: e)
qed

lemma sbrk_loop_threads: "sbrk_loop pd n new page k = Some (ok, k') \<Longrightarrow> same_threads k k'"
proof (induction pd n new page k rule: sbrk_loop.induct)
  case (1 pd n new page k)
  show ?case
  proof (cases "page < new")
    case False
    then show ?thesis using 1(2) by (simp add: sbrk_loop.simps)
  next
    case True
    define st where "st = (\<lambda>a :: nat. if a \<noteq> 0 then Some (True, k) else do {
        (kp, k) \<leftarrow> alloc_frame page n k;
        if kp = 0 then Some (False, k)
        else do { (_, p) \<leftarrow> set_page pd page kp True (pal k); Some (True, k \<lparr> pal := p \<rparr>) } })"
    from 1(2) True obtain a b k1 where a: "pd_get_page pd page (pal k) = Some a" "st a = Some (b, k1)"
        "(if \<not> b then Some (False, k1) else do { page' \<leftarrow> add_usize page PGSIZE; sbrk_loop pd n new page' k1 }) = Some (ok, k')"
      by (subst (asm) sbrk_loop.simps) (auto simp: st_def bind_eq_Some_conv)
    have k1: "same_threads k k1"
      using a(2) alloc_frame_threads by (auto simp: st_def same_threads_def split: if_splits Option.bind_splits dest!: alloc_frame_threads)
    show ?thesis
    proof (cases b)
      case False
      then show ?thesis using a(3) k1 by simp
    next
      case b: True
      then obtain page' where p: "add_usize page PGSIZE = Some page'" "sbrk_loop pd n new page' k1 = Some (ok, k')" using a(3) by (auto simp: bind_eq_Some_conv)
      have "same_threads k1 k'" by (rule "1.IH" [OF True a(1) a(2) [unfolded st_def] refl _ p]) (simp add: b)
      then show ?thesis using k1 same_threads_trans by blast
    qed
  qed
qed

lemma sys_sbrk_break:
  assumes n: "0 < n" "n < 2 ^ 31" and s: "sys_sbrk n k = Some (r, k')"
  shows "r = as_u32 (- 1) \<and> break_of k' = break_of k
    \<or> r = break_of k \<and> break_of k' = break_of k + nat n \<and> break_of k' < PHYS_BASE \<and> 0 < break_of k"
proof (cases "break_of k = 0 \<or> break_of k + nat n \<ge> PHYS_BASE")
  case True
  then show ?thesis using s n by (auto simp: sys_sbrk_def break_of_def Let_def add_usize_def split: if_splits)
next
  case False
  have u: "as_u32 n = nat n" "brk (me k) < brk (me k) + nat n" using n by auto
  define pg where "pg = (let page = brk (me k) AND not_u32 (PGSIZE - 1) in if brk (me k) AND (PGSIZE - 1) \<noteq> 0 then add_usize page PGSIZE else Some page)"
  have "add_usize (brk (me k)) (nat n) = Some (brk (me k) + nat n)" using False by (simp add: add_usize_def break_of_def PHYS_BASE_def)
  then obtain ok k1 where l: "do { page \<leftarrow> pg; sbrk_loop (pagedir (me k)) (tid (me k)) (brk (me k) + nat n) page k } = Some (ok, k1)"
      "(if \<not> ok then Some (as_u32 (- 1), k1) else Some (brk (me k), set_thr (running_thread k1) (\<lambda>th. th \<lparr> brk := brk (me k) + nat n \<rparr>) k1)) = Some (r, k')"
    using s n u False by (auto simp: sys_sbrk_def break_of_def Let_def pg_def bind_eq_Some_conv split: if_splits)
  have "same_threads k k1" using l(1) by (auto simp: bind_eq_Some_conv dest: sbrk_loop_threads)
  then have "me k1 = me k" "running_thread k1 = running_thread k" by (simp_all add: same_threads_def running_thread_def thr_def)
  then show ?thesis using l(2) False by (auto simp: break_of_def set_thr_def thr_def running_thread_def split: if_splits)
qed

interpretation kernel_break: break_call user_sbrk break_of
proof
  fix n :: int and r and k k' :: "('a, 'b) sk"
  assume n: "0 < n" "n < 2 ^ 31" and u: "user_sbrk n k = Some (r, k')"
  have i: "as_i32 (int (as_u32 n)) = n" using n by (simp add: in_i32_def)
  obtain v where v: "sys_sbrk n k = Some (v, k')" "r = as_i32 (int v)" using u i by (auto simp: user_sbrk_def bind_eq_Some_conv)
  have "as_i32 (int (as_u32 (- 1))) = - 1" by (simp add: as_u32_def as_i32_def)
  then show "r = - 1 \<and> break_of k' = break_of k
      \<or> r = as_i32 (int (break_of k)) \<and> break_of k' = break_of k + nat n \<and> break_of k' < 3 * 2 ^ 30 \<and> 0 < break_of k"
    using sys_sbrk_break [OF n v(1)] v(2) by (auto simp: PHYS_BASE_def)
qed

subsection \<open>Programs on the kernel\<close>


text \<open>A break at the start of a page that is not mapped moves by a page while there is memory.\<close>

lemma sbrk_page:
  assumes fo: "frames_ok k" and room: "user_room (pal k)" "\<not> kernel_full (pal k)" and ok: "pd_ok (pagedir (me k)) (pal k)"
    and b: "0 < break_of k" "break_of k + 4096 < PHYS_BASE" "break_of k mod 4096 = 0" and un: "pd_get_page (pagedir (me k)) (break_of k) (pal k) = Some 0"
  shows "\<exists>k'. sys_sbrk 4096 k = Some (break_of k, k')"
proof -
  let ?pd = "pagedir (me k)" and ?n = "tid (me k)" and ?b = "break_of k"
  from alloc_frame_room [OF fo room(1), of ?b ?n] obtain kp p' where
    a: "alloc_frame ?b ?n k = Some (kp, register_frame kp ?b ?n (k \<lparr> pal := p' \<rparr>))" "kp \<noteq> 0"
    and fr: "fresh_page (pal k) kp p'" and z: "ram p' = zero_range kp 4096 (ram (pal k))" by blast
  define k1 where "k1 = register_frame kp ?b ?n (k \<lparr> pal := p' \<rparr>)"
  have p1: "pal k1 = p' \<lparr> ram := ram p' \<rparr>" by (simp add: k1_def register_frame_def split: option.split)
  have "\<exists>p2. map_frame ?pd ?b kp ?n True k1 = Some (True, set_location ?n ?b (\<lambda>_. InMemory) (k1 \<lparr> pal := p2 \<rparr>))"
    using map_filled [OF ok fr _ b(3) room(2) p1, of ?n True] b(2) by (fastforce simp: z zero_range_def)
  then obtain o2 p2 where sp: "set_page ?pd ?b kp True (pal k1) = Some (o2, p2)" by (auto simp: map_frame_def bind_eq_Some_conv)
  have lt: "?b < 2 ^ 32" using b(2) by (simp add: PHYS_BASE_def)
  have al: "?b AND not_u32 (PGSIZE - 1) = ?b" "?b AND (PGSIZE - 1) = 0"
    using and_not_mask [OF lt, of 12] b(3) take_bit_eq_mask [of 12 ?b] by (simp_all add: PGSIZE_def mask_eq_exp_minus_1 take_bit_eq_mod and.commute mult.commute [of _ 4096] minus_mod_eq_mult_div [symmetric])
  have add: "add_usize ?b 4096 = Some (?b + 4096)" using b(2) by (simp add: add_usize_def PHYS_BASE_def)
  have "sbrk_loop ?pd ?n (?b + 4096) ?b k = Some (True, k1 \<lparr> pal := p2 \<rparr>)"
    using un a [folded k1_def] sp add by (subst sbrk_loop.simps) (simp add: PGSIZE_def sbrk_loop.simps)
  then show ?thesis using b(1,2) al add unfolding sys_sbrk_def break_of_def by (simp add: Let_def)
qed

lemma sample_sys_facts: "pal sample_sys = pal sample_vm" "FRAME_TABLE sample_sys = FRAME_TABLE sample_vm" "KPAGE_INDEX sample_sys = KPAGE_INDEX sample_vm"
    "break_of sample_sys = 0x804A000" "pagedir (me sample_sys) = 0xC0200000"
  by (simp_all add: sample_sys_def vm.defs proc.defs sample_vm_def break_of_def thr_def)

lemma sample_sbrk: "\<exists>k'. user_sbrk 4096 sample_sys = Some (0x804A000, k')"
proof -
  have f: "frames_ok sample_sys" using sample_room(1) by (simp add: frames_ok_def sample_sys_facts)
  have z: "pte_word 0xC0200000 (ram (pal sample_vm)) 0x804A000 = 0"
    by (simp add: pte_word_def pde_of_def peek32_def sample_vm_def sample_pd_def bytes_u32_def)
  have "pd_get_page 0xC0200000 0x804A000 (pal sample_vm) = Some 0" by (subst pd_get_page_pte [OF sample_room(4)]) (simp_all add: PHYS_BASE_def z)
  then obtain k' where "sys_sbrk 4096 sample_sys = Some (0x804A000, k')"
    using sbrk_page [OF f] sample_room(2-4) by (auto simp: sample_sys_facts PHYS_BASE_def)
  then show ?thesis by (simp add: user_sbrk_def in_i32_def)
qed

definition sample_layout :: layout where
  "sample_layout = \<lparr> lay_size = 16, lay_align = 16 \<rparr>"

definition empty_heap :: uheap where
  "empty_heap = \<lparr> umem = (\<lambda>_. 0), uhead = 0 \<rparr>"

lemma sample_total: "small sample_layout" "max (total_size sample_layout) 4096 = 4096"
proof -
  show "small sample_layout" by (simp add: small_def sample_layout_def HEADER_SIZE_def)
  have "(47 :: nat) AND 4294967288 = 40" by simp
  then show "max (total_size sample_layout) 4096 = 4096" by (simp add: total_size_def sample_layout_def HEADER_SIZE_def MIN_BLOCK_def wrap_def)
qed

lemma sample_alloc: "\<exists>h' k'. user_alloc user_sbrk sample_layout empty_heap sample_sys = Some (0x804A008, h', k')"
proof -
  have run: "heap_run user_sbrk break_of {} (\<lambda>x. None) empty_heap sample_sys" by (rule heap_run.start) (simp_all add: sample_sys_facts empty_heap_def)
  obtain k1 where k1: "user_sbrk 4096 sample_sys = Some (0x804A000, k1)" using sample_sbrk by blast
  then obtain p h' k' where a: "user_alloc user_sbrk sample_layout empty_heap sample_sys = Some (p, h', k')"
    using kernel_break.run_alloc_returns [OF run sample_total(1)] by (auto simp: sample_total(2))
  have "p = 0x804A008"
    by (rule kernel_break.alloc_at_break [OF _ sample_total(1) a]) (auto simp: sample_total(2) k1 empty_heap_def sample_sys_facts HEADER_SIZE_def)
  then show ?thesis using a by blast
qed


text \<open>C39: An alignment above eight is not honoured. The first allocation of a program whose break has the alignment of the layout
  fails or gives a pointer that does not have it, because the pointer is always eight bytes behind the start of a block.\<close>

theorem user_alloc_misaligned:
  assumes "uhead h = 0" and "small l" and "8 < lay_align l" and "lay_align l dvd break_of k" and "user_alloc user_sbrk l h k = Some (p, h', k')" and "p \<noteq> 0"
  shows "\<not> lay_align l dvd p"
proof -
  have "p = break_of k + 8" using kernel_break.alloc_at_break [OF assms(1,2,5)] assms(6) by (metis HEADER_SIZE_def)
  then show ?thesis using assms(3,4) by (auto simp: dvd_add_right_iff dest: dvd_imp_le)
qed

theorem user_alloc_misaligned_witness:
  "\<exists>p h' k'. user_alloc user_sbrk sample_layout empty_heap sample_sys = Some (p, h', k') \<and> \<not> lay_align sample_layout dvd p"
proof -
  obtain h' k' where a: "user_alloc user_sbrk sample_layout empty_heap sample_sys = Some (0x804A008, h', k')" using sample_alloc by blast
  from user_alloc_misaligned [OF _ sample_total(1) _ _ a] a show ?thesis by (auto simp: empty_heap_def sample_layout_def sample_sys_facts)
qed

end
