(* ===== verification/Spec2Isabelle.thy ===== *)
theory Spec2Isabelle
  imports Malloc FsProps ThreadProps Pipe Input SyncProps Timer PageIn StackProps ForkProps Log Vga Keyboard UserHeap
begin

text \<open>
  A verification library of the rxv6 kernel, a Unix-like kernel in Rust for 32-bit x86 machines, and of the heap of its user
  library. Every theory models a source file, or a part of a large one, and proves what the other parts rely on.

  \<^bold>\<open>How the code is modelled.\<close> The kernel is built with overflow checks, so an operation is a function into \<open>option\<close>, in
  which \<open>None\<close> is a panic or an access out of bounds; a Rust \<open>Option\<close> is an option inside of the result. State is passed
  explicitly in records. \<open>usize\<close> and \<open>u32\<close> are naturals with the checked operations \<open>add_usize\<close>, \<open>sub_usize\<close> and \<open>mul_usize\<close>,
  \<open>i32\<close> are integers with \<open>add_i32\<close>, \<open>as_i32\<close> and \<open>as_u32\<close>, bytes and masks are words. The user library is built without the checks
  and wraps. A \<open>for\<close> loop is \<open>for_range\<close> with its rule \<open>for_range_rule\<close>; a \<open>while\<close> loop is a recursive function with a measure,
  or a partial function for which termination is a lemma. No definition has fuel, except that waiting for a child is limited
  to one round more than the count of the parent's semaphore, because each round takes one from it.

  \<^bold>\<open>Basics.\<close> \<open>Prelude\<close> has the checked arithmetic, the loop rule and lemmas on lists and options. \<open>Vaddr\<close> (mem/vaddr.rs) has addresses
  and pages, \<open>Bitmap\<close> (mem/bitmap.rs) bit arrays with the interface \<open>bit_store\<close>, \<open>Encoding\<close> the images of 32-bit numbers in bytes,
  \<open>Ring\<close> the ring buffers of pipes and console with the interface \<open>stream_queue\<close>.

  \<^bold>\<open>Memory.\<close> \<open>Palloc\<close> (mem/palloc.rs) has the two pools of pages over a byte memory: \<open>get_multiple\<close> returns the first free run,
  zeroed if asked for. \<open>Malloc\<close> (mem/malloc.rs) has the kernel heap, a first-fit list in memory: allocations are aligned and
  disjoint.

  \<^bold>\<open>File system.\<close> \<open>Block\<close> (devices/block.rs) has the registry of devices, whose driver is a parameter with the law that a written
  sector is read back (\<open>sector_store\<close>). \<open>Bio\<close> (filesys/bio.rs) has the buffer cache: it reads what was written last. \<open>FreeMap\<close>
  (filesys/free_map.rs) allocates sectors. \<open>Inode\<close> (filesys/inode.rs) has the inode with its tree of blocks; \<open>FsState\<close>, \<open>InodeTree\<close>,
  \<open>InodeAlloc\<close>, \<open>InodeRW\<close>, \<open>InodeProps\<close> and \<open>InodeLife\<close> show, through cache, map and tree, that reading and writing at an offset
  are those of a byte list, that other files do not change, and what creation, removal and truncation free and leak.
  \<open>Directory\<close> and \<open>DirProps\<close> (filesys/directory.rs) refine a map from names to sectors. \<open>FileSys\<close> and \<open>FsProps\<close> (filesys/file.rs,
  filesys/filesys.rs) have open files and paths. \<open>Log\<close> (filesys/log.rs) has the write-ahead log, which the kernel does not use yet:
  recovery works across power failures, but a commit logs the wrong data.

  \<^bold>\<open>Threads.\<close> \<open>Thread\<close> (thread/mod.rs) has creation, scheduling, donation, signals and process groups; \<open>ThreadProps\<close> has the invariant
  of the lists, the choice of the highest priority and the chain of donations. \<open>Sync\<close> (sync/) has semaphores, locks and
  condition variables as instructions of threads that are interleaved by the scheduler and by preemption; \<open>SyncProps\<close> shows that a
  lock excludes, and a schedule in which an \<open>up\<close> is lost. \<open>Timer\<close> (devices/timer.rs) has ticks, sleeping and the calibration.

  \<^bold>\<open>Virtual memory.\<close> \<open>Pagedir\<close> (userprog/pagedir.rs, mem/paging.rs) has the page tables in the bytes of memory and \<open>PagedirProps\<close>
  refines them to a map; \<open>AddrSpaces\<close> and \<open>AddrGrow\<close> treat several directories at once. \<open>Swap\<close> (vm/swap.rs), \<open>Spt\<close> (vm/page.rs, over the
  ordered map \<open>BTreeMap\<close>) and \<open>Frame\<close> (vm/frame.rs) have swapping, the page tables of the loader and the frames; \<open>FrameProps\<close>
  has the invariant of the frame table, \<open>Evict\<close> the equality of eviction with the second-chance algorithm, \<open>PageIn\<close> what is loaded
  on a fault and how a swapped-in page is lost.

  \<^bold>\<open>Processes and system calls.\<close> \<open>Descriptors\<close> (arch/gdt.rs, userprog/tss.rs) and \<open>Idt\<close> (arch/idt.rs) have the descriptors and the
  dispatch of interrupts, \<open>UserMem\<close> the accesses of the kernel to user memory, \<open>Process\<close>, \<open>Elf\<close>, \<open>Exec\<close> and \<open>Fork\<close> (userprog/process.rs)
  processes, \<open>Exception\<close> (userprog/exception.rs) page faults, \<open>Syscall\<close> and \<open>SyscallOps\<close> (userprog/syscall.rs) the calls. \<open>StackProps\<close> proves
  the layout of the first stack, \<open>ForkProps\<close> that the child has a copy of the memory, \<open>SyscallProps\<close> that a buffer can stop the
  kernel. The state grows by extension: \<open>kernel\<close> of the threads, \<open>vm\<close> with the memory, \<open>proc\<close> with the processes, \<open>sys\<close> with the console.

  \<^bold>\<open>Devices and user library.\<close> \<open>Pipe\<close> (pipe.rs) and \<open>Input\<close> (devices/input.rs) deliver the bytes in order. \<open>Keyboard\<close> (devices/keyboard.rs) is
  proved together with \<open>Input\<close>: what is typed is read. \<open>Vga\<close> (devices/vga.rs) never leaves the screen. \<open>UserAlloc\<close> is the allocator of
  user programs (user/rxv6-user/src/lib.rs) over the interface \<open>break_call\<close>, which \<open>UserHeap\<close> interprets by the kernel's \<open>sbrk\<close>.

  \<^bold>\<open>Limits.\<close> A call that would wait ends with what it waits for; the wake-up is that of the semaphore or the condition variable.
  Interrupts are modelled where the code depends on them, in \<open>Sync\<close>, \<open>Timer\<close> and \<open>Thread\<close>; other operations are atomic. The theorems on
  the memory of a process assume that pages are free where they say so.

  \<^bold>\<open>Not modelled.\<close> The assembly (asm/), the port instructions (arch/port.rs), the entry stubs and the shutdown; the idle loop and the first
  steps of a new thread and the jump to user mode, which are instructions; the serial port, printing and formatting (devices/serial.rs,
  console.rs); the IDE driver (devices/ide.rs), whose contract is the parameter of \<open>Block\<close>; the order of initialisation in main.rs; the
  other stubs of user/rxv6-user/src/syscall.rs, which are assembly; the image tool (tools/mkdisk); the user programs and tests.
\<close>

end
